(* ===== verification/Prelude.thy ===== *)
theory Prelude
  imports Main "HOL-Library.Word" "HOL-Library.Monad_Syntax"
begin

text \<open>
  The vocabulary every component of the development shares: the machine types of the
  kernel (\<open>src/src/include/brk/types.h\<close>), kernel calls that may not return, array
  accesses, the arithmetic macros of \<open>src/src/include/brk/kernel.h\<close>, and the generic
  lemmas on lists, intervals and alignment.

  Conventions. A kernel call has type \<open>'a option\<close>: \<open>None\<close> stands for a call that does
  not come back, because \<open>panic()\<close> or a failed \<open>assert()\<close> stopped the machine or because
  the code left the bounds of an array. An \<open>-errno\<close> result is a value of the sum type
  \<open>errno + 'a\<close>. A \<open>size_t\<close> or \<open>u64\<close> that only counts or indexes is a \<open>nat\<close>; where a
  sum or a difference of such values can leave 64 bits the wrap-around is written out
  with \<open>wrap64\<close>. Bit patterns (bitmap words, page flags, hashes) are
  \<open>64 word\<close> or \<open>32 word\<close> values.
\<close>

unbundle bit_operations_syntax

type_synonym u8 = "8 word"
type_synonym u16 = "16 word"
type_synonym u32 = "32 word"
type_synonym u64 = "64 word"

named_theorems layout_simps \<open>constants of the memory layout\<close>
named_theorems call_simps \<open>how the kernel-call primitives evaluate\<close>

section \<open>Error numbers\<close>

text \<open>The codes of \<open>src/src/include/uapi/errno.h\<close> that the modelled code returns.\<close>

datatype errno = EPERM | ENOENT | ESRCH | EINTR | EIO | ENXIO | E2BIG | ENOEXEC | EBADF | ECHILD
  | EAGAIN | ENOMEM | EACCES | EFAULT | ENOTBLK | EBUSY | EEXIST | EXDEV | ENODEV | ENOTDIR
  | EISDIR | EINVAL | EMFILE | ENOTTY | EFBIG | ENOSPC | ESPIPE | EROFS | EPIPE | ENAMETOOLONG
  | ENOSYS | ENOTEMPTY | ELOOP | ENODATA | EOVERFLOW | ENOTSOCK | EDESTADDRREQ | EMSGSIZE
  | ENOPROTOOPT | EPROTONOSUPPORT | ESOCKTNOSUPPORT | EOPNOTSUPP | EAFNOSUPPORT | EADDRINUSE
  | ENETDOWN | ENETUNREACH | ECONNRESET | ENOBUFS | EISCONN | ENOTCONN | ETIMEDOUT | ECONNREFUSED

section \<open>64-bit arithmetic on natural numbers\<close>

definition wrap64 :: "nat \<Rightarrow> nat" where
  "wrap64 n = n mod 2 ^ 64"

text \<open>Unsigned subtraction: below zero it wraps.\<close>

definition sub64 :: "nat \<Rightarrow> nat \<Rightarrow> nat" where
  "sub64 a b = wrap64 (a + 2 ^ 64 - b)"

lemma wrap64_id [simp]: "n < 2 ^ 64 \<Longrightarrow> wrap64 n = n"
  by (simp add: wrap64_def)

lemma wrap64_less [simp]: "wrap64 n < 2 ^ 64"
  by (simp add: wrap64_def)

lemma sub64_id: "b \<le> a \<Longrightarrow> a < 2 ^ 64 \<Longrightarrow> sub64 a b = a - b"
proof -
  assume "b \<le> a" and "a < 2 ^ 64"
  then have "a + 2 ^ 64 - b = (a - b) + 2 ^ 64" by simp
  then have "sub64 a b = (a - b) mod 2 ^ 64"
    unfolding sub64_def wrap64_def by (metis mod_add_self2)
  with \<open>a < 2 ^ 64\<close> show ?thesis by simp
qed

section \<open>Array accesses\<close>

definition nth_opt :: "'a list \<Rightarrow> nat \<Rightarrow> 'a option" where
  "nth_opt xs i = (if i < length xs then Some (xs ! i) else None)"

definition upd_opt :: "'a list \<Rightarrow> nat \<Rightarrow> 'a \<Rightarrow> 'a list option" where
  "upd_opt xs i v = (if i < length xs then Some (xs[i := v]) else None)"

text \<open>An \<open>assert()\<close>: the call goes on only when the condition holds.\<close>

definition assert_opt :: "bool \<Rightarrow> unit option" where
  "assert_opt b = (if b then Some () else None)"

lemma nth_opt_in [call_simps]: "i < length xs \<Longrightarrow> nth_opt xs i = Some (xs ! i)"
  by (simp add: nth_opt_def)

lemma nth_opt_Some_iff: "nth_opt xs i = Some x \<longleftrightarrow> i < length xs \<and> xs ! i = x"
  by (auto simp: nth_opt_def)

lemma upd_opt_in [call_simps]: "i < length xs \<Longrightarrow> upd_opt xs i v = Some (xs[i := v])"
  by (simp add: upd_opt_def)

lemma upd_opt_Some_iff: "upd_opt xs i v = Some ys \<longleftrightarrow> i < length xs \<and> ys = xs[i := v]"
  by (auto simp: upd_opt_def)

lemma assert_opt_True [simp]: "assert_opt True = Some ()"
  by (simp add: assert_opt_def)

lemma assert_opt_False [simp]: "assert_opt False = None"
  by (simp add: assert_opt_def)

lemma assert_opt_Some_iff: "assert_opt b = Some u \<longleftrightarrow> b"
  by (simp add: assert_opt_def)

lemma bind_assert_Some_iff:
  "Option.bind (assert_opt b) f = Some y \<longleftrightarrow> b \<and> f () = Some y"
  by (cases b) auto

lemma bind_Some_conv: "Option.bind m f = Some y \<longleftrightarrow> (\<exists>x. m = Some x \<and> f x = Some y)"
  by (cases m) auto

section \<open>The arithmetic macros of kernel.h\<close>

text \<open>
  The macros mask with \<open>align - 1\<close> and \<open>~(align - 1)\<close>. On unsigned values
  \<open>x & ~m\<close> is \<open>x - (x & m)\<close>, which is how the complement is written here. For the powers
  of two the kernel calls them with, masking is arithmetic modulo \<open>align\<close>.
\<close>

definition is_power_of_two :: "nat \<Rightarrow> bool" where
  "is_power_of_two x \<longleftrightarrow> x \<noteq> 0 \<and> x AND (x - 1) = 0"

definition round_down :: "nat \<Rightarrow> nat \<Rightarrow> nat" where
  "round_down x align = x - (x AND (align - 1))"

definition round_up :: "nat \<Rightarrow> nat \<Rightarrow> nat" where
  "round_up x align = round_down (wrap64 (x + align - 1)) align"

definition is_aligned :: "nat \<Rightarrow> nat \<Rightarrow> bool" where
  "is_aligned x align \<longleftrightarrow> x AND (align - 1) = 0"

definition div_ceil :: "nat \<Rightarrow> nat \<Rightarrow> nat" where
  "div_ceil num d = wrap64 (num + d - 1) div d"

lemma and_pow2_minus_1: "x AND (2 ^ k - 1) = x mod (2 ^ k :: nat)"
  by (metis mask_eq_exp_minus_1 take_bit_eq_mask take_bit_eq_mod)

lemma is_aligned_pow2: "is_aligned x (2 ^ k) \<longleftrightarrow> 2 ^ k dvd x"
  unfolding is_aligned_def and_pow2_minus_1 by (simp add: dvd_eq_mod_eq_0)

lemma round_down_pow2: "round_down x (2 ^ k) = 2 ^ k * (x div 2 ^ k)"
  unfolding round_down_def and_pow2_minus_1 by (simp add: minus_mod_eq_mult_div)

lemma round_down_le: "round_down x a \<le> x"
  by (simp add: round_down_def)

lemma round_up_pow2:
  "x + 2 ^ k \<le> 2 ^ 64 \<Longrightarrow> round_up x (2 ^ k) = 2 ^ k * ((x + 2 ^ k - 1) div 2 ^ k)"
proof -
  assume "x + 2 ^ k \<le> 2 ^ 64"
  moreover have "(0::nat) < 2 ^ k" by simp
  ultimately have "x + 2 ^ k - 1 < 2 ^ 64" by linarith
  then show ?thesis by (simp add: round_up_def round_down_pow2)
qed

lemma ceil_mult_ge: "0 < d \<Longrightarrow> x \<le> d * ((x + d - 1) div d)" for x d :: nat
proof -
  assume d: "0 < d"
  have "x + d - 1 = d * ((x + d - 1) div d) + (x + d - 1) mod d" by simp
  moreover have "(x + d - 1) mod d \<le> d - 1" using d by (simp add: less_Suc_eq_le [symmetric])
  ultimately show ?thesis using d by linarith
qed

lemma ceil_mult_less: "0 < d \<Longrightarrow> d * ((x + d - 1) div d) < x + d" for x d :: nat
proof -
  assume d: "0 < d"
  have "d * ((x + d - 1) div d) \<le> x + d - 1" by simp
  with d show ?thesis by linarith
qed

lemma round_up_ge: "x + 2 ^ k \<le> 2 ^ 64 \<Longrightarrow> x \<le> round_up x (2 ^ k)"
  by (simp only: round_up_pow2 ceil_mult_ge zero_less_power zero_less_numeral)

lemma round_up_less: "x + 2 ^ k \<le> 2 ^ 64 \<Longrightarrow> round_up x (2 ^ k) < x + 2 ^ k"
  by (simp only: round_up_pow2 ceil_mult_less zero_less_power zero_less_numeral)

lemma round_up_dvd: "x + 2 ^ k \<le> 2 ^ 64 \<Longrightarrow> 2 ^ k dvd round_up x (2 ^ k)"
  by (simp add: round_up_pow2)

lemma double_and_double_Suc: "2 * m AND (2 * n + 1) = 2 * (m AND n)" for m n :: nat
  by (simp add: and_rec [of "2 * m"])

lemma is_power_of_two_double: "is_power_of_two (2 * m) \<longleftrightarrow> is_power_of_two m"
proof (cases m)
  case 0
  then show ?thesis by (simp add: is_power_of_two_def)
next
  case (Suc n)
  then have "2 * m - 1 = 2 * n + 1" and "m - 1 = n" by simp_all
  then show ?thesis using Suc double_and_double_Suc [of m n]
    by (simp add: is_power_of_two_def)
qed

lemma is_power_of_two_odd: "is_power_of_two (2 * m + 1) \<Longrightarrow> m = 0"
proof -
  assume "is_power_of_two (2 * m + 1)"
  then have "(2 * m + 1) AND 2 * m = 0" by (simp add: is_power_of_two_def)
  moreover have "(2 * m + 1) AND 2 * m = 2 * m"
    using double_and_double_Suc [of m m] by (simp add: and.commute)
  ultimately show "m = 0" by simp
qed

lemma is_power_of_two_pow2: "is_power_of_two x \<Longrightarrow> \<exists>k. x = 2 ^ k"
proof (induction x rule: less_induct)
  case (less x)
  show ?case
  proof (cases "even x")
    case True
    then obtain m where m: "x = 2 * m" by blast
    with less.prems have "is_power_of_two m" by (simp add: is_power_of_two_double)
    moreover from this m have "m < x" by (simp add: is_power_of_two_def)
    ultimately obtain k where "m = 2 ^ k" using less.IH by blast
    with m have "x = 2 ^ Suc k" by simp
    then show ?thesis by blast
  next
    case False
    then obtain m where m: "x = 2 * m + 1" by (blast elim: oddE)
    with less.prems is_power_of_two_odd have "x = 2 ^ 0" by simp
    then show ?thesis by blast
  qed
qed

lemma pow2_is_power_of_two [simp]: "is_power_of_two (2 ^ k)"
proof (induction k)
  case 0
  show ?case by (simp add: is_power_of_two_def)
next
  case (Suc k)
  then show ?case by (simp add: is_power_of_two_double)
qed

end
