(* ===== verification/Slots.thy ===== *)
theory Slots
  imports Prelude
begin

text \<open>
  The contract of a lowest-first slot allocator. Several parts of the kernel hand out small
  numbers and always return the lowest free one: the bitmap allocator
  (\<open>bitmap_alloc_bit\<close> and \<open>bitmap_free_bit\<close> in \<open>src/src/lib/bitmap.c\<close>) and the file
  descriptor table (\<open>fdtable_alloc_fd\<close> and \<open>fdtable_close_fd\<close> in
  \<open>src/src/fs/fdtable.c\<close>). The locale states what a client may rely on, and the client
  lemmas are proved once.
\<close>

text \<open>A client that asks for \<open>n\<close> slots in a row and stops at the first failure.\<close>

fun alloc_seq :: "('s \<Rightarrow> (nat option \<times> 's) option) \<Rightarrow> nat \<Rightarrow> 's \<Rightarrow> (nat list \<times> 's) option" where
  "alloc_seq alloc 0 s = Some ([], s)"
| "alloc_seq alloc (Suc n) s = do {
     (r, s) \<leftarrow> alloc s;
     (case r of
        None \<Rightarrow> Some ([], s)
      | Some b \<Rightarrow> do { (bs, s) \<leftarrow> alloc_seq alloc n s; Some (b # bs, s) })
   }"

locale slot_allocator =
  fixes alloc :: "'s \<Rightarrow> (nat option \<times> 's) option"
    and release :: "'s \<Rightarrow> nat \<Rightarrow> 's option"
    and used :: "'s \<Rightarrow> nat set"
    and cap :: nat
    and ok :: "'s \<Rightarrow> bool"
  assumes alloc_full: "ok s \<Longrightarrow> {0..<cap} \<subseteq> used s \<Longrightarrow> alloc s = Some (None, s)"
    and alloc_least: "ok s \<Longrightarrow> \<not> {0..<cap} \<subseteq> used s \<Longrightarrow>
      \<exists>b s'. alloc s = Some (Some b, s') \<and> ok s' \<and> b < cap \<and> b \<notin> used s
        \<and> {0..<b} \<subseteq> used s \<and> used s' = insert b (used s)"
    and release_used: "ok s \<Longrightarrow> b < cap \<Longrightarrow> b \<in> used s \<Longrightarrow>
      \<exists>s'. release s b = Some s' \<and> ok s' \<and> used s' = used s - {b}"
begin

text \<open>
  A run of allocations never hands out a slot twice, nor one that was in use, and comes up
  short only when every slot is taken.
\<close>

lemma alloc_seq_distinct:
  "ok s \<Longrightarrow> \<exists>bs s'. alloc_seq alloc n s = Some (bs, s') \<and> ok s' \<and> length bs \<le> n \<and> distinct bs
     \<and> set bs \<subseteq> {0..<cap} - used s \<and> used s' = used s \<union> set bs
     \<and> (length bs < n \<longrightarrow> {0..<cap} \<subseteq> used s')"
proof (induction n arbitrary: s)
  case 0
  then show ?case by simp
next
  case (Suc n)
  show ?case
  proof (cases "{0..<cap} \<subseteq> used s")
    case True
    with Suc.prems show ?thesis by (simp add: alloc_full)
  next
    case False
    then obtain b s1 where s1: "alloc s = Some (Some b, s1)" "ok s1" "b < cap" "b \<notin> used s"
      "used s1 = insert b (used s)"
      using alloc_least [OF Suc.prems] by blast
    then obtain bs s2 where s2: "alloc_seq alloc n s1 = Some (bs, s2)" "ok s2" "length bs \<le> n"
      "distinct bs" "set bs \<subseteq> {0..<cap} - used s1" "used s2 = used s1 \<union> set bs"
      "length bs < n \<longrightarrow> {0..<cap} \<subseteq> used s2"
      using Suc.IH by blast
    then have "alloc_seq alloc (Suc n) s = Some (b # bs, s2)"
      using s1(1) by simp
    moreover have "distinct (b # bs)" "set (b # bs) \<subseteq> {0..<cap} - used s"
      "used s2 = used s \<union> set (b # bs)"
      using s1 s2 by auto
    moreover have "length (b # bs) < Suc n \<longrightarrow> {0..<cap} \<subseteq> used s2"
      using s2(7) by simp
    ultimately show ?thesis using s2(2,3)
      by (intro exI [of _ "b # bs"] exI [of _ s2]) simp
  qed
qed

text \<open>A slot below which everything is taken is the next one handed out once released.\<close>

lemma release_then_alloc:
  assumes "ok s" "b < cap" "b \<in> used s" "{0..<b} \<subseteq> used s"
  shows "\<exists>s1 s2. release s b = Some s1 \<and> alloc s1 = Some (Some b, s2) \<and> ok s2
    \<and> used s2 = used s"
proof -
  obtain s1 where s1: "release s b = Some s1" "ok s1" "used s1 = used s - {b}"
    using release_used assms(1-3) by blast
  then have "\<not> {0..<cap} \<subseteq> used s1" using assms(2) by auto
  then obtain c s2 where s2: "alloc s1 = Some (Some c, s2)" "ok s2" "c \<notin> used s1"
    "{0..<c} \<subseteq> used s1" "used s2 = insert c (used s1)"
    using alloc_least [OF s1(2)] by blast
  have "\<not> c < b" using assms(4) s1(3) s2(3) by auto
  moreover have "\<not> b < c" using s1(3) s2(4) by auto
  ultimately have "c = b" by simp
  moreover have "used s2 = used s"
    using calculation s1(3) s2(5) assms(3) by (simp add: insert_absorb)
  ultimately show ?thesis using s1(1) s2(1,2) by simp
qed

end

end
