(* ===== verification/Bitmap.thy ===== *)
theory Bitmap
  imports Slots
begin

text \<open>
  The bitmap allocator of \<open>src/src/lib/bitmap.c\<close>. A bitmap is the array of
  \<open>unsigned long\<close> words; its abstraction \<open>used_bits\<close> is the set of bit numbers that are
  set (in use). Every access outside the array makes the call fail (\<open>None\<close>). Bit numbers
  are natural numbers: a bitmap that fits in the Sv39 address space has fewer than \<open>2 ^ 42\<close>
  bits, so \<open>cand + len\<close>, both at most \<open>nbits\<close>, does not wrap; \<open>bitmap_free_region\<close>, whose
  \<open>start\<close> is not bounded by \<open>nbits\<close>, has its wrap-around written out.
\<close>

type_synonym bitmap = "u64 list"

section \<open>Model\<close>

definition BITS_PER_LONG :: nat where
  "BITS_PER_LONG = 64"

definition BITS_TO_LONGS :: "nat \<Rightarrow> nat" where
  "BITS_TO_LONGS nbits = (nbits + BITS_PER_LONG - 1) div BITS_PER_LONG"

definition bitmap_last_word_mask :: "nat \<Rightarrow> u64" where
  "bitmap_last_word_mask nbits =
     (let rem = nbits mod BITS_PER_LONG in
      if rem = 0 then NOT 0 else push_bit rem 1 - 1)"

text \<open>\<open>memset()\<close> over the first \<open>n\<close> words, every byte of \<open>w\<close> being the fill byte.\<close>

definition memset_words :: "bitmap \<Rightarrow> u64 \<Rightarrow> nat \<Rightarrow> bitmap option" where
  "memset_words bm w n = (if n \<le> length bm then Some (replicate n w @ drop n bm) else None)"

definition bitmap_zero :: "bitmap \<Rightarrow> nat \<Rightarrow> bitmap option" where
  "bitmap_zero bm nbits = memset_words bm 0 (BITS_TO_LONGS nbits)"

definition bitmap_fill :: "bitmap \<Rightarrow> nat \<Rightarrow> bitmap option" where
  "bitmap_fill bm nbits = do {
     let nlongs = BITS_TO_LONGS nbits;
     bm \<leftarrow> memset_words bm (NOT 0) nlongs;
     if nlongs \<noteq> 0 then do {
       w \<leftarrow> nth_opt bm (nlongs - 1);
       upd_opt bm (nlongs - 1) (w AND bitmap_last_word_mask nbits)
     } else Some bm
   }"

definition bitmap_set_bit :: "bitmap \<Rightarrow> nat \<Rightarrow> bitmap option" where
  "bitmap_set_bit bm b = do {
     let idx = b div BITS_PER_LONG;
     let ofs = b mod BITS_PER_LONG;
     w \<leftarrow> nth_opt bm idx;
     upd_opt bm idx (w OR push_bit ofs 1)
   }"

definition bitmap_clear_bit :: "bitmap \<Rightarrow> nat \<Rightarrow> bitmap option" where
  "bitmap_clear_bit bm b = do {
     let idx = b div BITS_PER_LONG;
     let ofs = b mod BITS_PER_LONG;
     w \<leftarrow> nth_opt bm idx;
     upd_opt bm idx (w AND NOT (push_bit ofs 1))
   }"

definition bitmap_test_bit :: "bitmap \<Rightarrow> nat \<Rightarrow> bool option" where
  "bitmap_test_bit bm b = do {
     let idx = b div BITS_PER_LONG;
     let ofs = b mod BITS_PER_LONG;
     w \<leftarrow> nth_opt bm idx;
     Some (w AND push_bit ofs 1 \<noteq> 0)
   }"

text \<open>The \<open>for\<close> loop of \<open>bitmap_find_next_zero_bit\<close>, from \<open>b\<close> on.\<close>

function scan_zero_bit :: "bitmap \<Rightarrow> nat \<Rightarrow> nat \<Rightarrow> nat option" where
  "scan_zero_bit bm nbits b =
     (if b < nbits then do {
        t \<leftarrow> bitmap_test_bit bm b;
        if \<not> t then Some b else scan_zero_bit bm nbits (b + 1)
      } else Some nbits)"
  by pat_completeness auto
termination
  by (relation "measure (\<lambda>(bm, nbits, b). nbits - b)") auto

declare scan_zero_bit.simps [simp del]

definition bitmap_find_next_zero_bit :: "bitmap \<Rightarrow> nat \<Rightarrow> nat \<Rightarrow> nat option" where
  "bitmap_find_next_zero_bit bm nbits start =
     (if start \<ge> nbits then Some nbits else scan_zero_bit bm nbits start)"

definition bitmap_find_first_zero_bit :: "bitmap \<Rightarrow> nat \<Rightarrow> nat option" where
  "bitmap_find_first_zero_bit bm nbits = bitmap_find_next_zero_bit bm nbits 0"

text \<open>
  The allocators return the updated bitmap and, when they succeed (\<open>true\<close> in the source),
  the bit written through \<open>out_bit\<close>.
\<close>

definition bitmap_alloc_bit :: "bitmap \<Rightarrow> nat \<Rightarrow> (nat option \<times> bitmap) option" where
  "bitmap_alloc_bit bm nbits = do {
     b \<leftarrow> bitmap_find_first_zero_bit bm nbits;
     if b \<ge> nbits then Some (None, bm)
     else do {
       bm \<leftarrow> bitmap_set_bit bm b;
       Some (Some b, bm)
     }
   }"

definition bitmap_alloc_bit_from :: "bitmap \<Rightarrow> nat \<Rightarrow> nat \<Rightarrow> (nat option \<times> bitmap) option" where
  "bitmap_alloc_bit_from bm nbits hint =
     (if nbits = 0 then Some (None, bm)
      else do {
        let hint = min hint nbits;
        b \<leftarrow> bitmap_find_next_zero_bit bm nbits hint;
        if b \<ge> nbits then do {
          b \<leftarrow> bitmap_find_next_zero_bit bm nbits 0;
          if b \<ge> hint then Some (None, bm)
          else do { bm \<leftarrow> bitmap_set_bit bm b; Some (Some b, bm) }
        } else do { bm \<leftarrow> bitmap_set_bit bm b; Some (Some b, bm) }
      })"

definition bitmap_free_bit :: "bitmap \<Rightarrow> nat \<Rightarrow> nat \<Rightarrow> bitmap option" where
  "bitmap_free_bit bm nbits b = (if b < nbits then bitmap_clear_bit bm b else Some bm)"

text \<open>
  The two inner loops of \<open>bitmap_alloc_region\<close>: how many of the \<open>n\<close> bits from \<open>b\<close> on are
  clear before the first set one, and setting \<open>n\<close> bits from \<open>b\<close> on.
\<close>

fun count_clear :: "bitmap \<Rightarrow> nat \<Rightarrow> nat \<Rightarrow> nat option" where
  "count_clear bm b 0 = Some 0"
| "count_clear bm b (Suc n) = do {
     t \<leftarrow> bitmap_test_bit bm b;
     if t then Some 0 else map_option Suc (count_clear bm (Suc b) n)
   }"

fun set_bits :: "bitmap \<Rightarrow> nat \<Rightarrow> nat \<Rightarrow> bitmap option" where
  "set_bits bm b 0 = Some bm"
| "set_bits bm b (Suc n) = do {
     bm \<leftarrow> bitmap_set_bit bm b;
     set_bits bm (Suc b) n
   }"

text \<open>
  The outer loop: \<open>fuel\<close> bounds the number of candidates tried; \<open>nbits + 1\<close> is enough
  (\<open>region_loop_total\<close>), since each candidate is larger than the one before.
\<close>

fun region_loop :: "nat \<Rightarrow> bitmap \<Rightarrow> nat \<Rightarrow> nat \<Rightarrow> nat \<Rightarrow> nat \<Rightarrow> (nat option \<times> bitmap) option" where
  "region_loop 0 bm nbits len align cand = None"
| "region_loop (Suc fuel) bm nbits len align cand =
     (if cand + len \<le> nbits then
        if align > 1 \<and> cand mod align \<noteq> 0 then do {
          cand \<leftarrow> bitmap_find_next_zero_bit bm nbits (cand + 1);
          region_loop fuel bm nbits len align cand
        } else do {
          i \<leftarrow> count_clear bm cand len;
          if i \<noteq> len then do {
            cand \<leftarrow> bitmap_find_next_zero_bit bm nbits (cand + 1);
            region_loop fuel bm nbits len align cand
          } else do {
            bm \<leftarrow> set_bits bm cand len;
            Some (Some cand, bm)
          }
        }
      else Some (None, bm))"

definition bitmap_alloc_region ::
  "bitmap \<Rightarrow> nat \<Rightarrow> nat \<Rightarrow> nat \<Rightarrow> (nat option \<times> bitmap) option" where
  "bitmap_alloc_region bm nbits len align =
     (if len = 0 \<or> len > nbits then Some (None, bm)
      else do {
        let align = (if align = 0 then 1 else align);
        cand \<leftarrow> bitmap_find_first_zero_bit bm nbits;
        region_loop (nbits + 1) bm nbits len align cand
      })"

text \<open>The loop of \<open>bitmap_free_region\<close> with \<open>n\<close> iterations left.\<close>

fun free_region_loop :: "bitmap \<Rightarrow> nat \<Rightarrow> nat \<Rightarrow> nat \<Rightarrow> nat \<Rightarrow> bitmap option" where
  "free_region_loop bm nbits start i 0 = Some bm"
| "free_region_loop bm nbits start i (Suc n) =
     (if wrap64 (start + i) < nbits then do {
        bm \<leftarrow> bitmap_clear_bit bm (wrap64 (start + i));
        free_region_loop bm nbits start (Suc i) n
      } else Some bm)"

definition bitmap_free_region :: "bitmap \<Rightarrow> nat \<Rightarrow> nat \<Rightarrow> nat \<Rightarrow> bitmap option" where
  "bitmap_free_region bm nbits start len = free_region_loop bm nbits start 0 len"

section \<open>The set of used bits\<close>

definition used_bits :: "bitmap \<Rightarrow> nat set" where
  "used_bits bm = {b. b < 64 * length bm \<and> bit (bm ! (b div 64)) (b mod 64)}"

text \<open>An array that holds at least \<open>nbits\<close> bits.\<close>

definition bitmap_holds :: "bitmap \<Rightarrow> nat \<Rightarrow> bool" where
  "bitmap_holds bm nbits \<longleftrightarrow> nbits \<le> 64 * length bm"

lemma bitmap_holds_mono: "bitmap_holds bm n \<Longrightarrow> b < n \<Longrightarrow> b < 64 * length bm"
  by (simp add: bitmap_holds_def)

lemma word_index_less: "b < 64 * length bm \<Longrightarrow> b div 64 < length bm"
  by (simp add: less_mult_imp_div_less mult.commute)

lemma bitmap_test_bit_eq:
  "b < 64 * length bm \<Longrightarrow> bitmap_test_bit bm b = Some (b \<in> used_bits bm)"
  by (simp add: bitmap_test_bit_def BITS_PER_LONG_def nth_opt_in word_index_less used_bits_def
      and_exp_eq_0_iff_not_bit)

lemma used_bits_update:
  assumes "i < length bm"
  shows "used_bits (bm[i := w]) =
    {b \<in> used_bits bm. b div 64 \<noteq> i} \<union> {b. b div 64 = i \<and> bit w (b mod 64)}"
proof -
  have "b < 64 * length bm" if "b div 64 = i" for b
    using that assms by (metis div_less_iff_less_mult mult.commute zero_less_numeral)
  then show ?thesis
    using assms by (auto simp: used_bits_def nth_list_update word_index_less split: if_splits)
qed

lemma same_word_bit: "b div 64 = c div 64 \<Longrightarrow> b mod 64 = c mod 64 \<longleftrightarrow> b = c" for b c :: nat
  by (metis div_mult_mod_eq)

lemma bitmap_set_bit_eq:
  assumes "b < 64 * length bm"
  obtains bm' where "bitmap_set_bit bm b = Some bm'" "length bm' = length bm"
    "used_bits bm' = insert b (used_bits bm)"
proof
  let ?i = "b div 64" and ?o = "b mod 64"
  let ?bm = "bm[?i := bm ! ?i OR push_bit ?o 1]"
  have i: "?i < length bm" using assms by (rule word_index_less)
  then show "bitmap_set_bit bm b = Some ?bm"
    by (simp add: bitmap_set_bit_def BITS_PER_LONG_def Let_def call_simps)
  show "length ?bm = length bm" by simp
  have "bit (bm ! ?i OR push_bit ?o 1) n \<longleftrightarrow> bit (bm ! ?i) n \<or> n = ?o" if "n < 64" for n
    using that by (auto simp: bit_or_iff bit_exp_iff)
  then have "used_bits ?bm = {c \<in> used_bits bm. c div 64 \<noteq> ?i}
      \<union> {c. c div 64 = ?i \<and> (bit (bm ! ?i) (c mod 64) \<or> c mod 64 = ?o)}"
    by (simp add: used_bits_update [OF i])
  also have "\<dots> = insert b (used_bits bm)"
  proof -
    have "c < 64 * length bm" if "c div 64 = ?i" for c
      using that i by (metis div_less_iff_less_mult mult.commute zero_less_numeral)
    then show ?thesis
      using same_word_bit [of _ b] by (auto simp: used_bits_def)
  qed
  finally show "used_bits ?bm = insert b (used_bits bm)" .
qed

lemma bitmap_clear_bit_eq:
  assumes "b < 64 * length bm"
  obtains bm' where "bitmap_clear_bit bm b = Some bm'" "length bm' = length bm"
    "used_bits bm' = used_bits bm - {b}"
proof
  let ?i = "b div 64" and ?o = "b mod 64"
  let ?bm = "bm[?i := bm ! ?i AND NOT (push_bit ?o 1)]"
  have i: "?i < length bm" using assms by (rule word_index_less)
  then show "bitmap_clear_bit bm b = Some ?bm"
    by (simp add: bitmap_clear_bit_def BITS_PER_LONG_def Let_def call_simps)
  show "length ?bm = length bm" by simp
  have "bit (bm ! ?i AND NOT (push_bit ?o 1)) n \<longleftrightarrow> bit (bm ! ?i) n \<and> n \<noteq> ?o" if "n < 64" for n
    using that by (auto simp: bit_and_iff bit_not_iff bit_exp_iff)
  then have "used_bits ?bm = {c \<in> used_bits bm. c div 64 \<noteq> ?i}
      \<union> {c. c div 64 = ?i \<and> bit (bm ! ?i) (c mod 64) \<and> c mod 64 \<noteq> ?o}"
    by (simp add: used_bits_update [OF i])
  also have "\<dots> = used_bits bm - {b}"
  proof -
    have "c < 64 * length bm" if "c div 64 = ?i" for c
      using that i by (metis div_less_iff_less_mult mult.commute zero_less_numeral)
    then show ?thesis
      using same_word_bit [of _ b] by (auto simp: used_bits_def)
  qed
  finally show "used_bits ?bm = used_bits bm - {b}" .
qed

lemma bitmap_set_bit_ex:
  "b < 64 * length bm \<Longrightarrow> \<exists>bm'. bitmap_set_bit bm b = Some bm' \<and> length bm' = length bm
     \<and> used_bits bm' = insert b (used_bits bm)"
  by (rule bitmap_set_bit_eq) auto

section \<open>Searching\<close>

lemma scan_zero_bit_spec:
  assumes "bitmap_holds bm nbits"
  shows "b \<le> nbits \<Longrightarrow> \<exists>r. scan_zero_bit bm nbits b = Some r \<and> b \<le> r \<and> r \<le> nbits
    \<and> (r < nbits \<longrightarrow> r \<notin> used_bits bm) \<and> {b..<r} \<subseteq> used_bits bm"
  using assms
proof (induction bm nbits b rule: scan_zero_bit.induct)
  case (1 bm nbits b)
  show ?case
  proof (cases "b < nbits \<and> b \<in> used_bits bm")
    case False
    with "1.prems" show ?thesis
      by (auto simp: scan_zero_bit.simps [of bm nbits b] bitmap_test_bit_eq bitmap_holds_mono)
  next
    case True
    then have t: "bitmap_test_bit bm b = Some True"
      using "1.prems" by (simp add: bitmap_test_bit_eq bitmap_holds_mono)
    from True "1.IH" [OF _ t] "1.prems" obtain r where r:
      "scan_zero_bit bm nbits (b + 1) = Some r" "b + 1 \<le> r" "r \<le> nbits"
      "r < nbits \<longrightarrow> r \<notin> used_bits bm" "{b + 1..<r} \<subseteq> used_bits bm"
      by fastforce
    from r(2) have "{b..<r} = insert b {b + 1..<r}" by auto
    with r True t show ?thesis
      by (auto simp: scan_zero_bit.simps [of bm nbits b])
  qed
qed

lemma find_next_zero_bit_spec:
  assumes "bitmap_holds bm nbits"
  obtains r where "bitmap_find_next_zero_bit bm nbits start = Some r" "r \<le> nbits"
    "r < nbits \<longrightarrow> start \<le> r \<and> r \<notin> used_bits bm" "{start..<r} \<subseteq> used_bits bm"
    "start < nbits \<longrightarrow> start \<le> r"
proof (cases "start \<ge> nbits")
  case True
  then show ?thesis
    using that [of nbits] by (simp add: bitmap_find_next_zero_bit_def)
next
  case False
  then obtain r where "scan_zero_bit bm nbits start = Some r" "start \<le> r" "r \<le> nbits"
    "r < nbits \<longrightarrow> r \<notin> used_bits bm" "{start..<r} \<subseteq> used_bits bm"
    using scan_zero_bit_spec [OF assms, of start] by auto
  with False that show ?thesis
    by (simp add: bitmap_find_next_zero_bit_def)
qed

section \<open>Single bits\<close>

lemma bitmap_alloc_bit_cases:
  assumes "bitmap_holds bm nbits"
  shows "(bitmap_alloc_bit bm nbits = Some (None, bm) \<and> {0..<nbits} \<subseteq> used_bits bm)
    \<or> (\<exists>b bm'. bitmap_alloc_bit bm nbits = Some (Some b, bm') \<and> b < nbits \<and> b \<notin> used_bits bm
         \<and> {0..<b} \<subseteq> used_bits bm \<and> length bm' = length bm
         \<and> used_bits bm' = insert b (used_bits bm))"
proof -
  obtain r where r: "bitmap_find_next_zero_bit bm nbits 0 = Some r" "r \<le> nbits"
    "r < nbits \<longrightarrow> 0 \<le> r \<and> r \<notin> used_bits bm" "{0..<r} \<subseteq> used_bits bm"
    using find_next_zero_bit_spec [OF assms, of 0] by metis
  show ?thesis
  proof (cases "r < nbits")
    case False
    with r show ?thesis
      by (simp add: bitmap_alloc_bit_def bitmap_find_first_zero_bit_def)
  next
    case True
    then obtain bm' where "bitmap_set_bit bm r = Some bm'" "length bm' = length bm"
      "used_bits bm' = insert r (used_bits bm)"
      using bitmap_set_bit_eq bitmap_holds_mono [OF assms] by metis
    with r True show ?thesis
      by (simp add: bitmap_alloc_bit_def bitmap_find_first_zero_bit_def)
  qed
qed

lemma bitmap_alloc_bit_from_cases:
  assumes "bitmap_holds bm nbits"
  shows "(bitmap_alloc_bit_from bm nbits hint = Some (None, bm) \<and> {0..<nbits} \<subseteq> used_bits bm)
    \<or> (\<exists>b bm'. bitmap_alloc_bit_from bm nbits hint = Some (Some b, bm') \<and> b < nbits
         \<and> b \<notin> used_bits bm \<and> length bm' = length bm
         \<and> used_bits bm' = insert b (used_bits bm)
         \<and> (hint \<le> b \<and> {hint..<b} \<subseteq> used_bits bm
            \<or> b < hint \<and> {hint..<nbits} \<subseteq> used_bits bm \<and> {0..<b} \<subseteq> used_bits bm))"
proof -
  let ?h = "min hint nbits"
  obtain r where r: "bitmap_find_next_zero_bit bm nbits ?h = Some r" "r \<le> nbits"
    "r < nbits \<longrightarrow> ?h \<le> r \<and> r \<notin> used_bits bm" "{?h..<r} \<subseteq> used_bits bm"
    using find_next_zero_bit_spec [OF assms, of ?h] by metis
  obtain q where q: "bitmap_find_next_zero_bit bm nbits 0 = Some q" "q \<le> nbits"
    "q < nbits \<longrightarrow> 0 \<le> q \<and> q \<notin> used_bits bm" "{0..<q} \<subseteq> used_bits bm"
    using find_next_zero_bit_spec [OF assms, of 0] by metis
  have set: "\<exists>bm'. bitmap_set_bit bm b = Some bm' \<and> length bm' = length bm
    \<and> used_bits bm' = insert b (used_bits bm)" if "b < nbits" for b
    using that bitmap_set_bit_eq bitmap_holds_mono [OF assms] by metis
  consider (zero) "nbits = 0" | (high) "0 < nbits" "r < nbits"
    | (low) "0 < nbits" "r = nbits" "q < ?h" | (full) "0 < nbits" "r = nbits" "?h \<le> q"
    using r(2) by linarith
  then show ?thesis
  proof cases
    case zero
    then show ?thesis by (simp add: bitmap_alloc_bit_from_def)
  next
    case high
    with r have "hint \<le> r" by auto
    with high r set [OF high(2)] show ?thesis
      by (auto simp: bitmap_alloc_bit_from_def Let_def)
  next
    case low
    then have "q < nbits" "q < hint" by auto
    moreover have "{hint..<nbits} \<subseteq> used_bits bm" using r(4) low by auto
    ultimately show ?thesis using low r q set [of q]
      by (auto simp: bitmap_alloc_bit_from_def Let_def)
  next
    case full
    have "{0..<nbits} \<subseteq> {0..<q} \<union> {?h..<r}" using full by auto
    with full r q show ?thesis
      by (auto simp: bitmap_alloc_bit_from_def Let_def)
  qed
qed

lemma bitmap_free_bit_spec:
  assumes "bitmap_holds bm nbits"
  shows "\<exists>bm'. bitmap_free_bit bm nbits b = Some bm' \<and> length bm' = length bm
    \<and> used_bits bm' = (if b < nbits then used_bits bm - {b} else used_bits bm)"
proof (cases "b < nbits")
  case True
  then obtain bm' where "bitmap_clear_bit bm b = Some bm'" "length bm' = length bm"
    "used_bits bm' = used_bits bm - {b}"
    using bitmap_clear_bit_eq bitmap_holds_mono [OF assms] by metis
  with True show ?thesis by (simp add: bitmap_free_bit_def)
next
  case False
  then show ?thesis by (simp add: bitmap_free_bit_def)
qed

section \<open>Regions\<close>

lemma count_clear_spec:
  "b + n \<le> 64 * length bm \<Longrightarrow>
     \<exists>i. count_clear bm b n = Some i \<and> (i = n \<longleftrightarrow> {b..<b + n} \<inter> used_bits bm = {})"
proof (induction n arbitrary: b)
  case 0
  then show ?case by simp
next
  case (Suc n)
  then obtain i where i: "count_clear bm (Suc b) n = Some i"
    "i = n \<longleftrightarrow> {Suc b..<Suc b + n} \<inter> used_bits bm = {}"
    using Suc.IH [of "Suc b"] by auto
  have "{b..<b + Suc n} = insert b {Suc b..<Suc b + n}" by auto
  with i Suc.prems show ?case
    by (auto simp: bitmap_test_bit_eq)
qed

lemma set_bits_spec:
  "b + n \<le> 64 * length bm \<Longrightarrow>
     \<exists>bm'. set_bits bm b n = Some bm' \<and> length bm' = length bm
       \<and> used_bits bm' = used_bits bm \<union> {b..<b + n}"
proof (induction n arbitrary: b bm)
  case 0
  then show ?case by simp
next
  case (Suc n)
  then obtain bm1 where bm1: "bitmap_set_bit bm b = Some bm1" "length bm1 = length bm"
    "used_bits bm1 = insert b (used_bits bm)"
    using bitmap_set_bit_ex [of b bm] by auto
  with Suc.prems obtain bm2 where "set_bits bm1 (Suc b) n = Some bm2" "length bm2 = length bm1"
    "used_bits bm2 = used_bits bm1 \<union> {Suc b..<Suc b + n}"
    using Suc.IH [of "Suc b" bm1] by auto
  moreover have "{b..<b + Suc n} = insert b {Suc b..<Suc b + n}" by auto
  ultimately show ?case using bm1 by auto
qed

text \<open>Where a region of \<open>len\<close> bits can be placed.\<close>

definition region_fits :: "bitmap \<Rightarrow> nat \<Rightarrow> nat \<Rightarrow> nat \<Rightarrow> nat \<Rightarrow> bool" where
  "region_fits bm nbits len align c \<longleftrightarrow>
     c + len \<le> nbits \<and> align dvd c \<and> {c..<c + len} \<inter> used_bits bm = {}"

lemma not_fits_used: "0 < len \<Longrightarrow> c \<in> used_bits bm \<Longrightarrow> \<not> region_fits bm nbits len align c"
  by (force simp: region_fits_def)

lemma region_loop_total:
  assumes "bitmap_holds bm nbits" "0 < len" "0 < align"
  shows "cand \<le> nbits \<Longrightarrow> nbits - cand < fuel \<Longrightarrow> (\<And>c. c < cand \<Longrightarrow> \<not> region_fits bm nbits len align c) \<Longrightarrow>
    (region_loop fuel bm nbits len align cand = Some (None, bm)
       \<and> (\<forall>c. \<not> region_fits bm nbits len align c))
    \<or> (\<exists>c bm'. region_loop fuel bm nbits len align cand = Some (Some c, bm')
       \<and> region_fits bm nbits len align c \<and> (\<forall>c'<c. \<not> region_fits bm nbits len align c')
       \<and> length bm' = length bm \<and> used_bits bm' = used_bits bm \<union> {c..<c + len})"
proof (induction fuel arbitrary: cand)
  case 0
  then show ?case by simp
next
  case (Suc fuel)
  show ?case
  proof (cases "cand + len \<le> nbits")
    case False
    have "\<not> region_fits bm nbits len align c" for c
      using Suc.prems(3) [of c] False by (cases "c < cand") (auto simp: region_fits_def)
    with False show ?thesis by simp
  next
    case True
    have aligned: "align > 1 \<and> cand mod align \<noteq> 0 \<longleftrightarrow> \<not> align dvd cand"
      using assms(3) by (cases "align = 1") (auto simp: dvd_eq_mod_eq_0)
    have holds: "cand + len \<le> 64 * length bm"
      using True assms(1) by (simp add: bitmap_holds_def)
    obtain i where i: "count_clear bm cand len = Some i"
      "i = len \<longleftrightarrow> {cand..<cand + len} \<inter> used_bits bm = {}"
      using count_clear_spec [OF holds] by blast
    show ?thesis
    proof (cases "region_fits bm nbits len align cand")
      case fits: True
      then have "\<not> (align > 1 \<and> cand mod align \<noteq> 0)" "i = len"
        using aligned i(2) by (auto simp: region_fits_def)
      moreover obtain bm' where "set_bits bm cand len = Some bm'" "length bm' = length bm"
        "used_bits bm' = used_bits bm \<union> {cand..<cand + len}"
        using set_bits_spec [OF holds] by blast
      ultimately show ?thesis using True i(1) fits Suc.prems(3) by auto
    next
      case nofit: False
      obtain r where r: "bitmap_find_next_zero_bit bm nbits (cand + 1) = Some r" "r \<le> nbits"
        "{cand + 1..<r} \<subseteq> used_bits bm" "cand + 1 < nbits \<longrightarrow> cand + 1 \<le> r"
        "r < nbits \<longrightarrow> cand + 1 \<le> r"
        using find_next_zero_bit_spec [OF assms(1), of "cand + 1"] by metis
      then have "cand < r" using True assms(2) by (cases "r < nbits") auto
      have "\<not> region_fits bm nbits len align c" if "c < r" for c
      proof (cases "c \<le> cand")
        case True
        then show ?thesis using nofit Suc.prems(3) [of c] by (cases "c = cand") auto
      next
        case False
        then have "c \<in> used_bits bm" using r(3) that by auto
        then show ?thesis using assms(2) by (rule not_fits_used [rotated])
      qed
      moreover have "nbits - r < fuel" using \<open>cand < r\<close> r(2) Suc.prems(2) by linarith
      moreover have "region_loop (Suc fuel) bm nbits len align cand
          = region_loop fuel bm nbits len align r"
        using True r(1) i nofit aligned by (auto simp: region_fits_def)
      ultimately show ?thesis using Suc.IH [OF r(2)] by simp
    qed
  qed
qed

lemma bitmap_alloc_region_cases:
  fixes align :: nat
  assumes "bitmap_holds bm nbits" "0 < len"
  defines "a \<equiv> max align 1"
  shows "(bitmap_alloc_region bm nbits len align = Some (None, bm)
       \<and> (\<forall>c. \<not> region_fits bm nbits len a c))
    \<or> (\<exists>c bm'. bitmap_alloc_region bm nbits len align = Some (Some c, bm')
       \<and> region_fits bm nbits len a c \<and> (\<forall>c'<c. \<not> region_fits bm nbits len a c')
       \<and> length bm' = length bm \<and> used_bits bm' = used_bits bm \<union> {c..<c + len})"
proof (cases "len > nbits")
  case True
  then show ?thesis by (auto simp: bitmap_alloc_region_def region_fits_def)
next
  case False
  obtain r where r: "bitmap_find_next_zero_bit bm nbits 0 = Some r" "r \<le> nbits"
    "{0..<r} \<subseteq> used_bits bm"
    using find_next_zero_bit_spec [OF assms(1), of 0] by metis
  have "\<not> region_fits bm nbits len a c" if "c < r" for c
    using r(3) that assms(2) by (intro not_fits_used) auto
  moreover have "bitmap_alloc_region bm nbits len align
      = region_loop (nbits + 1) bm nbits len a r"
  proof -
    have "(if align = 0 then 1 else align) = a" by (simp add: a_def max_def)
    with False r(1) assms(2) show ?thesis
      by (simp add: bitmap_alloc_region_def bitmap_find_first_zero_bit_def)
  qed
  ultimately show ?thesis
    using region_loop_total [OF assms(1,2), of a r "nbits + 1"] r(2) by (simp add: a_def)
qed

lemma free_region_loop_spec:
  "nbits \<le> 64 * length bm \<Longrightarrow> start + i + n < 2 ^ 64 \<Longrightarrow>
     \<exists>bm'. free_region_loop bm nbits start i n = Some bm' \<and> length bm' = length bm
       \<and> used_bits bm' = used_bits bm - {start + i..<min (start + i + n) nbits}"
proof (induction n arbitrary: i bm)
  case 0
  then show ?case by simp
next
  case (Suc n)
  then have w: "wrap64 (start + i) = start + i" by simp
  show ?case
  proof (cases "start + i < nbits")
    case False
    with w show ?thesis by simp
  next
    case True
    with Suc.prems obtain bm1 where bm1: "bitmap_clear_bit bm (start + i) = Some bm1"
      "length bm1 = length bm" "used_bits bm1 = used_bits bm - {start + i}"
      using bitmap_clear_bit_eq [of "start + i" bm] by auto
    with Suc.prems obtain bm2 where "free_region_loop bm1 nbits start (Suc i) n = Some bm2"
      "length bm2 = length bm1"
      "used_bits bm2 = used_bits bm1 - {start + Suc i..<min (start + Suc i + n) nbits}"
      using Suc.IH [of bm1 "Suc i"] by auto
    moreover have "{start + i..<min (start + i + Suc n) nbits}
        = insert (start + i) {start + Suc i..<min (start + Suc i + n) nbits}"
      using True by auto
    ultimately show ?thesis using bm1 w True by auto
  qed
qed

lemma bitmap_free_region_spec:
  "bitmap_holds bm nbits \<Longrightarrow> start + len < 2 ^ 64 \<Longrightarrow>
     \<exists>bm'. bitmap_free_region bm nbits start len = Some bm' \<and> length bm' = length bm
       \<and> used_bits bm' = used_bits bm - {start..<min (start + len) nbits}"
  using free_region_loop_spec [of nbits bm start 0 len]
  by (simp add: bitmap_free_region_def bitmap_holds_def)

section \<open>Initialisation\<close>

lemma BITS_TO_LONGS_eq: "BITS_TO_LONGS nbits = (nbits + 63) div 64"
  by (simp add: BITS_TO_LONGS_def BITS_PER_LONG_def)

lemma BITS_TO_LONGS_le: "bitmap_holds bm nbits \<Longrightarrow> BITS_TO_LONGS nbits \<le> length bm"
  using div_le_mono [of "nbits + 63" "64 * length bm + 63" 64]
  by (simp add: BITS_TO_LONGS_eq bitmap_holds_def)

lemma used_bits_replicate_append:
  "used_bits (replicate n w @ ys) =
     {b. b < 64 * n \<and> bit w (b mod 64)} \<union> (\<lambda>b. 64 * n + b) ` used_bits ys"
proof -
  have "b \<in> used_bits (replicate n w @ ys) \<longleftrightarrow>
    b < 64 * n \<and> bit w (b mod 64) \<or> 64 * n \<le> b \<and> b - 64 * n \<in> used_bits ys" for b
  proof (cases "b < 64 * n")
    case True
    then have "b div 64 < n" by (simp add: less_mult_imp_div_less mult.commute)
    with True show ?thesis by (auto simp: used_bits_def nth_append)
  next
    case False
    then obtain c where "b = 64 * n + c" by (metis le_add_diff_inverse not_less)
    then show ?thesis by (auto simp: used_bits_def nth_append)
  qed
  then show ?thesis by (force simp: image_iff)
qed

lemma bitmap_zero_spec:
  assumes "bitmap_holds bm nbits"
  shows "\<exists>bm'. bitmap_zero bm nbits = Some bm' \<and> length bm' = length bm
    \<and> used_bits bm' \<inter> {0..<nbits} = {}"
proof -
  let ?n = "BITS_TO_LONGS nbits"
  have n: "?n \<le> length bm" using assms by (rule BITS_TO_LONGS_le)
  have "nbits \<le> 64 * ?n" unfolding BITS_TO_LONGS_eq by linarith
  then have "used_bits (replicate ?n 0 @ drop ?n bm) \<inter> {0..<nbits} = {}"
    by (auto simp: used_bits_replicate_append)
  with n show ?thesis by (simp add: bitmap_zero_def memset_words_def)
qed

lemma bit_last_word_mask:
  "n < 64 \<Longrightarrow> bit (bitmap_last_word_mask nbits) n \<longleftrightarrow> nbits mod 64 = 0 \<or> n < nbits mod 64"
proof -
  assume n: "n < 64"
  have "push_bit r 1 - 1 = (mask r :: u64)" for r
    by (simp add: mask_eq_exp_minus_1)
  with n show ?thesis
    by (simp add: bitmap_last_word_mask_def BITS_PER_LONG_def bit_mask_iff Let_def)
qed

lemma last_word_arith:
  fixes b nbits :: nat
  assumes "b div 64 < (nbits + 63) div 64"
  shows "b div 64 \<noteq> (nbits + 63) div 64 - 1 \<or> nbits mod 64 = 0 \<or> b mod 64 < nbits mod 64
    \<longleftrightarrow> b < nbits"
proof -
  define q r c e where "q = nbits div 64" and "r = nbits mod 64"
    and "c = b div 64" and "e = b mod 64"
  then have n: "nbits = 64 * q + r" and b: "b = 64 * c + e" and "r < 64" and "e < 64"
    by simp_all
  have up: "(nbits + 63) div 64 = (if r = 0 then q else q + 1)"
    using n \<open>r < 64\<close> by auto
  with assms have "c \<le> q" and "r = 0 \<Longrightarrow> c < q" by (auto simp: c_def split: if_splits)
  with up n b \<open>r < 64\<close> \<open>e < 64\<close> show ?thesis
    by (cases "r = 0"; cases "c = q") (simp_all flip: c_def e_def r_def)
qed

lemma bitmap_fill_spec:
  assumes "bitmap_holds bm nbits"
  shows "\<exists>bm'. bitmap_fill bm nbits = Some bm' \<and> length bm' = length bm
    \<and> used_bits bm' \<inter> {0..<64 * BITS_TO_LONGS nbits} = {0..<nbits}"
proof -
  let ?n = "BITS_TO_LONGS nbits"
  let ?full = "replicate ?n (NOT 0) @ drop ?n bm"
  have n: "?n \<le> length bm" using assms by (rule BITS_TO_LONGS_le)
  have full: "b \<in> used_bits ?full" if "b < 64 * ?n" for b
    using that by (simp add: used_bits_replicate_append)
  show ?thesis
  proof (cases "?n = 0")
    case True
    then have "nbits = 0" by (simp add: BITS_TO_LONGS_eq)
    with True show ?thesis by (simp add: bitmap_fill_def memset_words_def Let_def)
  next
    case False
    let ?bm = "?full[?n - 1 := NOT 0 AND bitmap_last_word_mask nbits]"
    have i: "?n - 1 < length ?full" using False n by simp
    have w: "?full ! (?n - 1) = NOT 0" using False by (simp add: nth_append)
    have step: "bitmap_fill bm nbits = Some ?bm"
      using False n i w by (simp add: bitmap_fill_def memset_words_def Let_def call_simps)
    have "b \<in> used_bits ?bm \<longleftrightarrow> b < nbits" if b: "b < 64 * ?n" for b
    proof -
      have d: "b div 64 < ?n" using b by (simp add: less_mult_imp_div_less mult.commute)
      have "b \<in> used_bits ?bm \<longleftrightarrow>
        b div 64 \<noteq> ?n - 1 \<or> nbits mod 64 = 0 \<or> b mod 64 < nbits mod 64"
        unfolding used_bits_update [OF i]
        using full [OF b] bit_last_word_mask [of "b mod 64" nbits] by simp
      also have "\<dots> \<longleftrightarrow> b < nbits"
        using d unfolding BITS_TO_LONGS_eq by (rule last_word_arith)
      finally show ?thesis .
    qed
    moreover have "nbits \<le> 64 * ?n" unfolding BITS_TO_LONGS_eq by linarith
    ultimately have "used_bits ?bm \<inter> {0..<64 * ?n} = {0..<nbits}" by auto
    with step n show ?thesis by simp
  qed
qed

section \<open>Properties\<close>

interpretation bitmap_slots: slot_allocator "\<lambda>bm. bitmap_alloc_bit bm nbits"
  "\<lambda>bm. bitmap_free_bit bm nbits" "\<lambda>bm. used_bits bm" nbits "\<lambda>bm. bitmap_holds bm nbits"
  for nbits
proof unfold_locales
  fix bm
  assume "bitmap_holds bm nbits" "{0..<nbits} \<subseteq> used_bits bm"
  then show "bitmap_alloc_bit bm nbits = Some (None, bm)"
    using bitmap_alloc_bit_cases [of bm nbits] by auto
next
  fix bm
  assume "bitmap_holds bm nbits" "\<not> {0..<nbits} \<subseteq> used_bits bm"
  then show "\<exists>b bm'. bitmap_alloc_bit bm nbits = Some (Some b, bm') \<and> bitmap_holds bm' nbits
    \<and> b < nbits \<and> b \<notin> used_bits bm \<and> {0..<b} \<subseteq> used_bits bm
    \<and> used_bits bm' = insert b (used_bits bm)"
    using bitmap_alloc_bit_cases [of bm nbits] by (auto simp: bitmap_holds_def)
next
  fix bm b
  assume "bitmap_holds bm nbits" "b < nbits" "b \<in> used_bits bm"
  then show "\<exists>bm'. bitmap_free_bit bm nbits b = Some bm' \<and> bitmap_holds bm' nbits
    \<and> used_bits bm' = used_bits bm - {b}"
    using bitmap_free_bit_spec [of bm nbits b] by (auto simp: bitmap_holds_def)
qed

text \<open>
  C1. \<open>bitmap_alloc_region\<close> is a complete first-fit allocator: on an array that holds
  \<open>nbits\<close> bits it stays inside the array and either returns the lowest position where \<open>len\<close>
  consecutive clear bits start at a multiple of \<open>align\<close>, setting exactly those bits, or
  reports failure with the bitmap unchanged, and then no such position exists.
\<close>

theorem bitmap_alloc_region_first_fit:
  assumes "bitmap_holds bm nbits" and "0 < len"
  shows "(bitmap_alloc_region bm nbits len align = Some (None, bm)
       \<and> (\<forall>c. \<not> region_fits bm nbits len (max align 1) c))
    \<or> (\<exists>c bm'. bitmap_alloc_region bm nbits len align = Some (Some c, bm')
       \<and> region_fits bm nbits len (max align 1) c
       \<and> (\<forall>c'<c. \<not> region_fits bm nbits len (max align 1) c')
       \<and> length bm' = length bm \<and> used_bits bm' = used_bits bm \<union> {c..<c + len})"
  using assms by (rule bitmap_alloc_region_cases)

theorem bitmap_alloc_region_first_fit_witness:
  "bitmap_alloc_region [0b10001] 8 2 2 = Some (Some 2, [0b11101])
   \<and> region_fits [0b10001] 8 2 2 2 \<and> \<not> region_fits [0b10001] 8 2 2 0"
proof -
  have eval: "bitmap_alloc_region [0b10001] 8 2 2 = Some (Some 2, [0b11101])"
    by code_simp
  have "bitmap_holds [0b10001] 8" by (simp add: bitmap_holds_def)
  from bitmap_alloc_region_first_fit [OF this, of 2 2] eval show ?thesis
    by (simp add: numeral_2_eq_2)
qed

text \<open>
  C2. Bits handed out by successive calls of \<open>bitmap_alloc_bit\<close> are pairwise distinct, were
  all clear before, and are exactly the bits that become set; a run of allocations comes up
  short only when all \<open>nbits\<close> bits are in use.
\<close>

theorem bitmap_alloc_bits_distinct:
  assumes "bitmap_holds bm nbits"
  shows "\<exists>bs bm'. alloc_seq (\<lambda>bm. bitmap_alloc_bit bm nbits) n bm = Some (bs, bm')
    \<and> length bs \<le> n \<and> distinct bs \<and> set bs \<subseteq> {0..<nbits} - used_bits bm
    \<and> used_bits bm' = used_bits bm \<union> set bs
    \<and> (length bs < n \<longrightarrow> {0..<nbits} \<subseteq> used_bits bm')"
  using bitmap_slots.alloc_seq_distinct [OF assms, of n] by blast

theorem bitmap_alloc_bits_distinct_witness:
  "\<exists>bs bm'. alloc_seq (\<lambda>bm. bitmap_alloc_bit bm 4) 5 [0b0101] = Some (bs, bm')
    \<and> distinct bs \<and> set bs \<subseteq> {0..<4} - used_bits [0b0101]"
proof -
  have "bitmap_holds [0b0101] 4" by (simp add: bitmap_holds_def)
  from bitmap_alloc_bits_distinct [OF this, of 5] show ?thesis by blast
qed

lemma bitmap_alloc_bit_example: "bitmap_alloc_bit [0b0101] 4 = Some (Some 1, [0b0111])"
  by code_simp

text \<open>
  C3. Freeing a region undoes its allocation: after \<open>bitmap_alloc_region\<close> returned \<open>c\<close>,
  \<open>bitmap_free_region\<close> on \<open>c\<close> and \<open>len\<close> succeeds and brings back the same set of used bits.
\<close>

theorem bitmap_region_roundtrip:
  assumes "bitmap_holds bm nbits" and "0 < len" and "nbits < 2 ^ 64"
    and "bitmap_alloc_region bm nbits len align = Some (Some c, bm1)"
  shows "\<exists>bm2. bitmap_free_region bm1 nbits c len = Some bm2 \<and> used_bits bm2 = used_bits bm"
proof -
  have bm1: "region_fits bm nbits len (max align 1) c" "length bm1 = length bm"
    "used_bits bm1 = used_bits bm \<union> {c..<c + len}"
    using bitmap_alloc_region_cases [OF assms(1,2), of align] assms(4) by auto
  then have "c + len \<le> nbits" and free: "{c..<c + len} \<inter> used_bits bm = {}"
    by (auto simp: region_fits_def)
  then obtain bm2 where "bitmap_free_region bm1 nbits c len = Some bm2"
    "used_bits bm2 = used_bits bm1 - {c..<c + len}"
    using bitmap_free_region_spec [of bm1 nbits c len] assms(1,3) bm1(2)
    by (auto simp: bitmap_holds_def min_def)
  with bm1(3) free show ?thesis by blast
qed

theorem bitmap_region_roundtrip_witness:
  "\<exists>bm2. bitmap_free_region [0b11101] 8 2 2 = Some bm2 \<and> used_bits bm2 = used_bits [0b10001]"
proof (rule bitmap_region_roundtrip)
  show "bitmap_holds [0b10001] 8" by (simp add: bitmap_holds_def)
  show "bitmap_alloc_region [0b10001] 8 2 2 = Some (Some 2, [0b11101])" by code_simp
qed simp_all

end
