(* ===== verification/Klist.thy ===== *)
theory Klist
  imports Prelude
begin

text \<open>
  The intrusive circular doubly linked lists of \<open>src/src/include/brk/list.h\<close>. The heap
  gives every \<open>struct list_head\<close> its \<open>next\<close> and \<open>prev\<close> pointer; an operation is the
  sequence of stores of the C function. The predicate \<open>ring\<close> relates a heap and a list head
  to the sequence of entries linked behind it, and every operation is shown to implement
  its counterpart on sequences. The other components use list heads through this view: a
  \<open>struct list_head\<close> field is a list of the entries it links.
\<close>

type_synonym addr = nat

record list_heap =
  nxt :: "addr \<Rightarrow> addr"
  prv :: "addr \<Rightarrow> addr"

section \<open>Model\<close>

definition set_nxt :: "addr \<Rightarrow> addr \<Rightarrow> list_heap \<Rightarrow> list_heap" where
  "set_nxt p v h = h\<lparr>nxt := (nxt h)(p := v)\<rparr>"

definition set_prv :: "addr \<Rightarrow> addr \<Rightarrow> list_heap \<Rightarrow> list_heap" where
  "set_prv p v h = h\<lparr>prv := (prv h)(p := v)\<rparr>"

definition do_list_add :: "addr \<Rightarrow> addr \<Rightarrow> addr \<Rightarrow> list_heap \<Rightarrow> list_heap" where
  "do_list_add new prev next h =
     (let h = set_prv next new h;
          h = set_nxt new next h;
          h = set_prv new prev h;
          h = set_nxt prev new h in h)"

definition do_list_del :: "addr \<Rightarrow> addr \<Rightarrow> list_heap \<Rightarrow> list_heap" where
  "do_list_del prev next h =
     (let h = set_prv next prev h;
          h = set_nxt prev next h in h)"

definition do_list_del_entry :: "addr \<Rightarrow> list_heap \<Rightarrow> list_heap" where
  "do_list_del_entry entry h = do_list_del (prv h entry) (nxt h entry) h"

definition do_list_splice :: "addr \<Rightarrow> addr \<Rightarrow> addr \<Rightarrow> list_heap \<Rightarrow> list_heap" where
  "do_list_splice lst prev next h =
     (let first = nxt h lst; last = prv h lst;
          h = set_prv first prev h;
          h = set_nxt prev first h;
          h = set_nxt last next h;
          h = set_prv next last h in h)"

definition list_is_first :: "addr \<Rightarrow> addr \<Rightarrow> list_heap \<Rightarrow> bool" where
  "list_is_first lst head h \<longleftrightarrow> prv h lst = head"

definition list_is_last :: "addr \<Rightarrow> addr \<Rightarrow> list_heap \<Rightarrow> bool" where
  "list_is_last lst head h \<longleftrightarrow> nxt h lst = head"

definition list_empty :: "addr \<Rightarrow> list_heap \<Rightarrow> bool" where
  "list_empty head h \<longleftrightarrow> nxt h head = head"

definition list_init :: "addr \<Rightarrow> list_heap \<Rightarrow> list_heap" where
  "list_init lst h = set_prv lst lst (set_nxt lst lst h)"

definition list_add :: "addr \<Rightarrow> addr \<Rightarrow> list_heap \<Rightarrow> list_heap" where
  "list_add new head h = do_list_add new head (nxt h head) h"

definition list_add_tail :: "addr \<Rightarrow> addr \<Rightarrow> list_heap \<Rightarrow> list_heap" where
  "list_add_tail new head h = do_list_add new (prv h head) head h"

definition list_del :: "addr \<Rightarrow> list_heap \<Rightarrow> list_heap" where
  "list_del entry h =
     (let h = do_list_del_entry entry h;
          h = set_nxt entry 0 h;
          h = set_prv entry 0 h in h)"

definition list_replace :: "addr \<Rightarrow> addr \<Rightarrow> list_heap \<Rightarrow> list_heap" where
  "list_replace old new h =
     (let h = set_nxt new (nxt h old) h;
          h = set_prv (nxt h new) new h;
          h = set_prv new (prv h old) h;
          h = set_nxt (prv h new) new h in h)"

definition list_del_init :: "addr \<Rightarrow> list_heap \<Rightarrow> list_heap" where
  "list_del_init entry h = list_init entry (do_list_del_entry entry h)"

definition list_move :: "addr \<Rightarrow> addr \<Rightarrow> list_heap \<Rightarrow> list_heap" where
  "list_move lst head h = list_add lst head (do_list_del_entry lst h)"

definition list_move_tail :: "addr \<Rightarrow> addr \<Rightarrow> list_heap \<Rightarrow> list_heap" where
  "list_move_tail lst head h = list_add_tail lst head (do_list_del_entry lst h)"

definition list_splice :: "addr \<Rightarrow> addr \<Rightarrow> list_heap \<Rightarrow> list_heap" where
  "list_splice lst head h =
     (if \<not> list_empty lst h then do_list_splice lst head (nxt h head) h else h)"

definition list_splice_tail :: "addr \<Rightarrow> addr \<Rightarrow> list_heap \<Rightarrow> list_heap" where
  "list_splice_tail lst head h =
     (if \<not> list_empty lst h then do_list_splice lst (prv h head) head h else h)"

definition list_splice_init :: "addr \<Rightarrow> addr \<Rightarrow> list_heap \<Rightarrow> list_heap" where
  "list_splice_init lst head h =
     (if \<not> list_empty lst h
      then list_init lst (do_list_splice lst head (nxt h head) h) else h)"

text \<open>
  The loop of \<open>list_count_nodes\<close> (\<open>list_for_each\<close> with a counter). On a heap whose links do
  not lead back to the head it does not end, so its result is an option.
\<close>

partial_function (option) list_count_from :: "list_heap \<Rightarrow> addr \<Rightarrow> addr \<Rightarrow> nat \<Rightarrow> nat option" where
  "list_count_from h head pos count =
     (if pos = head then Some count else list_count_from h head (nxt h pos) (count + 1))"

definition list_count_nodes :: "addr \<Rightarrow> list_heap \<Rightarrow> nat option" where
  "list_count_nodes head h = list_count_from h head (nxt h head) 0"

section \<open>Paths and rings\<close>

lemmas heap_ops = set_nxt_def set_prv_def Let_def

text \<open>Neighbours of the node sequence point at each other.\<close>

fun links :: "list_heap \<Rightarrow> addr list \<Rightarrow> bool" where
  "links h (x # y # ps) \<longleftrightarrow> nxt h x = y \<and> prv h y = x \<and> links h (y # ps)"
| "links h _ \<longleftrightarrow> True"

definition ring :: "list_heap \<Rightarrow> addr \<Rightarrow> addr list \<Rightarrow> bool" where
  "ring h head xs \<longleftrightarrow> distinct (head # xs) \<and> links h (head # xs @ [head])"

lemma links_append: "links h (xs @ y # ys) \<longleftrightarrow> links h (xs @ [y]) \<and> links h (y # ys)"
proof (induction xs)
  case Nil
  then show ?case by simp
next
  case (Cons x xs)
  then show ?case by (cases xs) auto
qed

lemma links_cong:
  assumes "\<And>x. x \<in> set (butlast ps) \<Longrightarrow> nxt h' x = nxt h x"
    and "\<And>x. x \<in> set (tl ps) \<Longrightarrow> prv h' x = prv h x"
  shows "links h' ps \<longleftrightarrow> links h ps"
  using assms
proof (induction h ps rule: links.induct)
  case (1 h x y ps)
  then have "links h' (y # ps) \<longleftrightarrow> links h (y # ps)"
    by (intro "1.IH") (auto intro: list.set_sel(2))
  with "1.prems" show ?case by auto
qed simp_all

text \<open>
  The one argument behind every operation: the entries \<open>M\<close> between two nodes \<open>p\<close> and \<open>n\<close> of
  a ring are replaced by \<open>M'\<close>, when the new heap links \<open>p\<close>, \<open>M'\<close> and \<open>n\<close> and leaves the
  outward pointers of the remaining nodes alone.
\<close>

lemma path_ends:
  "\<exists>A B. A @ [last (head # ys)] = head # ys \<and> hd (zs @ [head]) # B = zs @ [head]"
  by (intro exI [of _ "butlast (head # ys)"] exI [of _ "tl (zs @ [head])"] conjI
      append_butlast_last_id) simp_all

lemma ring_rewire:
  assumes ring: "ring h head (ys @ M @ zs)"
    and dist: "distinct (head # ys @ M' @ zs)"
    and p: "p = last (head # ys)" and n: "n = hd (zs @ [head])"
    and new: "links h' (p # M' @ [n])"
    and nxt: "\<And>x. x \<in> set (head # ys @ zs) \<Longrightarrow> x \<noteq> p \<Longrightarrow> nxt h' x = nxt h x"
    and prv: "\<And>x. x \<in> set (head # ys @ zs) \<Longrightarrow> x \<noteq> n \<Longrightarrow> prv h' x = prv h x"
  shows "ring h' head (ys @ M' @ zs)"
proof -
  obtain A B where A: "A @ [p] = head # ys" and B: "n # B = zs @ [head]"
    using path_ends [of head ys zs] unfolding p n by (elim exE conjE)
  have sets: "insert p (set A) = set (head # ys)" "insert n (set B) = insert head (set zs)"
    using arg_cong [OF A, of set] arg_cong [OF B, of set] by auto
  have L: "head # (ys @ N @ zs) @ [head] = A @ p # N @ n # B" for N
  proof -
    have "head # (ys @ N @ zs) @ [head] = (A @ [p]) @ N @ (n # B)" unfolding A B by simp
    then show ?thesis by simp
  qed
  have d: "distinct (A @ [p])" "distinct (n # B)"
    using ring unfolding A B by (auto simp: ring_def)
  have tlA: "tl (A @ [p]) = ys" and blB: "butlast (n # B) = zs"
    by (simp_all only: A B list.sel butlast_snoc)
  have "head \<notin> set ys" "head \<notin> set zs" "set ys \<inter> set zs = {}"
    using ring by (auto simp: ring_def)
  moreover have "n = head \<and> zs = [] \<or> n \<in> set zs" "p = head \<and> ys = [] \<or> p \<in> set ys"
    unfolding p n by (cases zs; simp)+
  ultimately have apart: "n \<notin> set ys" "p \<notin> set zs" by auto
  have "links h (A @ p # M @ n # B)"
    using ring unfolding ring_def L by simp
  then have old: "links h (A @ [p])" "links h (n # B)"
    using links_append [of h A p "M @ n # B"] links_append [of h "p # M" n B] by simp_all
  have "links h' (A @ [p]) \<longleftrightarrow> links h (A @ [p])"
  proof (rule links_cong)
    fix x
    assume "x \<in> set (butlast (A @ [p]))"
    then have "x \<in> set (head # ys)" "x \<noteq> p" using d(1) sets(1) by auto
    then show "nxt h' x = nxt h x" by (intro nxt) auto
  next
    fix x
    assume "x \<in> set (tl (A @ [p]))"
    then have "x \<in> set ys" "x \<noteq> n" using apart(1) by (auto simp only: tlA)
    then show "prv h' x = prv h x" by (intro prv) simp_all
  qed
  moreover have "links h' (n # B) \<longleftrightarrow> links h (n # B)"
  proof (rule links_cong)
    fix x
    assume "x \<in> set (butlast (n # B))"
    then have "x \<in> set zs" "x \<noteq> p" using apart(2) by (auto simp only: blB)
    then show "nxt h' x = nxt h x" by (intro nxt) simp_all
  next
    fix x
    assume "x \<in> set (tl (n # B))"
    then have "x \<in> insert head (set zs)" "x \<noteq> n" using d(2) sets(2) by auto
    then show "prv h' x = prv h x" by (intro prv) auto
  qed
  ultimately have "links h' (A @ p # M' @ n # B)"
    using old new links_append [of h' A p "M' @ n # B"] links_append [of h' "p # M'" n B] by simp
  then show ?thesis
    using dist unfolding ring_def L by simp
qed

lemma ring_neighbours:
  assumes "ring h head (ys @ e # zs)"
  shows "prv h e = last (head # ys)" "nxt h e = hd (zs @ [head])"
proof -
  obtain A B where A: "A @ [last (head # ys)] = head # ys"
    and B: "hd (zs @ [head]) # B = zs @ [head]"
    using path_ends [of head ys zs] by (elim exE conjE)
  have "head # (ys @ e # zs) @ [head] = (A @ [last (head # ys)]) @ e # (hd (zs @ [head]) # B)"
    unfolding A B by simp
  then have "head # (ys @ e # zs) @ [head] = A @ last (head # ys) # e # hd (zs @ [head]) # B"
    by (simp only: append.assoc append_Cons append_Nil)
  then have "links h (A @ last (head # ys) # e # hd (zs @ [head]) # B)"
    using assms unfolding ring_def by (simp only:)
  then show "prv h e = last (head # ys)" "nxt h e = hd (zs @ [head])"
    using links_append [of h A "last (head # ys)" "e # hd (zs @ [head]) # B"] by simp_all
qed

lemma ring_head:
  assumes "ring h head xs"
  shows "nxt h head = hd (xs @ [head])" "prv h head = last (head # xs)"
proof -
  have "links h (head # xs @ [head])" using assms by (simp add: ring_def)
  then show "nxt h head = hd (xs @ [head])" by (cases xs) auto
  obtain A where A: "A @ [last (head # xs)] = head # xs"
    using path_ends [of head xs "[]"] by (elim exE conjE)
  have "head # xs @ [head] = (A @ [last (head # xs)]) @ [head]" unfolding A by simp
  then have "head # xs @ [head] = A @ last (head # xs) # [head]"
    by (simp only: append.assoc append_Cons append_Nil)
  then have "links h (A @ last (head # xs) # [head])"
    using \<open>links h (head # xs @ [head])\<close> by (simp only:)
  then show "prv h head = last (head # xs)"
    using links_append [of h A "last (head # xs)" "[head]"] by simp
qed

section \<open>The operations on rings\<close>

lemma ring_init: "ring (list_init head h) head []"
  by (simp add: ring_def list_init_def heap_ops)

lemma list_empty_iff: "ring h head xs \<Longrightarrow> list_empty head h \<longleftrightarrow> xs = []"
  by (cases xs) (auto simp: ring_def list_empty_def)

lemma last_in: "last (head # ys) \<in> set (head # ys @ zs)"
  by (cases ys) auto

lemma hd_in: "hd (zs @ [head]) \<in> set (head # ys @ zs)"
  by (cases zs) auto

lemma ring_insert:
  assumes "ring h head (ys @ zs)" and "new \<notin> set (head # ys @ zs)"
    and p: "p = last (head # ys)" and n: "n = hd (zs @ [head])"
  shows "ring (do_list_add new p n h) head (ys @ new # zs)"
proof -
  have fresh: "new \<noteq> p" "new \<noteq> n"
    using assms(2) last_in [of head ys zs] hd_in [of zs head ys] unfolding p n by metis+
  have "ring (do_list_add new p n h) head (ys @ [new] @ zs)"
  proof (rule ring_rewire [where M = "[]", OF _ _ p n])
    show "ring h head (ys @ [] @ zs)" using assms(1) by simp
    show "distinct (head # ys @ [new] @ zs)" using assms(1,2) by (auto simp: ring_def)
    show "links (do_list_add new p n h) (p # [new] @ [n])"
      using fresh by (simp add: do_list_add_def heap_ops)
  qed (use assms(2) in \<open>auto simp: do_list_add_def heap_ops\<close>)
  then show ?thesis by simp
qed

lemma ring_unlink:
  assumes "ring h head (ys @ e # zs)"
  shows "ring (do_list_del_entry e h) head (ys @ zs)"
proof -
  have "ring (do_list_del_entry e h) head (ys @ [] @ zs)"
  proof (rule ring_rewire [where M = "[e]", OF _ _ refl refl])
    show "ring h head (ys @ [e] @ zs)" using assms by simp
    show "distinct (head # ys @ [] @ zs)" using assms by (auto simp: ring_def)
  qed (auto simp: do_list_del_entry_def do_list_del_def heap_ops ring_neighbours [OF assms])
  then show ?thesis by simp
qed

text \<open>Stores to a node that is not in the ring leave the ring as it is.\<close>

lemma ring_frame:
  assumes "ring h head xs"
    and "\<And>x. x \<in> set (head # xs) \<Longrightarrow> nxt h' x = nxt h x \<and> prv h' x = prv h x"
  shows "ring h' head xs"
proof -
  have "links h' (head # xs @ [head]) \<longleftrightarrow> links h (head # xs @ [head])"
    by (rule links_cong) (use assms(2) in \<open>auto simp: butlast_append\<close>)
  with assms(1) show ?thesis by (simp add: ring_def)
qed

lemma ring_list_add:
  assumes "ring h head xs" "new \<notin> set (head # xs)"
  shows "ring (list_add new head h) head (new # xs)"
  using ring_insert [of h head "[]" xs new head "nxt h head"] assms ring_head [OF assms(1)]
  by (simp add: list_add_def)

lemma ring_list_add_tail:
  assumes "ring h head xs" "new \<notin> set (head # xs)"
  shows "ring (list_add_tail new head h) head (xs @ [new])"
  using ring_insert [of h head xs "[]" new "prv h head" head] assms ring_head [OF assms(1)]
  by (simp add: list_add_tail_def)

lemma ring_list_del:
  assumes "ring h head (ys @ e # zs)"
  shows "ring (list_del e h) head (ys @ zs)"
proof -
  have "e \<notin> set (head # ys @ zs)" using assms by (auto simp: ring_def)
  then show ?thesis
    by (intro ring_frame [OF ring_unlink [OF assms]]) (auto simp: list_del_def heap_ops)
qed

lemma ring_list_del_init:
  assumes "ring h head (ys @ e # zs)"
  shows "ring (list_del_init e h) head (ys @ zs)" "ring (list_del_init e h) e []"
proof -
  have "e \<notin> set (head # ys @ zs)" using assms by (auto simp: ring_def)
  then show "ring (list_del_init e h) head (ys @ zs)"
    by (intro ring_frame [OF ring_unlink [OF assms]])
      (auto simp: list_del_init_def list_init_def heap_ops)
  show "ring (list_del_init e h) e []" by (simp add: list_del_init_def ring_init)
qed

lemma ring_list_replace:
  assumes ring: "ring h head (ys @ old # zs)" and fresh: "new \<notin> set (head # ys @ old # zs)"
  shows "ring (list_replace old new h) head (ys @ new # zs)"
proof -
  define p n where p: "p = last (head # ys)" and n: "n = hd (zs @ [head])"
  have nb: "prv h old = p" "nxt h old = n"
    using ring_neighbours [OF ring] unfolding p n .
  have "p \<in> set (head # ys @ zs)" "n \<in> set (head # ys @ zs)"
    unfolding p n by (rule last_in hd_in)+
  then have ne: "new \<noteq> p" "new \<noteq> n" "old \<noteq> n" "old \<noteq> new"
    using fresh ring by (auto simp: ring_def)
  have "ring (list_replace old new h) head (ys @ [new] @ zs)"
  proof (rule ring_rewire [where M = "[old]", OF _ _ p n])
    show "ring h head (ys @ [old] @ zs)" using ring by simp
    show "distinct (head # ys @ [new] @ zs)" using ring fresh by (auto simp: ring_def)
    show "links (list_replace old new h) (p # [new] @ [n])"
      using ne by (simp add: list_replace_def heap_ops nb)
  qed (use fresh ne in \<open>auto simp: list_replace_def heap_ops nb\<close>)
  then show ?thesis by simp
qed

text \<open>Splicing moves all entries of the list \<open>lst\<close> between two neighbours of the other list.\<close>

lemma ring_splice:
  assumes ring: "ring h head (ys @ zs)" and src: "ring h lst ws"
    and apart: "set (lst # ws) \<inter> set (head # ys @ zs) = {}" and ne: "ws \<noteq> []"
    and p: "p = last (head # ys)" and n: "n = hd (zs @ [head])"
  shows "ring (do_list_splice lst p n h) head (ys @ ws @ zs)"
proof -
  let ?h = "do_list_splice lst p n h"
  obtain first rest where ws: "ws = first # rest" using ne by (cases ws) auto
  define l where "l = last ws"
  have ends: "nxt h lst = first" "prv h lst = l"
    using ring_head [OF src] by (simp_all add: ws l_def)
  have "p \<in> set (head # ys @ zs)" "n \<in> set (head # ys @ zs)"
    unfolding p n by (rule last_in hd_in)+
  moreover have "l \<in> set ws" "first \<in> set ws" by (simp_all add: l_def ws)
  ultimately have pn: "p \<notin> set ws" "n \<notin> set ws" "first \<noteq> p" "first \<noteq> n" "l \<noteq> p" "l \<noteq> n"
    using apart by auto
  have dws: "distinct ws" using src by (simp add: ring_def)
  have bl: "butlast ws @ [l] = ws" using ne by (simp add: l_def)
  have "links h (lst # ws @ [lst])" using src by (simp add: ring_def)
  then have "links h (lst # butlast ws @ l # [lst])"
    using bl by (metis append.assoc append_Cons append_Nil)
  then have "links h (lst # butlast ws @ [l])"
    using links_append [of h "lst # butlast ws" l "[lst]"] by simp
  then have "links h ws"
    unfolding bl by (simp add: ws)
  moreover have "links ?h ws \<longleftrightarrow> links h ws"
  proof (rule links_cong)
    fix x
    assume x: "x \<in> set (butlast ws)"
    have "distinct (butlast ws @ [l])" using dws unfolding bl .
    with x have "x \<noteq> l" by auto
    moreover have "x \<noteq> p" using in_set_butlastD [OF x] pn(1) by auto
    ultimately show "nxt ?h x = nxt h x" using ends by (simp add: do_list_splice_def heap_ops)
  next
    fix x
    assume x: "x \<in> set (tl ws)"
    have "x \<noteq> first" using x dws by (auto simp: ws)
    moreover have "x \<noteq> n" using x pn(2) by (auto simp: ws)
    ultimately show "prv ?h x = prv h x" using ends by (simp add: do_list_splice_def heap_ops)
  qed
  moreover have "nxt ?h p = first" "prv ?h first = p" "nxt ?h l = n" "prv ?h n = l"
    using pn ends by (auto simp: do_list_splice_def heap_ops)
  ultimately have "links ?h (p # ws)" "links ?h [l, n]" by (simp_all add: ws)
  then have "links ?h ((p # butlast ws) @ l # [n])"
    using links_append [of ?h "p # butlast ws" l "[n]"] bl by simp
  moreover have "(p # butlast ws) @ l # [n] = p # ws @ [n]"
    using bl by (metis append.assoc append_Cons append_Nil)
  ultimately have new: "links ?h (p # ws @ [n])" by (simp only:)
  have out: "l \<notin> set (head # ys @ zs)" "first \<notin> set (head # ys @ zs)"
    using apart \<open>l \<in> set ws\<close> \<open>first \<in> set ws\<close> by auto
  show ?thesis
  proof (rule ring_rewire [where M = "[]", OF _ _ p n new])
    show "ring h head (ys @ [] @ zs)" using ring by simp
    show "distinct (head # ys @ ws @ zs)" using ring dws apart by (auto simp: ring_def)
    show "nxt ?h x = nxt h x" if "x \<in> set (head # ys @ zs)" "x \<noteq> p" for x
    proof -
      have "x \<noteq> l" using that(1) out by metis
      with that(2) show ?thesis using ends by (simp add: do_list_splice_def heap_ops)
    qed
    show "prv ?h x = prv h x" if "x \<in> set (head # ys @ zs)" "x \<noteq> n" for x
    proof -
      have "x \<noteq> first" using that(1) out by metis
      with that(2) show ?thesis using ends by (simp add: do_list_splice_def heap_ops)
    qed
  qed
qed

lemma ring_list_splice:
  assumes "ring h head xs" "ring h lst ws" "set (lst # ws) \<inter> set (head # xs) = {}"
  shows "ring (list_splice lst head h) head (ws @ xs)"
proof (cases "ws = []")
  case False
  with assms(2) have "\<not> list_empty lst h" by (simp add: list_empty_iff)
  then show ?thesis
    using ring_splice [of h head "[]" xs lst ws head "nxt h head"] assms False
      ring_head [OF assms(1)] by (simp add: list_splice_def)
qed (use assms in \<open>simp add: list_splice_def list_empty_iff\<close>)

lemma ring_list_splice_tail:
  assumes "ring h head xs" "ring h lst ws" "set (lst # ws) \<inter> set (head # xs) = {}"
  shows "ring (list_splice_tail lst head h) head (xs @ ws)"
proof (cases "ws = []")
  case False
  with assms(2) have "\<not> list_empty lst h" by (simp add: list_empty_iff)
  then show ?thesis
    using ring_splice [of h head xs "[]" lst ws "prv h head" head] assms False
      ring_head [OF assms(1)] by (simp add: list_splice_tail_def)
qed (use assms in \<open>simp add: list_splice_tail_def list_empty_iff\<close>)

lemma list_splice_init_eq:
  "\<not> list_empty lst h \<Longrightarrow> list_splice_init lst head h = list_init lst (list_splice lst head h)"
  by (simp add: list_splice_init_def list_splice_def)

lemma ring_list_splice_init:
  assumes "ring h head xs" "ring h lst ws" "set (lst # ws) \<inter> set (head # xs) = {}"
  shows "ring (list_splice_init lst head h) head (ws @ xs)"
    and "ring (list_splice_init lst head h) lst []"
proof -
  note sp = ring_list_splice [OF assms]
  have "lst \<notin> set (head # ws @ xs)" using assms(2,3) by (auto simp: ring_def)
  then have "ring (list_init lst (list_splice lst head h)) head (ws @ xs)"
    by (intro ring_frame [OF sp]) (auto simp: list_init_def heap_ops)
  with assms(1,2) show "ring (list_splice_init lst head h) head (ws @ xs)"
    by (cases "ws = []") (simp_all add: list_splice_def list_empty_iff list_splice_init_def)
  show "ring (list_splice_init lst head h) lst []"
    using assms(2) by (cases "ws = []")
      (simp_all add: list_splice_init_eq list_empty_iff ring_init list_splice_init_def)
qed

section \<open>The sequence interface\<close>

text \<open>
  What the users of list heads rely on: insertion at either end and removal act on the
  sequence of entries. \<open>move_tail\<close> and FIFO order follow for any implementation.
\<close>

locale linked_list =
  fixes rep :: "'h \<Rightarrow> 'a \<Rightarrow> 'a list \<Rightarrow> bool"
    and add_head add_tail :: "'a \<Rightarrow> 'a \<Rightarrow> 'h \<Rightarrow> 'h"
    and unlink :: "'a \<Rightarrow> 'h \<Rightarrow> 'h"
  assumes rep_distinct: "rep h hd0 xs \<Longrightarrow> distinct (hd0 # xs)"
    and rep_add_head: "rep h hd0 xs \<Longrightarrow> e \<notin> set (hd0 # xs) \<Longrightarrow> rep (add_head e hd0 h) hd0 (e # xs)"
    and rep_add_tail: "rep h hd0 xs \<Longrightarrow> e \<notin> set (hd0 # xs) \<Longrightarrow> rep (add_tail e hd0 h) hd0 (xs @ [e])"
    and rep_unlink: "rep h hd0 (ys @ e # zs) \<Longrightarrow> rep (unlink e h) hd0 (ys @ zs)"
begin

lemma move_to_tail:
  assumes "rep h hd0 (ys @ e # zs)"
  shows "rep (add_tail e hd0 (unlink e h)) hd0 (ys @ zs @ [e])"
proof -
  have "e \<notin> set (hd0 # ys @ zs)" using rep_distinct [OF assms] by auto
  from rep_add_tail [OF rep_unlink [OF assms] this] show ?thesis by simp
qed

lemma move_to_head:
  assumes "rep h hd0 (ys @ e # zs)"
  shows "rep (add_head e hd0 (unlink e h)) hd0 (e # ys @ zs)"
proof -
  have "e \<notin> set (hd0 # ys @ zs)" using rep_distinct [OF assms] by auto
  from rep_add_head [OF rep_unlink [OF assms] this] show ?thesis .
qed

lemma add_tail_all:
  assumes "rep h hd0 xs" "distinct es" "set es \<inter> set (hd0 # xs) = {}"
  shows "rep (fold (\<lambda>e. add_tail e hd0) es h) hd0 (xs @ es)"
  using assms
proof (induction es arbitrary: h xs)
  case (Cons e es)
  have "rep (add_tail e hd0 h) hd0 (xs @ [e])"
    using Cons.prems by (intro rep_add_tail) auto
  then have "rep (fold (\<lambda>e. add_tail e hd0) es (add_tail e hd0 h)) hd0 ((xs @ [e]) @ es)"
    using Cons.prems by (intro Cons.IH) auto
  then show ?case by simp
qed simp

end

interpretation klist: linked_list ring list_add list_add_tail do_list_del_entry
  by unfold_locales
    (auto simp: ring_list_add ring_list_add_tail ring_unlink, auto simp: ring_def)

section \<open>Properties\<close>

lemma list_count_from_links:
  "links h (pos # ps @ [head]) \<Longrightarrow> head \<notin> set (pos # ps) \<Longrightarrow>
     list_count_from h head pos count = Some (count + Suc (length ps))"
proof (induction ps arbitrary: pos count)
  case Nil
  then show ?case
    by (subst list_count_from.simps) (simp add: list_count_from.simps)
next
  case (Cons q ps)
  then have "list_count_from h head q (count + 1) = Some (count + 1 + Suc (length ps))"
    by (intro Cons.IH) auto
  with Cons.prems show ?case
    by (subst list_count_from.simps) simp
qed

text \<open>A list that shares no node with the changed one stays as it is.\<close>

lemma ring_apart_unlink:
  assumes "ring h head (ys @ e # zs)" "ring h other ws" "set (other # ws) \<inter> set (head # ys @ e # zs) = {}"
  shows "ring (do_list_del_entry e h) other ws"
proof (rule ring_frame [OF assms(2)])
  fix x assume x: "x \<in> set (other # ws)"
  have nb: "prv h e \<in> set (head # ys @ zs)" "nxt h e \<in> set (head # ys @ zs)"
    using ring_neighbours [OF assms(1)] last_in [of head ys zs] hd_in [of zs head ys] by metis+
  have "x \<notin> set (head # ys @ zs)" using x assms(3) by auto
  then have "x \<noteq> prv h e" "x \<noteq> nxt h e" using nb by metis+
  then show "nxt (do_list_del_entry e h) x = nxt h x \<and> prv (do_list_del_entry e h) x = prv h x"
    by (simp add: do_list_del_entry_def do_list_del_def heap_ops)
qed

lemma ring_apart_add:
  assumes "ring h head xs" "ring h other ws" "set (other # ws) \<inter> set (head # xs) = {}" "new \<notin> set (other # ws)"
  shows "ring (list_add new head h) other ws" "ring (list_add_tail new head h) other ws"
proof -
  have nb: "nxt h head \<in> set (head # xs)" "prv h head \<in> set (head # xs)"
    using ring_head [OF assms(1)] hd_in [of xs head "[]"] last_in [of head xs "[]"] by (metis append_Nil append_Nil2)+
  have ne: "x \<noteq> new \<and> x \<noteq> head \<and> x \<noteq> nxt h head \<and> x \<noteq> prv h head" if "x \<in> set (other # ws)" for x
  proof -
    have "x \<notin> set (head # xs)" using that assms(3) by auto
    then have "x \<noteq> head" "x \<noteq> nxt h head" "x \<noteq> prv h head" using nb by (metis list.set_intros(1))+
    then show ?thesis using that assms(4) by metis
  qed
  show "ring (list_add new head h) other ws" "ring (list_add_tail new head h) other ws"
    by (rule ring_frame [OF assms(2)]; use ne in \<open>simp add: list_add_def list_add_tail_def do_list_add_def heap_ops\<close>)+
qed

lemma ring_move_across:
  assumes r: "ring h head (ys @ e # zs)" and o: "ring h other ws" and d: "set (other # ws) \<inter> set (head # ys @ e # zs) = {}"
  shows "ring (list_move e other h) head (ys @ zs) \<and> ring (list_move e other h) other (e # ws)"
    and "ring (list_move_tail e other h) head (ys @ zs) \<and> ring (list_move_tail e other h) other (ws @ [e])"
proof -
  let ?h = "do_list_del_entry e h"
  note u = ring_unlink [OF r] ring_apart_unlink [OF r o d]
  have e: "e \<notin> set (other # ws)" "e \<notin> set (head # ys @ zs)" "set (head # ys @ zs) \<inter> set (other # ws) = {}"
    using d r by (auto simp: ring_def)
  note a = ring_list_add [OF u(2) e(1)] ring_list_add_tail [OF u(2) e(1)] ring_apart_add [OF u(2,1) e(3,2)]
  show "ring (list_move e other h) head (ys @ zs) \<and> ring (list_move e other h) other (e # ws)"
    using a(1,3) by (simp add: list_move_def)
  show "ring (list_move_tail e other h) head (ys @ zs) \<and> ring (list_move_tail e other h) other (ws @ [e])"
    using a(2,4) by (simp add: list_move_tail_def)
qed

lemma ring_count:
  assumes "ring h head xs"
  shows "list_count_nodes head h = Some (length xs)"
proof (cases xs)
  case Nil
  then show ?thesis using assms by (simp add: ring_def list_count_nodes_def list_count_from.simps)
next
  case (Cons q qs)
  have "links h (q # qs @ [head])" "head \<notin> set (q # qs)" "nxt h head = q"
    using assms unfolding Cons ring_def by simp_all
  then show ?thesis unfolding Cons list_count_nodes_def by (simp add: list_count_from_links)
qed

text \<open>
  C4: The pointer manipulations of list.h implement sequences. On every well-formed circular
  list, the empty one included, \<open>list_empty\<close> tells whether it has entries, \<open>list_count_nodes\<close>
  terminates with their number, \<open>list_add\<close> pushes a new entry in front and \<open>list_add_tail\<close>
  appends one. For every entry \<open>list_del\<close> and \<open>list_del_init\<close> remove exactly it,
  \<open>list_replace\<close> exchanges it in place, \<open>list_move\<close> and \<open>list_move_tail\<close> bring it to either end
  of its own list, and take it over to either end of another list while the rest of its own list
  stays in order. A list that shares no node with the one changed is not affected by adding an
  entry.
\<close>

theorem list_ops_refine_sequences:
  assumes "ring h head xs"
  shows "(list_empty head h \<longleftrightarrow> xs = []) \<and> list_count_nodes head h = Some (length xs)
    \<and> (\<forall>new. new \<notin> set (head # xs) \<longrightarrow> ring (list_add new head h) head (new # xs)
        \<and> ring (list_add_tail new head h) head (xs @ [new])
        \<and> (\<forall>other ws. ring h other ws \<longrightarrow> set (other # ws) \<inter> set (new # head # xs) = {} \<longrightarrow>
             ring (list_add new head h) other ws \<and> ring (list_add_tail new head h) other ws))
    \<and> (\<forall>ys e zs. xs = ys @ e # zs \<longrightarrow> ring (list_del e h) head (ys @ zs)
        \<and> ring (list_del_init e h) head (ys @ zs) \<and> ring (list_del_init e h) e []
        \<and> ring (list_move e head h) head (e # ys @ zs) \<and> ring (list_move_tail e head h) head (ys @ zs @ [e])
        \<and> (\<forall>new. new \<notin> set (head # xs) \<longrightarrow> ring (list_replace e new h) head (ys @ new # zs))
        \<and> (\<forall>other ws. ring h other ws \<longrightarrow> set (other # ws) \<inter> set (head # xs) = {} \<longrightarrow>
             ring (list_move e other h) head (ys @ zs) \<and> ring (list_move e other h) other (e # ws)
             \<and> ring (list_move_tail e other h) head (ys @ zs) \<and> ring (list_move_tail e other h) other (ws @ [e])))"
proof -
  have entry: "ring (list_del e h) head (ys @ zs) \<and> ring (list_del_init e h) head (ys @ zs) \<and> ring (list_del_init e h) e []
      \<and> ring (list_move e head h) head (e # ys @ zs) \<and> ring (list_move_tail e head h) head (ys @ zs @ [e])"
    if "xs = ys @ e # zs" for ys e zs
    using assms klist.move_to_head [of h head ys e zs] klist.move_to_tail [of h head ys e zs]
    unfolding that list_move_def list_move_tail_def by (simp add: ring_list_del ring_list_del_init)
  have rep: "ring (list_replace e new h) head (ys @ new # zs)" if "xs = ys @ e # zs" "new \<notin> set (head # xs)" for ys e zs new
    by (rule ring_list_replace) (use assms that in simp_all)
  have across: "ring (list_move e other h) head (ys @ zs) \<and> ring (list_move e other h) other (e # ws)
      \<and> ring (list_move_tail e other h) head (ys @ zs) \<and> ring (list_move_tail e other h) other (ws @ [e])"
    if "xs = ys @ e # zs" "ring h other ws" "set (other # ws) \<inter> set (head # xs) = {}" for ys e zs other ws
    using ring_move_across [OF assms [unfolded that(1)] that(2)] that(1,3) by simp
  have other: "ring (list_add new head h) other ws \<and> ring (list_add_tail new head h) other ws"
    if "ring h other ws" "set (other # ws) \<inter> set (new # head # xs) = {}" for new other ws
    using ring_apart_add [OF assms that(1), of new] that(2) by auto
  show ?thesis
    by (rule conjI [OF list_empty_iff [OF assms] conjI [OF ring_count [OF assms]]])
      (use entry rep across other ring_list_add [OF assms] ring_list_add_tail [OF assms] in blast)
qed

definition heap_null :: list_heap where
  "heap_null = \<lparr>nxt = (\<lambda>_. 0), prv = (\<lambda>_. 0)\<rparr>"

theorem list_ops_refine_sequences_witness:
  "list_count_nodes 10 (list_init 10 heap_null) = Some 0
   \<and> ring (list_move 20 50 (list_init 50 (list_add 20 10 (list_init 10 heap_null)))) 50 [20]
   \<and> ring (list_move 20 50 (list_init 50 (list_add 20 10 (list_init 10 heap_null)))) 10 []"
proof -
  let ?h0 = "list_init 10 heap_null" let ?h1 = "list_init 50 (list_add 20 10 ?h0)"
  note r0 = ring_init [of 10 heap_null]
  have "ring (list_add 20 10 ?h0) 10 [20]" using list_ops_refine_sequences [OF r0] by simp
  then have r1: "ring ?h1 10 [20]" by (rule ring_frame) (auto simp: list_init_def heap_ops)
  have "list_count_nodes 10 ?h0 = Some 0" using list_ops_refine_sequences [OF r0] by simp
  moreover have "ring (list_move 20 50 ?h1) 10 [] \<and> ring (list_move 20 50 ?h1) 50 [20]"
    using list_ops_refine_sequences [OF r1] ring_init [of 50 "list_add 20 10 ?h0"] by fastforce
  ultimately show ?thesis by simp
qed

end
