(* ===== verification/Blocks.thy ===== *)
theory Blocks
  imports Prelude
begin

text \<open>
  Naturally aligned blocks of \<open>2 ^ order\<close> page frames and their buddies
  (\<open>find_buddy_pfn\<close> in \<open>src/src/include/brk/pgalloc.h\<close>).
\<close>

definition find_buddy_pfn :: "nat \<Rightarrow> nat \<Rightarrow> nat" where
  "find_buddy_pfn pfn order = pfn XOR (2 ^ order)"

definition block :: "nat \<Rightarrow> nat \<Rightarrow> nat set" where
  "block p ord = {p..<p + 2 ^ ord}"

lemma block_nonempty [simp]: "block p ord \<noteq> {}"
  by (simp add: block_def)

lemma finite_block [simp]: "finite (block p ord)"
  by (simp add: block_def)

lemma block_start [simp]: "p \<in> block p ord"
  by (simp add: block_def)

lemma block_0 [simp]: "block p 0 = {p}"
  by (auto simp: block_def)

lemma card_block [simp]: "card (block p ord) = 2 ^ ord"
  by (simp add: block_def)

lemma xor_1_nat: "q XOR 1 = (if even q then q + 1 else q - (1::nat))"
proof -
  have "q XOR 1 = q + of_bool (even q) - of_bool (odd q)" by (rule xor_one_eq)
  then show ?thesis by (simp split: if_splits)
qed

lemma buddy_cases:
  assumes "2 ^ ord dvd p"
  shows "2 ^ Suc ord dvd p \<and> find_buddy_pfn p ord = p + 2 ^ ord
    \<or> 2 ^ ord \<le> p \<and> 2 ^ Suc ord dvd p - 2 ^ ord \<and> find_buddy_pfn p ord = p - 2 ^ ord"
proof -
  from assms obtain q where q: "p = 2 ^ ord * q" by blast
  have "find_buddy_pfn p ord = push_bit ord q XOR push_bit ord 1"
    by (simp add: find_buddy_pfn_def q push_bit_eq_mult mult.commute)
  also have "\<dots> = push_bit ord (q XOR 1)" by (simp only: push_bit_xor)
  finally have b: "find_buddy_pfn p ord = 2 ^ ord * (q XOR 1)"
    by (simp add: push_bit_eq_mult mult.commute)
  show ?thesis
  proof (cases "even q")
    case True
    then have "q XOR 1 = q + 1" "2 ^ Suc ord dvd p" by (auto simp only: xor_1_nat q) auto
    with b show ?thesis by (simp add: q)
  next
    case False
    then obtain m where m: "q = 2 * m + 1" by (blast elim: oddE)
    then have "p - 2 ^ ord = 2 ^ Suc ord * m" "2 ^ ord \<le> p" by (simp_all add: q algebra_simps)
    moreover have "q XOR 1 = 2 * m" unfolding xor_1_nat using False m by simp
    with b have "find_buddy_pfn p ord = p - 2 ^ ord" by (simp add: q m algebra_simps)
    ultimately show ?thesis by (metis dvd_triv_left)
  qed
qed

lemma buddy_aligned: "2 ^ ord dvd p \<Longrightarrow> 2 ^ ord dvd find_buddy_pfn p ord"
  using buddy_cases [of ord p] by (auto simp: dvd_diff_nat)

lemma buddy_neq: "2 ^ ord dvd p \<Longrightarrow> find_buddy_pfn p ord \<noteq> p"
proof -
  have "(0::nat) < 2 ^ ord" by simp
  then show "2 ^ ord dvd p \<Longrightarrow> find_buddy_pfn p ord \<noteq> p"
    using buddy_cases [of ord p] by linarith
qed

lemma buddy_min_aligned: "2 ^ ord dvd p \<Longrightarrow> 2 ^ Suc ord dvd min p (find_buddy_pfn p ord)"
  using buddy_cases [of ord p] by (metis diff_le_self le_add1 min_absorb1 min_absorb2)

lemma buddy_union:
  "2 ^ ord dvd p \<Longrightarrow> block (min p (find_buddy_pfn p ord)) (Suc ord) = block p ord \<union> block (find_buddy_pfn p ord) ord"
  using buddy_cases [of ord p] by (auto simp: block_def min_def)

lemma buddy_disjoint: "2 ^ ord dvd p \<Longrightarrow> block p ord \<inter> block (find_buddy_pfn p ord) ord = {}"
  using buddy_cases [of ord p] by (auto simp: block_def)

text \<open>In a memory of whole maximal blocks the buddy of a block in range is in range.\<close>

lemma aligned_fits:
  assumes "2 ^ k dvd p" "2 ^ k dvd N" "p < (N::nat)"
  shows "p + 2 ^ k \<le> N"
proof -
  obtain a b where "p = 2 ^ k * a" "N = 2 ^ k * b" using assms by blast
  with assms(3) have "Suc a \<le> b" by simp
  then have "2 ^ k * Suc a \<le> 2 ^ k * b" by (rule mult_le_mono2)
  then show ?thesis by (simp add: \<open>p = _\<close> \<open>N = _\<close>)
qed

lemma buddy_fits:
  assumes "2 ^ ord dvd p" "p + 2 ^ ord \<le> N" "2 ^ Suc ord dvd N"
  shows "min p (find_buddy_pfn p ord) + 2 ^ Suc ord \<le> N" "find_buddy_pfn p ord + 2 ^ ord \<le> N"
proof -
  let ?m = "min p (find_buddy_pfn p ord)"
  have pos: "(0::nat) < 2 ^ ord" by simp
  with assms(2) have "?m < N" by linarith
  from aligned_fits [OF buddy_min_aligned [OF assms(1)] assms(3) this]
  show fits: "?m + 2 ^ Suc ord \<le> N" .
  have "block (find_buddy_pfn p ord) ord \<subseteq> block ?m (Suc ord)"
    using buddy_union [OF assms(1)] by blast
  moreover have "find_buddy_pfn p ord + 2 ^ ord - 1 \<in> block (find_buddy_pfn p ord) ord"
    unfolding block_def atLeastLessThan_iff using pos by linarith
  ultimately have "find_buddy_pfn p ord + 2 ^ ord - 1 \<in> block ?m (Suc ord)" by blast
  then have "find_buddy_pfn p ord + 2 ^ ord - 1 < ?m + 2 ^ Suc ord"
    by (simp add: block_def)
  with fits show "find_buddy_pfn p ord + 2 ^ ord \<le> N" by linarith
qed

text \<open>Splitting a block gives its lower half and the buddy above it.\<close>

lemma block_halves:
  "block p (Suc ord) = block p ord \<union> block (p + 2 ^ ord) ord"
  "block p ord \<inter> block (p + 2 ^ ord) ord = {}"
  by (auto simp: block_def)

lemma dvd_half: "2 ^ Suc ord dvd p \<Longrightarrow> 2 ^ ord dvd p \<and> 2 ^ ord dvd p + (2 ^ ord :: nat)"
  by (metis dvd_add dvd_mult_left dvd_refl power_Suc2)

lemma buddy_half: "2 ^ Suc k dvd p \<Longrightarrow> find_buddy_pfn (p + 2 ^ k) k = p"
proof -
  assume p: "2 ^ Suc k dvd p"
  have "find_buddy_pfn p k = p + 2 ^ k"
  proof (rule ccontr)
    assume "find_buddy_pfn p k \<noteq> p + 2 ^ k"
    then have "2 ^ k \<le> p" "2 ^ Suc k dvd p - 2 ^ k" using buddy_cases [of k p] dvd_half [OF p] by auto
    from dvd_diff_nat [OF p this(2)]
    have "2 ^ Suc k dvd (2 ^ k :: nat)" using \<open>2 ^ k \<le> p\<close> by (simp only: diff_diff_cancel)
    then show False by (auto dest: dvd_imp_le)
  qed
  then show "find_buddy_pfn (p + 2 ^ k) k = p"
    by (metis find_buddy_pfn_def xor.assoc xor.right_neutral xor_self_eq)
qed

text \<open>Aligned blocks are nested or apart.\<close>

lemma aligned_block_subset:
  assumes "2 ^ k dvd m" "2 ^ r dvd q" "k \<le> r" "x \<in> block m k" "x \<in> block q r"
  shows "block m k \<subseteq> block q r"
proof -
  have x: "m \<le> x" "x < m + 2 ^ k" "q \<le> x" "x < q + 2 ^ r" using assms(4,5) by (auto simp: block_def)
  have kr: "2 ^ k dvd q" "2 ^ k dvd q + 2 ^ r"
    using assms(2,3) le_imp_power_dvd [of k r "2 :: nat"] by (auto intro: dvd_trans)
  have "q \<le> m"
  proof (rule ccontr)
    assume "\<not> q \<le> m"
    with aligned_fits [OF assms(1) kr(1)] x show False by linarith
  qed
  moreover have "m + 2 ^ k \<le> q + 2 ^ r"
    using aligned_fits [OF assms(1) kr(2)] x by linarith
  ultimately show ?thesis by (auto simp: block_def)
qed

end
