(* ===== verification/Refcnt.thy ===== *)
theory Refcnt
  imports Prelude
begin

text \<open>
  Reference counts (\<open>src/src/lib/refcnt.c\<close>): a 32-bit counter whose operations run under the
  counter's spinlock, so that concurrent callers see them in some order. Decrements stop at
  zero, increments wrap at \<open>2 ^ 32\<close>. A run of the counter is a list of operations.
\<close>

section \<open>Model\<close>

record refcnt_t =
  counter :: u32

definition refcnt_init :: "u32 \<Rightarrow> refcnt_t" where
  "refcnt_init val = \<lparr>counter = val\<rparr>"

definition refcnt_read :: "refcnt_t \<Rightarrow> u32" where
  "refcnt_read rc = counter rc"

definition refcnt_fetch_inc :: "refcnt_t \<Rightarrow> u32 \<times> refcnt_t" where
  "refcnt_fetch_inc rc = (counter rc, rc\<lparr>counter := counter rc + 1\<rparr>)"

definition refcnt_fetch_dec :: "refcnt_t \<Rightarrow> u32 \<times> refcnt_t" where
  "refcnt_fetch_dec rc =
     (if counter rc > 0 then (counter rc, rc\<lparr>counter := counter rc - 1\<rparr>) else (0, rc))"

definition refcnt_inc_fetch :: "refcnt_t \<Rightarrow> u32 \<times> refcnt_t" where
  "refcnt_inc_fetch rc =
     (let rc' = rc\<lparr>counter := counter rc + 1\<rparr> in (counter rc', rc'))"

definition refcnt_dec_fetch :: "refcnt_t \<Rightarrow> u32 \<times> refcnt_t" where
  "refcnt_dec_fetch rc =
     (if counter rc > 0
      then (let rc' = rc\<lparr>counter := counter rc - 1\<rparr> in (counter rc', rc'))
      else (0, rc))"

definition refcnt_inc :: "refcnt_t \<Rightarrow> refcnt_t" where
  "refcnt_inc rc = snd (refcnt_inc_fetch rc)"

definition refcnt_dec :: "refcnt_t \<Rightarrow> refcnt_t" where
  "refcnt_dec rc = snd (refcnt_dec_fetch rc)"

definition refcnt_inc_unless_zero :: "refcnt_t \<Rightarrow> bool \<times> refcnt_t" where
  "refcnt_inc_unless_zero rc =
     (if counter rc > 0 then (True, rc\<lparr>counter := counter rc + 1\<rparr>) else (False, rc))"

lemmas refcnt_defs = refcnt_init_def refcnt_read_def refcnt_fetch_inc_def refcnt_fetch_dec_def
  refcnt_inc_fetch_def refcnt_dec_fetch_def refcnt_inc_def refcnt_dec_def
  refcnt_inc_unless_zero_def Let_def

section \<open>Counting\<close>

lemma unat_inc: "unat (counter rc) + 1 < 2 ^ 32 \<Longrightarrow> unat (counter (refcnt_inc rc)) = unat (counter rc) + 1"
  by (simp add: refcnt_defs unat_word_ariths)

lemma unat_dec_fetch:
  "unat (fst (refcnt_dec_fetch rc)) = unat (counter rc) - 1"
  "unat (counter (snd (refcnt_dec_fetch rc))) = unat (counter rc) - 1"
proof -
  have "unat (counter rc - 1) = unat (counter rc) - 1" if "0 < counter rc"
    using that by (simp add: unat_minus_one word_neq_0_conv)
  then show "unat (fst (refcnt_dec_fetch rc)) = unat (counter rc) - 1"
    "unat (counter (snd (refcnt_dec_fetch rc))) = unat (counter rc) - 1"
    by (auto simp: refcnt_defs word_neq_0_conv [symmetric])
qed

text \<open>
  The protocol of the kernel's reference holders: \<open>Get\<close> takes a reference while one is held
  (\<open>page_get\<close>, \<open>cached_page_get\<close>), \<open>Upgrade\<close> takes one through a weak pointer
  (\<open>refcnt_inc_unless_zero\<close>), \<open>Put\<close> drops one; the object dies with the \<open>Put\<close> that reads
  zero. A run collects what each call returned.
\<close>

datatype refop = Get | Upgrade | Put

datatype refres = Taken bool | Dropped u32

fun refcnt_step :: "refop \<Rightarrow> refcnt_t \<Rightarrow> refres \<times> refcnt_t" where
  "refcnt_step Get rc = (Taken True, refcnt_inc rc)"
| "refcnt_step Upgrade rc = (let (t, rc) = refcnt_inc_unless_zero rc in (Taken t, rc))"
| "refcnt_step Put rc = (let (v, rc) = refcnt_dec_fetch rc in (Dropped v, rc))"

fun refcnt_run :: "refop list \<Rightarrow> refcnt_t \<Rightarrow> refres list \<times> refcnt_t" where
  "refcnt_run [] rc = ([], rc)"
| "refcnt_run (op # ops) rc =
     (let (r, rc) = refcnt_step op rc; (rs, rc) = refcnt_run ops rc in (r # rs, rc))"

text \<open>The references held after a run that starts with \<open>n\<close> of them.\<close>

fun refs_held :: "refop list \<Rightarrow> nat \<Rightarrow> nat" where
  "refs_held [] n = n"
| "refs_held (Get # ops) n = refs_held ops (n + 1)"
| "refs_held (Upgrade # ops) n = refs_held ops (if n = 0 then 0 else n + 1)"
| "refs_held (Put # ops) n = refs_held ops (n - 1)"

text \<open>Holders drop only what they hold, and \<open>Get\<close> needs a live object.\<close>

fun refs_ok :: "refop list \<Rightarrow> nat \<Rightarrow> bool" where
  "refs_ok [] n \<longleftrightarrow> True"
| "refs_ok (Get # ops) n \<longleftrightarrow> 0 < n \<and> n + 1 < 2 ^ 32 \<and> refs_ok ops (n + 1)"
| "refs_ok (Upgrade # ops) n \<longleftrightarrow> n + 1 < 2 ^ 32 \<and> refs_ok ops (if n = 0 then 0 else n + 1)"
| "refs_ok (Put # ops) n \<longleftrightarrow> 0 < n \<and> refs_ok ops (n - 1)"

lemma upgrade_counts:
  assumes "unat (counter rc) + 1 < 2 ^ 32"
  shows "fst (refcnt_inc_unless_zero rc) \<longleftrightarrow> 0 < unat (counter rc)"
    and "unat (counter (snd (refcnt_inc_unless_zero rc)))
      = (if unat (counter rc) = 0 then 0 else unat (counter rc) + 1)"
proof -
  have "0 < counter rc \<longleftrightarrow> 0 < unat (counter rc)"
    by (simp add: word_less_nat_alt)
  then show "fst (refcnt_inc_unless_zero rc) \<longleftrightarrow> 0 < unat (counter rc)"
    "unat (counter (snd (refcnt_inc_unless_zero rc)))
      = (if unat (counter rc) = 0 then 0 else unat (counter rc) + 1)"
    using unat_inc [OF assms] by (simp_all add: refcnt_defs)
qed

lemma refcnt_run_counts:
  "refs_ok ops (unat (counter rc)) \<Longrightarrow>
     unat (counter (snd (refcnt_run ops rc))) = refs_held ops (unat (counter rc))"
proof (induction ops arbitrary: rc)
  case (Cons op ops)
  have "snd (refcnt_run (op # ops) rc) = snd (refcnt_run ops (snd (refcnt_step op rc)))"
    by (simp add: split_beta Let_def)
  then show ?case
    using Cons.IH [of "snd (refcnt_step op rc)"] Cons.prems
    by (cases op) (auto simp: unat_inc unat_dec_fetch upgrade_counts split_beta)
qed simp

lemma refcnt_run_dropped_pos:
  assumes "refs_ok ops (unat (counter rc))" "\<forall>k < length ops. 0 < refs_held (take (Suc k) ops) (unat (counter rc))"
  shows "Dropped 0 \<notin> set (fst (refcnt_run ops rc))"
  using assms
proof (induction ops arbitrary: rc)
  case (Cons op ops)
  let ?rc = "snd (refcnt_step op rc)"
  have step: "unat (counter ?rc) = refs_held [op] (unat (counter rc))" and ok: "refs_ok ops (unat (counter ?rc))"
    using Cons.prems(1) by (cases op; auto simp: unat_inc unat_dec_fetch upgrade_counts split_beta)+
  have held: "refs_held (op # xs) n = refs_held xs (refs_held [op] n)" for xs n
    by (cases op) auto
  have "Dropped 0 \<notin> set (fst (refcnt_run ops ?rc))"
  proof (rule Cons.IH [OF ok], intro allI impI)
    fix k assume "k < length ops"
    with Cons.prems(2) have "0 < refs_held (take (Suc (Suc k)) (op # ops)) (unat (counter rc))"
      by (metis Suc_less_eq length_Cons)
    then show "0 < refs_held (take (Suc k) ops) (unat (counter ?rc))"
      by (simp add: step held [of "take (Suc k) ops"])
  qed
  moreover have "0 < refs_held [op] (unat (counter rc))"
    using Cons.prems(2) [rule_format, of 0] by simp
  then have "fst (refcnt_step op rc) \<noteq> Dropped 0"
    using unat_dec_fetch(1) [of rc] by (cases op) (auto simp: split_beta)
  ultimately show ?case by (simp add: split_beta Let_def)
qed simp

lemma refcnt_run_append:
  "refcnt_run (ops @ ops') rc =
     (fst (refcnt_run ops rc) @ fst (refcnt_run ops' (snd (refcnt_run ops rc))),
      snd (refcnt_run ops' (snd (refcnt_run ops rc))))"
  by (induction ops arbitrary: rc) (simp_all add: split_beta Let_def)

section \<open>Properties\<close>

text \<open>
  C5: Reference counting releases an object exactly once. In any order of get, upgrade and
  put operations on a counter that starts at one, where holders only drop references they
  hold and the count stays below \<open>2 ^ 32\<close>: no put reads zero while references are held, the
  put that drops the last reference reads zero, and afterwards no weak holder can revive the
  object (\<open>refcnt_inc_unless_zero\<close> fails and leaves the count at zero).
\<close>

theorem refcnt_last_put:
  assumes "refs_ok ops 1" and "\<forall>k < length ops. 0 < refs_held (take (Suc k) ops) 1"
    and "refs_held ops 1 = 1"
  shows "Dropped 0 \<notin> set (fst (refcnt_run ops (refcnt_init 1)))
    \<and> fst (refcnt_run (ops @ [Put, Upgrade]) (refcnt_init 1))
        = fst (refcnt_run ops (refcnt_init 1)) @ [Dropped 0, Taken False]
    \<and> refcnt_read (snd (refcnt_run (ops @ [Put, Upgrade]) (refcnt_init 1))) = 0"
proof -
  let ?rc = "refcnt_init 1" and ?r = "snd (refcnt_run ops (refcnt_init 1))"
  have one: "unat (counter ?rc) = 1" by (simp add: refcnt_init_def)
  have "unat (counter ?r) = 1"
    using refcnt_run_counts [of ops ?rc] assms one by simp
  then have "counter ?r = 1" by (metis unat_1 unsigned_word_eqI)
  then have "refcnt_run [Put, Upgrade] ?r = ([Dropped 0, Taken False], ?r\<lparr>counter := 0\<rparr>)"
    by (simp add: refcnt_defs)
  with refcnt_run_dropped_pos [of ops ?rc] assms one show ?thesis
    by (simp add: refcnt_run_append refcnt_read_def)
qed

theorem refcnt_last_put_witness:
  "fst (refcnt_run [Get, Upgrade, Put, Put, Put, Upgrade] (refcnt_init 1))
     = fst (refcnt_run [Get, Upgrade, Put, Put] (refcnt_init 1)) @ [Dropped 0, Taken False]"
proof -
  have all: "(\<forall>k < Suc n. P k) \<longleftrightarrow> P 0 \<and> (\<forall>k < n. P (Suc k))" for n and P :: "nat \<Rightarrow> bool"
    by (simp add: All_less_Suc2)
  show ?thesis
    using refcnt_last_put [of "[Get, Upgrade, Put, Put]"] by (simp add: all)
qed

end
