(* ===== verification/Pgalloc.thy ===== *)
theory Pgalloc
  imports Blocks Refcnt
begin

text \<open>
  The physical page allocator (\<open>src/src/mm/pgalloc.c\<close>, \<open>src/src/include/brk/pgalloc.h\<close>): a
  buddy system with one free list per order and a cache of single pages per CPU.

  A \<open>struct page\<close> is named by its page frame number, its index in the memory map. The free
  lists hold frame numbers, first entry first. The model runs one call at a time; the spin
  locks that serialise the calls are not part of the state. Reading or writing a
  \<open>struct page\<close> outside the memory map makes the call fail.
\<close>

section \<open>Model\<close>

definition PAGE_SHIFT :: nat where [layout_simps]: "PAGE_SHIFT = 12"
definition PAGE_SIZE :: nat where [layout_simps]: "PAGE_SIZE = 0x1000"
definition PAGE_ORDER_MAX :: nat where [layout_simps]: "PAGE_ORDER_MAX = 12"
definition PCP_MAX_ORDER0 :: nat where [layout_simps]: "PCP_MAX_ORDER0 = 64"
definition MAX_CPUS :: nat where [layout_simps]: "MAX_CPUS = 8"

definition PAGE_FLAGS_BUDDY :: u32 where "PAGE_FLAGS_BUDDY = 1"
definition PAGE_FLAGS_HEAD :: u32 where "PAGE_FLAGS_HEAD = 2"
definition PAGE_FLAGS_SLAB :: u32 where "PAGE_FLAGS_SLAB = 4"
definition PAGE_FLAGS_FREE :: u32 where "PAGE_FLAGS_FREE = 8"
definition PAGE_FLAGS_KMALLOC :: u32 where "PAGE_FLAGS_KMALLOC = 16"
definition PAGE_FLAGS_PCP :: u32 where "PAGE_FLAGS_PCP = 32"

definition PAGE_FLAGS_NEW_PAGE :: u32 where
  "PAGE_FLAGS_NEW_PAGE = PAGE_FLAGS_BUDDY OR PAGE_FLAGS_HEAD"

definition PAGE_FLAGS_NEW_FREE_PAGE :: u32 where
  "PAGE_FLAGS_NEW_FREE_PAGE = PAGE_FLAGS_BUDDY OR PAGE_FLAGS_HEAD OR PAGE_FLAGS_FREE"

lemmas page_flag_defs = PAGE_FLAGS_BUDDY_def PAGE_FLAGS_HEAD_def PAGE_FLAGS_SLAB_def
  PAGE_FLAGS_FREE_def PAGE_FLAGS_KMALLOC_def PAGE_FLAGS_PCP_def PAGE_FLAGS_NEW_PAGE_def
  PAGE_FLAGS_NEW_FREE_PAGE_def

record page =
  pg_flags :: u32
  pg_refcnt :: refcnt_t
  buddy_page_order :: nat

record pcp_cache =
  pcp_pages :: "nat list"
  pcp_count :: nat

text \<open>
  The allocator's state: the memory map, the free lists by order, the per-CPU caches, the
  CPU the call runs on, the physical address of frame 0 and the memory contents, by physical
  address.
\<close>

record pgalloc =
  mem_map :: "page list"
  areas :: "nat list list"
  pcps :: "pcp_cache list"
  this_cpuid :: nat
  phys_offset :: nat
  ram :: "nat \<Rightarrow> u8"

definition flag_set :: "u32 \<Rightarrow> u32 \<Rightarrow> bool" where
  "flag_set flags mask0 \<longleftrightarrow> flags AND mask0 \<noteq> 0"

definition phys_to_pfn :: "pgalloc \<Rightarrow> nat \<Rightarrow> nat" where
  "phys_to_pfn s paddr = drop_bit PAGE_SHIFT (sub64 paddr (phys_offset s))"

definition pfn_to_phys :: "pgalloc \<Rightarrow> nat \<Rightarrow> nat" where
  "pfn_to_phys s pfn = wrap64 (push_bit PAGE_SHIFT pfn + phys_offset s)"

text \<open>The loop of \<open>page_order\<close>, from the given order on.\<close>

function page_order_from :: "nat \<Rightarrow> nat \<Rightarrow> nat" where
  "page_order_from order sz =
     (if order < PAGE_ORDER_MAX
      then if PAGE_SIZE * 2 ^ order \<ge> sz then order else page_order_from (order + 1) sz
      else PAGE_ORDER_MAX)"
  by auto
termination by (relation "measure (\<lambda>(order, _). PAGE_ORDER_MAX - order)") auto

declare page_order_from.simps [simp del]

definition page_order :: "nat \<Rightarrow> nat" where
  "page_order sz = page_order_from 0 sz"

text \<open>A store to one field of a page, and the removal of a page from the free list it is on.\<close>

definition upd_page :: "nat \<Rightarrow> (page \<Rightarrow> page) \<Rightarrow> pgalloc \<Rightarrow> pgalloc option" where
  "upd_page p f s = do {
     pg \<leftarrow> nth_opt (mem_map s) p;
     Some (s\<lparr>mem_map := (mem_map s)[p := f pg]\<rparr>)
   }"

definition area_unlink :: "nat \<Rightarrow> pgalloc \<Rightarrow> pgalloc option" where
  "area_unlink p s =
     (if \<exists>l \<in> set (areas s). p \<in> set l then Some (s\<lparr>areas := map (remove1 p) (areas s)\<rparr>) else None)"

definition area_push :: "nat \<Rightarrow> nat \<Rightarrow> pgalloc \<Rightarrow> pgalloc option" where
  "area_push order p s = do {
     l \<leftarrow> nth_opt (areas s) order;
     Some (s\<lparr>areas := (areas s)[order := p # l]\<rparr>)
   }"

definition pcp_alloc :: "pgalloc \<Rightarrow> (nat option \<times> pgalloc) option" where
  "pcp_alloc s = do {
     pcp \<leftarrow> nth_opt (pcps s) (this_cpuid s);
     (case pcp_pages pcp of
        [] \<Rightarrow> Some (None, s)
      | pg # rest \<Rightarrow> do {
          s \<leftarrow> Some (s\<lparr>pcps := (pcps s)[this_cpuid s :=
                 pcp\<lparr>pcp_pages := rest, pcp_count := sub64 (pcp_count pcp) 1\<rparr>]\<rparr>);
          p \<leftarrow> nth_opt (mem_map s) pg;
          _ \<leftarrow> assert_opt (flag_set (pg_flags p) PAGE_FLAGS_PCP);
          s \<leftarrow> upd_page pg (\<lambda>p. p\<lparr>pg_flags := pg_flags p AND NOT (PAGE_FLAGS_FREE OR PAGE_FLAGS_PCP),
                 buddy_page_order := 0\<rparr>) s;
          Some (Some pg, s)
        })
   }"

definition pcp_free :: "nat \<Rightarrow> pgalloc \<Rightarrow> (bool \<times> pgalloc) option" where
  "pcp_free pg s = do {
     pcp \<leftarrow> nth_opt (pcps s) (this_cpuid s);
     if pcp_count pcp < PCP_MAX_ORDER0 then do {
       s \<leftarrow> upd_page pg (\<lambda>p. p\<lparr>pg_flags := PAGE_FLAGS_NEW_FREE_PAGE OR PAGE_FLAGS_PCP,
              buddy_page_order := 0\<rparr>) s;
       Some (True, s\<lparr>pcps := (pcps s)[this_cpuid s :=
              pcp\<lparr>pcp_pages := pg # pcp_pages pcp, pcp_count := pcp_count pcp + 1\<rparr>]\<rparr>)
     } else Some (False, s)
   }"

definition page_is_buddy :: "page \<Rightarrow> nat \<Rightarrow> bool" where
  "page_is_buddy buddy order \<longleftrightarrow>
     (if \<not> flag_set (pg_flags buddy) PAGE_FLAGS_BUDDY then False
      else if \<not> flag_set (pg_flags buddy) PAGE_FLAGS_HEAD then False
      else if \<not> flag_set (pg_flags buddy) PAGE_FLAGS_FREE then False
      else if flag_set (pg_flags buddy) PAGE_FLAGS_PCP then False
      else if buddy_page_order buddy \<noteq> order then False
      else True)"

text \<open>The merge loop of \<open>__page_free_to_buddy\<close>; it returns the block it ends with.\<close>

function buddy_merge :: "nat \<Rightarrow> nat \<Rightarrow> pgalloc \<Rightarrow> (nat \<times> nat \<times> pgalloc) option" where
  "buddy_merge pg order s =
     (if order < PAGE_ORDER_MAX then do {
        b \<leftarrow> nth_opt (mem_map s) (find_buddy_pfn pg order);
        if \<not> page_is_buddy b order then Some (pg, order, s)
        else do {
          s \<leftarrow> area_unlink (find_buddy_pfn pg order) s;
          s \<leftarrow> upd_page (find_buddy_pfn pg order) (\<lambda>p. p\<lparr>pg_flags := 0\<rparr>) s;
          buddy_merge (min pg (find_buddy_pfn pg order)) (order + 1) s
        }
      } else Some (pg, order, s))"
  by auto
termination by (relation "measure (\<lambda>(_, order, _). PAGE_ORDER_MAX - order)") auto

declare buddy_merge.simps [simp del]

definition page_phys_aligned :: "pgalloc \<Rightarrow> nat \<Rightarrow> nat \<Rightarrow> bool" where
  "page_phys_aligned s pg order \<longleftrightarrow> is_aligned (pfn_to_phys s pg) (2 ^ (PAGE_SHIFT + order))"

definition page_free_to_buddy :: "nat \<Rightarrow> nat \<Rightarrow> pgalloc \<Rightarrow> pgalloc option" where
  "page_free_to_buddy pg order s = do {
     p \<leftarrow> nth_opt (mem_map s) pg;
     _ \<leftarrow> assert_opt (flag_set (pg_flags p) PAGE_FLAGS_BUDDY);
     _ \<leftarrow> assert_opt (\<not> flag_set (pg_flags p) PAGE_FLAGS_FREE);
     _ \<leftarrow> assert_opt (\<not> flag_set (pg_flags p) PAGE_FLAGS_PCP);
     _ \<leftarrow> assert_opt (flag_set (pg_flags p) PAGE_FLAGS_HEAD);
     _ \<leftarrow> assert_opt (page_phys_aligned s pg order);
     s \<leftarrow> upd_page pg (\<lambda>p. p\<lparr>pg_flags := 0\<rparr>) s;
     (pg, order, s) \<leftarrow> buddy_merge pg order s;
     s \<leftarrow> upd_page pg (\<lambda>p. p\<lparr>pg_flags := PAGE_FLAGS_NEW_FREE_PAGE, buddy_page_order := order\<rparr>) s;
     area_push order pg s
   }"

lemma buddy_merge_pcps: "buddy_merge pg order s = Some (pg', order', s') \<Longrightarrow> pcps s' = pcps s"
proof (induction pg order s rule: buddy_merge.induct)
  case (1 pg order s)
  from "1.prems" show ?case
    by (subst (asm) buddy_merge.simps)
      (auto simp: bind_Some_conv upd_page_def area_unlink_def dest!: "1.IH" split: if_splits)
qed

lemma page_free_to_buddy_pcps: "page_free_to_buddy pg order s = Some s' \<Longrightarrow> pcps s' = pcps s"
  by (auto simp: page_free_to_buddy_def bind_Some_conv upd_page_def area_push_def
      dest!: buddy_merge_pcps split: prod.splits)

text \<open>The inner loop of \<open>pcp_drain_all\<close> for CPU \<open>i\<close>.\<close>

function pcp_drain :: "nat \<Rightarrow> pgalloc \<Rightarrow> pgalloc option" where
  "pcp_drain i s = do {
     pcp \<leftarrow> nth_opt (pcps s) i;
     (case pcp_pages pcp of
        [] \<Rightarrow> Some s
      | pg # rest \<Rightarrow> do {
          p \<leftarrow> nth_opt (mem_map s) pg;
          _ \<leftarrow> assert_opt (flag_set (pg_flags p) PAGE_FLAGS_PCP);
          s \<leftarrow> upd_page pg (\<lambda>p. p\<lparr>pg_flags := PAGE_FLAGS_NEW_PAGE, buddy_page_order := 0\<rparr>)
                 (s\<lparr>pcps := (pcps s)[i := pcp\<lparr>pcp_pages := rest, pcp_count := sub64 (pcp_count pcp) 1\<rparr>]\<rparr>);
          s \<leftarrow> page_free_to_buddy pg 0 s;
          pcp_drain i s
        })
   }"
  by auto
termination
  by (relation "measure (\<lambda>(i, s). length (pcp_pages (pcps s ! i)))")
    (auto simp: nth_opt_Some_iff upd_page_def bind_Some_conv dest!: page_free_to_buddy_pcps)

declare pcp_drain.simps [simp del]

fun pcp_drain_from :: "nat list \<Rightarrow> pgalloc \<Rightarrow> pgalloc option" where
  "pcp_drain_from [] s = Some s"
| "pcp_drain_from (i # is) s = do { s \<leftarrow> pcp_drain i s; pcp_drain_from is s }"

definition pcp_drain_all :: "pgalloc \<Rightarrow> pgalloc option" where
  "pcp_drain_all s = pcp_drain_from [0..<MAX_CPUS] s"

text \<open>The search loop of \<open>page_alloc\<close>: the first order with a free block.\<close>

function find_area :: "nat \<Rightarrow> pgalloc \<Rightarrow> nat option option" where
  "find_area curr_order s =
     (if curr_order \<le> PAGE_ORDER_MAX then do {
        l \<leftarrow> nth_opt (areas s) curr_order;
        if l \<noteq> [] then Some (Some curr_order) else find_area (curr_order + 1) s
      } else Some None)"
  by auto
termination by (relation "measure (\<lambda>(ord, _). Suc PAGE_ORDER_MAX - ord)") auto

declare find_area.simps [simp del]

text \<open>The split loop of \<open>page_alloc\<close>.\<close>

function buddy_split :: "nat \<Rightarrow> nat \<Rightarrow> pgalloc \<Rightarrow> pgalloc option" where
  "buddy_split order cur s = do {
     c \<leftarrow> nth_opt (mem_map s) cur;
     if buddy_page_order c > order then do {
       buddy \<leftarrow> Some (cur + drop_bit 1 (2 ^ buddy_page_order c));
       s \<leftarrow> upd_page cur (\<lambda>p. p\<lparr>buddy_page_order := buddy_page_order c - 1\<rparr>) s;
       s \<leftarrow> upd_page buddy (\<lambda>p. p\<lparr>pg_flags := PAGE_FLAGS_NEW_FREE_PAGE,
              buddy_page_order := buddy_page_order c - 1\<rparr>) s;
       s \<leftarrow> area_push (buddy_page_order c - 1) buddy s;
       buddy_split order cur s
     } else Some s
   }"
  by auto
termination
proof (relation "measure (\<lambda>(order, cur, s). buddy_page_order (mem_map s ! cur))", goal_cases)
  case (2 order cur s c buddy s1 s2 s3)
  then have "drop_bit 1 (2 ^ buddy_page_order c) = (2 ^ (buddy_page_order c - 1) :: nat)"
    by (cases "buddy_page_order c") (auto simp: drop_bit_eq_div)
  with 2 show ?case
    by (auto simp: nth_opt_Some_iff upd_page_def area_push_def bind_Some_conv)
qed simp

declare buddy_split.simps [simp del]

text \<open>One round of \<open>page_alloc\<close>, from the label \<open>again\<close> to its result or to the failed search.\<close>

definition page_alloc_round :: "nat \<Rightarrow> pgalloc \<Rightarrow> (nat option \<times> pgalloc) option" where
  "page_alloc_round order s = do {
     (cached, s) \<leftarrow> (if order = 0 then pcp_alloc s else Some (None, s));
     (case cached of
        Some cur \<Rightarrow> do {
          s \<leftarrow> upd_page cur (\<lambda>p. p\<lparr>pg_refcnt := refcnt_init 1\<rparr>) s;
          Some (Some cur, s)
        }
      | None \<Rightarrow> do {
          found \<leftarrow> find_area order s;
          (case found of
             None \<Rightarrow> Some (None, s)
           | Some curr_order \<Rightarrow> do {
               l \<leftarrow> nth_opt (areas s) curr_order;
               cur \<leftarrow> Some (last l);
               s \<leftarrow> area_unlink cur s;
               s \<leftarrow> buddy_split order cur s;
               s \<leftarrow> upd_page cur (\<lambda>p. p\<lparr>pg_flags := pg_flags p AND NOT PAGE_FLAGS_FREE,
                      pg_refcnt := refcnt_init 1\<rparr>) s;
               Some (Some cur, s)
             })
        })
   }"

text \<open>
  The whole call. \<open>shrink\<close> stands for \<open>page_cache_shrink\<close> of \<open>src/src/mm/pagecache.c\<close>,
  called once with the number of frames wanted when the first round fails. It gives back pages
  and objects of the page cache, so it acts on more than the page allocator: \<open>page_alloc_in\<close> is
  the call in a state \<open>'w\<close> of which the page allocator's state is a part.
\<close>

definition page_alloc_in :: "('w \<Rightarrow> pgalloc) \<Rightarrow> (pgalloc \<Rightarrow> 'w \<Rightarrow> 'w) \<Rightarrow> (nat \<Rightarrow> 'w \<Rightarrow> 'w option) \<Rightarrow> nat \<Rightarrow> 'w
    \<Rightarrow> (nat option \<times> 'w) option" where
  "page_alloc_in get put shrink order w = do {
     (r, s) \<leftarrow> page_alloc_round order (get w);
     (case r of
        Some cur \<Rightarrow> Some (Some cur, put s w)
      | None \<Rightarrow> do {
          s \<leftarrow> pcp_drain_all s;
          w \<leftarrow> shrink (2 ^ order) (put s w);
          (r, s) \<leftarrow> page_alloc_round order (get w);
          Some (r, put s w)
        })
   }"

text \<open>The call when nothing but the page allocator's state matters.\<close>

definition page_alloc :: "(nat \<Rightarrow> pgalloc \<Rightarrow> pgalloc option) \<Rightarrow> nat \<Rightarrow> pgalloc \<Rightarrow> (nat option \<times> pgalloc) option" where
  "page_alloc = page_alloc_in (\<lambda>s. s) (\<lambda>s _. s)"

lemma page_alloc_eq:
  "page_alloc shrink order s = do {
     (r, s) \<leftarrow> page_alloc_round order s;
     (case r of
        Some cur \<Rightarrow> Some (Some cur, s)
      | None \<Rightarrow> do {
          s \<leftarrow> pcp_drain_all s;
          s \<leftarrow> shrink (2 ^ order) s;
          page_alloc_round order s
        })
   }"
proof -
  have "Option.bind x (\<lambda>(r, s). Some (r, s)) = x" for x :: "(nat option \<times> pgalloc) option" by (cases x) auto
  then show ?thesis unfolding page_alloc_def page_alloc_in_def by (simp only:)
qed

definition page_zalloc :: "(nat \<Rightarrow> pgalloc \<Rightarrow> pgalloc option) \<Rightarrow> nat \<Rightarrow> pgalloc \<Rightarrow> (nat option \<times> pgalloc) option" where
  "page_zalloc shrink order s = do {
     (r, s) \<leftarrow> page_alloc shrink order s;
     (case r of
        None \<Rightarrow> Some (None, s)
      | Some pg \<Rightarrow> Some (Some pg, s\<lparr>ram := (\<lambda>a.
          if pfn_to_phys s pg \<le> a \<and> a < pfn_to_phys s pg + PAGE_SIZE * 2 ^ order then 0
          else ram s a)\<rparr>))
   }"

definition page_free :: "nat \<Rightarrow> nat \<Rightarrow> pgalloc \<Rightarrow> pgalloc option" where
  "page_free pg order s = do {
     p \<leftarrow> nth_opt (mem_map s) pg;
     _ \<leftarrow> assert_opt (flag_set (pg_flags p) PAGE_FLAGS_BUDDY);
     _ \<leftarrow> assert_opt (\<not> flag_set (pg_flags p) PAGE_FLAGS_FREE);
     _ \<leftarrow> assert_opt (flag_set (pg_flags p) PAGE_FLAGS_HEAD);
     _ \<leftarrow> assert_opt (page_phys_aligned s pg order);
     (cached, s) \<leftarrow> (if order = 0 then pcp_free pg s else Some (False, s));
     if cached then Some s else page_free_to_buddy pg order s
   }"

definition page_get :: "nat option \<Rightarrow> pgalloc \<Rightarrow> pgalloc option" where
  "page_get pg s =
     (case pg of
        Some pg \<Rightarrow> upd_page pg (\<lambda>p. p\<lparr>pg_refcnt := refcnt_inc (pg_refcnt p)\<rparr>) s
      | None \<Rightarrow> Some s)"

definition page_put :: "nat option \<Rightarrow> pgalloc \<Rightarrow> pgalloc option" where
  "page_put pg s =
     (case pg of
        None \<Rightarrow> Some s
      | Some pg \<Rightarrow> do {
          p \<leftarrow> nth_opt (mem_map s) pg;
          s \<leftarrow> upd_page pg (\<lambda>p. p\<lparr>pg_refcnt := snd (refcnt_dec_fetch (pg_refcnt p))\<rparr>) s;
          if fst (refcnt_dec_fetch (pg_refcnt p)) > 0 then Some s else page_free pg 0 s
        })"

definition page_alloc_init :: "pgalloc \<Rightarrow> pgalloc" where
  "page_alloc_init s = s\<lparr>areas := replicate (Suc PAGE_ORDER_MAX) [],
     pcps := replicate MAX_CPUS \<lparr>pcp_pages = [], pcp_count = 0\<rparr>\<rparr>"

end
