(* ===== verification/Pgalloc_Inv.thy ===== *)
theory Pgalloc_Inv
  imports Pgalloc
begin

text \<open>
  The invariant of the page allocator and the behaviour of its operations in terms of the set
  of free page frames.
\<close>

section \<open>Free blocks\<close>

definition area :: "pgalloc \<Rightarrow> nat \<Rightarrow> nat list" where
  "area s ord = (if ord < length (areas s) then areas s ! ord else [])"

definition pcp :: "pgalloc \<Rightarrow> nat \<Rightarrow> nat list" where
  "pcp s c = (if c < length (pcps s) then pcp_pages (pcps s ! c) else [])"

definition free_blocks :: "pgalloc \<Rightarrow> (nat \<times> nat) set" where
  "free_blocks s = {(p, ord). p \<in> set (area s ord) \<or> ord = 0 \<and> (\<exists>c. p \<in> set (pcp s c))}"

definition free_frames :: "pgalloc \<Rightarrow> nat set" where
  "free_frames s = (\<Union>(p, ord) \<in> free_blocks s. block p ord)"

text \<open>
  The fixed shape of the state. Physical memory is a whole number of maximal blocks and starts
  at a multiple of the maximal block size; without that \<open>find_buddy_page\<close> can leave the
  memory map.
\<close>

definition shape_ok :: "pgalloc \<Rightarrow> bool" where
  "shape_ok s \<longleftrightarrow> length (areas s) = Suc PAGE_ORDER_MAX \<and> length (pcps s) = MAX_CPUS
     \<and> this_cpuid s < MAX_CPUS
     \<and> 2 ^ PAGE_ORDER_MAX dvd length (mem_map s)
     \<and> 2 ^ (PAGE_SHIFT + PAGE_ORDER_MAX) dvd phys_offset s
     \<and> length (mem_map s) * PAGE_SIZE + phys_offset s \<le> 2 ^ 64"

definition block_ok :: "pgalloc \<Rightarrow> nat \<Rightarrow> nat \<Rightarrow> bool" where
  "block_ok s p ord \<longleftrightarrow> ord \<le> PAGE_ORDER_MAX \<and> 2 ^ ord dvd p \<and> p + 2 ^ ord \<le> length (mem_map s)"

text \<open>
  The invariant, with a set \<open>X\<close> of frames that may look free without being on a list: the
  block an operation is working on.
\<close>

definition pg_inv_ex :: "nat set \<Rightarrow> pgalloc \<Rightarrow> bool" where
  "pg_inv_ex X s \<longleftrightarrow> shape_ok s
     \<and> (\<forall>ord. distinct (area s ord)) \<and> (\<forall>c. distinct (pcp s c))
     \<and> (\<forall>c c'. c \<noteq> c' \<longrightarrow> set (pcp s c) \<inter> set (pcp s c') = {})
     \<and> (\<forall>c < MAX_CPUS. pcp_count (pcps s ! c) = length (pcp s c) \<and> length (pcp s c) \<le> PCP_MAX_ORDER0)
     \<and> (\<forall>ord p. p \<in> set (area s ord) \<longrightarrow> block_ok s p ord
          \<and> pg_flags (mem_map s ! p) = PAGE_FLAGS_NEW_FREE_PAGE \<and> buddy_page_order (mem_map s ! p) = ord)
     \<and> (\<forall>c p. p \<in> set (pcp s c) \<longrightarrow> p < length (mem_map s)
          \<and> pg_flags (mem_map s ! p) = PAGE_FLAGS_NEW_FREE_PAGE OR PAGE_FLAGS_PCP)
     \<and> (\<forall>b \<in> free_blocks s. \<forall>b' \<in> free_blocks s. b \<noteq> b' \<longrightarrow>
          block (fst b) (snd b) \<inter> block (fst b') (snd b') = {})
     \<and> (\<forall>p < length (mem_map s). \<forall>ord. p \<notin> X \<longrightarrow>
          page_is_buddy (mem_map s ! p) ord \<longrightarrow> p \<in> set (area s ord))"

abbreviation pg_inv :: "pgalloc \<Rightarrow> bool" where
  "pg_inv \<equiv> pg_inv_ex {}"

lemma pg_inv_shape: "pg_inv_ex X s \<Longrightarrow> shape_ok s"
  by (simp add: pg_inv_ex_def)

lemma pg_inv_distinct: "pg_inv_ex X s \<Longrightarrow> distinct (area s ord)" "pg_inv_ex X s \<Longrightarrow> distinct (pcp s c)"
  by (simp_all add: pg_inv_ex_def)

lemma pg_inv_pcp_apart: "pg_inv_ex X s \<Longrightarrow> c \<noteq> c' \<Longrightarrow> p \<in> set (pcp s c) \<Longrightarrow> p \<notin> set (pcp s c')"
  unfolding pg_inv_ex_def by (elim conjE) blast

lemma pg_inv_count:
  "pg_inv_ex X s \<Longrightarrow> c < MAX_CPUS \<Longrightarrow> pcp_count (pcps s ! c) = length (pcp s c)"
  "pg_inv_ex X s \<Longrightarrow> c < MAX_CPUS \<Longrightarrow> length (pcp s c) \<le> PCP_MAX_ORDER0"
  by (simp_all add: pg_inv_ex_def)

lemma pg_inv_area:
  "pg_inv_ex X s \<Longrightarrow> p \<in> set (area s ord) \<Longrightarrow> block_ok s p ord
     \<and> pg_flags (mem_map s ! p) = PAGE_FLAGS_NEW_FREE_PAGE \<and> buddy_page_order (mem_map s ! p) = ord"
  by (simp add: pg_inv_ex_def)

lemma pg_inv_pcp:
  "pg_inv_ex X s \<Longrightarrow> p \<in> set (pcp s c) \<Longrightarrow> p < length (mem_map s)
     \<and> pg_flags (mem_map s ! p) = PAGE_FLAGS_NEW_FREE_PAGE OR PAGE_FLAGS_PCP"
  by (simp add: pg_inv_ex_def)

lemma pg_inv_disjoint:
  assumes "pg_inv_ex X s" "b \<in> free_blocks s" "b' \<in> free_blocks s" "b \<noteq> b'"
  shows "block (fst b) (snd b) \<inter> block (fst b') (snd b') = {}"
proof -
  have "\<And>b b'. b \<in> free_blocks s \<Longrightarrow> b' \<in> free_blocks s \<Longrightarrow> b \<noteq> b' \<Longrightarrow>
      block (fst b) (snd b) \<inter> block (fst b') (snd b') = {}"
    using assms(1) unfolding pg_inv_ex_def by simp
  then show ?thesis using assms(2-4) .
qed

lemma pg_inv_listed:
  "pg_inv_ex X s \<Longrightarrow> p < length (mem_map s) \<Longrightarrow> p \<notin> X \<Longrightarrow>
     page_is_buddy (mem_map s ! p) ord \<Longrightarrow> p \<in> set (area s ord)"
  by (simp add: pg_inv_ex_def)

lemma area_bound: "pg_inv_ex X s \<Longrightarrow> p \<in> set (area s ord) \<Longrightarrow> ord < length (areas s)"
  by (simp add: area_def split: if_splits)

lemma new_free_not_pcp [simp]: "PAGE_FLAGS_NEW_FREE_PAGE \<noteq> PAGE_FLAGS_NEW_FREE_PAGE OR PAGE_FLAGS_PCP"
  by (simp add: page_flag_defs)

text \<open>A frame is on at most one list.\<close>

lemma area_unique: "pg_inv_ex X s \<Longrightarrow> p \<in> set (area s ord) \<Longrightarrow> p \<in> set (area s ord') \<Longrightarrow> ord = ord'"
  using pg_inv_area by metis

lemma area_not_pcp: "pg_inv_ex X s \<Longrightarrow> p \<in> set (area s ord) \<Longrightarrow> p \<notin> set (pcp s c)"
  using pg_inv_area pg_inv_pcp new_free_not_pcp by metis

lemma on_list_free:
  "p \<in> set (area s ord) \<Longrightarrow> block p ord \<subseteq> free_frames s"
  "p \<in> set (pcp s c) \<Longrightarrow> p \<in> free_frames s"
  by (force simp: free_frames_def free_blocks_def)+

lemma not_free_not_listed:
  assumes "p \<notin> free_frames s"
  shows "p \<notin> set (area s ord)" "p \<notin> set (pcp s c)"
  using assms on_list_free block_start by blast+

section \<open>Single steps\<close>

text \<open>
  The lists and pages after one store. All steps below are instances of these equations.
\<close>

lemma area_upd [simp]:
  "area (s\<lparr>mem_map := m\<rparr>) ord = area s ord" "area (s\<lparr>pcps := ps\<rparr>) ord = area s ord"
  "pcp (s\<lparr>mem_map := m\<rparr>) c = pcp s c" "pcp (s\<lparr>areas := as\<rparr>) c = pcp s c"
  by (simp_all add: area_def pcp_def)

lemma area_list_update:
  "area (s\<lparr>areas := (areas s)[ord := l]\<rparr>) ord' = (if ord' = ord \<and> ord < length (areas s) then l else area s ord')"
  by (simp add: area_def)

lemma pcp_list_update:
  "pcp (s\<lparr>pcps := (pcps s)[c := q]\<rparr>) c' = (if c' = c \<and> c < length (pcps s) then pcp_pages q else pcp s c')"
  by (simp add: pcp_def)

lemma free_blocks_upd_mem_map [simp]:
  "free_blocks (s\<lparr>mem_map := m\<rparr>) = free_blocks s" "free_frames (s\<lparr>mem_map := m\<rparr>) = free_frames s"
  by (simp_all add: free_blocks_def free_frames_def)

lemma pg_inv_exI:
  assumes "shape_ok s" "\<And>ord. distinct (area s ord)" "\<And>c. distinct (pcp s c)"
    and "\<And>c c' p. c \<noteq> c' \<Longrightarrow> p \<in> set (pcp s c) \<Longrightarrow> p \<notin> set (pcp s c')"
    and "\<And>c. c < MAX_CPUS \<Longrightarrow> pcp_count (pcps s ! c) = length (pcp s c) \<and> length (pcp s c) \<le> PCP_MAX_ORDER0"
    and "\<And>ord p. p \<in> set (area s ord) \<Longrightarrow> block_ok s p ord
        \<and> pg_flags (mem_map s ! p) = PAGE_FLAGS_NEW_FREE_PAGE \<and> buddy_page_order (mem_map s ! p) = ord"
    and "\<And>c p. p \<in> set (pcp s c) \<Longrightarrow> p < length (mem_map s)
        \<and> pg_flags (mem_map s ! p) = PAGE_FLAGS_NEW_FREE_PAGE OR PAGE_FLAGS_PCP"
    and "\<And>b b'. b \<in> free_blocks s \<Longrightarrow> b' \<in> free_blocks s \<Longrightarrow> b \<noteq> b' \<Longrightarrow>
        block (fst b) (snd b) \<inter> block (fst b') (snd b') = {}"
    and "\<And>p ord. p < length (mem_map s) \<Longrightarrow> p \<notin> X \<Longrightarrow>
        page_is_buddy (mem_map s ! p) ord \<Longrightarrow> p \<in> set (area s ord)"
  shows "pg_inv_ex X s"
  unfolding pg_inv_ex_def disjoint_iff using assms(1-7,9) assms(8) [unfolded disjoint_iff]
  by (intro conjI allI impI ballI) simp_all

text \<open>A store to a page that is on no list.\<close>

lemma upd_page_inv:
  assumes inv: "pg_inv_ex X s" and p: "p < length (mem_map s)" "p \<notin> free_frames s"
    and Y: "\<And>ord. page_is_buddy (f (mem_map s ! p)) ord \<Longrightarrow> p \<in> Y" "X - {p} \<subseteq> Y"
  shows "pg_inv_ex Y (s\<lparr>mem_map := (mem_map s)[p := f (mem_map s ! p)]\<rparr>)"
proof -
  let ?s = "s\<lparr>mem_map := (mem_map s)[p := f (mem_map s ! p)]\<rparr>"
  note nl = not_free_not_listed [OF p(2)]
  show ?thesis
  proof (rule pg_inv_exI)
    show "shape_ok ?s" using pg_inv_shape [OF inv] by (simp add: shape_ok_def)
    fix ord q assume q: "q \<in> set (area ?s ord)"
    then have "q \<noteq> p" using nl by auto
    with pg_inv_area [OF inv, of q ord] q
    show "block_ok ?s q ord \<and> pg_flags (mem_map ?s ! q) = PAGE_FLAGS_NEW_FREE_PAGE
        \<and> buddy_page_order (mem_map ?s ! q) = ord"
      by (simp add: block_ok_def)
  next
    fix c q assume q: "q \<in> set (pcp ?s c)"
    then have "q \<noteq> p" using nl by auto
    with pg_inv_pcp [OF inv, of q c] q
    show "q < length (mem_map ?s) \<and> pg_flags (mem_map ?s ! q) = PAGE_FLAGS_NEW_FREE_PAGE OR PAGE_FLAGS_PCP"
      by simp
  next
    fix q ord assume "q < length (mem_map ?s)" "q \<notin> Y"
      "page_is_buddy (mem_map ?s ! q) ord"
    moreover from this have "q \<noteq> p" using Y(1) p(1) by auto
    ultimately show "q \<in> set (area ?s ord)"
      using pg_inv_listed [OF inv, of q ord] Y(2) by auto
  next
    fix b b' assume "b \<in> free_blocks ?s" "b' \<in> free_blocks ?s" "b \<noteq> b'"
    then show "block (fst b) (snd b) \<inter> block (fst b') (snd b') = {}"
      using pg_inv_disjoint [OF inv, of b b'] by simp
  next
    fix c c' q assume "c \<noteq> c'" "q \<in> set (pcp ?s c)"
    then show "q \<notin> set (pcp ?s c')" using pg_inv_pcp_apart [OF inv, of c c' q] by simp
  qed (use pg_inv_distinct [OF inv] pg_inv_count [OF inv] in simp_all)
qed

lemma upd_page_in:
  "p < length (mem_map s) \<Longrightarrow> upd_page p f s = Some (s\<lparr>mem_map := (mem_map s)[p := f (mem_map s ! p)]\<rparr>)"
  by (simp add: upd_page_def nth_opt_in)

text \<open>Taking a block off its free list.\<close>

lemma free_frames_remove:
  assumes inv: "pg_inv_ex X s" and b: "(p, ord) \<in> free_blocks s"
    and fb: "free_blocks s' = free_blocks s - {(p, ord)}"
  shows "free_frames s' = free_frames s - block p ord"
proof -
  have "block (fst c) (snd c) \<inter> block p ord = {}" if "c \<in> free_blocks s'" for c
    using pg_inv_disjoint [OF inv _ b, of c] that unfolding fb by simp
  then have "free_frames s' \<inter> block p ord = {}"
    unfolding free_frames_def split_beta disjoint_iff by auto
  moreover have "free_blocks s = insert (p, ord) (free_blocks s')"
    using b unfolding fb by auto
  then have "free_frames s = block p ord \<union> free_frames s'"
    by (simp add: free_frames_def)
  ultimately show ?thesis by auto
qed

lemma area_unlink_inv:
  assumes inv: "pg_inv_ex X s" and p: "p \<in> set (area s ord)"
  shows "\<exists>as. area_unlink p s = Some (s\<lparr>areas := as\<rparr>) \<and> pg_inv_ex (insert p X) (s\<lparr>areas := as\<rparr>)
    \<and> free_frames (s\<lparr>areas := as\<rparr>) = free_frames s - block p ord
    \<and> (\<forall>o'. set (area (s\<lparr>areas := as\<rparr>) o') \<subseteq> set (area s o'))"
proof -
  let ?s = "s\<lparr>areas := map (remove1 p) (areas s)\<rparr>"
  have ar: "area ?s o' = remove1 p (area s o')" for o'
    by (simp add: area_def)
  have pc: "pcp ?s c = pcp s c" for c by simp
  have setar: "set (area ?s o') = set (area s o') - {p}" for o'
    using pg_inv_distinct(1) [OF inv] by (simp add: ar)
  have fb: "free_blocks ?s = free_blocks s - {(p, ord)}"
    using area_unique [OF inv p] area_not_pcp [OF inv p]
    unfolding free_blocks_def setar pc by blast
  have "pg_inv_ex (insert p X) ?s"
  proof (rule pg_inv_exI)
    show "shape_ok ?s" using pg_inv_shape [OF inv] by (simp add: shape_ok_def)
    show "distinct (area ?s o')" for o' using pg_inv_distinct(1) [OF inv] by (simp add: ar)
    show "block_ok ?s q o' \<and> pg_flags (mem_map ?s ! q) = PAGE_FLAGS_NEW_FREE_PAGE
        \<and> buddy_page_order (mem_map ?s ! q) = o'" if "q \<in> set (area ?s o')" for q o'
      using that pg_inv_area [OF inv, of q o'] by (simp add: setar block_ok_def)
    show "block (fst b) (snd b) \<inter> block (fst b') (snd b') = {}"
      if "b \<in> free_blocks ?s" "b' \<in> free_blocks ?s" "b \<noteq> b'" for b b'
      using that pg_inv_disjoint [OF inv, of b b'] by (simp add: fb)
    show "q \<in> set (area ?s o')" if "q < length (mem_map ?s)"
      "q \<notin> insert p X" "page_is_buddy (mem_map ?s ! q) o'" for q o'
      using that pg_inv_listed [OF inv, of q o'] by (simp add: setar)
  qed (use pg_inv_distinct [OF inv] pg_inv_count [OF inv] pg_inv_pcp [OF inv] pg_inv_pcp_apart [OF inv]
      in simp_all)
  moreover have "\<exists>l \<in> set (areas s). p \<in> set l"
    using p by (auto simp: area_def split: if_splits)
  moreover have "(p, ord) \<in> free_blocks s" using p by (simp add: free_blocks_def)
  ultimately show ?thesis
    using free_frames_remove [OF inv _ fb] setar
    by (intro exI [of _ "map (remove1 p) (areas s)"]) (auto simp: area_unlink_def)
qed

text \<open>Putting a block on a free list.\<close>

lemma free_frames_insert:
  "free_blocks s' = insert (p, ord) (free_blocks s) \<Longrightarrow> free_frames s' = free_frames s \<union> block p ord"
  by (auto simp: free_frames_def)

lemma free_blocks_insert_disjoint:
  assumes inv: "pg_inv_ex X s" and out: "block p ord \<inter> free_frames s = {}"
    and "b \<in> insert (p, ord) (free_blocks s)" "b' \<in> insert (p, ord) (free_blocks s)" "b \<noteq> b'"
  shows "block (fst b) (snd b) \<inter> block (fst b') (snd b') = {}"
proof -
  have sub: "block (fst c) (snd c) \<subseteq> free_frames s" if "c \<in> free_blocks s" for c
    using that by (auto simp: free_frames_def split_beta)
  consider "b = (p, ord)" "b' \<in> free_blocks s" | "b' = (p, ord)" "b \<in> free_blocks s"
    | "b \<in> free_blocks s" "b' \<in> free_blocks s" using assms(3-5) by blast
  then show ?thesis
  proof cases
    case 1
    then show ?thesis using out sub [of b'] by auto
  next
    case 2
    then show ?thesis using out sub [of b] by auto
  next
    case 3
    then show ?thesis using pg_inv_disjoint [OF inv] assms(5) by simp
  qed
qed

lemma area_push_inv:
  assumes inv: "pg_inv_ex X s" and ok: "block_ok s p ord" and out: "block p ord \<inter> free_frames s = {}"
    and pg: "pg_flags (mem_map s ! p) = PAGE_FLAGS_NEW_FREE_PAGE" "buddy_page_order (mem_map s ! p) = ord"
  shows "\<exists>as. area_push ord p s = Some (s\<lparr>areas := as\<rparr>) \<and> pg_inv_ex (X - {p}) (s\<lparr>areas := as\<rparr>)
    \<and> free_frames (s\<lparr>areas := as\<rparr>) = free_frames s \<union> block p ord
    \<and> (\<forall>o'. area (s\<lparr>areas := as\<rparr>) o' = (if o' = ord then p # area s ord else area s o'))"
proof -
  let ?s = "s\<lparr>areas := (areas s)[ord := p # area s ord]\<rparr>"
  have len: "ord < length (areas s)"
    using ok pg_inv_shape [OF inv] by (simp add: block_ok_def shape_ok_def)
  have ar: "area ?s o' = (if o' = ord then p # area s ord else area s o')" for o'
    using len by (simp add: area_list_update)
  have pc: "pcp ?s c = pcp s c" for c by simp
  have "p \<notin> free_frames s" using out block_start [of p ord] by blast
  note nl = not_free_not_listed [OF this]
  have fb: "free_blocks ?s = insert (p, ord) (free_blocks s)"
    unfolding free_blocks_def ar pc by (auto split: if_splits)
  have "pg_inv_ex (X - {p}) ?s"
  proof (rule pg_inv_exI)
    show "shape_ok ?s" using pg_inv_shape [OF inv] by (simp add: shape_ok_def)
    show "distinct (area ?s o')" for o' using pg_inv_distinct(1) [OF inv] nl by (simp add: ar)
    show "block_ok ?s q o' \<and> pg_flags (mem_map ?s ! q) = PAGE_FLAGS_NEW_FREE_PAGE
        \<and> buddy_page_order (mem_map ?s ! q) = o'" if "q \<in> set (area ?s o')" for q o'
      using that pg_inv_area [OF inv, of q o'] ok pg by (auto simp: ar block_ok_def split: if_splits)
    show "block (fst b) (snd b) \<inter> block (fst b') (snd b') = {}"
      if "b \<in> free_blocks ?s" "b' \<in> free_blocks ?s" "b \<noteq> b'" for b b'
      using free_blocks_insert_disjoint [OF inv out that [unfolded fb]] .
    show "q \<in> set (area ?s o')" if "q < length (mem_map ?s)"
      "q \<notin> X - {p}" "page_is_buddy (mem_map ?s ! q) o'" for q o'
    proof (cases "q = p")
      case True
      with that(3) pg have "o' = ord" by (simp add: page_is_buddy_def split: if_splits)
      with True show ?thesis by (simp add: ar)
    next
      case False
      with that pg_inv_listed [OF inv, of q o'] show ?thesis by (auto simp: ar)
    qed
  qed (use pg_inv_distinct [OF inv] pg_inv_count [OF inv] pg_inv_pcp [OF inv] pg_inv_pcp_apart [OF inv]
      in simp_all)
  moreover have "area_push ord p s = Some ?s"
    using len by (simp add: area_push_def nth_opt_in area_def)
  ultimately show ?thesis
    using free_frames_insert [OF fb] ar by blast
qed

text \<open>The per-CPU caches.\<close>

lemma pcp_change_inv:
  assumes inv: "pg_inv_ex X s" and c: "c < MAX_CPUS" and l: "distinct l" "length l \<le> PCP_MAX_ORDER0"
    and l_in: "\<And>q. q \<in> set l \<Longrightarrow> q < length (mem_map s)
      \<and> pg_flags (mem_map s ! q) = PAGE_FLAGS_NEW_FREE_PAGE OR PAGE_FLAGS_PCP"
    and l_new: "\<And>q. q \<in> set l \<Longrightarrow> q \<in> set (pcp s c) \<or> q \<notin> free_frames s"
    and q: "pcp_pages q = l" "pcp_count q = length l"
  shows "pg_inv_ex X (s\<lparr>pcps := (pcps s)[c := q]\<rparr>)"
proof -
  let ?s = "s\<lparr>pcps := (pcps s)[c := q]\<rparr>"
  have len: "c < length (pcps s)" using c pg_inv_shape [OF inv] by (simp add: shape_ok_def)
  have pc: "pcp ?s c' = (if c' = c then l else pcp s c')" for c'
    using len by (simp add: pcp_list_update q)
  have fb: "b \<in> free_blocks s \<or> (snd b = 0 \<and> fst b \<notin> free_frames s)" if "b \<in> free_blocks ?s" for b
    using that l_new unfolding free_blocks_def pc by (cases b) (auto split: if_splits)
  have sub: "block (fst b) (snd b) \<subseteq> free_frames s" if "b \<in> free_blocks s" for b
    using that by (auto simp: free_frames_def split_beta)
  have apart: "x \<notin> set (pcp s c')" if "x \<in> set l" "c' \<noteq> c" for x c'
    using l_new [OF that(1)] pg_inv_pcp_apart [OF inv, of c c' x] that(2) not_free_not_listed(2) by blast
  show ?thesis
  proof (rule pg_inv_exI)
    show "shape_ok ?s" using pg_inv_shape [OF inv] by (simp add: shape_ok_def)
    show "distinct (pcp ?s c')" for c' using pg_inv_distinct(2) [OF inv] l by (simp add: pc)
    show "pcp_count (pcps ?s ! c') = length (pcp ?s c') \<and> length (pcp ?s c') \<le> PCP_MAX_ORDER0"
      if "c' < MAX_CPUS" for c'
      using that pg_inv_count [OF inv that] l q len by (simp add: pc nth_list_update)
    show "x < length (mem_map ?s) \<and> pg_flags (mem_map ?s ! x) = PAGE_FLAGS_NEW_FREE_PAGE OR PAGE_FLAGS_PCP"
      if "x \<in> set (pcp ?s c')" for c' x
      using that l_in pg_inv_pcp [OF inv, of x c'] by (simp add: pc split: if_splits)
    show "x \<notin> set (pcp ?s c2)" if "c1 \<noteq> c2" "x \<in> set (pcp ?s c1)" for c1 c2 x
      using that pg_inv_pcp_apart [OF inv, of c1 c2 x] apart [of x c1] apart [of x c2]
      by (auto simp: pc split: if_splits)
    show "block (fst b) (snd b) \<inter> block (fst b') (snd b') = {}"
      if "b \<in> free_blocks ?s" "b' \<in> free_blocks ?s" "b \<noteq> b'" for b b'
      using fb [OF that(1)] fb [OF that(2)] sub [of b] sub [of b'] that(3)
        pg_inv_disjoint [OF inv, of b b'] by (cases b; cases b') auto
    show "block_ok ?s x o' \<and> pg_flags (mem_map ?s ! x) = PAGE_FLAGS_NEW_FREE_PAGE
        \<and> buddy_page_order (mem_map ?s ! x) = o'" if "x \<in> set (area ?s o')" for x o'
      using that pg_inv_area [OF inv, of x o'] by (simp add: block_ok_def)
  qed (use pg_inv_distinct [OF inv] pg_inv_listed [OF inv] in simp_all)
qed

end
