(* ===== verification/Pgalloc_Spec.thy ===== *)
theory Pgalloc_Spec
  imports Pgalloc_Inv
begin

text \<open>
  What the operations of the page allocator do to the set of free frames, and that none of
  their assertions fails.
\<close>

section \<open>What an operation leaves alone\<close>

text \<open>Only pages of the frames \<open>F\<close> are written.\<close>

definition pages_kept :: "nat set \<Rightarrow> pgalloc \<Rightarrow> pgalloc \<Rightarrow> bool" where
  "pages_kept F s s' \<longleftrightarrow> length (mem_map s') = length (mem_map s) \<and> phys_offset s' = phys_offset s
     \<and> this_cpuid s' = this_cpuid s \<and> ram s' = ram s
     \<and> (\<forall>q. q \<notin> F \<longrightarrow> mem_map s' ! q = mem_map s ! q)"

lemma pages_kept_refl [simp]: "pages_kept F s s"
  by (simp add: pages_kept_def)

lemma pages_kept_trans:
  assumes "pages_kept F s s'" "pages_kept G s' s''" "F \<union> G \<subseteq> H"
  shows "pages_kept H s s''"
proof -
  have "mem_map s'' ! q = mem_map s ! q" if "q \<notin> H" for q
  proof -
    from that assms(3) have "q \<notin> F" "q \<notin> G" by auto
    with assms(1,2) show ?thesis by (simp add: pages_kept_def)
  qed
  with assms(1,2) show ?thesis by (simp add: pages_kept_def)
qed

lemma pages_kept_areas [simp]: "pages_kept F s (s'\<lparr>areas := as\<rparr>) \<longleftrightarrow> pages_kept F s s'"
  by (simp add: pages_kept_def)

lemma pages_kept_areas' [simp]: "pages_kept F (s\<lparr>areas := as\<rparr>) s' \<longleftrightarrow> pages_kept F s s'"
  by (simp add: pages_kept_def)

lemma pages_kept_pcps [simp]: "pages_kept F s (s'\<lparr>pcps := ps\<rparr>) \<longleftrightarrow> pages_kept F s s'"
  by (simp add: pages_kept_def)

lemma pages_kept_pcps' [simp]: "pages_kept F (s\<lparr>pcps := ps\<rparr>) s' \<longleftrightarrow> pages_kept F s s'"
  by (simp add: pages_kept_def)

lemma pages_kept_mem_map:
  "p \<in> F \<Longrightarrow> pages_kept F s (s'\<lparr>mem_map := (mem_map s)[p := x]\<rparr>) \<longleftrightarrow>
     phys_offset s' = phys_offset s \<and> this_cpuid s' = this_cpuid s \<and> ram s' = ram s"
proof -
  assume "p \<in> F"
  then have "(mem_map s)[p := x] ! q = mem_map s ! q" if "q \<notin> F" for q
    using that by (metis nth_list_update_neq)
  then show ?thesis by (auto simp: pages_kept_def)
qed

lemma pages_kept_length: "pages_kept F s s' \<Longrightarrow> length (mem_map s') = length (mem_map s)"
  by (simp add: pages_kept_def)

lemma block_ok_kept: "pages_kept F s s' \<Longrightarrow> block_ok s' p ord \<longleftrightarrow> block_ok s p ord"
  by (simp add: pages_kept_def block_ok_def)

lemma block_ok_upd [simp]:
  "block_ok (s\<lparr>areas := as\<rparr>) p ord \<longleftrightarrow> block_ok s p ord"
  "block_ok (s\<lparr>pcps := ps\<rparr>) p ord \<longleftrightarrow> block_ok s p ord"
  "block_ok (s\<lparr>mem_map := (mem_map s)[i := x]\<rparr>) p ord \<longleftrightarrow> block_ok s p ord"
  by (simp_all add: block_ok_def)

lemma block_ok_lt: "block_ok s p ord \<Longrightarrow> p < length (mem_map s)"
proof -
  have "(0::nat) < 2 ^ ord" by simp
  then show "block_ok s p ord \<Longrightarrow> p < length (mem_map s)" unfolding block_ok_def by linarith
qed

lemma area_block_ok: "pg_inv_ex X s \<Longrightarrow> p \<in> set (area s ord) \<Longrightarrow> block_ok s p ord"
  using pg_inv_area by blast

section \<open>Merging\<close>

text \<open>The flags \<open>page_free\<close> requires of the head of an allocated block.\<close>

definition head_flags :: "u32 \<Rightarrow> bool" where
  "head_flags f \<longleftrightarrow> flag_set f PAGE_FLAGS_BUDDY \<and> \<not> flag_set f PAGE_FLAGS_FREE
     \<and> \<not> flag_set f PAGE_FLAGS_PCP \<and> flag_set f PAGE_FLAGS_HEAD"

lemma new_page_head [simp]: "head_flags PAGE_FLAGS_NEW_PAGE"
  by (simp add: head_flags_def flag_set_def page_flag_defs)

lemma head_flags_not_buddy: "head_flags (pg_flags pg) \<Longrightarrow> \<not> page_is_buddy pg ord"
  by (simp add: head_flags_def page_is_buddy_def)

lemma page_is_buddy_zero [simp]: "pg_flags pg = 0 \<Longrightarrow> \<not> page_is_buddy pg ord"
  by (simp add: page_is_buddy_def flag_set_def)

lemma page_is_buddy_new_free:
  "pg_flags pg = PAGE_FLAGS_NEW_FREE_PAGE \<Longrightarrow> page_is_buddy pg ord \<longleftrightarrow> buddy_page_order pg = ord"
  by (simp add: page_is_buddy_def flag_set_def page_flag_defs)

lemma area_iff_buddy:
  assumes "pg_inv s" "p < length (mem_map s)"
  shows "p \<in> set (area s ord) \<longleftrightarrow> page_is_buddy (mem_map s ! p) ord"
proof
  assume "p \<in> set (area s ord)"
  from pg_inv_area [OF assms(1) this] show "page_is_buddy (mem_map s ! p) ord"
    by (simp add: page_is_buddy_new_free)
next
  assume "page_is_buddy (mem_map s ! p) ord"
  then show "p \<in> set (area s ord)" using pg_inv_listed [OF assms] by simp
qed

lemma buddy_merge_spec:
  assumes "pg_inv s" "block_ok s pg order" "block pg order \<inter> free_frames s = {}"
    and "pg_flags (mem_map s ! pg) = 0"
  shows "\<exists>pg' order' s'. buddy_merge pg order s = Some (pg', order', s') \<and> pg_inv s'
    \<and> block_ok s' pg' order' \<and> block pg' order' \<inter> free_frames s' = {}
    \<and> free_frames s' \<union> block pg' order' = free_frames s \<union> block pg order
    \<and> (order' < PAGE_ORDER_MAX \<longrightarrow> find_buddy_pfn pg' order' \<notin> set (area s' order'))
    \<and> pages_kept (free_frames s \<union> block pg order) s s' \<and> pcps s' = pcps s
    \<and> (\<forall>o'. set (area s' o') \<subseteq> set (area s o'))"
  using assms
proof (induction pg order s rule: buddy_merge.induct)
  case (1 pg order s)
  let ?b = "find_buddy_pfn pg order"
  note shape = pg_inv_shape [OF "1.prems"(1)]
  show ?case
  proof (cases "order < PAGE_ORDER_MAX")
    case False
    with "1.prems" show ?thesis by (simp add: buddy_merge.simps)
  next
    case True
    have al: "2 ^ order dvd pg" "pg + 2 ^ order \<le> length (mem_map s)"
      using "1.prems"(2) by (simp_all add: block_ok_def)
    have "2 ^ Suc order dvd (2 ^ PAGE_ORDER_MAX :: nat)" using True by (intro le_imp_power_dvd) simp
    then have N: "2 ^ Suc order dvd length (mem_map s)"
      using shape unfolding shape_ok_def by (meson dvd_trans)
    note fits = buddy_fits [OF al N]
    have "(0::nat) < 2 ^ order" by simp
    with fits(2) have blt: "?b < length (mem_map s)" by linarith
    show ?thesis
    proof (cases "page_is_buddy (mem_map s ! ?b) order")
      case False
      moreover from this have "?b \<notin> set (area s order)"
        using area_iff_buddy [OF "1.prems"(1) blt] True by simp
      ultimately show ?thesis using True blt "1.prems" by (simp add: buddy_merge.simps nth_opt_in)
    next
      case isb: True
      then have "?b \<in> set (area s order)"
        using pg_inv_listed [OF "1.prems"(1) blt] True by simp
      from area_unlink_inv [OF "1.prems"(1) this] obtain as where
        s1: "area_unlink ?b s = Some (s\<lparr>areas := as\<rparr>)" "pg_inv_ex {?b} (s\<lparr>areas := as\<rparr>)"
        "free_frames (s\<lparr>areas := as\<rparr>) = free_frames s - block ?b order"
        "\<forall>o'. set (area (s\<lparr>areas := as\<rparr>) o') \<subseteq> set (area s o')" by blast
      define s2 where "s2 = s\<lparr>areas := as, mem_map := (mem_map s)[?b := (mem_map s ! ?b)\<lparr>pg_flags := 0\<rparr>]\<rparr>"
      have u: "upd_page ?b (\<lambda>p. p\<lparr>pg_flags := 0\<rparr>) (s\<lparr>areas := as\<rparr>) = Some s2"
        using blt by (simp add: upd_page_in s2_def)
      have inv2: "pg_inv s2"
        using upd_page_inv [OF s1(2), of ?b "\<lambda>p. p\<lparr>pg_flags := 0\<rparr>" "{}"] blt s1(3)
        by (simp add: s2_def)
      have free2: "free_frames s2 = free_frames s - block ?b order"
        using s1(3) by (simp add: s2_def)
      have bfree: "block ?b order \<subseteq> free_frames s" using on_list_free(1) \<open>?b \<in> set _\<close> by blast
      note un = buddy_union [OF al(1)]
      have ok2: "block_ok s2 (min pg ?b) (order + 1)"
        using buddy_min_aligned [OF al(1)] fits(1) True by (simp add: block_ok_def s2_def)
      have out2: "block (min pg ?b) (order + 1) \<inter> free_frames s2 = {}"
        using "1.prems"(3) unfolding free2 by (auto simp: un)
      have fl2: "pg_flags (mem_map s2 ! min pg ?b) = 0"
        using "1.prems"(4) blt al by (auto simp: s2_def min_def nth_list_update)
      have "\<not> \<not> page_is_buddy (mem_map s ! ?b) order" using isb by simp
      from "1.IH" [OF True nth_opt_in [OF blt] this s1(1) u inv2 ok2 out2 fl2]
      obtain pg' order' s' where
        IH: "buddy_merge (min pg ?b) (order + 1) s2 = Some (pg', order', s')" "pg_inv s'"
        "block_ok s' pg' order'" "block pg' order' \<inter> free_frames s' = {}"
        "free_frames s' \<union> block pg' order' = free_frames s2 \<union> block (min pg ?b) (order + 1)"
        "order' < PAGE_ORDER_MAX \<longrightarrow> find_buddy_pfn pg' order' \<notin> set (area s' order')"
        "pages_kept (free_frames s2 \<union> block (min pg ?b) (order + 1)) s2 s'" "pcps s' = pcps s2"
        "\<forall>o'. set (area s' o') \<subseteq> set (area s2 o')"
        by (elim exE conjE)
      have eq: "free_frames s2 \<union> block (min pg ?b) (order + 1) = free_frames s \<union> block pg order"
        using bfree unfolding free2 by (auto simp: un)
      have "pages_kept (free_frames s \<union> block pg order) s s2"
        using bfree block_start [of ?b order] pages_kept_mem_map [of ?b "free_frames s \<union> block pg order"]
        by (auto simp: s2_def simp del: block_start)
      from pages_kept_trans [OF this IH(7)] have "pages_kept (free_frames s \<union> block pg order) s s'"
        unfolding eq by simp
      moreover have "buddy_merge pg order s = Some (pg', order', s')"
        using True blt isb s1(1) u IH(1) by (simp add: buddy_merge.simps [of pg order s] nth_opt_in)
      moreover have "\<forall>o'. set (area s' o') \<subseteq> set (area s o')"
        using IH(9) s1(4) by (simp add: s2_def) blast
      moreover have "pcps s' = pcps s" using IH(8) by (simp add: s2_def)
      ultimately show ?thesis
        using IH(2-6) unfolding eq by (intro exI [of _ pg'] exI [of _ order'] exI [of _ s'] conjI)
    qed
  qed
qed

section \<open>Freeing\<close>

text \<open>No two buddies are free side by side: freed blocks are merged as far as possible.\<close>

definition coalesced :: "pgalloc \<Rightarrow> bool" where
  "coalesced s \<longleftrightarrow> (\<forall>ord < PAGE_ORDER_MAX. \<forall>p. p \<in> set (area s ord) \<longrightarrow>
     find_buddy_pfn p ord \<notin> set (area s ord))"

lemma coalesced_areas: "coalesced s \<Longrightarrow> (\<And>o'. set (area s' o') \<subseteq> set (area s o')) \<Longrightarrow> coalesced s'"
  unfolding coalesced_def by blast

lemma coalesced_push:
  assumes "coalesced s" "\<And>o'. set (area s' o') \<subseteq> (if o' = ord then insert p (set (area s ord)) else set (area s o'))"
    and "ord < PAGE_ORDER_MAX \<Longrightarrow> find_buddy_pfn p ord \<notin> set (area s ord)" "2 ^ ord dvd p"
  shows "coalesced s'"
  unfolding coalesced_def
proof (intro allI impI)
  fix o' q assume o': "o' < PAGE_ORDER_MAX" and q: "q \<in> set (area s' o')"
  have old: "find_buddy_pfn r o' \<notin> set (area s o')" if "r \<in> set (area s o')" for r
    using assms(1) o' that by (simp add: coalesced_def)
  show "find_buddy_pfn q o' \<notin> set (area s' o')"
  proof (cases "o' = ord")
    case False
    then have "set (area s' o') \<subseteq> set (area s o')" using assms(2) [of o'] by simp
    with q old [of q] show ?thesis by (meson subsetD)
  next
    case True
    then have sub: "set (area s' ord) \<subseteq> insert p (set (area s ord))" using assms(2) [of ord] by simp
    have p: "find_buddy_pfn p ord \<notin> insert p (set (area s ord))"
      using assms(3) o' True buddy_neq [OF assms(4)] by simp
    have "find_buddy_pfn q ord \<notin> insert p (set (area s ord))" if "q \<in> set (area s ord)"
    proof -
      have "find_buddy_pfn (find_buddy_pfn q ord) ord = q"
        by (simp add: find_buddy_pfn_def xor.assoc)
      with p that have "find_buddy_pfn q ord \<noteq> p" by auto
      with old [of q] that True show ?thesis by simp
    qed
    with p q sub True show ?thesis by (metis insertE subsetD)
  qed
qed

lemma block_ok_aligned:
  assumes inv: "pg_inv_ex X s" and ok: "block_ok s p ord"
  shows "page_phys_aligned s p ord"
proof -
  have sh: "2 ^ (PAGE_SHIFT + PAGE_ORDER_MAX) dvd phys_offset s"
    "length (mem_map s) * PAGE_SIZE + phys_offset s \<le> 2 ^ 64"
    using pg_inv_shape [OF inv] by (simp_all add: shape_ok_def)
  have ord: "2 ^ ord dvd p" "ord \<le> PAGE_ORDER_MAX" using ok by (simp_all add: block_ok_def)
  have "p * PAGE_SIZE < length (mem_map s) * PAGE_SIZE"
    using block_ok_lt [OF ok] by (simp add: layout_simps)
  with sh(2) have "p * PAGE_SIZE + phys_offset s < 2 ^ 64" by linarith
  then have "pfn_to_phys s p = p * 2 ^ PAGE_SHIFT + phys_offset s"
    by (simp add: pfn_to_phys_def push_bit_eq_mult layout_simps)
  moreover have "2 ^ (PAGE_SHIFT + ord) dvd p * 2 ^ PAGE_SHIFT"
    using ord(1) by (simp add: power_add mult.commute)
  moreover have "2 ^ (PAGE_SHIFT + ord) dvd phys_offset s"
    using sh(1) ord(2) by (meson add_le_cancel_left dvd_trans le_imp_power_dvd)
  ultimately show ?thesis by (simp add: page_phys_aligned_def is_aligned_pow2 dvd_add)
qed

lemma page_free_to_buddy_spec:
  assumes inv: "pg_inv s" and ok: "block_ok s p ord" and out: "block p ord \<inter> free_frames s = {}"
    and fl: "head_flags (pg_flags (mem_map s ! p))"
  shows "\<exists>s'. page_free_to_buddy p ord s = Some s' \<and> pg_inv s'
    \<and> free_frames s' = free_frames s \<union> block p ord
    \<and> pages_kept (free_frames s \<union> block p ord) s s' \<and> pcps s' = pcps s
    \<and> (coalesced s \<longrightarrow> coalesced s')"
proof -
  let ?F = "free_frames s \<union> block p ord"
  note plt = block_ok_lt [OF ok]
  have pF: "p \<in> block p ord" "p \<notin> free_frames s" using out block_start [of p ord] by blast+
  define s1 where "s1 = s\<lparr>mem_map := (mem_map s)[p := (mem_map s ! p)\<lparr>pg_flags := 0\<rparr>]\<rparr>"
  have u1: "upd_page p (\<lambda>p. p\<lparr>pg_flags := 0\<rparr>) s = Some s1"
    using plt by (simp add: upd_page_in s1_def)
  have s1: "pg_inv s1" "free_frames s1 = free_frames s" "pages_kept ?F s s1" "block_ok s1 p ord"
    using upd_page_inv [OF inv plt pF(2), of "\<lambda>p. p\<lparr>pg_flags := 0\<rparr>" "{}"] ok pF
    by (simp_all add: s1_def pages_kept_mem_map)
  have "pg_flags (mem_map s1 ! p) = 0" using plt by (simp add: s1_def)
  moreover have "block p ord \<inter> free_frames s1 = {}" using out s1(2) by simp
  ultimately obtain q ord' s2 where
    m: "buddy_merge p ord s1 = Some (q, ord', s2)" "pg_inv s2" "block_ok s2 q ord'"
      "block q ord' \<inter> free_frames s2 = {}" "free_frames s2 \<union> block q ord' = ?F"
      "pages_kept ?F s1 s2" "pcps s2 = pcps s1"
      "ord' < PAGE_ORDER_MAX \<longrightarrow> find_buddy_pfn q ord' \<notin> set (area s2 ord')"
      "\<forall>o'. set (area s2 o') \<subseteq> set (area s1 o')"
    using buddy_merge_spec [OF s1(1) s1(4)] unfolding s1(2) by metis
  have q: "q < length (mem_map s2)" "q \<in> ?F" "q \<notin> free_frames s2"
    using block_ok_lt [OF m(3)] m(4,5) block_start [of q ord'] by blast+
  let ?f = "\<lambda>p. p\<lparr>pg_flags := PAGE_FLAGS_NEW_FREE_PAGE, buddy_page_order := ord'\<rparr>"
  define s3 where "s3 = s2\<lparr>mem_map := (mem_map s2)[q := ?f (mem_map s2 ! q)]\<rparr>"
  have u3: "upd_page q ?f s2 = Some s3" using q by (simp add: upd_page_in s3_def)
  have s3: "pg_inv_ex {q} s3" "free_frames s3 = free_frames s2" "pages_kept ?F s2 s3" "block_ok s3 q ord'"
    using upd_page_inv [OF m(2) q(1,3), of ?f "{q}"] m(3) q
    by (simp_all add: s3_def pages_kept_mem_map)
  have "pg_flags (mem_map s3 ! q) = PAGE_FLAGS_NEW_FREE_PAGE" "buddy_page_order (mem_map s3 ! q) = ord'"
    using q by (simp_all add: s3_def)
  moreover have "block q ord' \<inter> free_frames s3 = {}" using m(4) s3(2) by simp
  ultimately obtain as where
    a: "area_push ord' q s3 = Some (s3\<lparr>areas := as\<rparr>)" "pg_inv (s3\<lparr>areas := as\<rparr>)"
       "free_frames (s3\<lparr>areas := as\<rparr>) = ?F"
       "\<And>o'. area (s3\<lparr>areas := as\<rparr>) o' = (if o' = ord' then q # area s3 ord' else area s3 o')"
    using area_push_inv [OF s3(1) s3(4)] unfolding s3(2) m(5) by auto
  have "pages_kept ?F s (s3\<lparr>areas := as\<rparr>)"
    using pages_kept_trans [OF pages_kept_trans [OF s1(3) m(6) order.refl] s3(3), of ?F] by simp
  moreover have "page_free_to_buddy p ord s = Some (s3\<lparr>areas := as\<rparr>)"
    using plt fl block_ok_aligned [OF inv ok] u1 m(1) u3 a(1)
    by (simp add: page_free_to_buddy_def nth_opt_in head_flags_def)
  moreover have "pcps s3 = pcps s" using m(7) by (simp add: s3_def s1_def)
  moreover have "coalesced (s3\<lparr>areas := as\<rparr>)" if "coalesced s"
  proof (rule coalesced_push [where ord = ord' and p = q])
    show "coalesced s2" by (rule coalesced_areas [OF that]) (use m(9) in \<open>simp add: s1_def\<close>)
    show "2 ^ ord' dvd q" using m(3) by (simp add: block_ok_def)
  qed (use m(8) a(4) in \<open>auto simp: s3_def\<close>)
  ultimately show ?thesis using a(2,3) by auto
qed

lemma pcp_free_spec:
  assumes inv: "pg_inv s" and p: "p < length (mem_map s)" "p \<notin> free_frames s"
    and fl: "head_flags (pg_flags (mem_map s ! p))"
  shows "pcp_free p s = Some (False, s) \<or>
    (\<exists>s'. pcp_free p s = Some (True, s') \<and> pg_inv s' \<and> free_frames s' = insert p (free_frames s)
      \<and> pages_kept {p} s s' \<and> areas s' = areas s)"
proof -
  let ?c = "this_cpuid s"
  let ?f = "\<lambda>p. p\<lparr>pg_flags := PAGE_FLAGS_NEW_FREE_PAGE OR PAGE_FLAGS_PCP, buddy_page_order := 0\<rparr>"
  have c: "?c < MAX_CPUS" "?c < length (pcps s)"
    using pg_inv_shape [OF inv] by (simp_all add: shape_ok_def)
  have pc: "pcp_pages (pcps s ! ?c) = pcp s ?c" using c by (simp add: pcp_def)
  show ?thesis
  proof (cases "pcp_count (pcps s ! ?c) < PCP_MAX_ORDER0")
    case False
    then show ?thesis using c by (simp add: pcp_free_def nth_opt_in)
  next
    case True
    define q where "q = (pcps s ! ?c)\<lparr>pcp_pages := p # pcp s ?c, pcp_count := pcp_count (pcps s ! ?c) + 1\<rparr>"
    define s1 where "s1 = s\<lparr>mem_map := (mem_map s)[p := ?f (mem_map s ! p)]\<rparr>"
    have "\<not> page_is_buddy (?f (mem_map s ! p)) ord" for ord
      by (simp add: page_is_buddy_def flag_set_def page_flag_defs)
    then have s1: "pg_inv s1" "free_frames s1 = free_frames s"
      using upd_page_inv [OF inv p, of ?f "{}"] by (simp_all add: s1_def)
    have nl: "p \<notin> set (pcp s c')" for c' using not_free_not_listed [OF p(2)] by simp
    have "pg_inv (s1\<lparr>pcps := (pcps s1)[?c := q]\<rparr>)"
    proof (rule pcp_change_inv [OF s1(1) c(1)])
      show "distinct (p # pcp s ?c)" using pg_inv_distinct(2) [OF inv] nl by simp
      show "length (p # pcp s ?c) \<le> PCP_MAX_ORDER0" "pcp_count q = length (p # pcp s ?c)"
        using True pg_inv_count [OF inv c(1)] by (simp_all add: q_def)
      show "x < length (mem_map s1) \<and> pg_flags (mem_map s1 ! x) = PAGE_FLAGS_NEW_FREE_PAGE OR PAGE_FLAGS_PCP"
        if "x \<in> set (p # pcp s ?c)" for x
        using that pg_inv_pcp [OF inv, of x ?c] p nl [of ?c] by (auto simp: s1_def nth_list_update)
      show "x \<in> set (pcp s1 ?c) \<or> x \<notin> free_frames s1" if "x \<in> set (p # pcp s ?c)" for x
        using that p s1(2) by (auto simp: s1_def)
    qed (simp add: q_def)
    moreover have "free_frames (s1\<lparr>pcps := (pcps s1)[?c := q]\<rparr>) = insert p (free_frames s)"
    proof -
      have "pcp (s1\<lparr>pcps := (pcps s1)[?c := q]\<rparr>) c' = (if c' = ?c then p # pcp s ?c else pcp s c')" for c'
        unfolding pcp_list_update using c by (simp add: s1_def q_def)
      moreover have "area (s1\<lparr>pcps := (pcps s1)[?c := q]\<rparr>) o' = area s o'" for o'
        by (simp add: s1_def)
      ultimately have "free_blocks (s1\<lparr>pcps := (pcps s1)[?c := q]\<rparr>) = insert (p, 0) (free_blocks s)"
        unfolding free_blocks_def
        apply (auto split: if_splits)
        subgoal for a c by (rule exI [of _ c]) auto
        done
      from free_frames_insert [OF this] show ?thesis by simp
    qed
    moreover have "pcp_free p s = Some (True, s1\<lparr>pcps := (pcps s1)[?c := q]\<rparr>)"
      using True c p by (simp add: pcp_free_def nth_opt_in upd_page_in s1_def q_def pc)
    moreover have "pages_kept {p} s s1" by (simp add: s1_def pages_kept_mem_map)
    ultimately show ?thesis by (auto simp: s1_def)
  qed
qed

lemma page_free_spec:
  assumes inv: "pg_inv s" and ok: "block_ok s p ord" and out: "block p ord \<inter> free_frames s = {}"
    and fl: "head_flags (pg_flags (mem_map s ! p))"
  shows "\<exists>s'. page_free p ord s = Some s' \<and> pg_inv s'
    \<and> free_frames s' = free_frames s \<union> block p ord
    \<and> pages_kept (free_frames s \<union> block p ord) s s' \<and> (coalesced s \<longrightarrow> coalesced s')"
proof -
  note plt = block_ok_lt [OF ok]
  from page_free_to_buddy_spec [OF inv ok out fl] obtain s1 where
    s1: "page_free_to_buddy p ord s = Some s1" "pg_inv s1" "free_frames s1 = free_frames s \<union> block p ord"
      "pages_kept (free_frames s \<union> block p ord) s s1" "coalesced s \<longrightarrow> coalesced s1" by blast
  have pre: "page_free p ord s = (do {
      (cached, s) \<leftarrow> (if ord = 0 then pcp_free p s else Some (False, s));
      if cached then Some s else page_free_to_buddy p ord s })"
    using plt fl block_ok_aligned [OF inv ok] by (simp add: page_free_def nth_opt_in head_flags_def)
  show ?thesis
  proof (cases "ord = 0 \<and> pcp_free p s \<noteq> Some (False, s)")
    case False
    then have "page_free p ord s = Some s1" unfolding pre using s1(1) by auto
    with s1 show ?thesis by blast
  next
    case True
    then have "p \<notin> free_frames s" using out by simp
    from pcp_free_spec [OF inv plt this fl] True obtain s' where
      s': "pcp_free p s = Some (True, s')" "pg_inv s'" "free_frames s' = insert p (free_frames s)"
        "pages_kept {p} s s'" "areas s' = areas s" by blast
    have "coalesced s \<longrightarrow> coalesced s'" using s'(5) by (simp add: coalesced_def area_def)
    moreover have "pages_kept (free_frames s \<union> block p ord) s s'"
      using pages_kept_trans [OF s'(4) pages_kept_refl [of "{}"], of "free_frames s \<union> block p ord"] True by simp
    ultimately show ?thesis using True s' pre by auto
  qed
qed

section \<open>Allocating\<close>

lemma pcp_take:
  assumes inv: "pg_inv s" and c: "c < MAX_CPUS" and l: "pcp s c = p # rest"
    and s1: "s1 = s\<lparr>pcps := (pcps s)[c := (pcps s ! c)\<lparr>pcp_pages := rest,
                pcp_count := sub64 (pcp_count (pcps s ! c)) 1\<rparr>]\<rparr>"
  shows "pg_inv s1" "free_frames s1 = free_frames s - {p}" "p \<in> free_frames s" "p < length (mem_map s)"
    "pg_flags (mem_map s ! p) = PAGE_FLAGS_NEW_FREE_PAGE OR PAGE_FLAGS_PCP"
    "pcp s1 c' = (if c' = c then rest else pcp s c')"
proof -
  have len: "c < length (pcps s)" using c pg_inv_shape [OF inv] by (simp add: shape_ok_def)
  have p: "p \<in> set (pcp s c)" "p \<notin> set rest" using l pg_inv_distinct(2) [OF inv, of c] by simp_all
  from pg_inv_pcp [OF inv p(1)] show "p < length (mem_map s)"
    "pg_flags (mem_map s ! p) = PAGE_FLAGS_NEW_FREE_PAGE OR PAGE_FLAGS_PCP" by simp_all
  from on_list_free(2) [OF p(1)] show "p \<in> free_frames s" .
  have pc: "pcp s1 c' = (if c' = c then rest else pcp s c')" for c'
    unfolding s1 pcp_list_update using len by simp
  then show "pcp s1 c' = (if c' = c then rest else pcp s c')" .
  have cnt: "pcp_count (pcps s ! c) = Suc (length rest)" "Suc (length rest) \<le> PCP_MAX_ORDER0"
    using pg_inv_count [OF inv c] l by simp_all
  then have "sub64 (pcp_count (pcps s ! c)) 1 = length rest"
    by (subst sub64_id) (simp_all add: layout_simps)
  moreover have "distinct rest" using pg_inv_distinct(2) [OF inv, of c] l by simp
  ultimately show "pg_inv s1"
    unfolding s1 using cnt l pg_inv_pcp [OF inv, of _ c]
    by (intro pcp_change_inv [OF inv c, of rest]) simp_all
  have neq_p: "q \<noteq> p" if "q \<in> set (pcp s1 c')" for q c'
    using that pg_inv_pcp_apart [OF inv, of c c' p] p by (auto simp: pc split: if_splits)
  have "p \<notin> set (area s o')" for o' using area_not_pcp [OF inv] p(1) by blast
  moreover have "area s1 o' = area s o'" for o' by (simp add: s1)
  moreover have "(\<exists>c'. q \<in> set (pcp s1 c')) \<longleftrightarrow> (\<exists>c'. q \<in> set (pcp s c')) \<and> q \<noteq> p" for q
  proof
    assume "\<exists>c'. q \<in> set (pcp s1 c')"
    then obtain c' where c': "q \<in> set (pcp s1 c')" by blast
    moreover have "set (pcp s1 c') \<subseteq> set (pcp s c')" using l by (auto simp: pc)
    ultimately show "(\<exists>c'. q \<in> set (pcp s c')) \<and> q \<noteq> p"
      using neq_p [OF c'] by blast
  next
    assume "(\<exists>c'. q \<in> set (pcp s c')) \<and> q \<noteq> p"
    then obtain c' where "q \<in> set (pcp s c')" "q \<noteq> p" by blast
    then have "q \<in> set (pcp s1 c')" using l by (auto simp: pc)
    then show "\<exists>c'. q \<in> set (pcp s1 c')" ..
  qed
  ultimately have fb: "free_blocks s1 = free_blocks s - {(p, 0)}"
    unfolding free_blocks_def by auto
  have "(p, 0) \<in> free_blocks s" using p(1) by (auto simp: free_blocks_def)
  from free_frames_remove [OF inv this fb] show "free_frames s1 = free_frames s - {p}" by simp
qed

text \<open>The result of a successful allocation: a block that was free and is now the caller's.\<close>

definition allocated :: "nat \<Rightarrow> nat \<Rightarrow> pgalloc \<Rightarrow> pgalloc \<Rightarrow> bool" where
  "allocated p ord s s' \<longleftrightarrow> block_ok s' p ord \<and> block p ord \<subseteq> free_frames s
     \<and> free_frames s' = free_frames s - block p ord
     \<and> pg_flags (mem_map s' ! p) = PAGE_FLAGS_NEW_PAGE \<and> pg_refcnt (mem_map s' ! p) = refcnt_init 1
     \<and> pages_kept (free_frames s) s s'"

lemma pcp_alloc_spec:
  assumes inv: "pg_inv s"
  shows "pcp_alloc s = Some (None, s) \<and> pcp s (this_cpuid s) = [] \<or>
    (\<exists>p s'. pcp_alloc s = Some (Some p, s') \<and> pg_inv s' \<and> p \<in> free_frames s \<and> p < length (mem_map s)
      \<and> free_frames s' = free_frames s - {p} \<and> pages_kept {p} s s'
      \<and> pg_flags (mem_map s' ! p) = PAGE_FLAGS_NEW_PAGE \<and> areas s' = areas s)"
proof -
  let ?c = "this_cpuid s"
  have c: "?c < MAX_CPUS" "?c < length (pcps s)"
    using pg_inv_shape [OF inv] by (simp_all add: shape_ok_def)
  have pc: "pcp_pages (pcps s ! ?c) = pcp s ?c" using c by (simp add: pcp_def)
  show ?thesis
  proof (cases "pcp s ?c")
    case Nil
    then show ?thesis using c pc by (simp add: pcp_alloc_def nth_opt_in)
  next
    case (Cons p rest)
    define s1 where "s1 = s\<lparr>pcps := (pcps s)[?c := (pcps s ! ?c)\<lparr>pcp_pages := rest,
                pcp_count := sub64 (pcp_count (pcps s ! ?c)) 1\<rparr>]\<rparr>"
    note t = pcp_take [OF inv c(1) Cons s1_def]
    let ?f = "\<lambda>p. p\<lparr>pg_flags := pg_flags p AND NOT (PAGE_FLAGS_FREE OR PAGE_FLAGS_PCP), buddy_page_order := 0\<rparr>"
    define s2 where "s2 = s1\<lparr>mem_map := (mem_map s1)[p := ?f (mem_map s1 ! p)]\<rparr>"
    have mm: "mem_map s1 = mem_map s" by (simp add: s1_def)
    have fl: "pg_flags (?f (mem_map s1 ! p)) = PAGE_FLAGS_NEW_PAGE"
      using t(5) by (simp add: mm page_flag_defs)
    have "pg_inv s2"
      using upd_page_inv [OF t(1), of p ?f "{}"] t(2,4) fl head_flags_not_buddy [of "?f (mem_map s1 ! p)"]
      by (simp add: s2_def mm)
    moreover have "pcp_alloc s = Some (Some p, s2)"
      using c pc Cons t(4,5) by (simp add: pcp_alloc_def nth_opt_in upd_page_in s2_def s1_def
          flag_set_def page_flag_defs)
    moreover have "pages_kept {p} s s2"
      using pages_kept_mem_map [of p "{p}" s] by (simp add: s2_def s1_def)
    moreover have "pg_flags (mem_map s2 ! p) = PAGE_FLAGS_NEW_PAGE"
      using fl t(4) by (simp add: s2_def mm)
    ultimately show ?thesis
      using t(2,3,4) by (auto simp: s2_def s1_def)
  qed
qed

lemma find_area_spec:
  assumes "length (areas s) = Suc PAGE_ORDER_MAX"
  shows "find_area ord s = Some None \<and> (\<forall>o' \<ge> ord. area s o' = []) \<or>
    (\<exists>o'. find_area ord s = Some (Some o') \<and> ord \<le> o' \<and> o' \<le> PAGE_ORDER_MAX \<and> area s o' \<noteq> [])"
  using assms
proof (induction ord s rule: find_area.induct)
  case (1 ord s)
  show ?case
  proof (cases "ord \<le> PAGE_ORDER_MAX")
    case False
    then show ?thesis using "1.prems" by (simp add: find_area.simps area_def)
  next
    case True
    then have nth: "nth_opt (areas s) ord = Some (area s ord)"
      using "1.prems" by (simp add: nth_opt_in area_def)
    show ?thesis
    proof (cases "area s ord = []")
      case False
      then show ?thesis using True nth by (simp add: find_area.simps)
    next
      case empty: True
      have eq: "find_area ord s = find_area (ord + 1) s"
        using True nth empty by (simp add: find_area.simps [of ord])
      have "(\<forall>o' \<ge> ord. area s o' = []) \<longleftrightarrow> (\<forall>o' \<ge> ord + 1. area s o' = [])"
        using empty by (metis Suc_eq_plus1 le_SucI not_less_eq_eq order_antisym)
      then show ?thesis
        using "1.IH" [OF True nth _ "1.prems"] empty unfolding eq by auto
    qed
  qed
qed

lemma page_order_id: "buddy_page_order pg = k \<Longrightarrow> pg\<lparr>buddy_page_order := k\<rparr> = pg"
  by simp

lemma buddy_split_spec:
  assumes "pg_inv_ex {p} s" "block_ok s p k" "block p k \<inter> free_frames s = {}" "ord \<le> k"
    and "buddy_page_order (mem_map s ! p) = k"
  shows "\<exists>s'. buddy_split ord p s = Some s' \<and> pg_inv_ex {p} s' \<and> block_ok s' p ord
    \<and> free_frames s' = free_frames s \<union> (block p k - block p ord)
    \<and> mem_map s' ! p = (mem_map s ! p)\<lparr>buddy_page_order := ord\<rparr> \<and> pages_kept (block p k) s s'
    \<and> (coalesced s \<longrightarrow> coalesced s')"
  using assms
proof (induction k arbitrary: s)
  case 0
  then show ?case using block_ok_lt [OF "0.prems"(2)]
    by (simp add: buddy_split.simps [of 0 p s] nth_opt_in page_order_id)
next
  case (Suc k)
  have plt: "p < length (mem_map s)" using block_ok_lt [OF Suc.prems(2)] .
  show ?case
  proof (cases "ord = Suc k")
    case True
    then show ?thesis using Suc.prems plt
      by (simp add: buddy_split.simps [of "Suc k" p s] nth_opt_in page_order_id)
  next
    case False
    let ?b = "p + 2 ^ k"
    have half: "drop_bit 1 (2 ^ Suc k) = (2 ^ k :: nat)" by (simp add: drop_bit_eq_div)
    have okp: "block_ok s p k" and okb: "block_ok s ?b k"
      using Suc.prems(2) dvd_half [of k p] by (auto simp: block_ok_def)
    have blt: "?b < length (mem_map s)" using block_ok_lt [OF okb] .
    have neq: "?b \<noteq> p" by simp
    note halves = block_halves [of p k]
    have nf: "p \<notin> free_frames s" "?b \<notin> free_frames s"
      using Suc.prems(3) halves(1) block_start by blast+
    let ?f = "\<lambda>q. q\<lparr>buddy_page_order := k\<rparr>"
    let ?g = "\<lambda>q. q\<lparr>pg_flags := PAGE_FLAGS_NEW_FREE_PAGE, buddy_page_order := k\<rparr>"
    define s1 where "s1 = s\<lparr>mem_map := (mem_map s)[p := ?f (mem_map s ! p)]\<rparr>"
    define s2 where "s2 = s1\<lparr>mem_map := (mem_map s1)[?b := ?g (mem_map s1 ! ?b)]\<rparr>"
    have u: "upd_page p ?f s = Some s1" "upd_page ?b ?g s1 = Some s2"
      using plt blt by (simp_all add: upd_page_in s1_def s2_def)
    have s1: "pg_inv_ex {p} s1" "free_frames s1 = free_frames s"
      using upd_page_inv [OF Suc.prems(1) plt nf(1), of ?f "{p}"] by (simp_all add: s1_def)
    have s2: "pg_inv_ex {p, ?b} s2" "free_frames s2 = free_frames s"
      using upd_page_inv [OF s1(1), of ?b ?g "{p, ?b}"] blt nf(2) s1(2) by (simp_all add: s2_def s1_def)
    have "block ?b k \<inter> free_frames s2 = {}" using Suc.prems(3) halves(1) s2(2) by blast
    moreover have "pg_flags (mem_map s2 ! ?b) = PAGE_FLAGS_NEW_FREE_PAGE" "buddy_page_order (mem_map s2 ! ?b) = k"
      using blt by (simp_all add: s2_def s1_def)
    moreover have "block_ok s2 ?b k" using okb by (simp add: block_ok_def s2_def s1_def)
    ultimately obtain as where a: "area_push k ?b s2 = Some (s2\<lparr>areas := as\<rparr>)"
      "pg_inv_ex ({p, ?b} - {?b}) (s2\<lparr>areas := as\<rparr>)"
      "free_frames (s2\<lparr>areas := as\<rparr>) = free_frames s \<union> block ?b k"
      "\<And>o'. area (s2\<lparr>areas := as\<rparr>) o' = (if o' = k then ?b # area s2 k else area s2 o')"
      using area_push_inv [OF s2(1), of ?b k] s2(2) by auto
    define s3 where "s3 = s2\<lparr>areas := as\<rparr>"
    have co: "coalesced s3" if "coalesced s"
    proof (rule coalesced_push [where s = s2 and ord = k and p = ?b])
      show "coalesced s2" by (rule coalesced_areas [OF that]) (simp add: s2_def s1_def)
      have "find_buddy_pfn ?b k = p"
        using buddy_cases [of k ?b] okb Suc.prems(2) dvd_half [of k p] buddy_half [of k p]
        by (simp add: block_ok_def)
      then show "find_buddy_pfn ?b k \<notin> set (area s2 k)"
        using not_free_not_listed(1) nf(1) s2(2) by metis
      show "2 ^ k dvd ?b" using okb by (simp add: block_ok_def)
    qed (use a(4) in \<open>auto simp: s3_def\<close>)
    have "pg_inv_ex {p} s3" using a(2) neq by (simp add: s3_def insert_Diff_if)
    moreover have "block_ok s3 p k" using okp by (simp add: block_ok_def s3_def s2_def s1_def)
    moreover have "block p k \<inter> free_frames s3 = {}"
      unfolding s3_def a(3) using Suc.prems(3) halves by blast
    moreover have mm3: "mem_map s3 ! p = ?f (mem_map s ! p)" "buddy_page_order (mem_map s3 ! p) = k"
      using plt neq by (simp_all add: s3_def s2_def s1_def)
    moreover have "ord \<le> k" using False Suc.prems(4) by simp
    ultimately obtain s' where IH: "buddy_split ord p s3 = Some s'" "pg_inv_ex {p} s'" "block_ok s' p ord"
      "free_frames s' = free_frames s3 \<union> (block p k - block p ord)"
      "mem_map s' ! p = (mem_map s3 ! p)\<lparr>buddy_page_order := ord\<rparr>" "pages_kept (block p k) s3 s'"
      "coalesced s3 \<longrightarrow> coalesced s'"
      using Suc.IH [of s3] by blast
    have "pages_kept {p} s s1" by (simp add: s1_def pages_kept_mem_map)
    moreover have "pages_kept {?b} s1 s2" by (simp add: s2_def pages_kept_mem_map)
    ultimately have "pages_kept (block p (Suc k)) s s2"
      by (rule pages_kept_trans) (simp add: halves(1))
    then have "pages_kept (block p (Suc k)) s s3" by (simp add: s3_def)
    then have "pages_kept (block p (Suc k)) s s'"
      using pages_kept_trans [OF _ IH(6)] halves(1) by blast
    moreover have "buddy_split ord p s = Some s'"
      using plt Suc.prems(4,5) False half u a(1) IH(1)
      by (simp add: buddy_split.simps [of ord p s] nth_opt_in s3_def)
    moreover have "block p ord \<subseteq> block p k"
      using \<open>ord \<le> k\<close> by (auto simp: block_def intro: order_less_le_trans power_increasing)
    then have "free_frames s' = free_frames s \<union> (block p (Suc k) - block p ord)"
      using IH(4) halves unfolding s3_def a(3) by blast
    ultimately show ?thesis using IH(2,3,5,7) mm3(1) co by auto
  qed
qed

lemma find_area_round:
  assumes inv: "pg_inv s" and k: "ord \<le> k" "k \<le> PAGE_ORDER_MAX" "area s k \<noteq> []"
  shows "\<exists>p s'. (do {
      l \<leftarrow> nth_opt (areas s) k;
      cur \<leftarrow> Some (last l);
      s \<leftarrow> area_unlink cur s;
      s \<leftarrow> buddy_split ord cur s;
      s \<leftarrow> upd_page cur (\<lambda>p. p\<lparr>pg_flags := pg_flags p AND NOT PAGE_FLAGS_FREE,
             pg_refcnt := refcnt_init 1\<rparr>) s;
      Some (Some cur, s) }) = Some (Some p, s') \<and> pg_inv s' \<and> allocated p ord s s'
      \<and> (coalesced s \<longrightarrow> coalesced s')"
proof -
  have len: "k < length (areas s)" using k pg_inv_shape [OF inv] by (simp add: shape_ok_def)
  then have nth: "nth_opt (areas s) k = Some (area s k)" by (simp add: nth_opt_in area_def)
  define p where "p = last (area s k)"
  have p: "p \<in> set (area s k)" using k(3) by (simp add: p_def)
  note pk = pg_inv_area [OF inv p]
  note pfree = on_list_free(1) [OF p]
  from area_unlink_inv [OF inv p] obtain as where
    a: "area_unlink p s = Some (s\<lparr>areas := as\<rparr>)" "pg_inv_ex {p} (s\<lparr>areas := as\<rparr>)"
       "free_frames (s\<lparr>areas := as\<rparr>) = free_frames s - block p k"
       "\<And>o'. set (area (s\<lparr>areas := as\<rparr>) o') \<subseteq> set (area s o')" by blast
  define s1 where "s1 = s\<lparr>areas := as\<rparr>"
  have "pg_inv_ex {p} s1" "block_ok s1 p k" "block p k \<inter> free_frames s1 = {}"
    "buddy_page_order (mem_map s1 ! p) = k"
    using a pk by (auto simp: s1_def)
  from buddy_split_spec [OF this(1-3) k(1) this(4)] obtain s2 where
    s2: "buddy_split ord p s1 = Some s2" "pg_inv_ex {p} s2" "block_ok s2 p ord"
      "free_frames s2 = free_frames s1 \<union> (block p k - block p ord)"
      "mem_map s2 ! p = (mem_map s1 ! p)\<lparr>buddy_page_order := ord\<rparr>" "pages_kept (block p k) s1 s2"
      "coalesced s1 \<longrightarrow> coalesced s2"
    by blast
  have sub: "block p ord \<subseteq> block p k"
    using k(1) by (auto simp: block_def intro: order_less_le_trans power_increasing)
  have free2: "free_frames s2 = free_frames s - block p ord"
    using s2(4) a(3) sub pfree unfolding s1_def by blast
  have plt: "p < length (mem_map s2)" using block_ok_lt [OF s2(3)] .
  have pn: "p \<notin> free_frames s2" using free2 block_start by blast
  let ?f = "\<lambda>p. p\<lparr>pg_flags := pg_flags p AND NOT PAGE_FLAGS_FREE, pg_refcnt := refcnt_init 1\<rparr>"
  define s3 where "s3 = s2\<lparr>mem_map := (mem_map s2)[p := ?f (mem_map s2 ! p)]\<rparr>"
  have fl: "pg_flags (?f (mem_map s2 ! p)) = PAGE_FLAGS_NEW_PAGE"
    using pk s2(5) by (simp add: s1_def page_flag_defs)
  have "pg_inv s3"
    using upd_page_inv [OF s2(2) plt pn, of ?f "{}"] fl head_flags_not_buddy [of "?f (mem_map s2 ! p)"]
    by (simp add: s3_def)
  moreover have "allocated p ord s s3"
  proof -
    have "pages_kept (block p k) s s2" using s2(6) by (simp add: s1_def)
    moreover have "pages_kept {p} s2 s3" by (simp add: s3_def pages_kept_mem_map)
    ultimately have "pages_kept (free_frames s) s s3"
      by (rule pages_kept_trans) (use pfree block_start in blast)
    then show ?thesis
      using s2(3) sub pfree free2 fl plt by (auto simp: allocated_def s3_def)
  qed
  moreover have "upd_page p ?f s2 = Some s3" using plt by (simp add: upd_page_in s3_def)
  moreover have "coalesced s3" if "coalesced s"
  proof -
    have "coalesced s1" using coalesced_areas [OF that a(4)] by (simp add: s1_def)
    with s2(7) show ?thesis by (simp add: s3_def coalesced_def)
  qed
  ultimately show ?thesis
    using nth a(1) s2(1) by (simp add: p_def [symmetric] s1_def [symmetric])
qed

lemma page_alloc_round_spec:
  assumes inv: "pg_inv s"
  shows "(\<exists>p s'. page_alloc_round ord s = Some (Some p, s') \<and> pg_inv s' \<and> allocated p ord s s'
      \<and> (coalesced s \<longrightarrow> coalesced s')) \<or>
    page_alloc_round ord s = Some (None, s) \<and> (\<forall>o' \<ge> ord. area s o' = [])
      \<and> (ord = 0 \<longrightarrow> pcp s (this_cpuid s) = [])"
proof (cases "ord = 0 \<and> pcp_alloc s \<noteq> Some (None, s)")
  case True
  with pcp_alloc_spec [OF inv] obtain p s' where
    p: "pcp_alloc s = Some (Some p, s')" "pg_inv s'" "p \<in> free_frames s" "p < length (mem_map s)"
      "free_frames s' = free_frames s - {p}" "pages_kept {p} s s'"
      "pg_flags (mem_map s' ! p) = PAGE_FLAGS_NEW_PAGE" "areas s' = areas s" by metis
  let ?f = "\<lambda>p. p\<lparr>pg_refcnt := refcnt_init 1\<rparr>"
  define s2 where "s2 = s'\<lparr>mem_map := (mem_map s')[p := ?f (mem_map s' ! p)]\<rparr>"
  have plt: "p < length (mem_map s')" using p(4,6) by (simp add: pages_kept_def)
  have "pg_inv s2"
    using upd_page_inv [OF p(2) plt, of ?f "{}"] p(5,7) head_flags_not_buddy [of "?f (mem_map s' ! p)"]
    by (simp add: s2_def)
  moreover have "allocated p 0 s s2"
  proof -
    have "pages_kept {p} s' s2" by (simp add: s2_def pages_kept_mem_map)
    with p(6) have "pages_kept (free_frames s) s s2"
      by (rule pages_kept_trans) (use p(3) in simp)
    then show ?thesis using p plt by (simp add: allocated_def s2_def block_ok_def)
  qed
  moreover have "coalesced s \<longrightarrow> coalesced s2" using p(8) by (simp add: coalesced_def area_def s2_def)
  moreover have "page_alloc_round ord s = Some (Some p, s2)"
    using True p(1) plt by (simp add: page_alloc_round_def upd_page_in s2_def)
  ultimately show ?thesis using True by blast
next
  case False
  have len: "length (areas s) = Suc PAGE_ORDER_MAX" using pg_inv_shape [OF inv] by (simp add: shape_ok_def)
  have cached: "ord = 0 \<longrightarrow> pcp s (this_cpuid s) = []"
  proof
    assume "ord = 0"
    with False have "pcp_alloc s = Some (None, s)" by simp
    with pcp_alloc_spec [OF inv] show "pcp s (this_cpuid s) = []" by (elim disjE exE conjE) simp_all
  qed
  have first: "(if ord = 0 then pcp_alloc s else Some (None, s)) = Some (None, s)" using False by auto
  from find_area_spec [OF len, of ord] show ?thesis
  proof (elim disjE exE conjE)
    assume "find_area ord s = Some None" "\<forall>o' \<ge> ord. area s o' = []"
    then show ?thesis using cached unfolding page_alloc_round_def first by simp
  next
    fix k assume k: "find_area ord s = Some (Some k)" "ord \<le> k" "k \<le> PAGE_ORDER_MAX" "area s k \<noteq> []"
    from find_area_round [OF inv k(2-4)] show ?thesis
      unfolding page_alloc_round_def first using k(1) by simp
  qed
qed

end
