(* ===== verification/Frames.thy ===== *)
theory Frames
  imports Blocks
begin

text \<open>
  The contract between the page allocator and the code that builds on it (slabs, large
  \<open>kmalloc\<close> blocks, \<open>vmalloc\<close>, page tables, the page cache): allocation returns a block that no
  one owns, other owners are not disturbed, and an owned block can be given back.
\<close>

text \<open>
  A client that allocates and releases in any order. \<open>held\<close> lists the blocks in its hands, the
  latest first; a failed allocation adds none, and it releases only what it holds.
\<close>

datatype frame_op = Alloc nat | Release nat

fun run_ops :: "(nat \<Rightarrow> 's \<Rightarrow> (nat option \<times> 's) option) \<Rightarrow> (nat \<Rightarrow> nat \<Rightarrow> 's \<Rightarrow> 's option) \<Rightarrow> frame_op list
    \<Rightarrow> (nat \<times> nat) list \<Rightarrow> 's \<Rightarrow> ((nat \<times> nat) list \<times> 's) option" where
  "run_ops alloc release [] held s = Some (held, s)"
| "run_ops alloc release (Alloc ord # ops) held s = do {
     (r, s) \<leftarrow> alloc ord s;
     run_ops alloc release ops (case r of None \<Rightarrow> held | Some p \<Rightarrow> (p, ord) # held) s
   }"
| "run_ops alloc release (Release i # ops) held s =
     (if i < length held then do {
        s \<leftarrow> release (fst (held ! i)) (snd (held ! i)) s;
        run_ops alloc release ops (take i held @ drop (Suc i) held) s
      } else run_ops alloc release ops held s)"

definition blocks_apart :: "nat \<times> nat \<Rightarrow> nat \<times> nat \<Rightarrow> bool" where
  "blocks_apart b c \<longleftrightarrow> block (fst b) (snd b) \<inter> block (fst c) (snd c) = {}"

lemma blocks_apart_sym: "blocks_apart b c \<Longrightarrow> blocks_apart c b"
  by (auto simp: blocks_apart_def)

locale frame_allocator =
  fixes alloc :: "nat \<Rightarrow> 's \<Rightarrow> (nat option \<times> 's) option"
    and release :: "nat \<Rightarrow> nat \<Rightarrow> 's \<Rightarrow> 's option"
    and inv :: "'s \<Rightarrow> bool"
    and owned :: "'s \<Rightarrow> nat \<times> nat \<Rightarrow> bool"
  assumes alloc_returns: "inv s \<Longrightarrow> \<exists>r s'. alloc ord s = Some (r, s')"
    and alloc_inv: "inv s \<Longrightarrow> alloc ord s = Some (r, s') \<Longrightarrow> inv s'"
    and alloc_owned: "inv s \<Longrightarrow> alloc ord s = Some (Some p, s') \<Longrightarrow> owned s' (p, ord)"
    and alloc_keeps: "inv s \<Longrightarrow> alloc ord s = Some (r, s') \<Longrightarrow> owned s b \<Longrightarrow> owned s' b"
    and alloc_apart: "inv s \<Longrightarrow> alloc ord s = Some (Some p, s') \<Longrightarrow> owned s b \<Longrightarrow> blocks_apart (p, ord) b"
    and release_ok: "inv s \<Longrightarrow> owned s (p, ord) \<Longrightarrow>
      \<exists>s'. release p ord s = Some s' \<and> inv s'
        \<and> (\<forall>b. owned s b \<longrightarrow> blocks_apart (p, ord) b \<longrightarrow> owned s' b)"
begin

definition holds :: "(nat \<times> nat) list \<Rightarrow> 's \<Rightarrow> bool" where
  "holds held s \<longleftrightarrow> inv s \<and> sorted_wrt blocks_apart held \<and> (\<forall>b \<in> set held. owned s b)"

lemma alloc_holds:
  assumes h: "holds held s" and a: "alloc ord s = Some (r, s')"
  defines "held' \<equiv> (case r of None \<Rightarrow> held | Some p \<Rightarrow> (p, ord) # held)"
  shows "holds held' s'"
    "owned s b \<Longrightarrow> \<forall>c \<in> set held. blocks_apart c b \<Longrightarrow> owned s' b \<and> (\<forall>c \<in> set held'. blocks_apart c b)"
proof -
  from h have i: "inv s" "sorted_wrt blocks_apart held" "\<And>b. b \<in> set held \<Longrightarrow> owned s b" by (auto simp: holds_def)
  note keep = alloc_keeps [OF i(1) a]
  show "holds held' s'" unfolding holds_def held'_def
    using alloc_inv [OF i(1) a] keep i(2,3) alloc_owned [OF i(1), of ord _ s'] alloc_apart [OF i(1), of ord _ s'] a
    by (cases r) auto
  show "owned s' b \<and> (\<forall>c \<in> set held'. blocks_apart c b)" if "owned s b" "\<forall>c \<in> set held. blocks_apart c b"
    unfolding held'_def using keep that alloc_apart [OF i(1), of ord _ s'] a by (cases r) auto
qed

lemma release_holds:
  assumes h: "holds held s" and i: "i < length held"
  shows "\<exists>s'. release (fst (held ! i)) (snd (held ! i)) s = Some s' \<and> holds (take i held @ drop (Suc i) held) s'
    \<and> (\<forall>b. owned s b \<longrightarrow> (\<forall>c \<in> set held. blocks_apart c b) \<longrightarrow> owned s' b)"
proof -
  let ?b = "held ! i" and ?rest = "take i held @ drop (Suc i) held"
  from h have inv: "inv s" "sorted_wrt blocks_apart held" "\<And>b. b \<in> set held \<Longrightarrow> owned s b" by (auto simp: holds_def)
  have "owned s (fst ?b, snd ?b)" using inv(3) i by simp
  from release_ok [OF inv(1) this] obtain s' where
    s': "release (fst ?b) (snd ?b) s = Some s'" "inv s'" "\<And>b. owned s b \<Longrightarrow> blocks_apart ?b b \<Longrightarrow> owned s' b" by auto
  have "sorted_wrt blocks_apart (take i held @ ?b # drop (Suc i) held)" using inv(2) id_take_nth_drop [OF i] by simp
  then have "sorted_wrt blocks_apart ?rest" "\<forall>c \<in> set ?rest. blocks_apart ?b c"
    by (auto simp: sorted_wrt_append intro: blocks_apart_sym)
  moreover have "set ?rest \<subseteq> set held" by (auto dest: in_set_takeD in_set_dropD)
  ultimately have "holds ?rest s'" unfolding holds_def using s'(2,3) inv(3) by blast
  then show ?thesis using s' i by auto
qed

lemma run_ops_ok:
  "holds held s \<Longrightarrow> \<exists>held' s'. run_ops alloc release ops held s = Some (held', s') \<and> holds held' s'
     \<and> (\<forall>b. owned s b \<longrightarrow> (\<forall>c \<in> set held. blocks_apart c b) \<longrightarrow>
          owned s' b \<and> (\<forall>c \<in> set held'. blocks_apart c b))"
proof (induction ops arbitrary: held s)
  case (Cons x ops)
  show ?case
  proof (cases x)
    case (Alloc ord)
    from Cons.prems alloc_returns obtain r s1 where a: "alloc ord s = Some (r, s1)" unfolding holds_def by blast
    note h = alloc_holds [OF Cons.prems a]
    show ?thesis using Cons.IH [OF h(1)] h(2) a Alloc by simp blast
  next
    case (Release i)
    show ?thesis
    proof (cases "i < length held")
      case True
      from release_holds [OF Cons.prems True] obtain s1 where
        s1: "release (fst (held ! i)) (snd (held ! i)) s = Some s1" "holds (take i held @ drop (Suc i) held) s1"
          "\<And>b. owned s b \<Longrightarrow> \<forall>c \<in> set held. blocks_apart c b \<Longrightarrow> owned s1 b" by blast
      let ?rest = "take i held @ drop (Suc i) held"
      have sub: "set ?rest \<subseteq> set held" by (auto dest: in_set_takeD in_set_dropD)
      have eq: "run_ops alloc release (x # ops) held s = run_ops alloc release ops ?rest s1"
        using s1(1) Release True by simp
      from Cons.IH [OF s1(2)] obtain held' s' where
        r: "run_ops alloc release ops ?rest s1 = Some (held', s')" "holds held' s'"
        "\<And>b. owned s1 b \<Longrightarrow> \<forall>c \<in> set ?rest. blocks_apart c b \<Longrightarrow>
           owned s' b \<and> (\<forall>c \<in> set held'. blocks_apart c b)" by blast
      have "owned s' b \<and> (\<forall>c \<in> set held'. blocks_apart c b)" if "owned s b" "\<forall>c \<in> set held. blocks_apart c b" for b
        using r(3) [OF s1(3) [OF that]] that(2) sub by blast
      then show ?thesis unfolding eq using r(1,2) by blast
    next
      case False
      then show ?thesis using Cons.IH [OF Cons.prems] Release by simp
    qed
  qed
qed auto

end

end
