(* ===== verification/Pgalloc_Props.thy ===== *)
theory Pgalloc_Props
  imports Pgalloc_Spec Frames
begin

text \<open>
  Draining the per-CPU caches, the complete \<open>page_alloc\<close> with its retry, reference counted
  pages, and the properties of the page allocator.
\<close>

section \<open>Draining\<close>

lemma pcp_drain_spec:
  assumes "pg_inv s" "i < MAX_CPUS"
  shows "\<exists>s'. pcp_drain i s = Some s' \<and> pg_inv s' \<and> free_frames s' = free_frames s
    \<and> pages_kept (free_frames s) s s' \<and> (coalesced s \<longrightarrow> coalesced s')
    \<and> pcp s' i = [] \<and> (\<forall>j. j \<noteq> i \<longrightarrow> pcp s' j = pcp s j)"
  using assms
proof (induction "length (pcp s i)" arbitrary: s rule: less_induct)
  case less
  have len: "i < length (pcps s)" using less.prems pg_inv_shape [OF less.prems(1)] by (simp add: shape_ok_def)
  have pc: "pcp_pages (pcps s ! i) = pcp s i" using len by (simp add: pcp_def)
  show ?case
  proof (cases "pcp s i")
    case Nil
    then show ?thesis using less.prems len pc by (simp add: pcp_drain.simps [of i s] nth_opt_in)
  next
    case (Cons p rest)
    define s1 where "s1 = s\<lparr>pcps := (pcps s)[i := (pcps s ! i)\<lparr>pcp_pages := rest,
                pcp_count := sub64 (pcp_count (pcps s ! i)) 1\<rparr>]\<rparr>"
    note t = pcp_take [OF less.prems(1,2) Cons s1_def]
    have mm: "mem_map s1 = mem_map s" by (simp add: s1_def)
    let ?f = "\<lambda>p. p\<lparr>pg_flags := PAGE_FLAGS_NEW_PAGE, buddy_page_order := 0\<rparr>"
    define s2 where "s2 = s1\<lparr>mem_map := (mem_map s1)[p := ?f (mem_map s1 ! p)]\<rparr>"
    have u: "upd_page p ?f s1 = Some s2" using t(4) by (simp add: upd_page_in s2_def mm)
    have s2: "pg_inv s2" "free_frames s2 = free_frames s - {p}" "block_ok s2 p 0"
      "head_flags (pg_flags (mem_map s2 ! p))"
      using upd_page_inv [OF t(1), of p ?f "{}"] t(2,4) head_flags_not_buddy [of "?f (mem_map s1 ! p)"]
      by (simp_all add: s2_def mm block_ok_def)
    from page_free_to_buddy_spec [OF s2(1,3) _ s2(4)] obtain s3 where
      s3: "page_free_to_buddy p 0 s2 = Some s3" "pg_inv s3" "free_frames s3 = free_frames s"
        "pages_kept (free_frames s) s2 s3" "pcps s3 = pcps s2" "coalesced s2 \<longrightarrow> coalesced s3"
      using s2(2) t(3) by (auto simp: insert_absorb)
    have pc3: "pcp s3 j = pcp s1 j" for j using s3(5) by (simp add: pcp_def s2_def)
    then have "length (pcp s3 i) < length (pcp s i)" using t(6) Cons by simp
    from less.hyps [OF this s3(2) less.prems(2)] obtain s' where
      s': "pcp_drain i s3 = Some s'" "pg_inv s'" "free_frames s' = free_frames s3"
        "pages_kept (free_frames s3) s3 s'" "coalesced s3 \<longrightarrow> coalesced s'"
        "pcp s' i = []" "\<And>j. j \<noteq> i \<Longrightarrow> pcp s' j = pcp s3 j" by blast
    have "pages_kept (free_frames s) s s2"
      using t(3) pages_kept_mem_map [of p "free_frames s" s] by (simp add: s2_def s1_def)
    from pages_kept_trans [OF pages_kept_trans [OF this s3(4) order.refl] s'(4)]
    have "pages_kept (free_frames s) s s'" using s3(3) by simp
    moreover have "pcp_drain i s = Some s'"
      using len pc Cons t(4,5) u [unfolded s1_def] s3(1) s'(1)
      by (simp add: pcp_drain.simps [of i s] nth_opt_in flag_set_def page_flag_defs)
    moreover have "coalesced s \<longrightarrow> coalesced s'"
      using s3(6) s'(5) by (simp add: coalesced_def s2_def s1_def)
    ultimately show ?thesis using s' s3(3) pc3 t(6) by simp
  qed
qed

lemma pcp_drain_from_spec:
  "pg_inv s \<Longrightarrow> set is \<subseteq> {..<MAX_CPUS} \<Longrightarrow>
   \<exists>s'. pcp_drain_from is s = Some s' \<and> pg_inv s' \<and> free_frames s' = free_frames s
    \<and> pages_kept (free_frames s) s s' \<and> (coalesced s \<longrightarrow> coalesced s')
    \<and> (\<forall>j. j \<in> set is \<or> pcp s j = [] \<longrightarrow> pcp s' j = [])"
proof (induction "is" arbitrary: s)
  case (Cons i "is")
  from pcp_drain_spec [OF Cons.prems(1), of i] Cons.prems(2) obtain s1 where
    s1: "pcp_drain i s = Some s1" "pg_inv s1" "free_frames s1 = free_frames s"
      "pages_kept (free_frames s) s s1" "coalesced s \<longrightarrow> coalesced s1"
      "pcp s1 i = []" "\<And>j. j \<noteq> i \<Longrightarrow> pcp s1 j = pcp s j" by auto
  from Cons.IH [OF s1(2)] Cons.prems(2) obtain s' where
    s': "pcp_drain_from is s1 = Some s'" "pg_inv s'" "free_frames s' = free_frames s1"
      "pages_kept (free_frames s1) s1 s'" "coalesced s1 \<longrightarrow> coalesced s'"
      "\<And>j. j \<in> set is \<or> pcp s1 j = [] \<Longrightarrow> pcp s' j = []" by auto
  have "pages_kept (free_frames s) s s'"
    using pages_kept_trans [OF s1(4) s'(4)] s1(3) by simp
  moreover have "pcp s' j = []" if "j \<in> set (i # is) \<or> pcp s j = []" for j
    using that s'(6) [of j] s1(6) s1(7) [of j] by (cases "j = i") auto
  ultimately show ?case using s' s1 by simp
qed simp

lemma pcp_drain_all_spec:
  assumes "pg_inv s"
  shows "\<exists>s'. pcp_drain_all s = Some s' \<and> pg_inv s' \<and> free_frames s' = free_frames s
    \<and> pages_kept (free_frames s) s s' \<and> (coalesced s \<longrightarrow> coalesced s') \<and> (\<forall>c. pcp s' c = [])"
proof -
  have "{0..<MAX_CPUS} \<subseteq> {..<MAX_CPUS}" by auto
  then obtain s' where s': "pcp_drain_from [0..<MAX_CPUS] s = Some s'" "pg_inv s'" "free_frames s' = free_frames s"
    "pages_kept (free_frames s) s s'" "coalesced s \<longrightarrow> coalesced s'"
    "\<And>j. j \<in> set [0..<MAX_CPUS] \<or> pcp s j = [] \<Longrightarrow> pcp s' j = []"
    using pcp_drain_from_spec [OF assms, of "[0..<MAX_CPUS]"] by auto
  have "pcp s c = []" if "\<not> c < MAX_CPUS" for c
    using that pg_inv_shape [OF assms] by (simp add: pcp_def shape_ok_def)
  then have "pcp s' c = []" for c using s'(6) [of c] by (cases "c < MAX_CPUS") auto
  with s'(1-5) show ?thesis by (simp add: pcp_drain_all_def)
qed

section \<open>Allocation with reclaim\<close>

text \<open>What \<open>page_alloc\<close> relies on when it calls the reclaimer.\<close>

definition reclaim_ok :: "(nat \<Rightarrow> pgalloc \<Rightarrow> pgalloc option) \<Rightarrow> bool" where
  "reclaim_ok shrink \<longleftrightarrow> (\<forall>n s. pg_inv s \<longrightarrow> (\<exists>s'. shrink n s = Some s' \<and> pg_inv s'))"

text \<open>The state the second round starts from.\<close>

definition reclaimed :: "(nat \<Rightarrow> pgalloc \<Rightarrow> pgalloc option) \<Rightarrow> nat \<Rightarrow> pgalloc \<Rightarrow> pgalloc option" where
  "reclaimed shrink order s = do { s \<leftarrow> pcp_drain_all s; shrink (2 ^ order) s }"

text \<open>
  C6: \<open>page_alloc\<close> is safe and complete. From a well-formed state, and with a reclaimer that
  keeps the state well-formed, the call never fails an assertion and never leaves the memory
  map. It either returns the head of a naturally aligned block of the requested order that was
  entirely free (before the call, or after the caches were drained and pages reclaimed),
  removes exactly that block from the free frames, gives it the flags of an allocated page and
  one reference and touches no page that was in use; or it returns NULL, and then no free block
  of sufficient order exists.
\<close>

theorem page_alloc_ok:
  assumes "pg_inv s" and "reclaim_ok shrink"
  shows "\<exists>r s'. page_alloc shrink order s = Some (r, s') \<and> pg_inv s'
    \<and> (case r of
         Some p \<Rightarrow> \<exists>t. (t = s \<or> reclaimed shrink order s = Some t) \<and> allocated p order t s'
       | None \<Rightarrow> \<forall>o' \<ge> order. area s' o' = [])"
proof -
  from page_alloc_round_spec [OF assms(1), of order] show ?thesis
  proof (elim disjE exE conjE)
    fix p s' assume "page_alloc_round order s = Some (Some p, s')" "pg_inv s'" "allocated p order s s'"
    then show ?thesis by (auto simp: page_alloc_eq)
  next
    assume fail: "page_alloc_round order s = Some (None, s)"
    from pcp_drain_all_spec [OF assms(1)] obtain u where u: "pcp_drain_all s = Some u" "pg_inv u" by blast
    from assms(2) u(2) obtain t where t: "shrink (2 ^ order) u = Some t" "pg_inv t"
      unfolding reclaim_ok_def by blast
    have eq: "page_alloc shrink order s = page_alloc_round order t" "reclaimed shrink order s = Some t"
      using fail u(1) t(1) by (simp_all add: page_alloc_eq reclaimed_def)
    from page_alloc_round_spec [OF t(2), of order] show ?thesis
      unfolding eq(1) using eq(2) t(2) by auto
  qed
qed

text \<open>
  The allocator as set up by \<open>page_alloc_init\<close>: no page is on a list.
\<close>

lemma pg_inv_init:
  assumes "shape_ok (page_alloc_init s)" "\<And>p ord. p < length (mem_map s) \<Longrightarrow> \<not> page_is_buddy (mem_map s ! p) ord"
  shows "pg_inv (page_alloc_init s)" "free_frames (page_alloc_init s) = {}" "coalesced (page_alloc_init s)"
proof -
  have ar: "area (page_alloc_init s) ord = []" for ord
    by (simp add: area_def page_alloc_init_def nth_replicate del: replicate_Suc)
  have pc: "pcp (page_alloc_init s) c = []" for c
    by (simp add: pcp_def page_alloc_init_def)
  have mm: "mem_map (page_alloc_init s) = mem_map s" by (simp add: page_alloc_init_def)
  have cnt: "c < MAX_CPUS \<Longrightarrow> pcp_count (pcps (page_alloc_init s) ! c) = 0" for c
    by (simp add: page_alloc_init_def)
  show "pg_inv (page_alloc_init s)"
    using assms by (intro pg_inv_exI) (simp_all add: ar pc mm cnt free_blocks_def)
  show "free_frames (page_alloc_init s) = {}" "coalesced (page_alloc_init s)"
    by (simp_all add: free_frames_def free_blocks_def coalesced_def ar pc)
qed

text \<open>One maximal block of memory at the usual start of RAM, for the examples.\<close>

definition one_block :: pgalloc where
  "one_block = page_alloc_init \<lparr>mem_map = replicate (2 ^ PAGE_ORDER_MAX)
     \<lparr>pg_flags = PAGE_FLAGS_NEW_PAGE, pg_refcnt = refcnt_init 1, buddy_page_order = 0\<rparr>,
     areas = [], pcps = [], this_cpuid = 0, phys_offset = 0x80000000, ram = (\<lambda>_. 0)\<rparr>"

lemma one_block_inv:
  "pg_inv one_block" "free_frames one_block = {}" "coalesced one_block"
  "block_ok one_block 0 PAGE_ORDER_MAX" "head_flags (pg_flags (mem_map one_block ! 0))"
proof -
  have "shape_ok one_block"
    by (simp add: shape_ok_def one_block_def page_alloc_init_def layout_simps del: replicate_Suc)
  moreover have "\<not> page_is_buddy \<lparr>pg_flags = PAGE_FLAGS_NEW_PAGE, pg_refcnt = r, buddy_page_order = 0\<rparr> ord" for r ord
    by (simp add: page_is_buddy_def flag_set_def page_flag_defs)
  ultimately show "pg_inv one_block" "free_frames one_block = {}" "coalesced one_block"
    unfolding one_block_def by (intro pg_inv_init; simp)+
  show "block_ok one_block 0 PAGE_ORDER_MAX" "head_flags (pg_flags (mem_map one_block ! 0))"
    by (simp_all add: block_ok_def one_block_def page_alloc_init_def)
qed

lemma one_block_length: "length (mem_map one_block) = 2 ^ PAGE_ORDER_MAX"
  by (simp add: one_block_def page_alloc_init_def)

lemma one_block_freed:
  "\<exists>s. page_free 0 PAGE_ORDER_MAX one_block = Some s \<and> pg_inv s \<and> coalesced s
     \<and> free_frames s = block 0 PAGE_ORDER_MAX \<and> length (mem_map s) = 2 ^ PAGE_ORDER_MAX"
proof -
  have "block 0 PAGE_ORDER_MAX \<inter> free_frames one_block = {}" using one_block_inv(2) by simp
  from page_free_spec [OF one_block_inv(1,4) this one_block_inv(5)] obtain s where
    s: "page_free 0 PAGE_ORDER_MAX one_block = Some s" "pg_inv s"
      "free_frames s = free_frames one_block \<union> block 0 PAGE_ORDER_MAX"
      "pages_kept (free_frames one_block \<union> block 0 PAGE_ORDER_MAX) one_block s" "coalesced s"
    using one_block_inv(3) by blast
  with pages_kept_length [OF s(4)] one_block_length one_block_inv(2) show ?thesis by simp
qed

theorem page_alloc_ok_witness:
  "\<exists>s r s'. page_free 0 PAGE_ORDER_MAX one_block = Some s
     \<and> page_alloc (\<lambda>_ s. Some s) 3 s = Some (r, s') \<and> pg_inv s'"
proof -
  obtain s where "page_free 0 PAGE_ORDER_MAX one_block = Some s" "pg_inv s"
    using one_block_freed by blast
  with page_alloc_ok [of s "\<lambda>_ s. Some s" 3] show ?thesis by (auto simp: reclaim_ok_def)
qed

section \<open>Ownership\<close>

text \<open>A block in the hands of a caller of the allocator.\<close>

definition owned_block :: "pgalloc \<Rightarrow> nat \<times> nat \<Rightarrow> bool" where
  "owned_block s b \<longleftrightarrow> block_ok s (fst b) (snd b) \<and> block (fst b) (snd b) \<inter> free_frames s = {}
     \<and> head_flags (pg_flags (mem_map s ! fst b))"

lemma owned_block_kept:
  assumes "owned_block s b" "pages_kept F s s'" "block (fst b) (snd b) \<inter> F = {}"
    and "free_frames s' \<subseteq> F \<union> free_frames s"
  shows "owned_block s' b"
proof -
  have "fst b \<notin> F" using assms(3) block_start by blast
  then have "mem_map s' ! fst b = mem_map s ! fst b" using assms(2) by (simp add: pages_kept_def)
  moreover have "block (fst b) (snd b) \<inter> free_frames s' = {}"
    using assms(1,3,4) unfolding owned_block_def by blast
  ultimately show ?thesis
    using assms(1) block_ok_kept [OF assms(2)] by (simp add: owned_block_def)
qed

lemma owned_block_round:
  assumes inv: "pg_inv s" and r: "page_alloc_round ord s = Some (r, s')"
  shows "pg_inv s'" "r = Some p \<Longrightarrow> allocated p ord s s'" "owned_block s b \<Longrightarrow> owned_block s' b"
proof -
  have cases: "r = None \<and> s' = s \<or> (\<exists>p. r = Some p \<and> pg_inv s' \<and> allocated p ord s s')"
    using page_alloc_round_spec [OF inv, of ord] r by (elim disjE exE conjE) auto
  with inv show "pg_inv s'" "r = Some p \<Longrightarrow> allocated p ord s s'" by auto
  assume b: "owned_block s b"
  then have "block (fst b) (snd b) \<inter> free_frames s = {}" by (simp add: owned_block_def)
  with cases b owned_block_kept [OF b, of "free_frames s" s'] show "owned_block s' b"
    by (auto simp: allocated_def)
qed

interpretation buddy: frame_allocator page_alloc_round page_free pg_inv owned_block
proof unfold_locales
  fix s :: pgalloc and ord assume inv: "pg_inv s"
  show "\<exists>r s'. page_alloc_round ord s = Some (r, s')"
    using page_alloc_round_spec [OF inv, of ord] by blast
  fix r s' assume r: "page_alloc_round ord s = Some (r, s')"
  from owned_block_round [OF inv r] show "pg_inv s'" by simp
  show "owned_block s b \<Longrightarrow> owned_block s' b" for b
    using owned_block_round(3) [OF inv r] by simp
next
  fix s :: pgalloc and ord p s' assume inv: "pg_inv s" and r: "page_alloc_round ord s = Some (Some p, s')"
  note a = owned_block_round(2) [OF inv r refl]
  show "owned_block s' (p, ord)"
    using a by (auto simp: owned_block_def allocated_def)
  show "owned_block s b \<Longrightarrow> blocks_apart (p, ord) b" for b
    using a unfolding owned_block_def allocated_def blocks_apart_def by auto
next
  fix s :: pgalloc and p ord assume inv: "pg_inv s" and o: "owned_block s (p, ord)"
  then have o': "block_ok s p ord" "block p ord \<inter> free_frames s = {}" "head_flags (pg_flags (mem_map s ! p))"
    by (simp_all add: owned_block_def)
  from page_free_spec [OF inv o'] obtain s' where
    s': "page_free p ord s = Some s'" "pg_inv s'" "free_frames s' = free_frames s \<union> block p ord"
      "pages_kept (free_frames s \<union> block p ord) s s'" by blast
  have "owned_block s' b" if "owned_block s b" "blocks_apart (p, ord) b" for b
    using that s'(3) unfolding owned_block_def blocks_apart_def
    by (intro owned_block_kept [OF that(1) s'(4), unfolded owned_block_def]) auto
  with s'(1,2) show "\<exists>s'. page_free p ord s = Some s' \<and> pg_inv s'
      \<and> (\<forall>b. owned_block s b \<longrightarrow> blocks_apart (p, ord) b \<longrightarrow> owned_block s' b)" by blast
qed

text \<open>
  A state in which the page allocator's clients run: beside the allocator's own state that of
  the page cache, which holds the blocks \<open>K\<close> it may give back when memory is short (its data
  pages, and slab pages that only its objects keep in use). What \<open>page_alloc\<close> relies on when it
  calls the reclaimer: the call gives back some of these blocks and nothing else that is owned.
\<close>

definition cache_reclaimer :: "('k \<Rightarrow> (nat \<times> nat) set) \<Rightarrow> (nat \<Rightarrow> pgalloc \<times> 'k \<Rightarrow> (pgalloc \<times> 'k) option) \<Rightarrow> bool" where
  "cache_reclaimer K shrink \<longleftrightarrow> (\<forall>n s k. pg_inv s \<longrightarrow> (\<forall>b \<in> K k. owned_block s b) \<longrightarrow>
     (\<exists>s' k'. shrink n (s, k) = Some (s', k') \<and> pg_inv s' \<and> K k' \<subseteq> K k \<and> (\<forall>b \<in> K k'. owned_block s' b)
       \<and> (\<forall>b. owned_block s b \<longrightarrow> (\<forall>c \<in> K k. blocks_apart b c) \<longrightarrow> owned_block s' b)))"

definition cache_inv :: "('k \<Rightarrow> (nat \<times> nat) set) \<Rightarrow> (nat \<Rightarrow> pgalloc \<times> 'k \<Rightarrow> (pgalloc \<times> 'k) option) \<Rightarrow> pgalloc \<times> 'k \<Rightarrow> bool" where
  "cache_inv K shrink w \<longleftrightarrow> cache_reclaimer K shrink \<and> pg_inv (fst w) \<and> (\<forall>b \<in> K (snd w). owned_block (fst w) b)"

text \<open>A block in the hands of a client other than the page cache.\<close>

definition client_block :: "('k \<Rightarrow> (nat \<times> nat) set) \<Rightarrow> pgalloc \<times> 'k \<Rightarrow> nat \<times> nat \<Rightarrow> bool" where
  "client_block K w b \<longleftrightarrow> owned_block (fst w) b \<and> (\<forall>c \<in> K (snd w). blocks_apart b c)"

abbreviation kernel_alloc :: "(nat \<Rightarrow> pgalloc \<times> 'k \<Rightarrow> (pgalloc \<times> 'k) option) \<Rightarrow> nat \<Rightarrow> pgalloc \<times> 'k
    \<Rightarrow> (nat option \<times> pgalloc \<times> 'k) option" where
  "kernel_alloc shrink \<equiv> page_alloc_in fst (\<lambda>s w. (s, snd w)) shrink"

abbreviation kernel_free :: "nat \<Rightarrow> nat \<Rightarrow> pgalloc \<times> 'k \<Rightarrow> (pgalloc \<times> 'k) option" where
  "kernel_free p ord \<equiv> (\<lambda>(s, k). map_option (\<lambda>s. (s, k)) (page_free p ord s))"

text \<open>One round, and the drain and the reclaimer that come before the second one.\<close>

lemma round_client:
  assumes inv: "cache_inv K shrink (s, k)" and r: "page_alloc_round ord s = Some (r, s')"
  shows "cache_inv K shrink (s', k)" "client_block K (s, k) b \<Longrightarrow> client_block K (s', k) b"
    "r = Some p \<Longrightarrow> client_block K (s', k) (p, ord)"
    "r = Some p \<Longrightarrow> client_block K (s, k) b \<Longrightarrow> blocks_apart (p, ord) b"
proof -
  from inv have i: "pg_inv s" "\<And>b. b \<in> K k \<Longrightarrow> owned_block s b" by (auto simp: cache_inv_def)
  note o = buddy.alloc_inv [OF i(1) r] buddy.alloc_keeps [OF i(1) r] buddy.alloc_owned [OF i(1)] buddy.alloc_apart [OF i(1)]
  show "cache_inv K shrink (s', k)" using inv o(1,2) by (simp add: cache_inv_def)
  show "client_block K (s, k) b \<Longrightarrow> client_block K (s', k) b" using o(2) by (simp add: client_block_def)
  assume p: "r = Some p"
  show "client_block K (s', k) (p, ord)" using o(3,4) r p i(2) by (simp add: client_block_def)
  show "client_block K (s, k) b \<Longrightarrow> blocks_apart (p, ord) b" using o(4) r p by (simp add: client_block_def)
qed

lemma reclaim_client:
  assumes inv: "cache_inv K shrink (s, k)"
  shows "\<exists>u s' k'. pcp_drain_all s = Some u \<and> shrink n (u, k) = Some (s', k') \<and> cache_inv K shrink (s', k')
    \<and> (\<forall>b. client_block K (s, k) b \<longrightarrow> client_block K (s', k') b)"
proof -
  from inv have i: "pg_inv s" "\<And>b. b \<in> K k \<Longrightarrow> owned_block s b" "cache_reclaimer K shrink" by (auto simp: cache_inv_def)
  from pcp_drain_all_spec [OF i(1)] obtain u where u: "pcp_drain_all s = Some u" "pg_inv u"
    "free_frames u = free_frames s" "pages_kept (free_frames s) s u" by blast
  have ow: "owned_block u b" if "owned_block s b" for b
    using owned_block_kept [OF that u(4)] that u(3) by (simp add: owned_block_def)
  with i(2) have "\<forall>b \<in> K k. owned_block u b" by blast
  from i(3) [unfolded cache_reclaimer_def, rule_format (no_asm), of u k n, OF u(2)] this obtain s' k' where s': "shrink n (u, k) = Some (s', k')" "pg_inv s'" "K k' \<subseteq> K k"
    "\<forall>b \<in> K k'. owned_block s' b" "\<And>b. owned_block u b \<Longrightarrow> \<forall>c \<in> K k. blocks_apart b c \<Longrightarrow> owned_block s' b"
    by blast
  have "client_block K (s', k') b" if "client_block K (s, k) b" for b
    using that s'(3,5) ow by (auto simp: client_block_def)
  then show ?thesis using u(1) s'(1,2,4) i(3) by (auto simp: cache_inv_def)
qed

lemma kernel_alloc_client:
  assumes inv: "cache_inv K shrink w"
  shows "\<exists>r w'. kernel_alloc shrink ord w = Some (r, w') \<and> cache_inv K shrink w'
    \<and> (\<forall>b. client_block K w b \<longrightarrow> client_block K w' b)
    \<and> (\<forall>p. r = Some p \<longrightarrow> client_block K w' (p, ord) \<and> (\<forall>b. client_block K w b \<longrightarrow> blocks_apart (p, ord) b))"
proof -
  obtain s k where w: "w = (s, k)" by (cases w)
  from inv w have inv: "cache_inv K shrink (s, k)" by simp
  then obtain r s1 where r: "page_alloc_round ord s = Some (r, s1)"
    using buddy.alloc_returns [of s ord] by (auto simp: cache_inv_def)
  note c1 = round_client [OF inv r]
  show ?thesis
  proof (cases r)
    case (Some p)
    with r c1 w show ?thesis by (intro exI [of _ r] exI [of _ "(s1, k)"]) (simp add: page_alloc_in_def)
  next
    case None
    from reclaim_client [OF c1(1), of "2 ^ ord"] obtain u s2 k2 where
      u: "pcp_drain_all s1 = Some u" "shrink (2 ^ ord) (u, k) = Some (s2, k2)" "cache_inv K shrink (s2, k2)"
        "\<And>b. client_block K (s1, k) b \<Longrightarrow> client_block K (s2, k2) b" by blast
    obtain r' s3 where r': "page_alloc_round ord s2 = Some (r', s3)"
      using u(3) buddy.alloc_returns [of s2 ord] by (auto simp: cache_inv_def)
    note c2 = round_client [OF u(3) r']
    have "kernel_alloc shrink ord w = Some (r', s3, k2)"
      using r None u(1,2) r' w by (simp add: page_alloc_in_def)
    then show ?thesis using c1(2) u(4) c2 w by (intro exI [of _ r'] exI [of _ "(s3, k2)"]) auto
  qed
qed

interpretation pages: frame_allocator "kernel_alloc shrink" kernel_free "cache_inv K shrink" "client_block K"
  for shrink :: "nat \<Rightarrow> pgalloc \<times> 'k \<Rightarrow> (pgalloc \<times> 'k) option" and K :: "'k \<Rightarrow> (nat \<times> nat) set"
proof unfold_locales
  fix w :: "pgalloc \<times> 'k" and ord assume inv: "cache_inv K shrink w"
  note a = kernel_alloc_client [OF inv, of ord]
  from a show "\<exists>r w'. kernel_alloc shrink ord w = Some (r, w')" by blast
  show "cache_inv K shrink w'" if "kernel_alloc shrink ord w = Some (r, w')" for r w' using a that by auto
  show "client_block K w' (p, ord)" if "kernel_alloc shrink ord w = Some (Some p, w')" for p w' using a that by auto
  show "client_block K w' b" if "kernel_alloc shrink ord w = Some (r, w')" "client_block K w b" for r w' b
    using a that by (metis Pair_inject option.inject)
  show "blocks_apart (p, ord) b" if "kernel_alloc shrink ord w = Some (Some p, w')" "client_block K w b" for p w' b
    using a that by (metis Pair_inject option.inject)
next
  fix w :: "pgalloc \<times> 'k" and p ord assume inv: "cache_inv K shrink w" and o: "client_block K w (p, ord)"
  obtain s k where w: "w = (s, k)" by (cases w)
  from inv o w have i: "pg_inv s" "\<And>b. b \<in> K k \<Longrightarrow> owned_block s b" "owned_block s (p, ord)"
    "\<And>c. c \<in> K k \<Longrightarrow> blocks_apart (p, ord) c" by (auto simp: cache_inv_def client_block_def)
  from buddy.release_ok [OF i(1,3)] obtain s' where
    s': "page_free p ord s = Some s'" "pg_inv s'" "\<And>b. owned_block s b \<Longrightarrow> blocks_apart (p, ord) b \<Longrightarrow> owned_block s' b" by blast
  then show "\<exists>w'. kernel_free p ord w = Some w' \<and> cache_inv K shrink w'
      \<and> (\<forall>b. client_block K w b \<longrightarrow> blocks_apart (p, ord) b \<longrightarrow> client_block K w' b)"
    using inv i w by (auto simp: cache_inv_def client_block_def)
qed

text \<open>
  C7: Memory handed out by the page allocator is never shared. Take any sequence of calls of
  \<open>page_alloc\<close>, of any orders, with \<open>page_free\<close> of held blocks in between, by a client that
  already holds some disjoint blocks, and let the reclaimer give back blocks of the page cache
  whenever memory runs short. The calls return without tripping an assertion; the blocks the
  client then holds are pairwise disjoint and its own; and a block of any other client remains
  that client's and is disjoint from all of them.
\<close>

theorem page_alloc_run_disjoint:
  assumes "cache_reclaimer K shrink" "pg_inv s" "\<forall>b \<in> K k. owned_block s b"
    and "sorted_wrt blocks_apart held" "\<forall>b \<in> set held. client_block K (s, k) b"
  shows "\<exists>held' s' k'. run_ops (page_alloc_in fst (\<lambda>s w. (s, snd w)) shrink)
        (\<lambda>p ord (s, k). map_option (\<lambda>s. (s, k)) (page_free p ord s)) ops held (s, k) = Some (held', s', k')
    \<and> pg_inv s' \<and> sorted_wrt blocks_apart held' \<and> (\<forall>b \<in> set held'. client_block K (s', k') b)
    \<and> (\<forall>b. client_block K (s, k) b \<longrightarrow> (\<forall>c \<in> set held. blocks_apart c b) \<longrightarrow>
         client_block K (s', k') b \<and> (\<forall>c \<in> set held'. blocks_apart c b))"
proof -
  have "pages.holds K shrink held (s, k)" using assms by (simp add: pages.holds_def cache_inv_def)
  from pages.run_ops_ok [OF this, of ops] obtain held' w' where
    "run_ops (kernel_alloc shrink) kernel_free ops held (s, k) = Some (held', w')" "pages.holds K shrink held' w'"
    "\<forall>b. client_block K (s, k) b \<longrightarrow> (\<forall>c \<in> set held. blocks_apart c b) \<longrightarrow>
         client_block K w' b \<and> (\<forall>c \<in> set held'. blocks_apart c b)" by blast
  then show ?thesis by (cases w') (auto simp: pages.holds_def cache_inv_def)
qed

text \<open>A page cache that gives its first block back, with all memory in its hands.\<close>

definition demo_shrink :: "nat \<Rightarrow> pgalloc \<times> (nat \<times> nat) list \<Rightarrow> (pgalloc \<times> (nat \<times> nat) list) option" where
  "demo_shrink n = (\<lambda>(s, k). case k of [] \<Rightarrow> Some (s, [])
     | b # k \<Rightarrow> do { s \<leftarrow> page_free (fst b) (snd b) s; Some (s, filter (blocks_apart b) k) })"

lemma demo_shrink_ok: "cache_reclaimer set demo_shrink"
  unfolding cache_reclaimer_def
proof (intro allI impI)
  fix n s and k :: "(nat \<times> nat) list" assume inv: "pg_inv s" and o: "\<forall>b \<in> set k. owned_block s b"
  show "\<exists>s' k'. demo_shrink n (s, k) = Some (s', k') \<and> pg_inv s' \<and> set k' \<subseteq> set k \<and> (\<forall>b \<in> set k'. owned_block s' b)
       \<and> (\<forall>b. owned_block s b \<longrightarrow> (\<forall>c \<in> set k. blocks_apart b c) \<longrightarrow> owned_block s' b)"
  proof (cases k)
    case (Cons b k1)
    with o have "owned_block s (fst b, snd b)" by simp
    from buddy.release_ok [OF inv this] obtain s' where s': "page_free (fst b) (snd b) s = Some s'" "pg_inv s'"
      "\<And>c. owned_block s c \<Longrightarrow> blocks_apart b c \<Longrightarrow> owned_block s' c" by auto
    then show ?thesis using o Cons by (auto simp: demo_shrink_def intro: blocks_apart_sym)
  qed (use inv in \<open>simp add: demo_shrink_def\<close>)
qed

theorem page_alloc_run_disjoint_witness:
  "\<exists>held' s' k'. run_ops (page_alloc_in fst (\<lambda>s w. (s, snd w)) demo_shrink)
      (\<lambda>p ord (s, k). map_option (\<lambda>s. (s, k)) (page_free p ord s))
      [Alloc 0, Alloc 3, Release 1, Alloc 5, Release 0, Alloc 1] [] (one_block, [(0, PAGE_ORDER_MAX)]) = Some (held', s', k')
    \<and> pg_inv s' \<and> sorted_wrt blocks_apart held'"
proof -
  have "\<forall>b \<in> set [(0, PAGE_ORDER_MAX)]. owned_block one_block b" using one_block_inv by (simp add: owned_block_def)
  from page_alloc_run_disjoint [OF demo_shrink_ok one_block_inv(1) this, of "[]"] show ?thesis
    unfolding sorted_wrt.simps list.set ball_empty by blast
qed

section \<open>Merging back\<close>

text \<open>
  The states an allocator goes through: rounds of allocation, releases of owned blocks, drains.
  A call of \<open>page_alloc\<close> is one round, or a round, a drain, the releases of the reclaimer and a
  second round.
\<close>

inductive pg_run :: "pgalloc \<Rightarrow> pgalloc \<Rightarrow> bool" for s0 where
  start: "pg_run s0 s0"
| alloc: "pg_run s0 s \<Longrightarrow> page_alloc_round ord s = Some (r, s') \<Longrightarrow> pg_run s0 s'"
| release: "pg_run s0 s \<Longrightarrow> owned_block s (p, ord) \<Longrightarrow> page_free p ord s = Some s' \<Longrightarrow> pg_run s0 s'"
| drain: "pg_run s0 s \<Longrightarrow> pcp_drain_all s = Some s' \<Longrightarrow> pg_run s0 s'"

lemma pg_run_inv:
  "pg_run s0 s \<Longrightarrow> pg_inv s0 \<Longrightarrow> coalesced s0 \<Longrightarrow> pg_inv s \<and> coalesced s"
proof (induction rule: pg_run.induct)
  case (alloc s ord r s')
  then show ?case using page_alloc_round_spec [of s ord] by auto
next
  case (release s p ord s')
  then show ?case using page_free_spec [of s p ord] by (auto simp: owned_block_def)
next
  case (drain s s')
  then show ?case using pcp_drain_all_spec [of s] by auto
qed simp

text \<open>The frames in the per-CPU caches; they are free but on no buddy list.\<close>

definition pcp_frames :: "pgalloc \<Rightarrow> nat set" where
  "pcp_frames s = (\<Union>c. set (pcp s c))"

lemma free_block_merged:
  assumes inv: "pg_inv s" and co: "coalesced s"
  shows "n \<le> PAGE_ORDER_MAX \<Longrightarrow> 2 ^ n dvd p \<Longrightarrow> block p n \<subseteq> free_frames s - pcp_frames s \<Longrightarrow>
    \<exists>q r. n \<le> r \<and> q \<in> set (area s r) \<and> block p n \<subseteq> block q r"
proof (induction n arbitrary: p)
  case 0
  then have "p \<in> free_frames s" "p \<notin> pcp_frames s" by auto
  then show ?case by (fastforce simp: free_frames_def free_blocks_def pcp_frames_def)
next
  case (Suc n)
  note h = dvd_half [OF Suc.prems(2)] and un = block_halves(1) [of p n]
  have "\<exists>q r. n \<le> r \<and> q \<in> set (area s r) \<and> block p n \<subseteq> block q r"
    by (rule Suc.IH) (use Suc.prems h un in auto)
  then obtain q r where q: "n \<le> r" "q \<in> set (area s r)" "block p n \<subseteq> block q r" by blast
  have "\<exists>q r. n \<le> r \<and> q \<in> set (area s r) \<and> block (p + 2 ^ n) n \<subseteq> block q r"
    by (rule Suc.IH) (use Suc.prems h un in auto)
  then obtain q' r' where q': "n \<le> r'" "q' \<in> set (area s r')" "block (p + 2 ^ n) n \<subseteq> block q' r'" by blast
  have big: "block p (Suc n) \<subseteq> block b k"
    if "b \<in> set (area s k)" "Suc n \<le> k" "x \<in> block p (Suc n)" "x \<in> block b k" for b k x
    using aligned_block_subset [OF Suc.prems(2) _ that(2,3,4)] pg_inv_area [OF inv that(1)] by (simp add: block_ok_def)
  have eq: "b = m" if "block m n \<subseteq> block b n" for b m
    using that atLeastLessThan_subset_iff [of m "m + 2 ^ n" b "b + 2 ^ n"] by (auto simp: block_def)
  have "\<not> (r = n \<and> r' = n)"
  proof
    assume "r = n \<and> r' = n"
    then have "p \<in> set (area s n)" "p + 2 ^ n \<in> set (area s n)" using q q' eq by auto
    then show False using co Suc.prems(1) buddy_half [OF Suc.prems(2)] by (metis Suc_le_lessD coalesced_def)
  qed
  then consider "Suc n \<le> r" | "Suc n \<le> r'" using q(1) q'(1) by linarith
  then show ?case
  proof cases
    case 1
    then show ?thesis using big [OF q(2) 1, of p] q(2,3) un block_start by blast
  next
    case 2
    then show ?thesis using big [OF q'(2) 2, of "p + 2 ^ n"] q'(2,3) un block_start by blast
  qed
qed

lemma all_free_all_merged:
  assumes inv: "pg_inv s" and co: "coalesced s" and pcp: "pcp_frames s = {}"
    and all: "free_frames s = {..<length (mem_map s)}" and ord: "ord < PAGE_ORDER_MAX"
  shows "area s ord = []"
proof (rule ccontr)
  assume "area s ord \<noteq> []"
  then obtain p where p: "p \<in> set (area s ord)" by (cases "area s ord") auto
  let ?m = "2 ^ PAGE_ORDER_MAX * (p div 2 ^ PAGE_ORDER_MAX)"
  have len: "2 ^ PAGE_ORDER_MAX dvd length (mem_map s)" "p + 2 ^ ord \<le> length (mem_map s)"
    using pg_inv_shape [OF inv] pg_inv_area [OF inv p] by (simp_all add: shape_ok_def block_ok_def)
  have pm: "?m \<le> p" "p < ?m + 2 ^ PAGE_ORDER_MAX"
    using times_div_less_eq_dividend dividend_less_times_div [of "2 ^ PAGE_ORDER_MAX" p] by simp_all
  have "p < length (mem_map s)" using len(2) zero_less_power [of "2 :: nat" ord] by linarith
  then have "?m + 2 ^ PAGE_ORDER_MAX \<le> length (mem_map s)"
    using aligned_fits [of PAGE_ORDER_MAX ?m "length (mem_map s)"] len(1) pm by simp
  then have "block ?m PAGE_ORDER_MAX \<subseteq> free_frames s - pcp_frames s" using all pcp by (auto simp: block_def)
  from free_block_merged [OF inv co order_refl _ this] obtain q r where
    q: "PAGE_ORDER_MAX \<le> r" "q \<in> set (area s r)" "block ?m PAGE_ORDER_MAX \<subseteq> block q r" by auto
  have "p \<in> block ?m PAGE_ORDER_MAX" using pm by (simp only: block_def atLeastLessThan_iff)
  with q(3) have "p \<in> block q r" by blast
  moreover have "(p, ord) \<in> free_blocks s" "(q, r) \<in> free_blocks s" "(p, ord) \<noteq> (q, r)"
    using p q(1,2) ord by (auto simp: free_blocks_def)
  from pg_inv_disjoint [OF inv this] have "block p ord \<inter> block q r = {}" by simp
  ultimately show False using block_start by blast
qed

text \<open>
  C8: The buddy system does not fragment for good. In every state of a run of allocations,
  releases of owned blocks and drains that starts well-formed and merged, any aligned block
  whose frames are all free, and none of them in a per-CPU cache, lies inside one free block on
  the buddy lists, of its own order or a larger one. A drain of the per-CPU caches always
  succeeds, keeps the same frames free and makes this true of every aligned block of free
  frames. In particular, once every frame has been given back the drain leaves only blocks of
  the maximal order.
\<close>

theorem buddy_merges_back:
  assumes "pg_inv s0" "coalesced s0" "pg_run s0 s"
  shows "(\<forall>p n. n \<le> PAGE_ORDER_MAX \<longrightarrow> 2 ^ n dvd p \<longrightarrow> block p n \<subseteq> free_frames s - pcp_frames s \<longrightarrow>
        (\<exists>q r. n \<le> r \<and> q \<in> set (area s r) \<and> block p n \<subseteq> block q r))
    \<and> (\<exists>s'. pcp_drain_all s = Some s' \<and> pg_inv s' \<and> free_frames s' = free_frames s
      \<and> (\<forall>p n. n \<le> PAGE_ORDER_MAX \<longrightarrow> 2 ^ n dvd p \<longrightarrow> block p n \<subseteq> free_frames s \<longrightarrow>
          (\<exists>q r. n \<le> r \<and> q \<in> set (area s' r) \<and> block p n \<subseteq> block q r))
      \<and> (free_frames s = {..<length (mem_map s)} \<longrightarrow> (\<forall>ord < PAGE_ORDER_MAX. area s' ord = [])))"
proof -
  from pg_run_inv [OF assms(3,1,2)] have s: "pg_inv s" "coalesced s" by simp_all
  from pcp_drain_all_spec [OF s(1)] s(2) obtain s' where
    s': "pcp_drain_all s = Some s'" "pg_inv s'" "free_frames s' = free_frames s"
      "pages_kept (free_frames s) s s'" "coalesced s'" "\<And>c. pcp s' c = []" by auto
  have pcp: "pcp_frames s' = {}" using s'(6) by (simp add: pcp_frames_def)
  note m = free_block_merged [OF s'(2,5), unfolded pcp s'(3)]
  have "area s' ord = []" if "free_frames s = {..<length (mem_map s)}" "ord < PAGE_ORDER_MAX" for ord
    using all_free_all_merged [OF s'(2,5) pcp _ that(2)] that(1) s'(3) pages_kept_length [OF s'(4)] by simp
  with free_block_merged [OF s] m s'(1-3) show ?thesis by simp
qed

theorem buddy_merges_back_witness:
  "\<exists>s s'. page_free 0 PAGE_ORDER_MAX one_block = Some s \<and> pcp_drain_all s = Some s'
     \<and> (\<forall>ord < PAGE_ORDER_MAX. area s' ord = [])"
proof -
  obtain s where s: "page_free 0 PAGE_ORDER_MAX one_block = Some s" "free_frames s = block 0 PAGE_ORDER_MAX"
    "length (mem_map s) = 2 ^ PAGE_ORDER_MAX"
    using one_block_freed by blast
  have own: "owned_block one_block (0, PAGE_ORDER_MAX)"
    using one_block_inv by (simp add: owned_block_def)
  have run: "pg_run one_block s"
    by (rule pg_run.release [OF pg_run.start own s(1)])
  have "free_frames s = {..<length (mem_map s)}"
    by (simp only: s(2,3) block_def atLeast0LessThan add_0)
  with conjunct2 [OF buddy_merges_back [OF one_block_inv(1,3) run]] s(1) show ?thesis by (elim exE conjE) simp
qed

section \<open>Reference counted pages\<close>

text \<open>
  C9: A page shared between address spaces is freed by its last holder. \<open>page_put\<close> on a page
  with more than one reference only drops the count; on the last reference it gives the frame
  back to the allocator. Neither path can fail on an owned order-0 page.
\<close>

theorem page_put_last:
  assumes "pg_inv s" "owned_block s (p, 0)"
  shows "\<exists>s'. page_put (Some p) s = Some s' \<and> pg_inv s'
    \<and> (if 1 < unat (counter (pg_refcnt (mem_map s ! p)))
       then free_frames s' = free_frames s
         \<and> unat (counter (pg_refcnt (mem_map s' ! p))) = unat (counter (pg_refcnt (mem_map s ! p))) - 1
       else free_frames s' = insert p (free_frames s))"
proof -
  let ?rc = "pg_refcnt (mem_map s ! p)"
  let ?f = "\<lambda>q. q\<lparr>pg_refcnt := snd (refcnt_dec_fetch (pg_refcnt q))\<rparr>"
  from assms(2) have p: "block_ok s p 0" "p < length (mem_map s)" "p \<notin> free_frames s"
    "head_flags (pg_flags (mem_map s ! p))"
    by (auto simp: owned_block_def block_ok_def)
  define s1 where "s1 = s\<lparr>mem_map := (mem_map s)[p := ?f (mem_map s ! p)]\<rparr>"
  have s1: "pg_inv s1" "free_frames s1 = free_frames s" "block_ok s1 p 0" "head_flags (pg_flags (mem_map s1 ! p))"
    using upd_page_inv [OF assms(1) p(2,3), of ?f "{}"] p head_flags_not_buddy [of "?f (mem_map s ! p)"]
    by (simp_all add: s1_def)
  have put: "page_put (Some p) s = (if fst (refcnt_dec_fetch ?rc) > 0 then Some s1 else page_free p 0 s1)"
    using p(2) by (simp add: page_put_def nth_opt_in upd_page_in s1_def)
  have gt: "fst (refcnt_dec_fetch ?rc) > 0 \<longleftrightarrow> 1 < unat (counter ?rc)"
    using unat_dec_fetch(1) [of ?rc] by (simp add: word_less_nat_alt)
  show ?thesis
  proof (cases "1 < unat (counter ?rc)")
    case True
    then show ?thesis using put gt s1(1,2) p(2) unat_dec_fetch(2) [of ?rc] by (simp add: s1_def)
  next
    case False
    then show ?thesis using put gt page_free_spec [OF s1(1,3) _ s1(4)] p(3) s1(2) by auto
  qed
qed

theorem page_put_last_witness:
  "\<exists>s'. page_put (Some 0) one_block = Some s' \<and> pg_inv s' \<and> free_frames s' = {0}"
proof -
  have "owned_block one_block (0, 0)"
    using one_block_inv(2,5) by (simp add: owned_block_def block_ok_def one_block_def page_alloc_init_def)
  moreover have "unat (counter (pg_refcnt (mem_map one_block ! 0))) = 1"
    by (simp add: one_block_def page_alloc_init_def refcnt_init_def)
  ultimately show ?thesis
    using page_put_last [OF one_block_inv(1), of 0] one_block_inv(2) by auto
qed

end
