(* ===== verification/Memblock.thy ===== *)
theory Memblock
  imports Pgalloc
begin

text \<open>
  The boot-time allocator (\<open>src/src/mm/memblock.c\<close>): two arrays of address ranges, the memory
  of the machine and what is reserved of it, kept sorted, disjoint and merged. The model keeps
  the \<open>cnt\<close> entries in use as a list and the capacity \<open>max\<close>; a store beyond the capacity
  makes the call fail, as does the explicit panic on region count overflow.
\<close>

section \<open>Model\<close>

definition INIT_MEMBLOCK_REGIONS :: nat where "INIT_MEMBLOCK_REGIONS = 32"
definition INIT_MEMBLOCK_RESERVED_REGIONS :: nat where "INIT_MEMBLOCK_RESERVED_REGIONS = 32"
definition MAX_FREE_RANGES :: nat where "MAX_FREE_RANGES = 128"
definition UINT64_MAX :: nat where "UINT64_MAX = 2 ^ 64 - 1"
definition UINT32_MAX :: nat where "UINT32_MAX = 2 ^ 32 - 1"

record memblock_region =
  rbase :: nat
  rsize :: nat

record memblock_region_set =
  regions :: "memblock_region list"
  max_regions :: nat

record memblock =
  memory :: memblock_region_set
  reserved :: memblock_region_set

definition init_memblock :: memblock where
  "init_memblock = \<lparr>memory = \<lparr>regions = [], max_regions = INIT_MEMBLOCK_REGIONS\<rparr>,
     reserved = \<lparr>regions = [], max_regions = INIT_MEMBLOCK_RESERVED_REGIONS\<rparr>\<rparr>"

definition region_end :: "memblock_region \<Rightarrow> nat" where
  "region_end r = wrap64 (rbase r + rsize r)"

definition memblock_insert_region :: "nat \<Rightarrow> nat \<Rightarrow> nat \<Rightarrow> memblock_region_set \<Rightarrow> memblock_region_set option" where
  "memblock_insert_region idx b n rs =
     (if length (regions rs) < max_regions rs \<and> idx \<le> length (regions rs)
      then Some (rs\<lparr>regions := take idx (regions rs) @ \<lparr>rbase = b, rsize = n\<rparr> # drop idx (regions rs)\<rparr>)
      else None)"

function memblock_merge_loop :: "nat \<Rightarrow> memblock_region list \<Rightarrow> memblock_region list" where
  "memblock_merge_loop idx rs =
     (if idx < length rs - 1 then
        if region_end (rs ! idx) = rbase (rs ! (idx + 1))
        then memblock_merge_loop idx
          (take idx rs @ (rs ! idx)\<lparr>rsize := wrap64 (rsize (rs ! idx) + rsize (rs ! (idx + 1)))\<rparr> # drop (idx + 2) rs)
        else memblock_merge_loop (idx + 1) rs
      else rs)"
  by auto
termination by (relation "measure (\<lambda>(idx, rs). length rs - idx)") auto

declare memblock_merge_loop.simps [simp del]

definition memblock_merge_regions :: "memblock_region_set \<Rightarrow> memblock_region_set" where
  "memblock_merge_regions rs =
     (if length (regions rs) < 2 then rs else rs\<lparr>regions := memblock_merge_loop 0 (regions rs)\<rparr>)"

text \<open>
  The scan of \<open>memblock_add_region\<close>, from entry \<open>idx\<close> on: it returns where it stopped, what
  remains to be added, the set and the number of regions found missing. In the counting pass
  (\<open>ins\<close> false) the set is left alone.
\<close>

function add_region_scan :: "bool \<Rightarrow> nat \<Rightarrow> nat \<Rightarrow> nat \<Rightarrow> memblock_region_set \<Rightarrow> nat
    \<Rightarrow> (nat \<times> nat \<times> memblock_region_set \<times> nat) option" where
  "add_region_scan ins en idx b rs nr_new =
     (if idx < length (regions rs) then
        let rb = rbase (regions rs ! idx); re = region_end (regions rs ! idx) in
        if en \<le> rb then Some (idx, b, rs, nr_new)
        else if b \<ge> re then add_region_scan ins en (idx + 1) b rs nr_new
        else if b < rb then
          (if ins then do {
             rs' \<leftarrow> memblock_insert_region idx b (rb - b) rs;
             add_region_scan ins en (idx + 2) (min en re) rs' (nr_new + 1)
           } else add_region_scan ins en (idx + 1) (min en re) rs (nr_new + 1))
        else add_region_scan ins en (idx + 1) (min en re) rs nr_new
      else Some (idx, b, rs, nr_new))"
  by auto
termination
  by (relation "measure (\<lambda>(_, _, idx, _, rs, _). length (regions rs) - idx)")
    (auto simp: memblock_insert_region_def split: if_splits)

declare add_region_scan.simps [simp del]

definition add_region_pass :: "bool \<Rightarrow> nat \<Rightarrow> nat \<Rightarrow> memblock_region_set \<Rightarrow> (memblock_region_set \<times> nat) option" where
  "add_region_pass ins en b rs = do {
     (idx, b, rs, nr_new) \<leftarrow> add_region_scan ins en 0 b rs 0;
     if en > b
     then if ins then do { rs \<leftarrow> memblock_insert_region idx b (en - b) rs; Some (rs, nr_new + 1) }
          else Some (rs, nr_new + 1)
     else Some (rs, nr_new)
   }"

definition memblock_add_region :: "nat \<Rightarrow> nat \<Rightarrow> memblock_region_set \<Rightarrow> memblock_region_set option" where
  "memblock_add_region b n rs =
     (let en = wrap64 (b + n) in
      if n = 0 then Some rs
      else if regions rs = [] then memblock_insert_region 0 b n rs
      else if length (regions rs) * 2 + 1 \<le> max_regions rs then do {
        (rs, _) \<leftarrow> add_region_pass True en b rs;
        Some (memblock_merge_regions rs)
      } else do {
        (rs, nr_new) \<leftarrow> add_region_pass False en b rs;
        _ \<leftarrow> assert_opt (\<not> nr_new > sub64 (max_regions rs) (length (regions rs)));
        (rs, _) \<leftarrow> add_region_pass True en b rs;
        Some (memblock_merge_regions rs)
      })"

definition memblock_add :: "nat \<Rightarrow> nat \<Rightarrow> memblock \<Rightarrow> memblock option" where
  "memblock_add b n mb = do {
     rs \<leftarrow> memblock_add_region b n (memory mb);
     Some (mb\<lparr>memory := rs\<rparr>)
   }"

definition memblock_reserve :: "nat \<Rightarrow> nat \<Rightarrow> memblock \<Rightarrow> memblock option" where
  "memblock_reserve b n mb = do {
     rs \<leftarrow> memblock_add_region b n (reserved mb);
     Some (mb\<lparr>reserved := rs\<rparr>)
   }"

definition memblock_remove_region :: "nat \<Rightarrow> nat \<Rightarrow> nat \<Rightarrow> memblock_region_set \<Rightarrow> memblock_region_set option" where
  "memblock_remove_region idx b n rs = do {
     rgn \<leftarrow> nth_opt (regions rs) idx;
     let en = wrap64 (b + n); rb = rbase rgn; re = region_end rgn in do {
       _ \<leftarrow> assert_opt (b \<ge> rb \<and> en \<le> re);
       if b = rb then
         if en = re then Some (rs\<lparr>regions := take idx (regions rs) @ drop (idx + 1) (regions rs)\<rparr>)
         else Some (rs\<lparr>regions := (regions rs)[idx := rgn\<lparr>rbase := en, rsize := sub64 re en\<rparr>]\<rparr>)
       else if en = re then Some (rs\<lparr>regions := (regions rs)[idx := rgn\<lparr>rsize := b - rb\<rparr>]\<rparr>)
       else do {
         _ \<leftarrow> assert_opt (\<not> length (regions rs) > sub64 (max_regions rs) 1);
         rs \<leftarrow> memblock_insert_region (idx + 1) en (sub64 re en) rs;
         Some (rs\<lparr>regions := (regions rs)[idx := rgn\<lparr>rsize := b - rb\<rparr>]\<rparr>)
       }
     }
   }"

text \<open>The search of \<open>memblock_find_region\<close>, from entry \<open>idx\<close> on.\<close>

fun find_region_from :: "nat \<Rightarrow> nat \<Rightarrow> nat \<Rightarrow> memblock_region list \<Rightarrow> nat option" where
  "find_region_from b en idx [] = None"
| "find_region_from b en idx (rgn # rs) =
     (if b \<ge> rbase rgn \<and> en \<le> region_end rgn then Some idx else find_region_from b en (idx + 1) rs)"

definition memblock_find_region :: "nat \<Rightarrow> nat \<Rightarrow> memblock_region_set \<Rightarrow> nat option" where
  "memblock_find_region b n rs = find_region_from b (wrap64 (b + n)) 0 (regions rs)"

definition memblock_free :: "nat \<Rightarrow> nat \<Rightarrow> memblock \<Rightarrow> memblock option" where
  "memblock_free b n mb =
     (case memblock_find_region b n (reserved mb) of
        None \<Rightarrow> Some mb
      | Some idx \<Rightarrow> do {
          rs \<leftarrow> memblock_remove_region idx b n (reserved mb);
          Some (mb\<lparr>reserved := rs\<rparr>)
        })"

definition memblock_start_of_dram :: "memblock \<Rightarrow> nat" where
  "memblock_start_of_dram mb = (case regions (memory mb) of [] \<Rightarrow> 0 | r # _ \<Rightarrow> rbase r)"

text \<open>
  The iterator \<open>__next_mem_range\<close>. Its position packs an index into the memory regions and one
  into the gaps between the reserved regions. The inner loop over the gaps ends with a range
  found, with a gap beyond the memory region, or after the last gap.
\<close>

datatype gap_result = Found nat nat nat | Beyond nat

function next_gap :: "nat \<Rightarrow> nat \<Rightarrow> memblock_region list \<Rightarrow> nat \<Rightarrow> gap_result" where
  "next_gap mstart mend res idx_res =
     (if idx_res < length res + 1 then
        let rstart = (if idx_res = 0 then 0 else region_end (res ! (idx_res - 1)));
            rend = (if idx_res < length res then rbase (res ! idx_res) else UINT64_MAX) in
        if rstart \<ge> mend then Beyond idx_res
        else if mstart < rend then Found idx_res (max mstart rstart) rend
        else next_gap mstart mend res (idx_res + 1)
      else Beyond idx_res)"
  by auto
termination by (relation "measure (\<lambda>(_, _, res, idx_res). length res + 1 - idx_res)") auto

declare next_gap.simps [simp del]

function next_mem_range_from :: "memblock_region list \<Rightarrow> memblock_region list \<Rightarrow> nat \<Rightarrow> nat
    \<Rightarrow> ((nat \<times> nat) \<times> nat \<times> nat) option" where
  "next_mem_range_from mem res idx_mem idx_res =
     (if idx_mem < length mem then
        let mstart = rbase (mem ! idx_mem); mend = region_end (mem ! idx_mem) in
        (case next_gap mstart mend res idx_res of
           Found idx_res start rend \<Rightarrow>
             if mend \<le> rend then Some ((start, min mend rend), idx_mem + 1, idx_res)
             else Some ((start, min mend rend), idx_mem, idx_res + 1)
         | Beyond idx_res \<Rightarrow> next_mem_range_from mem res (idx_mem + 1) idx_res)
      else None)"
  by auto
termination by (relation "measure (\<lambda>(mem, _, idx_mem, _). length mem - idx_mem)") auto

declare next_mem_range_from.simps [simp del]

definition pack_idx :: "nat \<Rightarrow> nat \<Rightarrow> nat" where
  "pack_idx idx_mem idx_res = push_bit 32 idx_mem OR idx_res"

definition next_mem_range :: "memblock \<Rightarrow> nat \<times> nat \<times> nat \<Rightarrow> nat \<times> nat \<times> nat" where
  "next_mem_range mb = (\<lambda>(pidx, start, en).
     case next_mem_range_from (regions (memory mb)) (regions (reserved mb))
         (drop_bit 32 pidx AND 0xffffffff) (pidx AND 0xffffffff) of
       Some ((start, en), idx_mem, idx_res) \<Rightarrow> (pack_idx idx_mem idx_res, start, en)
     | None \<Rightarrow> (UINT64_MAX, start, en))"

text \<open>
  \<open>memblock_alloc\<close>: the loop of \<open>for_each_mem_range\<close> with its body. The result 0 reports
  failure. The loop is given as a partial function and shown to end.
\<close>

partial_function (option) memblock_alloc_loop :: "nat \<Rightarrow> nat \<Rightarrow> nat \<Rightarrow> memblock \<Rightarrow> nat \<times> nat \<times> nat
    \<Rightarrow> (nat \<times> memblock) option" where
  "memblock_alloc_loop n min_addr align mb it =
     (if fst it \<noteq> UINT64_MAX then
        let start = fst (snd it); en = snd (snd it) in
        if start < min_addr then memblock_alloc_loop n min_addr align mb (next_mem_range mb it)
        else let aligned_start = round_up (max start min_addr) align in
        if wrap64 (aligned_start + n) > en
        then memblock_alloc_loop n min_addr align mb (next_mem_range mb it)
        else do {
          mb \<leftarrow> memblock_reserve aligned_start n mb;
          Some (aligned_start, mb)
        }
      else Some (0, mb))"

definition memblock_alloc :: "nat \<Rightarrow> nat \<Rightarrow> nat \<Rightarrow> memblock \<Rightarrow> (nat \<times> memblock) option" where
  "memblock_alloc n min_addr align mb = do {
     _ \<leftarrow> assert_opt (is_power_of_two align);
     memblock_alloc_loop n min_addr align mb (next_mem_range mb (0, 0, 0))
   }"

text \<open>\<open>__next_mem_pfn_range\<close>: the next memory region that contains a whole page.\<close>

function next_mem_pfn_range :: "pgalloc \<Rightarrow> memblock \<Rightarrow> nat \<times> nat \<times> nat \<Rightarrow> nat \<times> nat \<times> nat" where
  "next_mem_pfn_range s mb (pidx, pstart, pend) =
     (if pidx < length (regions (memory mb)) then
        let rgn = regions (memory mb) ! pidx;
            pstart = phys_to_pfn s (round_up (rbase rgn) PAGE_SIZE);
            pend = phys_to_pfn s (round_down (region_end rgn) PAGE_SIZE) in
        if pstart < pend then (pidx + 1, pstart, pend)
        else next_mem_pfn_range s mb (pidx + 1, pstart, pend)
      else (UINT32_MAX, pstart, pend))"
  by pat_completeness auto
termination by (relation "measure (\<lambda>(_, mb, pidx, _). length (regions (memory mb)) - pidx)") auto

declare next_mem_pfn_range.simps [simp del]

text \<open>
  Handing memory over to the page allocator. The inner loop of \<open>memblock_free_range\<close> lowers
  the order until the chunk is aligned and fits; going below order 0 would wrap the unsigned
  counter and shift out of range.
\<close>

fun chunk_order :: "nat \<Rightarrow> nat \<Rightarrow> nat \<Rightarrow> nat option" where
  "chunk_order start en order =
     (if is_aligned start (2 ^ (PAGE_SHIFT + order)) \<and> 2 ^ (PAGE_SHIFT + order) \<le> en - start
      then Some order
      else (case order of 0 \<Rightarrow> None | Suc k \<Rightarrow> chunk_order start en k))"

declare chunk_order.simps [simp del]

function free_range_loop :: "nat \<Rightarrow> nat \<Rightarrow> pgalloc \<Rightarrow> pgalloc option" where
  "free_range_loop start en s =
     (if start < en then do {
        order \<leftarrow> chunk_order start en
          (if page_order (en - start) > PAGE_ORDER_MAX then PAGE_ORDER_MAX else page_order (en - start));
        s \<leftarrow> upd_page (phys_to_pfn s start) (\<lambda>p. p\<lparr>pg_flags := PAGE_FLAGS_NEW_PAGE\<rparr>) s;
        s \<leftarrow> page_free (phys_to_pfn s start) order s;
        free_range_loop (start + push_bit PAGE_SHIFT (2 ^ order)) en s
      } else Some s)"
  by auto
termination
  by (relation "measure (\<lambda>(start, en, _). en - start)") (auto simp: push_bit_eq_mult intro: diff_less_mono2)

declare free_range_loop.simps [simp del]

definition memblock_free_range :: "nat \<Rightarrow> nat \<Rightarrow> memblock \<times> pgalloc \<Rightarrow> (memblock \<times> pgalloc) option" where
  "memblock_free_range start en = (\<lambda>(mb, s).
     let start = round_up start PAGE_SIZE; en = round_down en PAGE_SIZE in do {
       mb \<leftarrow> memblock_reserve start (sub64 en start) mb;
       s \<leftarrow> free_range_loop start en s;
       Some (mb, s)
     })"

partial_function (option) snapshot_ranges :: "memblock \<Rightarrow> nat \<times> nat \<times> nat \<Rightarrow> (nat \<times> nat) list
    \<Rightarrow> (nat \<times> nat) list option" where
  "snapshot_ranges mb it ranges =
     (if fst it \<noteq> UINT64_MAX then
        if length ranges < MAX_FREE_RANGES
        then snapshot_ranges mb (next_mem_range mb it) (ranges @ [snd it])
        else None
      else Some ranges)"

fun free_ranges :: "(nat \<times> nat) list \<Rightarrow> memblock \<times> pgalloc \<Rightarrow> (memblock \<times> pgalloc) option" where
  "free_ranges [] st = Some st"
| "free_ranges ((start, en) # ranges) st = do {
     st \<leftarrow> memblock_free_range start en st;
     free_ranges ranges st
   }"

definition memblock_free_all :: "memblock \<times> pgalloc \<Rightarrow> (memblock \<times> pgalloc) option" where
  "memblock_free_all = (\<lambda>(mb, s). do {
     ranges \<leftarrow> snapshot_ranges mb (next_mem_range mb (0, 0, 0)) [];
     free_ranges ranges (mb, s)
   })"

end
