(* ===== verification/Memblock_Set.thy ===== *)
theory Memblock_Set
  imports Memblock
begin

text \<open>
  Region sets of the boot-time allocator as sets of addresses. A set is well-formed when its
  regions are non-empty, end below \<open>2 ^ 64\<close>, and are sorted with a gap between neighbours.
  Adding and removing a range acts on the addresses covered and keeps the set well-formed.
\<close>

section \<open>Covered addresses\<close>

definition fin :: "memblock_region \<Rightarrow> nat" where
  "fin r = rbase r + rsize r"

definition cover :: "memblock_region list \<Rightarrow> nat set" where
  "cover rs = (\<Union>r \<in> set rs. {rbase r..<fin r})"

definition region_ok :: "memblock_region \<Rightarrow> bool" where
  "region_ok r \<longleftrightarrow> 0 < rsize r \<and> fin r < 2 ^ 64"

text \<open>Sorted without overlap, and sorted with gaps.\<close>

definition sorted_regions :: "memblock_region list \<Rightarrow> bool" where
  "sorted_regions rs \<longleftrightarrow> (\<forall>r \<in> set rs. region_ok r) \<and> sorted_wrt (\<lambda>a c. fin a \<le> rbase c) rs"

definition merged_regions :: "memblock_region list \<Rightarrow> bool" where
  "merged_regions rs \<longleftrightarrow> (\<forall>r \<in> set rs. region_ok r) \<and> sorted_wrt (\<lambda>a c. fin a < rbase c) rs"

lemma region_end_fin: "region_ok r \<Longrightarrow> region_end r = fin r"
  by (simp add: region_ok_def region_end_def fin_def)

lemma cover_simps [simp]:
  "cover [] = {}" "cover (r # rs) = {rbase r..<fin r} \<union> cover rs" "cover (rs @ rs') = cover rs \<union> cover rs'"
  by (auto simp: cover_def)

lemma merged_sorted: "merged_regions rs \<Longrightarrow> sorted_regions rs"
  unfolding merged_regions_def sorted_regions_def
  by (auto intro: sorted_wrt_mono_rel [of rs "\<lambda>a c. fin a < rbase c"])

lemma sorted_regions_Cons:
  "sorted_regions (r # rs) \<longleftrightarrow> region_ok r \<and> (\<forall>c \<in> set rs. fin r \<le> rbase c) \<and> sorted_regions rs"
  by (auto simp: sorted_regions_def)

lemma merged_regions_Cons:
  "merged_regions (r # rs) \<longleftrightarrow> region_ok r \<and> (\<forall>c \<in> set rs. fin r < rbase c) \<and> merged_regions rs"
  by (auto simp: merged_regions_def)

lemma sorted_regions_Nil [simp]: "sorted_regions []" "merged_regions []"
  by (simp_all add: sorted_regions_def merged_regions_def)

section \<open>Merging\<close>

text \<open>What \<open>memblock_merge_regions\<close> computes, on lists.\<close>

fun merge_adjacent :: "memblock_region list \<Rightarrow> memblock_region list" where
  "merge_adjacent (a # c # rs) =
     (if fin a = rbase c then merge_adjacent (a\<lparr>rsize := rsize a + rsize c\<rparr> # rs)
      else a # merge_adjacent (c # rs))"
| "merge_adjacent rs = rs"

lemma fin_extend: "fin a = rbase c \<Longrightarrow> fin (a\<lparr>rsize := rsize a + rsize c\<rparr>) = fin c"
  by (simp add: fin_def)

lemma sorted_extend:
  "sorted_regions (a # c # rs) \<Longrightarrow> fin a = rbase c \<Longrightarrow> sorted_regions (a\<lparr>rsize := rsize a + rsize c\<rparr> # rs)"
  by (auto simp: sorted_regions_Cons fin_extend region_ok_def)

lemma merge_loop_eq:
  "sorted_regions suf \<Longrightarrow> memblock_merge_loop (length pre) (pre @ suf) = pre @ merge_adjacent suf"
proof (induction suf arbitrary: pre rule: merge_adjacent.induct)
  case (1 a c rs)
  have ok: "region_ok a" "region_ok c" using "1.prems" by (simp_all add: sorted_regions_Cons)
  have nth: "(pre @ a # c # rs) ! length pre = a" "(pre @ a # c # rs) ! Suc (length pre) = c"
    by (simp_all add: nth_append)
  show ?case
  proof (cases "fin a = rbase c")
    case True
    let ?a = "a\<lparr>rsize := rsize a + rsize c\<rparr>"
    have "rsize a + rsize c < 2 ^ 64"
      using ok(2) True by (simp add: region_ok_def fin_def)
    then have "memblock_merge_loop (length pre) (pre @ a # c # rs) = memblock_merge_loop (length pre) (pre @ ?a # rs)"
      using True ok by (subst memblock_merge_loop.simps) (simp add: nth region_end_fin)
    also have "\<dots> = pre @ merge_adjacent (?a # rs)"
      by (rule "1.IH"(1) [OF True sorted_extend [OF "1.prems" True]])
    finally show ?thesis using True by simp
  next
    case False
    then have "memblock_merge_loop (length pre) (pre @ a # c # rs)
        = memblock_merge_loop (length (pre @ [a])) ((pre @ [a]) @ c # rs)"
      using ok by (subst memblock_merge_loop.simps) (simp add: nth region_end_fin)
    also have "\<dots> = (pre @ [a]) @ merge_adjacent (c # rs)"
      using "1.prems" by (intro "1.IH"(2) [OF False]) (simp add: sorted_regions_Cons)
    finally show ?thesis using False by simp
  qed
qed (subst memblock_merge_loop.simps, auto)+

lemma merge_regions_eq:
  "sorted_regions (regions rs) \<Longrightarrow> memblock_merge_regions rs = rs\<lparr>regions := merge_adjacent (regions rs)\<rparr>"
proof -
  assume s: "sorted_regions (regions rs)"
  show ?thesis
  proof (cases "length (regions rs) < 2")
    case True
    then have "merge_adjacent (regions rs) = regions rs"
      by (cases "regions rs" rule: merge_adjacent.cases) auto
    with True show ?thesis by (simp add: memblock_merge_regions_def)
  next
    case False
    with merge_loop_eq [OF s, of "[]"] show ?thesis by (simp add: memblock_merge_regions_def)
  qed
qed

lemma merge_adjacent_base: "x \<in> set (merge_adjacent rs) \<Longrightarrow> \<exists>y \<in> set rs. rbase x = rbase y"
  by (induction rs rule: merge_adjacent.induct) (auto split: if_splits)

lemma merge_adjacent_length: "length (merge_adjacent rs) \<le> length rs"
  by (induction rs rule: merge_adjacent.induct) auto

lemma merge_adjacent_merged: "sorted_regions rs \<Longrightarrow> merged_regions (merge_adjacent rs)"
proof (induction rs rule: merge_adjacent.induct)
  case (1 a c rs)
  show ?case
  proof (cases "fin a = rbase c")
    case True
    then show ?thesis using "1.IH"(1) [OF True sorted_extend [OF "1.prems" True]] by simp
  next
    case False
    have lt: "fin a < rbase y" if "y \<in> set (c # rs)" for y
    proof (cases "y = c")
      case True
      then show ?thesis using False "1.prems" by (simp add: sorted_regions_Cons)
    next
      case False
      with that "1.prems" have "fin a \<le> rbase c" "fin c \<le> rbase y" "0 < rsize c"
        by (auto simp: sorted_regions_Cons region_ok_def)
      then show ?thesis by (simp add: fin_def)
    qed
    have "fin a < rbase x" if "x \<in> set (merge_adjacent (c # rs))" for x
      using merge_adjacent_base [OF that] lt by auto
    with False "1.IH"(2) [OF False] "1.prems" show ?thesis
      by (simp add: merged_regions_Cons sorted_regions_Cons)
  qed
qed (auto simp: sorted_regions_def merged_regions_def)

lemma merge_adjacent_cover: "sorted_regions rs \<Longrightarrow> cover (merge_adjacent rs) = cover rs"
proof (induction rs rule: merge_adjacent.induct)
  case (1 a c rs)
  show ?case
  proof (cases "fin a = rbase c")
    case True
    have "cover (merge_adjacent (a # c # rs)) = cover (a\<lparr>rsize := rsize a + rsize c\<rparr> # rs)"
      using "1.IH"(1) [OF True sorted_extend [OF "1.prems" True]] True by simp
    also have "\<dots> = cover (a # c # rs)"
    proof -
      have "rbase a \<le> rbase c" "rbase c \<le> fin c" using True by (simp_all add: fin_def)
      then have "{rbase a..<fin c} = {rbase a..<fin a} \<union> {rbase c..<fin c}" using True by auto
      then show ?thesis by (simp add: fin_extend [OF True] Un_assoc)
    qed
    finally show ?thesis .
  next
    case False
    then show ?thesis using "1.IH"(2) "1.prems" by (simp add: sorted_regions_Cons)
  qed
qed simp_all

section \<open>Adding a range\<close>

text \<open>The regions after the inserting pass of \<open>memblock_add_region\<close>, before merging.\<close>

fun fill :: "nat \<Rightarrow> nat \<Rightarrow> memblock_region list \<Rightarrow> memblock_region list" where
  "fill en b [] = (if en > b then [\<lparr>rbase = b, rsize = en - b\<rparr>] else [])"
| "fill en b (r # rs) =
     (if en \<le> rbase r then (if en > b then [\<lparr>rbase = b, rsize = en - b\<rparr>] else []) @ r # rs
      else if b \<ge> fin r then r # fill en b rs
      else (if b < rbase r then [\<lparr>rbase = b, rsize = rbase r - b\<rparr>] else []) @ r # fill en (min en (fin r)) rs)"

lemma fill_length: "length rs \<le> length (fill en b rs)" "length (fill en b rs) \<le> 2 * length rs + 1"
  by (induction rs arbitrary: b) (auto intro: le_SucI)

lemma fill_done: "en \<le> b \<Longrightarrow> fill en b rs = rs"
  by (induction rs arbitrary: b) auto

lemma fill_base: "x \<in> set (fill en b rs) \<Longrightarrow> x \<in> set rs \<or> b \<le> rbase x"
proof (induction rs arbitrary: b)
  case (Cons r rs)
  show ?case
  proof (cases "en \<le> b")
    case True
    then show ?thesis using Cons.prems fill_done [of en b "r # rs"] by simp
  next
    case False
    then show ?thesis
      using Cons.prems Cons.IH [of b] Cons.IH [of "min en (fin r)"] by (auto split: if_splits)
  qed
qed (auto split: if_splits)

lemma fill_cover: "sorted_regions rs \<Longrightarrow> cover (fill en b rs) = cover rs \<union> {b..<en}"
proof (induction rs arbitrary: b)
  case Nil
  then show ?case by (auto simp: fin_def)
next
  case (Cons r rs)
  note IH = Cons.IH [of b] Cons.IH [of "min en (fin r)"]
  have "rbase r < fin r" using Cons.prems by (simp add: sorted_regions_Cons region_ok_def fin_def)
  with IH Cons.prems show ?case
    by (auto simp: sorted_regions_Cons fin_def)
qed

lemma fill_sorted:
  "sorted_regions rs \<Longrightarrow> en < 2 ^ 64 \<Longrightarrow> sorted_regions (fill en b rs)"
proof (induction rs arbitrary: b)
  case Nil
  then show ?case by (auto simp: sorted_regions_Cons region_ok_def fin_def)
next
  case (Cons r rs)
  let ?m = "min en (fin r)"
  have r: "region_ok r" "sorted_regions rs" "\<And>c. c \<in> set rs \<Longrightarrow> fin r \<le> rbase c"
    using Cons.prems by (auto simp: sorted_regions_Cons)
  note IH = Cons.IH [OF r(2) Cons.prems(2)]
  have rf: "rbase r < fin r" "fin r < 2 ^ 64" using r(1) by (simp_all add: region_ok_def fin_def)
  have tail: "fin r \<le> rbase x" if "x \<in> set (fill en d rs)" "fin r \<le> d \<or> en \<le> d" for x d
    using fill_base [OF that(1)] that(2) r(3) fill_done [of en d rs] that(1) by auto
  have "fin r \<le> rbase x" if "x \<in> set (fill en ?m rs)" for x
    using tail [OF that] by (cases "en \<le> fin r") simp_all
  moreover have "fin r \<le> rbase x" if "x \<in> set (fill en b rs)" "fin r \<le> b" for x
    using tail [OF that(1)] that(2) by auto
  moreover have "rbase r \<le> rbase x" if "x \<in> set (r # fill en ?m rs)" for x
    using that calculation(1) [of x] rf(1) by auto
  moreover have "rbase r \<le> rbase x" if "x \<in> set (r # rs)" for x
    using that r(3) [of x] rf(1) by auto
  ultimately show ?case
    using IH [of b] IH [of ?m] r rf Cons.prems(2)
    by (fastforce simp: sorted_regions_Cons region_ok_def fin_def)
qed

text \<open>The end of a pass: what is left to the right of the last region looked at.\<close>

definition finish_pass :: "bool \<Rightarrow> nat \<Rightarrow> nat \<times> nat \<times> memblock_region_set \<times> nat \<Rightarrow> (memblock_region_set \<times> nat) option" where
  "finish_pass ins en = (\<lambda>(idx, b, rs, nr).
     if en > b
     then if ins then do { rs \<leftarrow> memblock_insert_region idx b (en - b) rs; Some (rs, nr + 1) }
          else Some (rs, nr + 1)
     else Some (rs, nr))"

lemma add_region_pass_eq:
  "add_region_pass ins en b rs = Option.bind (add_region_scan ins en 0 b rs 0) (finish_pass ins en)"
  unfolding add_region_pass_def finish_pass_def by (simp add: split_beta')

lemma insert_region_at:
  "length (pre @ suf) < max_regions rs \<Longrightarrow> regions rs = pre @ suf \<Longrightarrow>
     memblock_insert_region (length pre) b n rs = Some (rs\<lparr>regions := pre @ \<lparr>rbase = b, rsize = n\<rparr> # suf\<rparr>)"
  by (simp add: memblock_insert_region_def)

lemma inserting_scan:
  assumes "\<forall>r \<in> set suf. region_ok r" "length pre + length (fill en b suf) \<le> max_regions rs"
    and "regions rs = pre @ suf"
  shows "\<exists>nr'. Option.bind (add_region_scan True en (length pre) b rs nr) (finish_pass True en)
     = Some (rs\<lparr>regions := pre @ fill en b suf\<rparr>, nr')"
  using assms
proof (induction suf arbitrary: pre b nr rs)
  case Nil
  then show ?case
    using insert_region_at [of pre "[]" rs b "en - b"]
    by (subst add_region_scan.simps) (auto simp: finish_pass_def)
next
  case (Cons r suf)
  have ok: "region_end r = fin r" using Cons.prems(1) by (simp add: region_end_fin)
  have nth: "regions rs ! length pre = r" "length pre < length (regions rs)" using Cons.prems(3) by simp_all
  have cap: "length pre + length (r # suf) + k \<le> max_regions rs" if "length (fill en b (r # suf)) \<ge> length (r # suf) + k" for k
    using that Cons.prems(2) by simp
  note scan = add_region_scan.simps [of True en "length pre" b rs nr]
  have step: "regions rs = (pre @ [r]) @ suf" "length pre + 1 = length (pre @ [r])" using Cons.prems(3) by simp_all
  have fl: "length suf \<le> length (fill en d suf)" for d using fill_length(1) .
  consider (before) "en \<le> rbase r" | (after) "rbase r < en" "fin r \<le> b"
    | (gap) "rbase r < en" "b < fin r" "b < rbase r" | (within) "rbase r < en" "b < fin r" "rbase r \<le> b"
    by linarith
  then show ?case
  proof cases
    case before
    then show ?thesis
      using nth Cons.prems insert_region_at [of pre "r # suf" rs b "en - b"]
      by (auto simp: scan finish_pass_def Let_def)
  next
    case after
    then have "add_region_scan True en (length pre) b rs nr = add_region_scan True en (length (pre @ [r])) b rs nr"
      using nth ok by (simp add: scan Let_def)
    moreover have "fill en b (r # suf) = r # fill en b suf" using after by simp
    ultimately show ?thesis
      using Cons.IH [OF _ _ step(1), of b nr] Cons.prems(1,2) by simp
  next
    case within
    then have "add_region_scan True en (length pre) b rs nr
        = add_region_scan True en (length (pre @ [r])) (min en (fin r)) rs nr"
      using nth ok by (simp add: scan Let_def)
    moreover have "fill en b (r # suf) = r # fill en (min en (fin r)) suf" using within by simp
    ultimately show ?thesis
      using Cons.IH [OF _ _ step(1), of "min en (fin r)" nr] Cons.prems(1,2) by simp
  next
    case gap
    let ?n = "\<lparr>rbase = b, rsize = rbase r - b\<rparr>"
    let ?rs = "rs\<lparr>regions := pre @ ?n # r # suf\<rparr>"
    have fe: "fill en b (r # suf) = ?n # r # fill en (min en (fin r)) suf" using gap by simp
    have "memblock_insert_region (length pre) b (rbase r - b) rs = Some ?rs"
      using insert_region_at [of pre "r # suf" rs b "rbase r - b"] Cons.prems(2,3) fl [of "min en (fin r)"]
      unfolding fe by simp
    then have "add_region_scan True en (length pre) b rs nr
        = add_region_scan True en (length (pre @ [?n, r])) (min en (fin r)) ?rs (nr + 1)"
      using nth ok gap by (simp add: scan Let_def numeral_2_eq_2)
    moreover have "\<exists>nr'. Option.bind (add_region_scan True en (length (pre @ [?n, r])) (min en (fin r)) ?rs (nr + 1)) (finish_pass True en)
        = Some (?rs\<lparr>regions := (pre @ [?n, r]) @ fill en (min en (fin r)) suf\<rparr>, nr')"
      using Cons.prems(1,2) unfolding fe by (intro Cons.IH) simp_all
    ultimately show ?thesis unfolding fe by simp
  qed
qed

lemma counting_scan:
  assumes "\<forall>r \<in> set suf. region_ok r" "regions rs = pre @ suf"
  shows "Option.bind (add_region_scan False en (length pre) b rs nr) (finish_pass False en)
     = Some (rs, nr + (length (fill en b suf) - length suf))"
  using assms
proof (induction suf arbitrary: pre b nr)
  case Nil
  then show ?case by (subst add_region_scan.simps) (auto simp: finish_pass_def)
next
  case (Cons r suf)
  have ok: "region_end r = fin r" using Cons.prems(1) by (simp add: region_end_fin)
  have nth: "regions rs ! length pre = r" "length pre < length (regions rs)" using Cons.prems(2) by simp_all
  have IH: "Option.bind (add_region_scan False en (Suc (length pre)) d rs k) (finish_pass False en)
      = Some (rs, k + (length (fill en d suf) - length suf))" for d k
    using Cons.IH [of "pre @ [r]" d k] Cons.prems by simp
  have "Option.bind (add_region_scan False en (length pre) b rs nr) (finish_pass False en)
      = Some (rs, nr + (length (fill en b (r # suf)) - Suc (length suf)))"
    using nth ok IH [of b nr] IH [of "min en (fin r)" nr] IH [of "min en (fin r)" "nr + 1"]
      fill_length(1) [of suf en "min en (fin r)"]
    by (subst add_region_scan.simps) (auto simp: Let_def finish_pass_def)
  then show ?case by simp
qed

text \<open>What \<open>memblock_add_region\<close> does, on every branch.\<close>

lemma add_region_eq:
  assumes wf: "sorted_regions (regions rs)" and room: "length (regions rs) \<le> max_regions rs" "0 < max_regions rs"
    "max_regions rs < 2 ^ 64" and fits: "b + n < 2 ^ 64"
  shows "memblock_add_region b n rs =
    (if n = 0 then Some rs
     else if length (fill (b + n) b (regions rs)) \<le> max_regions rs
     then Some (rs\<lparr>regions := merge_adjacent (fill (b + n) b (regions rs))\<rparr>) else None)"
proof (cases "n = 0 \<or> regions rs = []")
  case True
  then show ?thesis
    using room fits insert_region_at [of "[]" "[]" rs b n]
    by (auto simp: memblock_add_region_def)
next
  case False
  let ?f = "fill (b + n) b (regions rs)"
  have reg: "\<forall>r \<in> set (regions rs). region_ok r" using wf by (simp add: sorted_regions_def)
  have en: "wrap64 (b + n) = b + n" using fits by simp
  have count: "add_region_pass False (b + n) b rs = Some (rs, length ?f - length (regions rs))"
    using counting_scan [OF reg, of rs "[]" "b + n" b 0] by (simp add: add_region_pass_eq)
  have ins: "\<exists>nr. add_region_pass True (b + n) b rs = Some (rs\<lparr>regions := ?f\<rparr>, nr)"
    if "length ?f \<le> max_regions rs"
    using inserting_scan [OF reg, of "[]" "b + n" b rs 0] that by (simp add: add_region_pass_eq)
  have merge: "memblock_merge_regions (rs\<lparr>regions := ?f\<rparr>) = rs\<lparr>regions := merge_adjacent ?f\<rparr>"
    using merge_regions_eq [of "rs\<lparr>regions := ?f\<rparr>"] fill_sorted [OF wf fits] by simp
  have sub: "sub64 (max_regions rs) (length (regions rs)) = max_regions rs - length (regions rs)"
    using room by (intro sub64_id)
  show ?thesis
  proof (cases "length (regions rs) * 2 + 1 \<le> max_regions rs")
    case True
    moreover have "length ?f \<le> max_regions rs" using fill_length(2) [of "b + n" b "regions rs"] True by simp
    ultimately show ?thesis using False en ins merge by (auto simp: memblock_add_region_def)
  next
    case narrow: False
    have "memblock_add_region b n rs = (do {
        _ \<leftarrow> assert_opt (\<not> length ?f - length (regions rs) > max_regions rs - length (regions rs));
        (rs, _) \<leftarrow> add_region_pass True (b + n) b rs;
        Some (memblock_merge_regions rs) })"
      using False narrow en count sub by (simp add: memblock_add_region_def Let_def)
    also have "\<dots> = (if length ?f \<le> max_regions rs then Some (rs\<lparr>regions := merge_adjacent ?f\<rparr>) else None)"
    proof (cases "length ?f \<le> max_regions rs")
      case True
      then have "\<not> length ?f - length (regions rs) > max_regions rs - length (regions rs)" by linarith
      then show ?thesis using True ins merge by auto
    next
      case big: False
      then have "length ?f - length (regions rs) > max_regions rs - length (regions rs)"
        using room by linarith
      with big show ?thesis by simp
    qed
    finally show ?thesis using False by simp
  qed
qed

text \<open>A well-formed region set.\<close>

definition region_set_ok :: "memblock_region_set \<Rightarrow> bool" where
  "region_set_ok rs \<longleftrightarrow> merged_regions (regions rs) \<and> length (regions rs) \<le> max_regions rs
     \<and> 0 < max_regions rs \<and> max_regions rs < 2 ^ 32 - 1"

lemma add_region_ok:
  assumes ok: "region_set_ok rs" and fits: "b + n < 2 ^ 64" and add: "memblock_add_region b n rs = Some rs'"
  shows "region_set_ok rs' \<and> cover (regions rs') = cover (regions rs) \<union> {b..<b + n}
    \<and> max_regions rs' = max_regions rs"
proof -
  let ?f = "fill (b + n) b (regions rs)"
  have wf: "sorted_regions (regions rs)" using ok by (simp add: region_set_ok_def merged_sorted)
  have eq: "memblock_add_region b n rs = (if n = 0 then Some rs
     else if length ?f \<le> max_regions rs then Some (rs\<lparr>regions := merge_adjacent ?f\<rparr>) else None)"
    by (rule add_region_eq [OF wf]) (use ok fits in \<open>simp_all add: region_set_ok_def\<close>)
  show ?thesis
  proof (cases "n = 0")
    case True
    then show ?thesis using eq add ok by simp
  next
    case False
    then have rs': "rs' = rs\<lparr>regions := merge_adjacent ?f\<rparr>" "length ?f \<le> max_regions rs"
      using eq add by (auto split: if_splits)
    note fs = fill_sorted [OF wf fits, of b]
    have "cover (regions rs') = cover (regions rs) \<union> {b..<b + n}"
      unfolding rs'(1) using merge_adjacent_cover [OF fs] fill_cover [OF wf] by simp
    moreover have "region_set_ok rs'"
      using merge_adjacent_merged [OF fs] merge_adjacent_length [of ?f] rs' ok
      by (simp add: region_set_ok_def)
    ultimately show ?thesis using rs'(1) by simp
  qed
qed

section \<open>Removing a range\<close>

text \<open>What remains of a region when a range inside it is removed.\<close>

definition cut_region :: "nat \<Rightarrow> nat \<Rightarrow> memblock_region \<Rightarrow> memblock_region list" where
  "cut_region b en r =
     (if rbase r < b then [\<lparr>rbase = rbase r, rsize = b - rbase r\<rparr>] else [])
     @ (if en < fin r then [\<lparr>rbase = en, rsize = fin r - en\<rparr>] else [])"

lemma merged_regions_append:
  "merged_regions (xs @ ys) \<longleftrightarrow> merged_regions xs \<and> merged_regions ys
     \<and> (\<forall>a \<in> set xs. \<forall>c \<in> set ys. fin a < rbase c)"
  by (auto simp: merged_regions_def sorted_wrt_append)

lemma cut_region_props:
  assumes "region_ok r" "rbase r \<le> b" "b < en" "en \<le> fin r"
  shows "merged_regions (cut_region b en r)" "cover (cut_region b en r) = {rbase r..<fin r} - {b..<en}"
    "c \<in> set (cut_region b en r) \<Longrightarrow> rbase r \<le> rbase c \<and> fin c \<le> fin r"
  using assms by (auto simp: cut_region_def merged_regions_Cons region_ok_def fin_def)

lemma remove_region_eq:
  assumes ok: "region_set_ok rs" and split: "regions rs = pre @ r # suf"
    and rg: "rbase r \<le> b" "0 < n" "b + n \<le> fin r"
  shows "memblock_remove_region (length pre) b n rs =
    (if length (pre @ cut_region b (b + n) r @ suf) \<le> max_regions rs
     then Some (rs\<lparr>regions := pre @ cut_region b (b + n) r @ suf\<rparr>) else None)"
proof -
  have r: "region_ok r" using ok split by (simp add: region_set_ok_def merged_regions_def)
  have re: "region_end r = fin r" "fin r < 2 ^ 64" using r by (simp_all add: region_end_fin region_ok_def)
  have en: "wrap64 (b + n) = b + n" using rg(3) re(2) by simp
  have sub: "sub64 (fin r) (b + n) = fin r - (b + n)" using rg(3) re(2) by (intro sub64_id)
  have nth: "nth_opt (regions rs) (length pre) = Some r" using split by (simp add: nth_opt_in)
  have cap: "length (regions rs) \<le> max_regions rs" "0 < max_regions rs" "max_regions rs < 2 ^ 64"
    using ok by (simp_all add: region_set_ok_def)
  have sub1: "sub64 (max_regions rs) 1 = max_regions rs - 1" using cap by (intro sub64_id) simp_all
  have upd: "(pre @ r # suf)[length pre := x] = pre @ x # suf" for x by simp
  consider (whole) "b = rbase r" "b + n = fin r" | (front) "b = rbase r" "b + n < fin r"
    | (rear) "rbase r < b" "b + n = fin r" | (middle) "rbase r < b" "b + n < fin r"
    using rg by linarith
  then show ?thesis
  proof cases
    case whole
    then show ?thesis using nth en re split cap
      by (simp add: memblock_remove_region_def Let_def cut_region_def)
  next
    case front
    then show ?thesis using nth en re split cap sub
      by (simp add: memblock_remove_region_def Let_def cut_region_def)
  next
    case rear
    then show ?thesis using nth en re split cap
      by (simp add: memblock_remove_region_def Let_def cut_region_def)
  next
    case middle
    let ?u = "\<lparr>rbase = b + n, rsize = fin r - (b + n)\<rparr>"
    have c: "length (pre @ cut_region b (b + n) r @ suf) = Suc (length (regions rs))"
      using middle split by (simp add: cut_region_def)
    have ins: "length (regions rs) < max_regions rs \<Longrightarrow>
        memblock_insert_region (length pre + 1) (b + n) (fin r - (b + n)) rs = Some (rs\<lparr>regions := pre @ r # ?u # suf\<rparr>)"
      using insert_region_at [of "pre @ [r]" suf rs "b + n" "fin r - (b + n)"] split by simp
    have upd2: "(pre @ r # ?u # suf)[length pre := x] = pre @ x # ?u # suf" for x by simp
    have "memblock_remove_region (length pre) b n rs = (do {
        _ \<leftarrow> assert_opt (\<not> length (regions rs) > max_regions rs - 1);
        rs \<leftarrow> memblock_insert_region (length pre + 1) (b + n) (fin r - (b + n)) rs;
        Some (rs\<lparr>regions := (regions rs)[length pre := r\<lparr>rsize := b - rbase r\<rparr>]\<rparr>) })"
      using middle nth en re sub sub1 by (simp add: memblock_remove_region_def Let_def)
    also have "\<dots> = (if Suc (length (regions rs)) \<le> max_regions rs
        then Some (rs\<lparr>regions := pre @ cut_region b (b + n) r @ suf\<rparr>) else None)"
    proof (cases "Suc (length (regions rs)) \<le> max_regions rs")
      case True
      then have "\<not> length (regions rs) > max_regions rs - 1" "length (regions rs) < max_regions rs" by linarith+
      then show ?thesis using True ins middle upd2 by (simp add: cut_region_def)
    next
      case False
      then have "length (regions rs) > max_regions rs - 1" using cap by linarith
      then show ?thesis using False by simp
    qed
    finally show ?thesis using c by simp
  qed
qed

lemma remove_region_ok:
  assumes ok: "region_set_ok rs" and split: "regions rs = pre @ r # suf"
    and rg: "rbase r \<le> b" "0 < n" "b + n \<le> fin r"
    and rem: "memblock_remove_region (length pre) b n rs = Some rs'"
  shows "region_set_ok rs' \<and> cover (regions rs') = cover (regions rs) - {b..<b + n}"
proof -
  let ?c = "cut_region b (b + n) r"
  have m: "merged_regions (pre @ r # suf)" using ok split by (simp add: region_set_ok_def)
  then have parts: "merged_regions pre" "merged_regions suf" "region_ok r"
    "\<And>a. a \<in> set pre \<Longrightarrow> fin a < rbase r" "\<And>c. c \<in> set suf \<Longrightarrow> fin r < rbase c"
    "\<And>a c. a \<in> set pre \<Longrightarrow> c \<in> set suf \<Longrightarrow> fin a < rbase c"
    by (auto simp: merged_regions_append merged_regions_Cons)
  note cut = cut_region_props [OF parts(3) rg(1) _ rg(3)]
  have bn: "b < b + n" using rg(2) by simp
  have rs': "rs' = rs\<lparr>regions := pre @ ?c @ suf\<rparr>" "length (pre @ ?c @ suf) \<le> max_regions rs"
    using remove_region_eq [OF ok split rg] rem by (auto split: if_splits)
  have "fin a < rbase x" if "a \<in> set pre" "x \<in> set ?c" for a x
    using parts(4) [OF that(1)] cut(3) [OF bn that(2)] by linarith
  moreover have "fin x < rbase c" if "x \<in> set ?c" "c \<in> set suf" for x c
    using parts(5) [OF that(2)] cut(3) [OF bn that(1)] by linarith
  ultimately have "merged_regions (pre @ ?c @ suf)"
    using parts cut(1) [OF bn] by (auto simp: merged_regions_append)
  moreover have "cover (pre @ ?c @ suf) = cover (regions rs) - {b..<b + n}"
  proof -
    have "cover pre \<inter> {b..<b + n} = {}" using parts(4) rg by (fastforce simp: cover_def)
    moreover have "cover suf \<inter> {b..<b + n} = {}" using parts(5) rg by (fastforce simp: cover_def)
    ultimately show ?thesis using cut(2) [OF bn] split by auto
  qed
  ultimately show ?thesis using rs' ok by (simp add: region_set_ok_def)
qed

lemma find_region_from_Some:
  "find_region_from b en k rs = Some i \<Longrightarrow> \<exists>pre r suf. rs = pre @ r # suf \<and> i = k + length pre
     \<and> rbase r \<le> b \<and> en \<le> region_end r"
proof (induction rs arbitrary: k)
  case (Cons r rs)
  show ?case
  proof (cases "b \<ge> rbase r \<and> en \<le> region_end r")
    case True
    then show ?thesis using Cons.prems by (intro exI [of _ "[]"] exI [of _ r] exI [of _ rs]) simp
  next
    case False
    with Cons.prems have "find_region_from b en (k + 1) rs = Some i" by simp
    from Cons.IH [OF this] obtain pre r' suf where
      "rs = pre @ r' # suf" "i = k + 1 + length pre" "rbase r' \<le> b" "en \<le> region_end r'" by blast
    then show ?thesis by (intro exI [of _ "r # pre"] exI [of _ r'] exI [of _ suf]) simp
  qed
qed simp

lemma find_region_from_None:
  "find_region_from b en k rs = None \<Longrightarrow> r \<in> set rs \<Longrightarrow> \<not> (rbase r \<le> b \<and> en \<le> region_end r)"
  by (induction rs arbitrary: k) (auto split: if_splits)

end
