(* ===== verification/Memblock_Iter.thy ===== *)
theory Memblock_Iter
  imports Memblock_Set
begin

text \<open>
  The iterator over free memory, \<open>__next_mem_range\<close>: it visits the memory that is not reserved,
  in ascending order, each address once, and ends.
\<close>

section \<open>Gaps between reserved regions\<close>

definition gap_start :: "memblock_region list \<Rightarrow> nat \<Rightarrow> nat" where
  "gap_start res j = (if j = 0 then 0 else fin (res ! (j - 1)))"

definition gap_end :: "memblock_region list \<Rightarrow> nat \<Rightarrow> nat" where
  "gap_end res j = (if j < length res then rbase (res ! j) else UINT64_MAX)"

lemma merged_nth:
  assumes "merged_regions rs"
  shows "i < length rs \<Longrightarrow> region_ok (rs ! i)" "i < j \<Longrightarrow> j < length rs \<Longrightarrow> fin (rs ! i) < rbase (rs ! j)"
  using assms by (auto simp: merged_regions_def sorted_wrt_iff_nth_less)

lemma region_ok_lt: "region_ok r \<Longrightarrow> rbase r < fin r" "region_ok r \<Longrightarrow> fin r \<le> UINT64_MAX"
  by (simp_all add: region_ok_def fin_def UINT64_MAX_def)

lemma gap_start_le_base:
  assumes "merged_regions res" "j < length res"
  shows "gap_start res j \<le> rbase (res ! j)"
  using merged_nth(2) [OF assms(1), of "j - 1" j] assms(2) by (cases j) (simp_all add: gap_start_def)

lemma gap_start_Suc: "gap_start res (Suc j) = fin (res ! j)"
  by (simp add: gap_start_def)

lemma gap_start_mono:
  assumes "merged_regions res" "j \<le> k" "k \<le> length res"
  shows "gap_start res j \<le> gap_start res k"
  using assms(2,3)
proof (induction k rule: dec_induct)
  case (step n)
  have "gap_start res n \<le> gap_start res (Suc n)"
    using gap_start_le_base [OF assms(1), of n] region_ok_lt(1) [OF merged_nth(1) [OF assms(1), of n]] step
    by (simp add: gap_start_Suc)
  with step show ?case by simp
qed simp

lemma in_gap:
  assumes m: "merged_regions res" and j: "j \<le> length res" and x: "gap_start res j \<le> x" "x < gap_end res j"
  shows "x \<notin> cover res"
proof
  assume "x \<in> cover res"
  then obtain k where k: "k < length res" "rbase (res ! k) \<le> x" "x < fin (res ! k)"
    by (auto simp: cover_def set_conv_nth)
  show False
  proof (cases "k < j")
    case True
    then have "gap_start res (Suc k) \<le> gap_start res j" using j by (intro gap_start_mono [OF m]) simp_all
    with k(3) x(1) show False by (simp add: gap_start_Suc)
  next
    case False
    with k(1) have "j < length res" by simp
    moreover have "rbase (res ! j) \<le> rbase (res ! k)"
    proof (cases "j = k")
      case False
      then have "fin (res ! j) < rbase (res ! k)" using \<open>\<not> k < j\<close> k(1) by (intro merged_nth(2) [OF m]) simp_all
      then show ?thesis by (simp add: fin_def)
    qed simp
    ultimately show False using x(2) k(2) by (simp add: gap_end_def)
  qed
qed

lemma after_base:
  assumes "j < length res" "rbase (res ! j) \<le> x" "x \<notin> cover res"
  shows "gap_start res (Suc j) \<le> x"
proof (rule ccontr)
  assume "\<not> gap_start res (Suc j) \<le> x"
  with assms(1,2) have "x \<in> cover res" by (force simp: cover_def gap_start_Suc)
  with assms(3) show False ..
qed

lemma next_gap_spec:
  assumes "merged_regions res" "j \<le> length res" "ms < me" "me \<le> UINT64_MAX"
  shows "\<exists>j' \<ge> j. j' \<le> length res
    \<and> (\<forall>x. ms \<le> x \<longrightarrow> x \<notin> cover res \<longrightarrow> gap_start res j \<le> x \<longrightarrow> gap_start res j' \<le> x)
    \<and> (next_gap ms me res j = Beyond j' \<and> me \<le> gap_start res j'
       \<or> next_gap ms me res j = Found j' (max ms (gap_start res j')) (gap_end res j')
         \<and> gap_start res j' < me \<and> ms < gap_end res j')"
  using assms
proof (induction ms me res j rule: next_gap.induct)
  case (1 ms me res j)
  have start: "(if j = 0 then 0 else region_end (res ! (j - 1))) = gap_start res j"
    using merged_nth(1) [OF "1.prems"(1), of "j - 1"] "1.prems"(2) by (auto simp: gap_start_def region_end_fin)
  have eq: "next_gap ms me res j = (if gap_start res j \<ge> me then Beyond j
      else if ms < gap_end res j then Found j (max ms (gap_start res j)) (gap_end res j)
      else next_gap ms me res (j + 1))"
    using "1.prems"(2) by (subst next_gap.simps) (simp add: Let_def start gap_end_def [symmetric])
  show ?case
  proof (cases "gap_start res j \<ge> me \<or> ms < gap_end res j")
    case True
    then show ?thesis unfolding eq using "1.prems"(2) by (intro exI [of _ j]) auto
  next
    case False
    then have "j < length res" using "1.prems"(3,4) by (auto simp: gap_end_def split: if_splits)
    then have base: "rbase (res ! j) \<le> ms" using False by (simp add: gap_end_def)
    have "\<exists>j' \<ge> j + 1. j' \<le> length res
      \<and> (\<forall>x. ms \<le> x \<longrightarrow> x \<notin> cover res \<longrightarrow> gap_start res (j + 1) \<le> x \<longrightarrow> gap_start res j' \<le> x)
      \<and> (next_gap ms me res (j + 1) = Beyond j' \<and> me \<le> gap_start res j'
         \<or> next_gap ms me res (j + 1) = Found j' (max ms (gap_start res j')) (gap_end res j')
           \<and> gap_start res j' < me \<and> ms < gap_end res j')"
      using False \<open>j < length res\<close> "1.prems"
      by (intro "1.IH") (auto simp: start gap_end_def)
    then obtain j' where j': "j + 1 \<le> j'" "j' \<le> length res"
      "\<And>x. ms \<le> x \<Longrightarrow> x \<notin> cover res \<Longrightarrow> gap_start res (j + 1) \<le> x \<Longrightarrow> gap_start res j' \<le> x"
      "next_gap ms me res (j + 1) = Beyond j' \<and> me \<le> gap_start res j'
       \<or> next_gap ms me res (j + 1) = Found j' (max ms (gap_start res j')) (gap_end res j')
         \<and> gap_start res j' < me \<and> ms < gap_end res j'" by blast
    have "gap_start res j' \<le> x" if "ms \<le> x" "x \<notin> cover res" for x
      using j'(3) [OF that] after_base [OF \<open>j < length res\<close> _ that(2)] base that(1) by simp
    moreover have "next_gap ms me res j = next_gap ms me res (j + 1)" using eq False by simp
    ultimately show ?thesis using j'(1,2,4) by (intro exI [of _ j']) auto
  qed
qed

section \<open>One step of the iterator\<close>

text \<open>The free memory still to be visited at a position.\<close>

definition todo :: "memblock_region list \<Rightarrow> memblock_region list \<Rightarrow> nat \<Rightarrow> nat \<Rightarrow> nat set" where
  "todo mem res i j = {x \<in> cover (drop i mem) - cover res. gap_start res j \<le> x}"

lemma todo_start: "todo mem res 0 0 = cover mem - cover res"
  by (auto simp: todo_def gap_start_def)

lemma todo_Suc:
  assumes "merged_regions mem" "i < length mem"
  shows "x \<in> todo mem res i j \<longleftrightarrow> x \<in> todo mem res (Suc i) j
    \<or> rbase (mem ! i) \<le> x \<and> x < fin (mem ! i) \<and> x \<notin> cover res \<and> gap_start res j \<le> x"
  using assms by (auto simp: todo_def Cons_nth_drop_Suc [symmetric])

lemma todo_above:
  assumes m: "merged_regions mem" and x: "x \<in> todo mem res i j"
  shows "i < length mem" "rbase (mem ! i) \<le> x" "0 < i \<Longrightarrow> fin (mem ! (i - 1)) < x"
    "x \<notin> cover res" "gap_start res j \<le> x"
proof -
  from x obtain r where r: "r \<in> set (drop i mem)" "rbase r \<le> x" by (auto simp: todo_def cover_def)
  then obtain d where d: "d < length mem - i" "r = mem ! (i + d)" by (auto simp: in_set_conv_nth)
  obtain k where k: "i \<le> k" "k < length mem" "rbase (mem ! k) \<le> x"
    by (rule that [of "i + d"]) (use r d in auto)
  then show "i < length mem" by simp
  show "rbase (mem ! i) \<le> x"
  proof (cases "i = k")
    case False
    then have "fin (mem ! i) < rbase (mem ! k)" using k by (intro merged_nth(2) [OF m]) simp_all
    with k(3) show ?thesis by (simp add: fin_def)
  qed (use k in simp)
  show "fin (mem ! (i - 1)) < x" if "0 < i"
    using merged_nth(2) [OF m, of "i - 1" k] k that by (cases i) simp_all
  show "x \<notin> cover res" "gap_start res j \<le> x" using x by (simp_all add: todo_def)
qed

lemma todo_mono:
  assumes "merged_regions res" "j \<le> j'" "j' \<le> length res"
  shows "todo mem res i j' \<subseteq> todo mem res i j"
  using gap_start_mono [OF assms] by (auto simp: todo_def)

text \<open>A step returns the next piece of free memory and a position further on.\<close>

definition step_ok :: "memblock_region list \<Rightarrow> memblock_region list \<Rightarrow> nat \<Rightarrow> nat \<Rightarrow> ((nat \<times> nat) \<times> nat \<times> nat) option \<Rightarrow> bool" where
  "step_ok mem res i j r \<longleftrightarrow> (case r of
     None \<Rightarrow> todo mem res i j = {}
   | Some ((s, e), i', j') \<Rightarrow> s < e \<and> e < 2 ^ 64 \<and> i \<le> i' \<and> j \<le> j' \<and> i' \<le> length mem \<and> j' \<le> length res \<and> i + j < i' + j'
       \<and> todo mem res i j = {s..<e} \<union> todo mem res i' j' \<and> (\<forall>x \<in> todo mem res i' j'. e \<le> x))"

lemma step_found:
  assumes mem: "merged_regions mem" and res: "merged_regions res" and i: "i < length mem"
    and m: "ms = rbase (mem ! i)" "me = fin (mem ! i)"
    and j': "j \<le> j'" "j' \<le> length res" "gap_start res j' < me" "ms < gap_end res j'"
      "\<And>x. ms \<le> x \<Longrightarrow> x \<notin> cover res \<Longrightarrow> gap_start res j \<le> x \<Longrightarrow> gap_start res j' \<le> x"
  shows "step_ok mem res i j (if me \<le> gap_end res j'
      then Some ((max ms (gap_start res j'), min me (gap_end res j')), i + 1, j')
      else Some ((max ms (gap_start res j'), min me (gap_end res j')), i, j' + 1))"
proof -
  have mm: "ms < me" "me \<le> UINT64_MAX" using merged_nth(1) [OF mem i] region_ok_lt by (auto simp: m)
  have fwd: "gap_start res j' \<le> x" "ms \<le> x" "x \<notin> cover res" if "x \<in> todo mem res i j" for x
    using todo_above [OF mem that] j'(5) [of x] m by auto
  have gap: "x \<notin> cover res" if "gap_start res j' \<le> x" "x < gap_end res j'" for x
    using in_gap [OF res j'(2) that] .
  have low: "gap_start res j \<le> gap_start res j'" using gap_start_mono [OF res j'(1,2)] .
  have lt64: "me < 2 ^ 64" using merged_nth(1) [OF mem i] by (simp add: m region_ok_def)
  show ?thesis
  proof (cases "me \<le> gap_end res j'")
    case True
    let ?R = "{max ms (gap_start res j')..<me}"
    have "x \<in> todo mem res i j \<longleftrightarrow> x \<in> ?R \<or> x \<in> todo mem res (Suc i) j'" for x
    proof
      assume x: "x \<in> todo mem res i j"
      show "x \<in> ?R \<or> x \<in> todo mem res (Suc i) j'"
        using fwd [OF x] x todo_Suc [OF mem i, of x res j] by (auto simp: m todo_def)
    next
      assume "x \<in> ?R \<or> x \<in> todo mem res (Suc i) j'"
      then show "x \<in> todo mem res i j"
        using todo_Suc [OF mem i, of x res j] gap [of x] True low todo_mono [OF res j'(1,2), of mem "Suc i"]
        by (auto simp: m)
    qed
    then have "todo mem res i j = ?R \<union> todo mem res (Suc i) j'" by blast
    moreover have "me \<le> x" if "x \<in> todo mem res (Suc i) j'" for x
      using todo_above(3) [OF mem that] by (simp add: m)
    ultimately show ?thesis
      using True mm j' i lt64 by (simp add: step_ok_def)
  next
    case False
    then have jl: "j' < length res" using mm(2) by (auto simp: gap_end_def split: if_splits)
    then have ge: "gap_end res j' = rbase (res ! j')" by (simp add: gap_end_def)
    have gs: "gap_start res j' \<le> gap_end res j'" "gap_end res j' < gap_start res (Suc j')"
      using gap_start_le_base [OF res jl] region_ok_lt(1) [OF merged_nth(1) [OF res jl]]
      by (simp_all add: ge gap_start_Suc)
    let ?R = "{max ms (gap_start res j')..<gap_end res j'}"
    have "x \<in> todo mem res i j \<longleftrightarrow> x \<in> ?R \<or> x \<in> todo mem res i (Suc j')" for x
    proof
      assume x: "x \<in> todo mem res i j"
      show "x \<in> ?R \<or> x \<in> todo mem res i (Suc j')"
        using fwd [OF x] x after_base [OF jl, of x]
        by (cases "rbase (res ! j') \<le> x") (auto simp: ge todo_def)
    next
      assume "x \<in> ?R \<or> x \<in> todo mem res i (Suc j')"
      then show "x \<in> todo mem res i j"
        using todo_Suc [OF mem i, of x res j] gap [of x] False low todo_mono [OF res, of j "Suc j'" mem i] j'(1) jl
        by (auto simp: m)
    qed
    then have "todo mem res i j = ?R \<union> todo mem res i (Suc j')" by blast
    moreover have "gap_end res j' \<le> x" if "x \<in> todo mem res i (Suc j')" for x
      using todo_above(5) [OF mem that] gs(2) by simp
    moreover have "gap_start res j' < gap_end res j'"
      using merged_nth(2) [OF res, of "j' - 1" j'] jl j'(4) by (cases j') (simp_all add: gap_start_def gap_end_def)
    ultimately show ?thesis
      using False mm j' i jl lt64 gs by (simp add: step_ok_def)
  qed
qed

lemma next_mem_range_from_ok:
  assumes "merged_regions mem" "merged_regions res" "j \<le> length res"
  shows "step_ok mem res i j (next_mem_range_from mem res i j)"
  using assms
proof (induction mem res i j rule: next_mem_range_from.induct)
  case (1 mem res i j)
  show ?case
  proof (cases "i < length mem")
    case False
    then show ?thesis by (simp add: next_mem_range_from.simps step_ok_def todo_def)
  next
    case True
    define ms me where m: "ms = rbase (mem ! i)" "me = fin (mem ! i)"
    have ok: "region_ok (mem ! i)" using merged_nth(1) [OF "1.prems"(1) True] .
    then have mm: "ms < me" "me \<le> UINT64_MAX" "region_end (mem ! i) = me"
      using region_ok_lt region_end_fin by (auto simp: m)
    from next_gap_spec [OF "1.prems"(2,3) mm(1,2)] obtain j' where j': "j \<le> j'" "j' \<le> length res"
      "\<And>x. ms \<le> x \<Longrightarrow> x \<notin> cover res \<Longrightarrow> gap_start res j \<le> x \<Longrightarrow> gap_start res j' \<le> x"
      and g: "next_gap ms me res j = Beyond j' \<and> me \<le> gap_start res j'
       \<or> next_gap ms me res j = Found j' (max ms (gap_start res j')) (gap_end res j')
         \<and> gap_start res j' < me \<and> ms < gap_end res j'" by blast
    from g show ?thesis
    proof (elim disjE conjE)
      assume f: "next_gap ms me res j = Found j' (max ms (gap_start res j')) (gap_end res j')"
        "gap_start res j' < me" "ms < gap_end res j'"
      have eq: "next_mem_range_from mem res i j = (if me \<le> gap_end res j'
          then Some ((max ms (gap_start res j'), min me (gap_end res j')), i + 1, j')
          else Some ((max ms (gap_start res j'), min me (gap_end res j')), i, j' + 1))"
        using True f(1) mm(3) by (subst next_mem_range_from.simps) (simp add: Let_def m(1) [symmetric])
      show ?thesis unfolding eq
        by (rule step_found [OF "1.prems"(1,2) True m j'(1,2) f(2,3) j'(3)])
    next
      assume b: "next_gap ms me res j = Beyond j'" "me \<le> gap_start res j'"
      have eq: "next_mem_range_from mem res i j = next_mem_range_from mem res (i + 1) j'"
        using True b(1) mm(3) by (subst next_mem_range_from.simps) (simp add: Let_def m(1) [symmetric])
      have "step_ok mem res (i + 1) j' (next_mem_range_from mem res (i + 1) j')"
        using True b(1) mm(3) "1.prems" j'(2) by (intro "1.IH") (simp_all add: m)
      moreover have "todo mem res i j = todo mem res (i + 1) j'"
      proof (intro set_eqI iffI)
        fix x assume x: "x \<in> todo mem res i j"
        then have "gap_start res j' \<le> x"
          using todo_above [OF "1.prems"(1) x] j'(3) m(1) by auto
        with x b(2) todo_Suc [OF "1.prems"(1) True, of x res j] show "x \<in> todo mem res (i + 1) j'"
          by (auto simp: m todo_def)
      next
        fix x assume "x \<in> todo mem res (i + 1) j'"
        then have "x \<in> todo mem res (Suc i) j"
          using todo_mono [OF "1.prems"(2) j'(1,2), of mem "Suc i"] by auto
        then show "x \<in> todo mem res i j" using todo_Suc [OF "1.prems"(1) True, of x res j] by blast
      qed
      ultimately show ?thesis unfolding eq using j'(1)
        by (auto simp: step_ok_def split: option.splits)
    qed
  qed
qed

section \<open>The whole iteration\<close>

text \<open>
  The ranges \<open>for_each_mem_range\<close> visits from a position on. The guard only makes the
  recursion evidently terminating; by \<open>next_mem_range_from_ok\<close> it always holds.
\<close>

definition left :: "memblock_region list \<Rightarrow> memblock_region list \<Rightarrow> nat \<Rightarrow> nat \<Rightarrow> nat" where
  "left mem res i j = (length mem - i) + (length res - j)"

function mem_ranges :: "memblock_region list \<Rightarrow> memblock_region list \<Rightarrow> nat \<Rightarrow> nat \<Rightarrow> (nat \<times> nat) list" where
  "mem_ranges mem res i j =
     (case next_mem_range_from mem res i j of
        None \<Rightarrow> []
      | Some (r, i', j') \<Rightarrow> r # (if left mem res i' j' < left mem res i j then mem_ranges mem res i' j' else []))"
  by auto
termination by (relation "measure (\<lambda>(mem, res, i, j). left mem res i j)") auto

declare mem_ranges.simps [simp del]

lemma step_left:
  assumes "step_ok mem res i j (Some (r, i', j'))" "i \<le> length mem" "j \<le> length res"
  shows "left mem res i' j' < left mem res i j"
  using assms by (cases r) (auto simp: step_ok_def left_def)

definition range_cover :: "(nat \<times> nat) list \<Rightarrow> nat set" where
  "range_cover rs = (\<Union>(s, e) \<in> set rs. {s..<e})"

lemma mem_ranges_ok:
  assumes "merged_regions mem" "merged_regions res" "i \<le> length mem" "j \<le> length res"
  shows "range_cover (mem_ranges mem res i j) = todo mem res i j
    \<and> (\<forall>(s, e) \<in> set (mem_ranges mem res i j). s < e \<and> e < 2 ^ 64)
    \<and> sorted_wrt (\<lambda>r r'. snd r \<le> fst r') (mem_ranges mem res i j)
    \<and> length (mem_ranges mem res i j) \<le> left mem res i j"
  using assms
proof (induction mem res i j rule: mem_ranges.induct)
  case (1 mem res i j)
  have ok: "step_ok mem res i j (next_mem_range_from mem res i j)"
    using next_mem_range_from_ok "1.prems" by blast
  show ?case
  proof (cases "next_mem_range_from mem res i j")
    case None
    with ok show ?thesis
      by (subst (1 2 3 4) mem_ranges.simps) (simp add: step_ok_def range_cover_def)
  next
    case (Some x)
    obtain s e i' j' where x: "x = ((s, e), i', j')" by (metis prod.exhaust)
    note st = ok [unfolded Some x]
    then have st': "s < e" "e < 2 ^ 64" "i' \<le> length mem" "j' \<le> length res"
      "todo mem res i j = {s..<e} \<union> todo mem res i' j'" "\<And>y. y \<in> todo mem res i' j' \<Longrightarrow> e \<le> y"
      by (simp_all add: step_ok_def)
    note lt = step_left [OF st "1.prems"(3,4)]
    have eq: "mem_ranges mem res i j = (s, e) # mem_ranges mem res i' j'"
      using lt by (subst mem_ranges.simps) (simp add: Some x)
    have IH: "range_cover (mem_ranges mem res i' j') = todo mem res i' j'"
      "\<forall>(s, e) \<in> set (mem_ranges mem res i' j'). s < e \<and> e < 2 ^ 64"
      "sorted_wrt (\<lambda>r r'. snd r \<le> fst r') (mem_ranges mem res i' j')"
      "length (mem_ranges mem res i' j') \<le> left mem res i' j'"
      using "1.IH" [OF Some x [symmetric] refl lt "1.prems"(1,2) st'(3,4)] by blast+
    have "e \<le> fst r" if "r \<in> set (mem_ranges mem res i' j')" for r
    proof -
      have "fst r < snd r" using that IH(2) by (auto simp: split_beta)
      then have "fst r \<in> range_cover (mem_ranges mem res i' j')"
        unfolding range_cover_def using that by (intro UN_I [of r]) (simp_all add: split_beta)
      then show ?thesis using st'(6) IH(1) by simp
    qed
    moreover have "range_cover ((s, e) # mem_ranges mem res i' j') = todo mem res i j"
      using IH(1) st'(5) by (simp add: range_cover_def)
    ultimately show ?thesis unfolding eq using IH(2-4) st'(1,2) lt by simp
  qed
qed

section \<open>Positions as packed words\<close>

lemma pack_idx_eq:
  assumes "j < 2 ^ 32"
  shows "pack_idx i j = 2 ^ 32 * i + j"
proof -
  have "\<not> bit (push_bit 32 i) n \<or> \<not> bit j n" for n
  proof (cases "n < 32")
    case True
    then show ?thesis by (simp add: bit_push_bit_iff)
  next
    case False
    have "take_bit 32 j = j" using assms by (simp add: take_bit_nat_eq_self)
    then show ?thesis using False by (metis bit_take_bit_iff)
  qed
  then have "push_bit 32 i AND j = 0" by (auto simp: bit_eq_iff bit_and_iff)
  then have "push_bit 32 i + j = push_bit 32 i OR j" by (rule disjunctive_add_eq_or)
  then show ?thesis by (simp add: pack_idx_def push_bit_eq_mult mult.commute)
qed

lemma and_low32: "x AND 0xffffffff = x mod (2 ^ 32 :: nat)"
  using and_pow2_minus_1 [of x 32] by simp

lemma unpack_idx:
  assumes "i < 2 ^ 32" "j < 2 ^ 32"
  shows "drop_bit 32 (pack_idx i j) AND 0xffffffff = i" "pack_idx i j AND 0xffffffff = j"
  using assms by (simp_all add: pack_idx_eq and_low32 drop_bit_eq_div)

lemma pack_not_max:
  assumes "i < 2 ^ 32 - 1" "j < 2 ^ 32"
  shows "pack_idx i j \<noteq> UINT64_MAX"
proof -
  have "2 ^ 32 * i + j < 2 ^ 32 * (2 ^ 32 - 1 :: nat)" using assms by simp
  then show ?thesis using assms by (simp add: pack_idx_eq UINT64_MAX_def)
qed

lemma next_mem_range_pack:
  assumes "i < 2 ^ 32" "j < 2 ^ 32"
  shows "next_mem_range mb (pack_idx i j, s, e) =
    (case next_mem_range_from (regions (memory mb)) (regions (reserved mb)) i j of
       Some ((s, e), i', j') \<Rightarrow> (pack_idx i' j', s, e) | None \<Rightarrow> (UINT64_MAX, s, e))"
  using unpack_idx [OF assms] by (simp add: next_mem_range_def split: option.splits)

lemma pack_0: "pack_idx 0 0 = 0"
  by (simp add: pack_idx_def)

text \<open>Both region sets of the boot-time allocator are well-formed.\<close>

definition memblock_ok :: "memblock \<Rightarrow> bool" where
  "memblock_ok mb \<longleftrightarrow> region_set_ok (memory mb) \<and> region_set_ok (reserved mb)"

definition free_list :: "memblock \<Rightarrow> (nat \<times> nat) list" where
  "free_list mb = mem_ranges (regions (memory mb)) (regions (reserved mb)) 0 0"

lemma free_list_ok:
  assumes "memblock_ok mb"
  shows "range_cover (free_list mb) = cover (regions (memory mb)) - cover (regions (reserved mb))"
    "(s, e) \<in> set (free_list mb) \<Longrightarrow> s < e \<and> e < 2 ^ 64"
    "sorted_wrt (\<lambda>r r'. snd r \<le> fst r') (free_list mb)"
    "length (free_list mb) \<le> length (regions (memory mb)) + length (regions (reserved mb))"
  using mem_ranges_ok [of "regions (memory mb)" "regions (reserved mb)" 0 0] assms
  by (auto simp: free_list_def memblock_ok_def region_set_ok_def todo_start left_def)

text \<open>
  A loop over \<open>for_each_mem_range\<close> sees exactly the list \<open>mem_ranges\<close>: one step of the packed
  iterator.
\<close>

lemma iter_step:
  assumes ok: "memblock_ok mb" and ij: "i \<le> length (regions (memory mb))" "j \<le> length (regions (reserved mb))"
  shows "(mem_ranges (regions (memory mb)) (regions (reserved mb)) i j = []
      \<and> fst (next_mem_range mb (pack_idx i j, s, e)) = UINT64_MAX)
    \<or> (\<exists>r i' j'. mem_ranges (regions (memory mb)) (regions (reserved mb)) i j
          = r # mem_ranges (regions (memory mb)) (regions (reserved mb)) i' j'
        \<and> next_mem_range mb (pack_idx i j, s, e) = (pack_idx i' j', fst r, snd r)
        \<and> pack_idx i' j' \<noteq> UINT64_MAX
        \<and> i' \<le> length (regions (memory mb)) \<and> j' \<le> length (regions (reserved mb))
        \<and> left (regions (memory mb)) (regions (reserved mb)) i' j'
          < left (regions (memory mb)) (regions (reserved mb)) i j)"
proof -
  let ?mem = "regions (memory mb)" and ?res = "regions (reserved mb)"
  have wf: "merged_regions ?mem" "merged_regions ?res" "length ?mem < 2 ^ 32 - 1" "length ?res < 2 ^ 32 - 1"
    using ok by (simp_all add: memblock_ok_def region_set_ok_def)
  have st: "step_ok ?mem ?res i j (next_mem_range_from ?mem ?res i j)"
    by (rule next_mem_range_from_ok [OF wf(1,2) ij(2)])
  have lt: "i < 2 ^ 32" "j < 2 ^ 32" using ij wf(3,4) by simp_all
  show ?thesis
  proof (cases "next_mem_range_from ?mem ?res i j")
    case None
    then show ?thesis using next_mem_range_pack [OF lt, of mb s e] by (simp add: mem_ranges.simps)
  next
    case (Some x)
    obtain r i' j' where x: "x = (r, i', j')" by (metis prod.exhaust)
    have b: "i' \<le> length ?mem" "j' \<le> length ?res" "left ?mem ?res i' j' < left ?mem ?res i j"
      using st [unfolded Some x] step_left [OF st [unfolded Some x] ij]
      by (cases r; simp add: step_ok_def)+
    then have "pack_idx i' j' \<noteq> UINT64_MAX" using wf(3,4) by (intro pack_not_max) simp_all
    moreover have "mem_ranges ?mem ?res i j = r # mem_ranges ?mem ?res i' j'"
      using b(3) by (subst mem_ranges.simps) (simp add: Some x)
    moreover have "next_mem_range mb (pack_idx i j, s, e) = (pack_idx i' j', fst r, snd r)"
      using next_mem_range_pack [OF lt, of mb s e] by (cases r) (simp add: Some x)
    ultimately show ?thesis using b by blast
  qed
qed

end
