(* ===== verification/Memblock_Props.thy ===== *)
theory Memblock_Props
  imports Memblock_Iter
begin

text \<open>
  Properties of the boot-time allocator: reserving, allocating and freeing in terms of the
  addresses covered.
\<close>

section \<open>Canonical form\<close>

text \<open>A merged region list is determined by the addresses it covers.\<close>

lemma merged_below:
  assumes "merged_regions (r # rs)"
  shows "x \<in> cover rs \<Longrightarrow> fin r < x"
  using assms by (fastforce simp: merged_regions_Cons cover_def)

lemma merged_first:
  assumes "merged_regions (r # rs)" "merged_regions (r' # rs')" "cover (r # rs) = cover (r' # rs')"
  shows "rbase r \<le> rbase r'" "fin r \<le> fin r'"
proof -
  have lt: "rbase r < fin r" "rbase r' < fin r'"
    using assms by (auto simp: merged_regions_Cons region_ok_lt)
  have "rbase r' \<in> cover (r # rs)" using lt(2) unfolding assms(3) by simp
  then show b: "rbase r \<le> rbase r'" using merged_below [OF assms(1), of "rbase r'"] lt by auto
  show "fin r \<le> fin r'"
  proof (rule ccontr)
    assume "\<not> fin r \<le> fin r'"
    with lt b have "fin r' \<in> cover (r # rs)" by simp
    then have "fin r' \<in> cover (r' # rs')" unfolding assms(3) .
    then show False using merged_below [OF assms(2), of "fin r'"] by auto
  qed
qed

lemma merged_unique: "merged_regions rs \<Longrightarrow> merged_regions rs' \<Longrightarrow> cover rs = cover rs' \<Longrightarrow> rs = rs'"
proof (induction rs arbitrary: rs')
  case Nil
  then show ?case
    by (cases rs') (auto simp: merged_regions_Cons dest!: region_ok_lt(1))
next
  case (Cons r rs)
  show ?case
  proof (cases rs')
    case Nil
    then have "rbase r \<in> {}" using Cons.prems region_ok_lt(1) [of r] by (auto simp: merged_regions_Cons)
    then show ?thesis by simp
  next
    case (Cons r' qs)
    have m: "merged_regions (r' # qs)" "cover (r' # qs) = cover (r # rs)"
      using Cons.prems(2,3) \<open>rs' = r' # qs\<close> by simp_all
    note f1 = merged_first [OF Cons.prems(1) m(1) m(2) [symmetric]] and f2 = merged_first [OF m(1) Cons.prems(1) m(2)]
    then have eq: "rbase r = rbase r'" "fin r = fin r'" by simp_all
    then have "r = r'" by (cases r; cases r') (simp add: fin_def)
    have "cover rs = cover (r # rs) - {rbase r..<fin r}"
      using merged_below [OF Cons.prems(1)] by fastforce
    moreover have "cover qs = cover (r' # qs) - {rbase r'..<fin r'}"
      using merged_below [OF m(1)] by fastforce
    ultimately have "cover rs = cover qs" using m(2) eq by simp
    then have "rs = qs" using Cons.prems(1) m(1) by (intro Cons.IH) (simp_all add: merged_regions_Cons)
    then show ?thesis using \<open>r = r'\<close> \<open>rs' = r' # qs\<close> by simp
  qed
qed

text \<open>A contiguous range covered by a merged list lies in one region.\<close>

lemma covered_range_one_region:
  assumes "merged_regions rs" "0 < n" "{b..<b + n} \<subseteq> cover rs"
  shows "\<exists>r \<in> set rs. rbase r \<le> b \<and> b + n \<le> fin r"
proof -
  have "b \<in> cover rs" using assms(2,3) by auto
  then obtain r where r: "r \<in> set rs" "rbase r \<le> b" "b < fin r" by (auto simp: cover_def)
  have "b + n \<le> fin r"
  proof (rule ccontr)
    assume "\<not> b + n \<le> fin r"
    then have "fin r \<in> cover rs" using assms(3) r(3) by auto
    then obtain r' where r': "r' \<in> set rs" "rbase r' \<le> fin r" "fin r < fin r'" by (auto simp: cover_def)
    obtain i j where ij: "i < length rs" "rs ! i = r" "j < length rs" "rs ! j = r'"
      using r(1) r'(1) by (metis in_set_conv_nth)
    then have "i \<noteq> j" using r'(3) by auto
    then have "fin r < rbase r' \<or> fin r' < rbase r"
      using merged_nth(2) [OF assms(1), of i j] merged_nth(2) [OF assms(1), of j i] ij
      by (cases i j rule: linorder_cases) simp_all
    then show False using r r' by linarith
  qed
  with r show ?thesis by blast
qed

section \<open>Adding and freeing\<close>

text \<open>The parts of a range that are not covered yet, by their first addresses.\<close>

definition pieces :: "nat \<Rightarrow> nat \<Rightarrow> memblock_region list \<Rightarrow> nat set" where
  "pieces b en rs = {x \<in> {b..<en} - cover rs. x = b \<or> x - 1 \<in> cover rs}"

lemma pieces_Nil: "pieces b en [] = (if b < en then {b} else {})"
  by (auto simp: pieces_def)

lemma cover_above: "\<forall>c \<in> set rs. f \<le> rbase c \<Longrightarrow> x \<in> cover rs \<Longrightarrow> f \<le> x"
  by (fastforce simp: cover_def)

lemma pieces_Cons:
  assumes "region_ok r" "\<forall>c \<in> set rs. fin r \<le> rbase c"
  shows "pieces b en (r # rs) = (if en \<le> rbase r then (if b < en then {b} else {})
    else if fin r \<le> b then pieces b en rs
    else (if b < rbase r then {b} else {}) \<union> pieces (min en (fin r)) en rs)"
proof -
  note ab = cover_above [OF assms(2)]
  have r: "rbase r < fin r" using assms(1) by (simp add: region_ok_def fin_def)
  have low: "x \<notin> cover rs" if "x < fin r" for x using ab [of x] that by auto
  consider "en \<le> rbase r" | "\<not> en \<le> rbase r" "fin r \<le> b" | "\<not> en \<le> rbase r" "\<not> fin r \<le> b" by blast
  then show ?thesis
  proof cases
    case 1
    then have "x \<notin> cover (r # rs) \<and> x - 1 \<notin> cover (r # rs)" if "x < en" for x using that low [of x] low [of "x - 1"] r by auto
    then show ?thesis using 1 by (auto simp: pieces_def)
  next
    case 2
    then have "x - 1 \<in> cover (r # rs) \<longleftrightarrow> x - 1 \<in> cover rs" if "b < x" for x using that by auto
    then show ?thesis using 2 by (auto simp: pieces_def)
  next
    case 3
    have "x \<in> pieces b en (r # rs) \<longleftrightarrow> x \<in> (if b < rbase r then {b} else {}) \<union> pieces (min en (fin r)) en rs" for x
    proof (cases "x < fin r")
      case True
      then show ?thesis using 3 low [of x] low [of "x - 1"] r by (auto simp: pieces_def)
    next
      case False
      then have x: "x \<in> cover (r # rs) \<longleftrightarrow> x \<in> cover rs" "x \<noteq> b" "\<not> x < b" using 3(2) by auto
      have pr: "x - 1 \<in> cover (r # rs) \<longleftrightarrow> x = fin r \<or> x - 1 \<in> cover rs" using False r by auto
      have "x = min en (fin r) \<longleftrightarrow> x = fin r" if "x < en" using that False by auto
      then show ?thesis using False 3 x pr by (auto simp: pieces_def)
    qed
    then show ?thesis unfolding if_not_P [OF 3(1)] if_not_P [OF 3(2)] by (rule set_eqI)
  qed
qed

lemma fill_pieces:
  "sorted_regions rs \<Longrightarrow> length (fill en b rs) = length rs + card (pieces b en rs)"
proof (induction rs arbitrary: b)
  case Nil
  then show ?case by (simp add: pieces_Nil)
next
  case (Cons r rs)
  then have r: "region_ok r" "\<forall>c \<in> set rs. fin r \<le> rbase c" "sorted_regions rs" by (simp_all add: sorted_regions_Cons)
  have "b \<notin> pieces (min en (fin r)) en rs" "finite (pieces (min en (fin r)) en rs)" if "b < rbase r" "\<not> en \<le> rbase r"
    using that r(1) by (auto simp: pieces_def region_ok_def fin_def)
  then show ?case using Cons.IH [OF r(3)] unfolding pieces_Cons [OF r(1,2)] by auto
qed


definition demo_regions :: memblock_region_set where
  "demo_regions = \<lparr>regions = [\<lparr>rbase = 0x80000000, rsize = 0x1000\<rparr>, \<lparr>rbase = 0x80002000, rsize = 0x1000\<rparr>],
     max_regions = INIT_MEMBLOCK_REGIONS\<rparr>"

lemma demo_regions_ok: "region_set_ok demo_regions"
  by (simp add: region_set_ok_def demo_regions_def merged_regions_Cons region_ok_def fin_def INIT_MEMBLOCK_REGIONS_def)


lemma memblock_free_cases:
  assumes ok: "memblock_ok mb" and n: "0 < n" "b + n < 2 ^ 64"
  shows "{b..<b + n} \<subseteq> cover (regions (reserved mb)) \<and> memblock_free b n mb = None
      \<and> length (regions (reserved mb)) = max_regions (reserved mb)
    \<or> \<not> {b..<b + n} \<subseteq> cover (regions (reserved mb)) \<and> memblock_free b n mb = Some mb
    \<or> {b..<b + n} \<subseteq> cover (regions (reserved mb)) \<and> (\<exists>mb'. memblock_free b n mb = Some mb' \<and> memblock_ok mb' \<and> memory mb' = memory mb
        \<and> max_regions (reserved mb') = max_regions (reserved mb)
        \<and> cover (regions (reserved mb')) = cover (regions (reserved mb)) - {b..<b + n})"
proof -
  let ?rs = "reserved mb"
  have res: "region_set_ok ?rs" "merged_regions (regions ?rs)"
    using ok by (simp_all add: memblock_ok_def region_set_ok_def)
  have fe: "region_end r = fin r" if "r \<in> set (regions ?rs)" for r
    using that res(2) by (simp add: merged_regions_def region_end_fin)
  show ?thesis
  proof (cases "memblock_find_region b n ?rs")
    case None
    then have "\<not> {b..<b + n} \<subseteq> cover (regions ?rs)"
      using covered_range_one_region [OF res(2) n(1), of b] n(2)
        find_region_from_None [of b "b + n" 0 "regions ?rs"] fe by (auto simp: memblock_find_region_def)
    with None show ?thesis by (simp add: memblock_free_def)
  next
    case (Some i)
    then obtain pre r suf where s: "regions ?rs = pre @ r # suf" "i = length pre" "rbase r \<le> b" "b + n \<le> region_end r"
      using find_region_from_Some [of b "b + n" 0 "regions ?rs" i] n(2) by (auto simp: memblock_find_region_def)
    then have f: "b + n \<le> fin r" using fe [of r] by simp
    have sub: "{b..<b + n} \<subseteq> cover (regions ?rs)" using s f by (auto simp: cover_def)
    have eq: "memblock_free b n mb = (do { rs \<leftarrow> memblock_remove_region (length pre) b n ?rs; Some (mb\<lparr>reserved := rs\<rparr>) })"
      using Some s(2) by (simp add: memblock_free_def)
    note rem = remove_region_eq [OF res(1) s(1,3) n(1) f]
    show ?thesis
    proof (cases "memblock_remove_region (length pre) b n ?rs")
      case None
      then have "max_regions ?rs < length (pre @ cut_region b (b + n) r @ suf)"
        using rem by (auto split: if_splits)
      moreover have "length (pre @ cut_region b (b + n) r @ suf) \<le> Suc (length (regions ?rs))"
        by (simp add: s(1) cut_region_def)
      ultimately show ?thesis using None eq sub res(1) by (simp add: region_set_ok_def)
    next
      case (Some rs')
      from remove_region_ok [OF res(1) s(1,3) n(1) f Some] rem Some eq sub ok show ?thesis
        by (auto simp: memblock_ok_def split: if_splits)
    qed
  qed
qed

section \<open>Allocation\<close>

text \<open>The test in the loop of \<open>memblock_alloc\<close>, and what it does with the first range that passes.\<close>

definition range_fits :: "nat \<Rightarrow> nat \<Rightarrow> nat \<Rightarrow> nat \<times> nat \<Rightarrow> bool" where
  "range_fits n mn al r \<longleftrightarrow> \<not> fst r < mn \<and> \<not> wrap64 (round_up (max (fst r) mn) al + n) > snd r"

definition take_range :: "nat \<Rightarrow> nat \<Rightarrow> nat \<Rightarrow> memblock \<Rightarrow> (nat \<times> nat) option \<Rightarrow> (nat \<times> memblock) option" where
  "take_range n mn al mb r = (case r of
     None \<Rightarrow> Some (0, mb)
   | Some r \<Rightarrow> do {
       mb \<leftarrow> memblock_reserve (round_up (max (fst r) mn) al) n mb;
       Some (round_up (max (fst r) mn) al, mb) })"

lemma alloc_loop_eq:
  assumes ok: "memblock_ok mb" and "i \<le> length (regions (memory mb))" "j \<le> length (regions (reserved mb))"
  shows "memblock_alloc_loop n mn al mb (next_mem_range mb (pack_idx i j, s, e)) =
    take_range n mn al mb (find (range_fits n mn al) (mem_ranges (regions (memory mb)) (regions (reserved mb)) i j))"
  using assms(2,3)
proof (induction "left (regions (memory mb)) (regions (reserved mb)) i j" arbitrary: i j s e rule: less_induct)
  case less
  let ?mem = "regions (memory mb)" and ?res = "regions (reserved mb)"
  from iter_step [OF ok less.prems, of s e] show ?case
  proof (elim disjE exE conjE)
    assume "mem_ranges ?mem ?res i j = []" "fst (next_mem_range mb (pack_idx i j, s, e)) = UINT64_MAX"
    then show ?thesis by (subst memblock_alloc_loop.simps) (simp add: take_range_def)
  next
    fix r i' j'
    assume r: "mem_ranges ?mem ?res i j = r # mem_ranges ?mem ?res i' j'"
      "next_mem_range mb (pack_idx i j, s, e) = (pack_idx i' j', fst r, snd r)" "pack_idx i' j' \<noteq> UINT64_MAX"
      "i' \<le> length ?mem" "j' \<le> length ?res" "left ?mem ?res i' j' < left ?mem ?res i j"
    note IH = less.hyps [OF r(6,4,5), of "fst r" "snd r"]
    show ?thesis
      unfolding r(1,2) using r(3) IH
      by (subst memblock_alloc_loop.simps) (simp add: Let_def range_fits_def take_range_def)
  qed
qed

lemma memblock_alloc_eq:
  "memblock_ok mb \<Longrightarrow> is_power_of_two al \<Longrightarrow>
   memblock_alloc n mn al mb = take_range n mn al mb (find (range_fits n mn al) (free_list mb))"
  using alloc_loop_eq [of mb 0 0 n mn al 0 0]
  by (simp add: memblock_alloc_def free_list_def pack_0)

text \<open>The candidate in a free range: where it lies, and when the range is taken.\<close>

lemma free_range_candidate:
  assumes ok: "memblock_ok mb" and al: "is_power_of_two al" and mem: "(s, e) \<in> set (free_list mb)"
    and small: "\<forall>r \<in> set (regions (memory mb)). fin r + al + n \<le> 2 ^ 64"
  shows "s \<le> round_up s al" "al dvd round_up s al" "range_fits n mn al (s, e) \<longleftrightarrow> mn \<le> s \<and> round_up s al + n \<le> e"
proof -
  from is_power_of_two_pow2 [OF al] obtain k where k: "al = 2 ^ k" by blast
  have se: "s < e" using free_list_ok(2) [OF ok mem] by simp
  then have "e - 1 \<in> range_cover (free_list mb)"
    unfolding range_cover_def using mem by (intro UN_I [of "(s, e)"]) auto
  then obtain r where "r \<in> set (regions (memory mb))" "e - 1 < fin r"
    using free_list_ok(1) [OF ok] by (auto simp: cover_def)
  with small se have "fin r + al + n \<le> 2 ^ 64" "e \<le> fin r" by auto
  then have bound: "e + al + n \<le> 2 ^ 64" by linarith
  then have "s + 2 ^ k \<le> 2 ^ 64" using se unfolding k by linarith
  then have ru: "s \<le> round_up s al" "round_up s al < s + al" "al dvd round_up s al"
    unfolding k using round_up_ge round_up_less round_up_dvd by blast+
  then show "s \<le> round_up s al" "al dvd round_up s al" by blast+
  have "round_up s al + n < 2 ^ 64" using ru(2) se bound by linarith
  then show "range_fits n mn al (s, e) \<longleftrightarrow> mn \<le> s \<and> round_up s al + n \<le> e"
    by (auto simp: range_fits_def max_def not_less)
qed

text \<open>
  The maximal intervals of memory that is not reserved. They are the ranges the iterator visits:
  every visited range ends where its memory region ends or where a reserved region begins.
\<close>

definition free_mem :: "memblock \<Rightarrow> nat set" where
  "free_mem mb = cover (regions (memory mb)) - cover (regions (reserved mb))"

definition free_interval :: "memblock \<Rightarrow> nat \<Rightarrow> nat \<Rightarrow> bool" where
  "free_interval mb s e \<longleftrightarrow> s < e \<and> {s..<e} \<subseteq> free_mem mb \<and> (s = 0 \<or> s - 1 \<notin> free_mem mb) \<and> e \<notin> free_mem mb"

lemma merged_fin_notin:
  assumes "merged_regions rs" "r \<in> set rs"
  shows "fin r \<notin> cover rs"
proof
  assume "fin r \<in> cover rs"
  then obtain c where c: "c \<in> set rs" "rbase c \<le> fin r" "fin r < fin c" by (auto simp: cover_def)
  from assms(2) c(1) obtain i k where ik: "i < length rs" "k < length rs" "r = rs ! i" "c = rs ! k" by (metis in_set_conv_nth)
  have sw: "sorted_wrt (\<lambda>a c. fin a < rbase c) rs" "rbase r < fin r"
    using assms by (auto simp: merged_regions_def region_ok_def fin_def)
  from sorted_wrt_nth_less [OF sw(1)] have "fin (rs ! a) < rbase (rs ! b)" if "a < b" "b < length rs" for a b using that by blast
  from this [of i k] this [of k i] c ik sw(2) show False by (cases i k rule: linorder_cases) auto
qed

lemma next_gap_end: "next_gap ms me res j = Found j' s e \<Longrightarrow> e \<in> rbase ` set res \<or> e = UINT64_MAX"
proof (induction ms me res j rule: next_gap.induct)
  case (1 ms me res j)
  show ?case using "1.prems" "1.IH" by (subst (asm) next_gap.simps) (auto simp: Let_def split: if_splits)
qed

lemma next_mem_range_end:
  assumes "merged_regions mem" "merged_regions res"
  shows "next_mem_range_from mem res i j = Some ((s, e), i', j') \<Longrightarrow> e \<notin> cover mem - cover res"
  using assms
proof (induction mem res i j rule: next_mem_range_from.induct)
  case (1 mem res i j)
  have i: "i < length mem" using "1.prems"(1) by (subst (asm) next_mem_range_from.simps) (simp split: if_splits)
  have me: "region_end (mem ! i) = fin (mem ! i)" "fin (mem ! i) \<le> UINT64_MAX" "fin (mem ! i) \<notin> cover mem"
    using i "1.prems"(2) merged_fin_notin [of mem "mem ! i"]
    by (auto simp: merged_regions_def region_end_fin region_ok_def UINT64_MAX_def less_Suc_eq_le [symmetric])
  show ?case
  proof (cases "next_gap (rbase (mem ! i)) (region_end (mem ! i)) res j")
    case (Found k a b)
    then have "e = min (fin (mem ! i)) b" using "1.prems"(1) i me(1)
      by (subst (asm) next_mem_range_from.simps) (simp add: Let_def split: if_splits)
    moreover have "r \<in> set res \<Longrightarrow> rbase r \<in> cover res" for r
      using "1.prems"(3) by (fastforce simp: cover_def merged_regions_def region_ok_def fin_def)
    ultimately show ?thesis using next_gap_end [OF Found] me(2,3) by (auto simp: min_def split: if_splits)
  next
    case (Beyond k)
    then have "next_mem_range_from mem res (i + 1) k = Some ((s, e), i', j')" using "1.prems"(1) i
      by (subst (asm) next_mem_range_from.simps) (simp add: Let_def)
    from "1.IH" [OF i refl refl Beyond this] "1.prems" show ?thesis by blast
  qed
qed

lemma mem_ranges_end:
  "(s, e) \<in> set (mem_ranges mem res i j) \<Longrightarrow> merged_regions mem \<Longrightarrow> merged_regions res \<Longrightarrow> e \<notin> cover mem - cover res"
proof (induction mem res i j rule: mem_ranges.induct)
  case (1 mem res i j)
  from "1.prems"(1) obtain r i' j' where r: "next_mem_range_from mem res i j = Some (r, i', j')"
    "r = (s, e) \<or> left mem res i' j' < left mem res i j \<and> (s, e) \<in> set (mem_ranges mem res i' j')"
    unfolding mem_ranges.simps [of mem res i j]
    by (cases "next_mem_range_from mem res i j") (auto simp del: mem_ranges.simps split: if_splits)
  from r(2) show ?case
  proof (elim disjE conjE)
    assume "r = (s, e)"
    with r(1) show ?thesis using next_mem_range_end [OF "1.prems"(2,3)] by blast
  next
    assume "left mem res i' j' < left mem res i j" "(s, e) \<in> set (mem_ranges mem res i' j')"
    then show ?thesis using "1.IH" [OF r(1) refl refl] "1.prems"(2,3) by blast
  qed
qed

lemma free_interval_listed:
  assumes "memblock_ok mb" "free_interval mb s e"
  shows "(s, e) \<in> set (free_list mb)"
proof -
  note fl = free_list_ok(1) [OF assms(1), folded free_mem_def]
  have f: "s < e" "{s..<e} \<subseteq> free_mem mb" "s = 0 \<or> s - 1 \<notin> free_mem mb" "e \<notin> free_mem mb"
    using assms(2) by (simp_all add: free_interval_def)
  then have "s \<in> range_cover (free_list mb)" using fl by auto
  then obtain s' e' where r: "(s', e') \<in> set (free_list mb)" "s' \<le> s" "s < e'" by (auto simp: range_cover_def)
  then have sub: "x \<in> free_mem mb" if "s' \<le> x" "x < e'" for x
    unfolding fl [symmetric] range_cover_def using that by (intro UN_I [OF r(1)]) simp
  have "e' \<notin> free_mem mb" using mem_ranges_end r(1) assms(1)
    by (auto simp: free_list_def free_mem_def memblock_ok_def region_set_ok_def)
  then have "e \<le> e'" using f(2) r(3) by (meson atLeastLessThan_iff less_imp_le not_le subsetD)
  moreover have "e' \<le> e" using sub [of e] f(1,4) r(2) by (meson le_less_trans less_imp_le not_le)
  moreover have "s' = s" using sub [of "s - 1"] f(3) r(2,3) by (cases "s' = s") auto
  ultimately show ?thesis using r(1) by simp
qed

lemma memblock_reserve_free:
  assumes ok: "memblock_ok mb" and fits: "b + n < 2 ^ 64" and free: "{b..<b + n} \<subseteq> free_mem mb"
    and room: "length (regions (reserved mb)) < max_regions (reserved mb)"
  shows "\<exists>mb'. memblock_reserve b n mb = Some mb' \<and> memblock_ok mb' \<and> memory mb' = memory mb
    \<and> cover (regions (reserved mb')) = cover (regions (reserved mb)) \<union> {b..<b + n}"
proof -
  from ok have res: "region_set_ok (reserved mb)" "sorted_regions (regions (reserved mb))"
    by (simp_all add: memblock_ok_def region_set_ok_def merged_sorted)
  have "x = b" if "x \<in> pieces b (b + n) (regions (reserved mb))" for x
    using that free by (auto simp: pieces_def free_mem_def subset_iff dest: spec [of _ "x - 1"])
  then have "pieces b (b + n) (regions (reserved mb)) \<subseteq> {b}" by blast
  from card_mono [OF _ this] have "length (fill (b + n) b (regions (reserved mb))) \<le> max_regions (reserved mb)"
    using room unfolding fill_pieces [OF res(2)] by simp
  then have "\<exists>rs'. memblock_add_region b n (reserved mb) = Some rs'"
    using add_region_eq [OF res(2) _ _ _ fits] res(1) by (auto simp: region_set_ok_def)
  then obtain rs' where rs': "memblock_add_region b n (reserved mb) = Some rs'" ..
  from add_region_ok [OF res(1) fits rs'] ok rs' show ?thesis
    by (simp add: memblock_reserve_def memblock_ok_def)
qed


text \<open>A small machine: 128 MiB of memory, the first 2 MiB reserved.\<close>

definition demo_memblock :: memblock where
  "demo_memblock = \<lparr>memory = \<lparr>regions = [\<lparr>rbase = 0x80000000, rsize = 0x8000000\<rparr>], max_regions = INIT_MEMBLOCK_REGIONS\<rparr>,
     reserved = \<lparr>regions = [\<lparr>rbase = 0x80000000, rsize = 0x200000\<rparr>], max_regions = INIT_MEMBLOCK_RESERVED_REGIONS\<rparr>\<rparr>"

lemma demo_memblock_ok: "memblock_ok demo_memblock"
  by (simp add: memblock_ok_def region_set_ok_def demo_memblock_def merged_regions_Cons region_ok_def fin_def
      INIT_MEMBLOCK_REGIONS_def INIT_MEMBLOCK_RESERVED_REGIONS_def)

lemma pow2_numeral: "is_power_of_two 0x1000"
  using pow2_is_power_of_two [of 12] by simp


end
