(* ===== verification/Linear.thy ===== *)
theory Linear
  imports Pgalloc_Props
begin

text \<open>
  The linear mapping of physical memory into the kernel's address space
  (\<open>src/src/riscv/include/arch/mm.h\<close>, \<open>src/src/include/brk/pgalloc.h\<close>) and loads and stores of
  pointers through it. Memory is the byte map of the page allocator's state; an access that is
  not aligned or not inside the mapping faults.
\<close>

definition PAGE_OFFSET :: nat where [layout_simps]: "PAGE_OFFSET = 0xffffffc000000000"
definition LINEAR_MAPPING_SIZE :: nat where [layout_simps]: "LINEAR_MAPPING_SIZE = 0x2000000000"

definition phys_to_virt :: "pgalloc \<Rightarrow> nat \<Rightarrow> nat" where
  "phys_to_virt s paddr = wrap64 (sub64 paddr (phys_offset s) + PAGE_OFFSET)"

definition virt_to_phys :: "pgalloc \<Rightarrow> nat \<Rightarrow> nat" where
  "virt_to_phys s vaddr = wrap64 (sub64 vaddr PAGE_OFFSET + phys_offset s)"

definition page_to_virt :: "pgalloc \<Rightarrow> nat \<Rightarrow> nat" where
  "page_to_virt s pg = phys_to_virt s (pfn_to_phys s pg)"

definition virt_to_page :: "pgalloc \<Rightarrow> nat \<Rightarrow> nat" where
  "virt_to_page s vaddr = phys_to_pfn s (virt_to_phys s vaddr)"

definition mapped :: "pgalloc \<Rightarrow> nat \<Rightarrow> nat \<Rightarrow> bool" where
  "mapped s v n \<longleftrightarrow> PAGE_OFFSET \<le> v \<and> v + n \<le> PAGE_OFFSET + length (mem_map s) * PAGE_SIZE"

text \<open>The value of eight bytes, the lowest first.\<close>

definition le_value :: "(nat \<Rightarrow> u8) \<Rightarrow> nat \<Rightarrow> nat" where
  "le_value m a = (\<Sum>i<8. unat (m (a + i)) * 256 ^ i)"

definition le_store :: "nat \<Rightarrow> nat \<Rightarrow> (nat \<Rightarrow> u8) \<Rightarrow> (nat \<Rightarrow> u8)" where
  "le_store a v m = (\<lambda>x. if a \<le> x \<and> x < a + 8 then word_of_nat (v div 256 ^ (x - a)) else m x)"

definition load_ptr :: "nat \<Rightarrow> pgalloc \<Rightarrow> nat option" where
  "load_ptr v s = (if mapped s v 8 \<and> is_aligned v 8 then Some (le_value (ram s) (virt_to_phys s v)) else None)"

definition store_ptr :: "nat \<Rightarrow> nat \<Rightarrow> pgalloc \<Rightarrow> pgalloc option" where
  "store_ptr v x s = (if mapped s v 8 \<and> is_aligned v 8
     then Some (s\<lparr>ram := le_store (virt_to_phys s v) x (ram s)\<rparr>) else None)"

text \<open>\<open>memset(v, 0, n)\<close>.\<close>

definition clear_mem :: "nat \<Rightarrow> nat \<Rightarrow> pgalloc \<Rightarrow> pgalloc option" where
  "clear_mem v n s = (if n = 0 then Some s else if mapped s v n
     then Some (s\<lparr>ram := (\<lambda>a. if virt_to_phys s v \<le> a \<and> a < virt_to_phys s v + n then 0 else ram s a)\<rparr>) else None)"

section \<open>Addresses\<close>

text \<open>The part of the state that address arithmetic depends on, and memory that fits the linear mapping.\<close>

definition linear_ok :: "pgalloc \<Rightarrow> bool" where
  "linear_ok s \<longleftrightarrow> shape_ok s \<and> length (mem_map s) * PAGE_SIZE \<le> LINEAR_MAPPING_SIZE"

lemma linear_okD:
  assumes "linear_ok s"
  shows "length (mem_map s) * PAGE_SIZE \<le> 2 ^ 37" "length (mem_map s) * PAGE_SIZE + phys_offset s \<le> 2 ^ 64"
  using assms by (simp_all add: linear_ok_def shape_ok_def layout_simps)

lemma page_to_virt_eq:
  assumes "linear_ok s" "p < length (mem_map s)"
  shows "page_to_virt s p = PAGE_OFFSET + p * PAGE_SIZE"
proof -
  have p: "p * PAGE_SIZE < length (mem_map s) * PAGE_SIZE" using assms(2) by (simp add: layout_simps)
  note d = linear_okD [OF assms(1)]
  have "pfn_to_phys s p = p * PAGE_SIZE + phys_offset s"
    using p d by (simp add: pfn_to_phys_def push_bit_eq_mult layout_simps)
  moreover have "p * PAGE_SIZE + phys_offset s < 2 ^ 64" using p d by linarith
  ultimately have "sub64 (pfn_to_phys s p) (phys_offset s) = p * PAGE_SIZE" by (simp add: sub64_id)
  moreover from p d(1) have "p * PAGE_SIZE < 2 ^ 37" by (rule order.strict_trans2)
  then have "p * PAGE_SIZE + PAGE_OFFSET < 2 ^ 64" by (simp add: PAGE_OFFSET_def)
  ultimately show ?thesis by (simp add: page_to_virt_def phys_to_virt_def)
qed

lemma mapped_phys:
  assumes "linear_ok s" "mapped s v n" "0 < n"
  shows "virt_to_phys s v = v - PAGE_OFFSET + phys_offset s"
proof -
  note d = linear_okD [OF assms(1)]
  have v: "PAGE_OFFSET \<le> v" "v - PAGE_OFFSET < length (mem_map s) * PAGE_SIZE"
    using assms(2,3) unfolding mapped_def by linarith+
  then have "v < 2 ^ 64" using d(1) by (simp add: PAGE_OFFSET_def)
  with v(1) have "sub64 v PAGE_OFFSET = v - PAGE_OFFSET" by (rule sub64_id)
  moreover have "v - PAGE_OFFSET + phys_offset s < 2 ^ 64" using v(2) d(2) by linarith
  ultimately show ?thesis by (simp add: virt_to_phys_def)
qed

lemma virt_to_page_eq:
  assumes "linear_ok s" "mapped s v n" "0 < n"
  shows "virt_to_page s v = (v - PAGE_OFFSET) div PAGE_SIZE"
proof -
  note d = linear_okD [OF assms(1)]
  have "v - PAGE_OFFSET < length (mem_map s) * PAGE_SIZE"
    using assms(2,3) unfolding mapped_def by linarith
  with d(2) have "v - PAGE_OFFSET + phys_offset s < 2 ^ 64" by linarith
  then show ?thesis
    by (simp add: virt_to_page_def mapped_phys [OF assms] phys_to_pfn_def sub64_id drop_bit_eq_div layout_simps)
qed

section \<open>Pointers in memory\<close>

lemma le_digits: "v < 256 ^ k \<Longrightarrow> (\<Sum>i<k. (v div 256 ^ i mod 256) * 256 ^ i) = v" for v :: nat
proof (induction k arbitrary: v)
  case (Suc k)
  then have "v div 256 < 256 ^ k" by (simp add: div_less_iff_less_mult mult.commute)
  from Suc.IH [OF this] have "(\<Sum>i<k. v div 256 ^ Suc i mod 256 * 256 ^ Suc i) = 256 * (v div 256)"
    by (simp add: sum_distrib_left [symmetric] div_mult2_eq mult.left_commute)
  then show ?case by (subst sum.lessThan_Suc_shift) simp
qed simp

lemma le_value_store: "v < 2 ^ 64 \<Longrightarrow> le_value (le_store a v m) a = v"
proof -
  assume "v < 2 ^ 64"
  moreover have "unat (word_of_nat x :: u8) = x mod 256" for x by (simp add: unat_of_nat)
  ultimately show ?thesis using le_digits [of v 8] by (simp add: le_value_def le_store_def)
qed

lemma le_value_cong: "(\<And>i. i < 8 \<Longrightarrow> m (a + i) = m' (a + i)) \<Longrightarrow> le_value m a = le_value m' a"
  by (simp add: le_value_def)

lemma le_store_other: "x < a \<or> a + 8 \<le> x \<Longrightarrow> le_store a v m x = m x"
  by (auto simp: le_store_def)

end
