(* ===== verification/Slab.thy ===== *)
theory Slab
  imports Linear
begin

text \<open>
  The slab allocator (\<open>src/src/mm/slab.c\<close>): caches of equally sized objects cut from blocks of
  pages. The free objects of a block form a list threaded through the objects themselves: the
  first word of a free object points to the next one. The model keeps that list in the memory it
  lives in, so that what a client writes into an object it owns can damage it or not.

  A cache is named by its index in the list of caches. The fields \<open>struct page\<close> shares between
  the page allocator and the slabs are separate here: slab code reads none of the buddy fields of
  a page it holds, and the page allocator writes its fields before it reads them.
\<close>

record slab_page =
  slab_free_objs :: nat
  slab_cache :: nat
  slab_free_count :: nat
  slab_objs_count :: nat

record slab_allocator =
  sa_size :: nat
  sa_align :: nat
  sa_order :: nat
  sa_list :: "nat list"

record slab_world =
  pga :: pgalloc
  slab_pages :: "nat \<Rightarrow> slab_page"
  caches :: "slab_allocator list"

definition round_up_to_pow_of_two :: "u64 \<Rightarrow> u64" where
  "round_up_to_pow_of_two x =
     (if x = 0 then 1
      else if x AND (x - 1) = 0 then x
      else (let v = x - 1;
                v = v OR drop_bit 1 v;
                v = v OR drop_bit 2 v;
                v = v OR drop_bit 4 v;
                v = v OR drop_bit 8 v;
                v = v OR drop_bit 16 v;
                v = v OR drop_bit 32 v in v + 1))"

text \<open>Stores to the state: a page's flags, its slab fields, memory, and a cache.\<close>

definition on_pga :: "(pgalloc \<Rightarrow> pgalloc option) \<Rightarrow> slab_world \<Rightarrow> slab_world option" where
  "on_pga f w = do { s \<leftarrow> f (pga w); Some (w\<lparr>pga := s\<rparr>) }"

definition upd_slab :: "nat \<Rightarrow> (slab_page \<Rightarrow> slab_page) \<Rightarrow> slab_world \<Rightarrow> slab_world" where
  "upd_slab p f w = w\<lparr>slab_pages := (slab_pages w)(p := f (slab_pages w p))\<rparr>"

definition upd_cache :: "nat \<Rightarrow> (slab_allocator \<Rightarrow> slab_allocator) \<Rightarrow> slab_world \<Rightarrow> slab_world option" where
  "upd_cache c f w = do {
     sa \<leftarrow> nth_opt (caches w) c;
     Some (w\<lparr>caches := (caches w)[c := f sa]\<rparr>) }"

fun mark_pages :: "nat list \<Rightarrow> nat \<Rightarrow> slab_world \<Rightarrow> slab_world option" where
  "mark_pages [] c w = Some w"
| "mark_pages (p # ps) c w = do {
     w \<leftarrow> on_pga (upd_page p (\<lambda>pg. pg\<lparr>pg_flags := pg_flags pg OR PAGE_FLAGS_SLAB\<rparr>)) w;
     mark_pages ps c (upd_slab p (\<lambda>sp. sp\<lparr>slab_cache := c\<rparr>) w) }"

definition slab_mark_page_range :: "nat \<Rightarrow> nat \<Rightarrow> nat \<Rightarrow> slab_world \<Rightarrow> slab_world option" where
  "slab_mark_page_range head order c w = mark_pages [head..<head + 2 ^ order] c w"

text \<open>The same store to each of a range of pages.\<close>

fun upd_pages :: "(page \<Rightarrow> page) \<Rightarrow> nat list \<Rightarrow> pgalloc \<Rightarrow> pgalloc option" where
  "upd_pages f [] s = Some s"
| "upd_pages f (p # ps) s = do { s \<leftarrow> upd_page p f s; upd_pages f ps s }"

definition slab_unmark_page_range :: "nat \<Rightarrow> nat \<Rightarrow> pgalloc \<Rightarrow> pgalloc option" where
  "slab_unmark_page_range head order s =
     upd_pages (\<lambda>pg. pg\<lparr>pg_flags := pg_flags pg AND NOT PAGE_FLAGS_SLAB\<rparr>) [head..<head + 2 ^ order] s"

text \<open>
  The loop that threads the free list through a new block; the size of an initialised cache is
  positive.
\<close>

function link_objs :: "nat \<Rightarrow> nat \<Rightarrow> nat \<Rightarrow> pgalloc \<Rightarrow> pgalloc option" where
  "link_objs osize addr end_addr s =
     (if addr + osize < end_addr \<and> 0 < osize then do {
        s \<leftarrow> store_ptr addr (addr + osize) s;
        link_objs osize (addr + osize) end_addr s }
      else store_ptr addr 0 s)"
  by pat_completeness auto
termination by (relation "measure (\<lambda>(osize, addr, end_addr, s). end_addr - addr)") auto

declare link_objs.simps [simp del]

definition slab_add_page :: "(nat \<Rightarrow> pgalloc \<Rightarrow> pgalloc option) \<Rightarrow> nat \<Rightarrow> slab_world \<Rightarrow> ((errno + unit) \<times> slab_world) option" where
  "slab_add_page shrink c w = do {
     sa \<leftarrow> nth_opt (caches w) c;
     (r, s) \<leftarrow> page_alloc shrink (sa_order sa) (pga w);
     w \<leftarrow> Some (w\<lparr>pga := s\<rparr>);
     (case r of
        None \<Rightarrow> Some (Inl ENOMEM, w)
      | Some pg \<Rightarrow> do {
          w \<leftarrow> slab_mark_page_range pg (sa_order sa) c w;
          (let addr = page_to_virt (pga w) pg;
               end_addr = wrap64 (addr + 2 ^ (PAGE_SHIFT + sa_order sa));
               addr = (if is_aligned addr (sa_align sa) then addr else round_up addr (sa_align sa));
               n = sub64 end_addr addr div sa_size sa;
               w = upd_slab pg (\<lambda>sp. sp\<lparr>slab_free_objs := addr, slab_objs_count := n, slab_free_count := n\<rparr>) w in
           if n = 0 then do {
             w \<leftarrow> on_pga (slab_unmark_page_range pg (sa_order sa)) w;
             w \<leftarrow> on_pga (page_free pg (sa_order sa)) w;
             Some (Inl ENOMEM, w) }
           else do {
             w \<leftarrow> on_pga (link_objs (sa_size sa) addr end_addr) w;
             w \<leftarrow> upd_cache c (\<lambda>sa. sa\<lparr>sa_list := pg # sa_list sa\<rparr>) w;
             Some (Inr (), w) }) }) }"

text \<open>The size and alignment a cache gets from the arguments of \<open>slab_init\<close>.\<close>

definition slab_geometry :: "nat \<Rightarrow> nat \<Rightarrow> nat \<times> nat" where
  "slab_geometry sz align =
     (let align = (if align < 8 then 8 else align);
          sz = (if sz < 8 then 8 else sz);
          align = (if \<not> is_power_of_two align then unat (round_up_to_pow_of_two (word_of_nat align)) else align);
          sz = (if \<not> is_aligned sz align then round_up sz align else sz) in
      (sz, align))"

definition slab_init :: "(nat \<Rightarrow> pgalloc \<Rightarrow> pgalloc option) \<Rightarrow> nat \<Rightarrow> nat \<Rightarrow> nat \<Rightarrow> slab_world \<Rightarrow> ((errno + unit) \<times> slab_world) option" where
  "slab_init shrink c sz align w =
     (if sz = 0 \<or> align = 0 then Some (Inl EINVAL, w)
      else (let (sz, align) = slab_geometry sz align in do {
        w \<leftarrow> upd_cache c (\<lambda>_. \<lparr>sa_size = sz, sa_align = align, sa_order = page_order sz, sa_list = []\<rparr>) w;
        slab_add_page shrink c w }))"

fun deinit_pages :: "nat list \<Rightarrow> nat \<Rightarrow> slab_world \<Rightarrow> slab_world option" where
  "deinit_pages [] order w = Some w"
| "deinit_pages (pg # ps) order w = do {
     _ \<leftarrow> assert_opt (slab_free_count (slab_pages w pg) = slab_objs_count (slab_pages w pg));
     w \<leftarrow> on_pga (slab_unmark_page_range pg order) w;
     w \<leftarrow> on_pga (page_free pg order) w;
     deinit_pages ps order w }"

definition slab_deinit :: "nat \<Rightarrow> slab_world \<Rightarrow> slab_world option" where
  "slab_deinit c w = do {
     sa \<leftarrow> nth_opt (caches w) c;
     w \<leftarrow> deinit_pages (sa_list sa) (sa_order sa) w;
     upd_cache c (\<lambda>sa. sa\<lparr>sa_list := []\<rparr>) w }"

text \<open>The scan of \<open>slab_alloc\<close>: the first object of the first block that has one.\<close>

fun slab_take :: "nat list \<Rightarrow> slab_world \<Rightarrow> (nat option \<times> slab_world) option" where
  "slab_take [] w = Some (None, w)"
| "slab_take (p # ps) w =
     (if slab_free_count (slab_pages w p) > 0 then do {
        obj \<leftarrow> Some (slab_free_objs (slab_pages w p));
        nxt \<leftarrow> load_ptr obj (pga w);
        Some (Some obj, upd_slab p (\<lambda>sp. sp\<lparr>slab_free_objs := nxt, slab_free_count := slab_free_count sp - 1\<rparr>) w) }
      else slab_take ps w)"

text \<open>The second scan can only fail after the block was added, and then \<open>attempt\<close> is too high for another one.\<close>

definition slab_alloc :: "(nat \<Rightarrow> pgalloc \<Rightarrow> pgalloc option) \<Rightarrow> nat \<Rightarrow> slab_world \<Rightarrow> (nat option \<times> slab_world) option" where
  "slab_alloc shrink c w = do {
     sa \<leftarrow> nth_opt (caches w) c;
     (r, w) \<leftarrow> slab_take (sa_list sa) w;
     (case r of
        Some obj \<Rightarrow> Some (Some obj, w)
      | None \<Rightarrow> do {
          (r, w) \<leftarrow> slab_add_page shrink c w;
          (case r of
             Inl _ \<Rightarrow> Some (None, w)
           | Inr _ \<Rightarrow> do {
               sa \<leftarrow> nth_opt (caches w) c;
               slab_take (sa_list sa) w }) }) }"

definition slab_alloc_zero :: "(nat \<Rightarrow> pgalloc \<Rightarrow> pgalloc option) \<Rightarrow> nat \<Rightarrow> slab_world \<Rightarrow> (nat option \<times> slab_world) option" where
  "slab_alloc_zero shrink c w = do {
     (r, w) \<leftarrow> slab_alloc shrink c w;
     (case r of
        None \<Rightarrow> Some (None, w)
      | Some obj \<Rightarrow> do {
          sa \<leftarrow> nth_opt (caches w) c;
          w \<leftarrow> on_pga (clear_mem obj (sa_size sa)) w;
          Some (Some obj, w) }) }"

text \<open>The scan of \<open>slab_free\<close>; an object in none of the blocks is a panic.\<close>

fun slab_give :: "nat list \<Rightarrow> nat \<Rightarrow> slab_world \<Rightarrow> slab_world option" where
  "slab_give [] obj w = None"
| "slab_give (p # ps) obj w = do {
     sa \<leftarrow> nth_opt (caches w) (slab_cache (slab_pages w p));
     (let start = page_to_virt (pga w) p; end_addr = wrap64 (start + push_bit (sa_order sa) PAGE_SIZE) in
      if start \<le> obj \<and> obj < end_addr then do {
        w \<leftarrow> on_pga (store_ptr obj (slab_free_objs (slab_pages w p))) w;
        Some (upd_slab p (\<lambda>sp. sp\<lparr>slab_free_objs := obj, slab_free_count := slab_free_count sp + 1\<rparr>) w) }
      else slab_give ps obj w) }"

definition slab_free :: "nat \<Rightarrow> nat \<Rightarrow> slab_world \<Rightarrow> slab_world option" where
  "slab_free c obj w =
     (if obj = 0 then Some w
      else do {
        sa \<leftarrow> nth_opt (caches w) c;
        _ \<leftarrow> assert_opt (is_aligned obj (sa_align sa));
        slab_give (sa_list sa) obj w })"

end
