(* ===== verification/Reclaim.thy ===== *)
theory Reclaim
  imports Linear
begin

text \<open>
  What the page allocator promises to a client that keeps its pages marked. The reclaimer that
  \<open>page_alloc\<close> calls when memory is short gives back page-cache pages only; it does not touch a
  frame that is in use and carries the mark of the slab allocator or of \<open>kmalloc\<close>.
\<close>

text \<open>A byte by its address in the linear mapping.\<close>

definition vmem :: "pgalloc \<Rightarrow> nat \<Rightarrow> u8" where
  "vmem s v = ram s (v - PAGE_OFFSET + phys_offset s)"

definition frame_of :: "nat \<Rightarrow> nat" where
  "frame_of v = (v - PAGE_OFFSET) div PAGE_SIZE"

text \<open>The frames \<open>F\<close> stay in use, with the same \<open>struct page\<close> and the same contents.\<close>

definition frames_kept :: "nat set \<Rightarrow> pgalloc \<Rightarrow> pgalloc \<Rightarrow> bool" where
  "frames_kept F s s' \<longleftrightarrow> length (mem_map s') = length (mem_map s) \<and> phys_offset s' = phys_offset s
     \<and> (\<forall>p \<in> F. mem_map s' ! p = mem_map s ! p \<and> p \<notin> free_frames s')
     \<and> (\<forall>v. PAGE_OFFSET \<le> v \<longrightarrow> frame_of v \<in> F \<longrightarrow> vmem s' v = vmem s v)"

definition MARKED :: u32 where "MARKED = PAGE_FLAGS_SLAB OR PAGE_FLAGS_KMALLOC"

definition marked :: "pgalloc \<Rightarrow> nat set" where
  "marked s = {p. p < length (mem_map s) \<and> p \<notin> free_frames s \<and> flag_set (pg_flags (mem_map s ! p)) MARKED}"

definition reclaim_spares :: "(nat \<Rightarrow> pgalloc \<Rightarrow> pgalloc option) \<Rightarrow> bool" where
  "reclaim_spares shrink \<longleftrightarrow>
     (\<forall>n s. pg_inv s \<longrightarrow> (\<exists>s'. shrink n s = Some s' \<and> pg_inv s' \<and> frames_kept (marked s) s s'))"

lemma frames_kept_refl: "F \<inter> free_frames s = {} \<Longrightarrow> frames_kept F s s"
  by (auto simp: frames_kept_def)

lemma frames_kept_trans: "frames_kept F s s' \<Longrightarrow> frames_kept F s' s'' \<Longrightarrow> frames_kept F s s''"
  by (simp add: frames_kept_def)

lemma frames_kept_mono: "frames_kept F s s' \<Longrightarrow> G \<subseteq> F \<Longrightarrow> frames_kept G s s'"
  by (auto simp: frames_kept_def)

lemma frames_kept_pages:
  assumes "pages_kept G s s'" "F \<inter> G = {}" "F \<inter> free_frames s' = {}"
  shows "frames_kept F s s'"
proof -
  have "mem_map s' ! p = mem_map s ! p \<and> p \<notin> free_frames s'" if "p \<in> F" for p
  proof -
    from that assms(2,3) have "p \<notin> G" "p \<notin> free_frames s'" by auto
    with assms(1) show ?thesis by (simp add: pages_kept_def)
  qed
  with assms(1) show ?thesis by (simp add: frames_kept_def pages_kept_def vmem_def)
qed

lemma marked_kept:
  assumes "frames_kept (marked s) s s'"
  shows "marked s \<subseteq> marked s'"
  using assms unfolding frames_kept_def marked_def by auto

lemma frames_kept_owned:
  assumes "frames_kept (block (fst b) (snd b)) s s'" "owned_block s b"
  shows "owned_block s' b"
proof -
  from assms(1) have "fst b \<in> block (fst b) (snd b) \<Longrightarrow> mem_map s' ! fst b = mem_map s ! fst b"
    "block (fst b) (snd b) \<inter> free_frames s' = {}" "length (mem_map s') = length (mem_map s)"
    unfolding frames_kept_def by blast+
  with assms(2) show ?thesis by (simp add: owned_block_def block_ok_def)
qed

lemma linear_ok_kept: "frames_kept F s s' \<Longrightarrow> linear_ok s \<Longrightarrow> pg_inv s' \<Longrightarrow> linear_ok s'"
  by (auto simp: linear_ok_def frames_kept_def dest: pg_inv_shape)

lemma allocated_kept:
  assumes "allocated p ord s s'"
  shows "frames_kept (marked s) s s'" "block p ord \<inter> marked s = {}" "owned_block s' (p, ord)"
    "pg_flags (mem_map s' ! p) = PAGE_FLAGS_NEW_PAGE"
proof -
  from assms have a: "block_ok s' p ord" "block p ord \<subseteq> free_frames s" "free_frames s' = free_frames s - block p ord"
    "pg_flags (mem_map s' ! p) = PAGE_FLAGS_NEW_PAGE" "pages_kept (free_frames s) s s'"
    by (simp_all add: allocated_def)
  have "marked s \<inter> free_frames s = {}" by (auto simp: marked_def)
  then show "frames_kept (marked s) s s'" using a(3) by (intro frames_kept_pages [OF a(5)]) auto
  show "block p ord \<inter> marked s = {}" using a(2) by (auto simp: marked_def)
  show "owned_block s' (p, ord)" using a(1,3,4) by (auto simp: owned_block_def)
  show "pg_flags (mem_map s' ! p) = PAGE_FLAGS_NEW_PAGE" by (rule a(4))
qed

lemma page_alloc_marked:
  assumes inv: "pg_inv s" and sh: "reclaim_spares shrink"
  shows "\<exists>r s'. page_alloc shrink ord s = Some (r, s') \<and> pg_inv s' \<and> frames_kept (marked s) s s'
    \<and> (\<forall>p. r = Some p \<longrightarrow> owned_block s' (p, ord) \<and> block p ord \<inter> marked s = {}
         \<and> pg_flags (mem_map s' ! p) = PAGE_FLAGS_NEW_PAGE)"
proof -
  have round: "\<exists>r s'. page_alloc_round ord t = Some (r, s') \<and> pg_inv s' \<and> frames_kept (marked t) t s'
    \<and> (\<forall>p. r = Some p \<longrightarrow> owned_block s' (p, ord) \<and> block p ord \<inter> marked t = {}
         \<and> pg_flags (mem_map s' ! p) = PAGE_FLAGS_NEW_PAGE)" if "pg_inv t" for t
  proof (rule disjE [OF page_alloc_round_spec [OF that, of ord]])
    assume "\<exists>p s'. page_alloc_round ord t = Some (Some p, s') \<and> pg_inv s' \<and> allocated p ord t s'
      \<and> (coalesced t \<longrightarrow> coalesced s')"
    then obtain p s' where "page_alloc_round ord t = Some (Some p, s')" "pg_inv s'" "allocated p ord t s'" by blast
    with allocated_kept [OF this(3)] show ?thesis by auto
  next
    have "frames_kept (marked t) t t" by (rule frames_kept_refl) (auto simp: marked_def)
    moreover assume "page_alloc_round ord t = Some (None, t) \<and> (\<forall>o'\<ge>ord. area t o' = [])
      \<and> (ord = 0 \<longrightarrow> pcp t (this_cpuid t) = [])"
    ultimately show ?thesis using that by auto
  qed
  from round [OF inv] obtain r s1 where
    r: "page_alloc_round ord s = Some (r, s1)" "pg_inv s1" "frames_kept (marked s) s s1"
      "\<forall>p. r = Some p \<longrightarrow> owned_block s1 (p, ord) \<and> block p ord \<inter> marked s = {}
         \<and> pg_flags (mem_map s1 ! p) = PAGE_FLAGS_NEW_PAGE" by blast
  show ?thesis
  proof (cases r)
    case (Some p)
    with r show ?thesis by (auto simp: page_alloc_eq)
  next
    case None
    from pcp_drain_all_spec [OF r(2)] obtain u where u: "pcp_drain_all s1 = Some u" "pg_inv u"
      "free_frames u = free_frames s1" "pages_kept (free_frames s1) s1 u" by blast
    have "frames_kept (marked s1) s1 u"
      by (rule frames_kept_pages [OF u(4)]) (auto simp: marked_def u(3))
    with r(3) marked_kept [OF r(3)] have ku: "frames_kept (marked s) s u"
      by (meson frames_kept_mono frames_kept_trans)
    from sh u(2) obtain t where t: "shrink (2 ^ ord) u = Some t" "pg_inv t" "frames_kept (marked u) u t"
      unfolding reclaim_spares_def by blast
    note kt = frames_kept_trans [OF ku frames_kept_mono [OF t(3) marked_kept [OF ku]]]
    from round [OF t(2)] obtain r' s' where
      r': "page_alloc_round ord t = Some (r', s')" "pg_inv s'" "frames_kept (marked t) t s'"
        "\<forall>p. r' = Some p \<longrightarrow> owned_block s' (p, ord) \<and> block p ord \<inter> marked t = {}
         \<and> pg_flags (mem_map s' ! p) = PAGE_FLAGS_NEW_PAGE" by blast
    have "marked s \<subseteq> marked t" using marked_kept [OF kt] .
    with kt r'(3) have "frames_kept (marked s) s s'" by (meson frames_kept_mono frames_kept_trans)
    moreover have "page_alloc shrink ord s = Some (r', s')"
      using r(1) None u(1) t(1) r'(1) by (simp add: page_alloc_eq)
    ultimately show ?thesis using r'(2,4) \<open>marked s \<subseteq> marked t\<close> by blast
  qed
qed

lemma page_free_kept:
  assumes inv: "pg_inv s" and own: "owned_block s (p, ord)"
    and F: "F \<inter> free_frames s = {}" "F \<inter> block p ord = {}"
  shows "\<exists>s'. page_free p ord s = Some s' \<and> pg_inv s' \<and> frames_kept F s s'
    \<and> free_frames s' = free_frames s \<union> block p ord"
proof -
  from own have o: "block_ok s p ord" "block p ord \<inter> free_frames s = {}" "head_flags (pg_flags (mem_map s ! p))"
    by (simp_all add: owned_block_def)
  from page_free_spec [OF inv o] obtain s' where s': "page_free p ord s = Some s'" "pg_inv s'"
    "free_frames s' = free_frames s \<union> block p ord" "pages_kept (free_frames s \<union> block p ord) s s'" by blast
  have "frames_kept F s s'" by (rule frames_kept_pages [OF s'(4)]) (use F s'(3) in auto)
  with s' show ?thesis by blast
qed

end
