(* ===== verification/Slab_Inv.thy ===== *)
theory Slab_Inv
  imports Slab Reclaim
begin

text \<open>
  The invariant of the slab caches. Every block of a cache is cut into slots of the cache's
  object size; following the pointers from the head of the block's free list for as many steps
  as its free count yields distinct slots. The slots that are not on the list are the objects in
  the hands of clients.
\<close>

section \<open>Slots and free lists\<close>

definition block_base :: "nat \<Rightarrow> nat" where
  "block_base p = PAGE_OFFSET + p * PAGE_SIZE"

definition block_bytes :: "slab_allocator \<Rightarrow> nat" where
  "block_bytes sa = PAGE_SIZE * 2 ^ sa_order sa"

definition slots :: "slab_allocator \<Rightarrow> nat \<Rightarrow> nat set" where
  "slots sa p = (\<lambda>k. block_base p + k * sa_size sa) ` {..<block_bytes sa div sa_size sa}"

fun chain :: "(nat \<Rightarrow> u8) \<Rightarrow> nat \<Rightarrow> nat \<Rightarrow> nat list" where
  "chain m a 0 = []"
| "chain m a (Suc n) = a # chain m (le_value m a) n"

definition free_objs :: "slab_world \<Rightarrow> nat \<Rightarrow> nat list" where
  "free_objs w p = chain (vmem (pga w)) (slab_free_objs (slab_pages w p)) (slab_free_count (slab_pages w p))"

definition cache_ok :: "slab_allocator \<Rightarrow> bool" where
  "cache_ok sa \<longleftrightarrow> (\<exists>k. sa_align sa = 2 ^ k \<and> 3 \<le> k) \<and> sa_align sa dvd sa_size sa \<and> 0 < sa_size sa
     \<and> sa_size sa \<le> block_bytes sa \<and> sa_order sa \<le> PAGE_ORDER_MAX"

definition slab_block :: "slab_world \<Rightarrow> slab_allocator \<Rightarrow> nat \<Rightarrow> nat \<Rightarrow> bool" where
  "slab_block w sa c p \<longleftrightarrow> owned_block (pga w) (p, sa_order sa)
     \<and> (\<forall>q \<in> block p (sa_order sa). flag_set (pg_flags (mem_map (pga w) ! q)) PAGE_FLAGS_SLAB
          \<and> slab_cache (slab_pages w q) = c)
     \<and> slab_objs_count (slab_pages w p) = block_bytes sa div sa_size sa
     \<and> distinct (free_objs w p) \<and> set (free_objs w p) \<subseteq> slots sa p"

text \<open>The blocks of all caches, with the cache each belongs to.\<close>

definition slab_blocks :: "slab_world \<Rightarrow> (nat \<times> nat) set" where
  "slab_blocks w = {(c, p). c < length (caches w) \<and> p \<in> set (sa_list (caches w ! c))}"

definition block_of :: "slab_world \<Rightarrow> nat \<times> nat \<Rightarrow> nat set" where
  "block_of w b = block (snd b) (sa_order (caches w ! fst b))"

definition slab_inv :: "slab_world \<Rightarrow> bool" where
  "slab_inv w \<longleftrightarrow> pg_inv (pga w) \<and> linear_ok (pga w)
     \<and> (\<forall>c < length (caches w). distinct (sa_list (caches w ! c)))
     \<and> (\<forall>(c, p) \<in> slab_blocks w. cache_ok (caches w ! c) \<and> slab_block w (caches w ! c) c p)
     \<and> (\<forall>b \<in> slab_blocks w. \<forall>b' \<in> slab_blocks w. b \<noteq> b' \<longrightarrow> block_of w b \<inter> block_of w b' = {})"

text \<open>The objects of a cache in the hands of clients.\<close>

definition live_objs :: "slab_world \<Rightarrow> nat \<Rightarrow> nat set" where
  "live_objs w c = {a. \<exists>p. (c, p) \<in> slab_blocks w \<and> a \<in> slots (caches w ! c) p \<and> a \<notin> set (free_objs w p)}"

section \<open>Geometry\<close>

lemma cache_ok_pow2:
  assumes "cache_ok sa"
  shows "sa_align sa dvd block_bytes sa" "8 dvd sa_size sa" "8 dvd sa_align sa"
proof -
  from assms obtain k where k: "sa_align sa = 2 ^ k" "3 \<le> k" "sa_align sa dvd sa_size sa" "0 < sa_size sa"
    "sa_size sa \<le> block_bytes sa" by (auto simp: cache_ok_def)
  have bb: "block_bytes sa = 2 ^ (12 + sa_order sa)"
    by (simp add: block_bytes_def PAGE_SIZE_def power_add)
  have "2 ^ k \<le> sa_size sa" using k(1,3,4) dvd_imp_le by metis
  with k(5) have "(2 :: nat) ^ k \<le> 2 ^ (12 + sa_order sa)" unfolding bb by linarith
  then have "k \<le> 12 + sa_order sa" by (rule power_le_imp_le_exp [rotated]) simp
  then show "sa_align sa dvd block_bytes sa" unfolding bb k(1) by (rule le_imp_power_dvd)
  have "(2 :: nat) ^ 3 dvd 2 ^ k" using k(2) by (rule le_imp_power_dvd)
  then show "8 dvd sa_align sa" using k(1) by simp
  then show "8 dvd sa_size sa" using k(3) by (rule dvd_trans)
qed

lemma block_base_aligned:
  assumes "cache_ok sa" "2 ^ sa_order sa dvd p"
  shows "sa_align sa dvd block_base p"
proof -
  have "block_bytes sa dvd p * PAGE_SIZE"
    using assms(2) by (simp add: block_bytes_def mult.commute mult_dvd_mono)
  moreover have "block_bytes sa dvd PAGE_OFFSET"
  proof -
    have "sa_order sa \<le> 12" using assms(1) by (simp add: cache_ok_def PAGE_ORDER_MAX_def)
    then have "(2 :: nat) ^ sa_order sa dvd 2 ^ 12" by (rule le_imp_power_dvd)
    then have "block_bytes sa dvd PAGE_SIZE * 2 ^ 12" unfolding block_bytes_def by (rule mult_dvd_mono [OF dvd_refl])
    moreover have "PAGE_SIZE * 2 ^ 12 dvd PAGE_OFFSET" by (simp add: PAGE_OFFSET_def PAGE_SIZE_def)
    ultimately show ?thesis by (rule dvd_trans)
  qed
  ultimately show ?thesis
    using cache_ok_pow2(1) [OF assms(1)] unfolding block_base_def by (meson dvd_add dvd_trans)
qed

lemma slot_inside:
  assumes "cache_ok sa" "a \<in> slots sa p"
  shows "block_base p \<le> a" "a + sa_size sa \<le> block_base p + block_bytes sa" "8 \<le> sa_size sa"
proof -
  from assms(2) obtain k where k: "a = block_base p + k * sa_size sa" "k < block_bytes sa div sa_size sa"
    by (auto simp: slots_def)
  then show "block_base p \<le> a" by simp
  have "Suc k * sa_size sa \<le> block_bytes sa div sa_size sa * sa_size sa" using k(2) by (intro mult_le_mono1) simp
  also have "\<dots> \<le> block_bytes sa" by simp
  finally show "a + sa_size sa \<le> block_base p + block_bytes sa" using k(1) by simp
  show "8 \<le> sa_size sa"
    using cache_ok_pow2(2) [OF assms(1)] assms(1) by (intro dvd_imp_le) (auto simp: cache_ok_def)
qed

lemma slot_aligned:
  assumes "cache_ok sa" "2 ^ sa_order sa dvd p" "a \<in> slots sa p"
  shows "sa_align sa dvd a" "8 dvd a"
proof -
  have "sa_align sa dvd sa_size sa" using assms(1) by (simp add: cache_ok_def)
  then show "sa_align sa dvd a" using block_base_aligned [OF assms(1,2)] assms(3) by (auto simp: slots_def)
  with cache_ok_pow2(3) [OF assms(1)] show "8 dvd a" by (rule dvd_trans)
qed

lemma slots_apart:
  assumes "a \<in> slots sa p" "b \<in> slots sa p" "a < b"
  shows "a + sa_size sa \<le> b"
proof -
  from assms obtain k j where k: "a = block_base p + k * sa_size sa" "b = block_base p + j * sa_size sa" "k < j"
    by (auto simp: slots_def)
  then have "Suc k * sa_size sa \<le> j * sa_size sa" by (intro mult_le_mono1) simp
  with k show ?thesis by simp
qed

lemma frame_of_block:
  assumes "block_base p \<le> v" "v < block_base p + PAGE_SIZE * 2 ^ ord"
  shows "PAGE_OFFSET \<le> v" "frame_of v \<in> block p ord"
proof -
  show "PAGE_OFFSET \<le> v" using assms(1) by (simp add: block_base_def)
  have v: "p * PAGE_SIZE \<le> v - PAGE_OFFSET" "v - PAGE_OFFSET < (p + 2 ^ ord) * PAGE_SIZE"
    using assms by (simp_all add: block_base_def algebra_simps)
  then show "frame_of v \<in> block p ord"
    by (auto simp: frame_of_def block_def less_eq_div_iff_mult_less_eq div_less_iff_less_mult PAGE_SIZE_def)
qed

lemma block_mapped:
  assumes "block_ok s p ord" "block_base p \<le> v" "v + n \<le> block_base p + PAGE_SIZE * 2 ^ ord"
  shows "mapped s v n"
proof -
  have "(p + 2 ^ ord) * PAGE_SIZE \<le> length (mem_map s) * PAGE_SIZE"
    using assms(1) by (intro mult_le_mono1) (simp add: block_ok_def)
  then show ?thesis using assms(2,3) by (simp add: mapped_def block_base_def algebra_simps)
qed

section \<open>Free lists and memory\<close>

lemma chain_cong:
  "(\<And>a i. a \<in> set (chain m h n) \<Longrightarrow> i < 8 \<Longrightarrow> m' (a + i) = m (a + i)) \<Longrightarrow> chain m' h n = chain m h n"
proof (induction n arbitrary: h)
  case (Suc n)
  from Suc.prems have "le_value m' h = le_value m h" by (intro le_value_cong) simp
  with Suc show ?case by simp
qed simp

lemma length_chain [simp]: "length (chain m a n) = n"
  by (induction n arbitrary: a) simp_all

lemma load_ptr_in:
  assumes "linear_ok s" "mapped s v 8" "8 dvd v"
  shows "load_ptr v s = Some (le_value (vmem s) v)"
proof -
  have "le_value (ram s) (virt_to_phys s v) = le_value (vmem s) v"
    using mapped_phys [OF assms(1,2)] assms(2) by (simp add: le_value_def vmem_def mapped_def ac_simps)
  with assms(2) is_aligned_pow2 [of v 3] assms(3) show ?thesis by (simp add: load_ptr_def)
qed

lemma store_ptr_in:
  assumes "linear_ok s" "mapped s v 8" "8 dvd v"
  shows "\<exists>m. store_ptr v x s = Some (s\<lparr>ram := m\<rparr>) \<and>
    (\<forall>u \<ge> PAGE_OFFSET. vmem (s\<lparr>ram := m\<rparr>) u = le_store v x (vmem s) u)"
proof -
  have "vmem (s\<lparr>ram := le_store (virt_to_phys s v) x (ram s)\<rparr>) u = le_store v x (vmem s) u"
    if "PAGE_OFFSET \<le> u" for u
    using that mapped_phys [OF assms(1,2)] assms(2) by (auto simp: vmem_def le_store_def mapped_def)
  with assms(2) is_aligned_pow2 [of v 3] assms(3) show ?thesis by (auto simp: store_ptr_def)
qed

section \<open>Frames\<close>

text \<open>A block that no step touches stays as it is.\<close>

lemma free_objs_kept:
  assumes ok: "cache_ok sa" and b: "set (free_objs w p) \<subseteq> slots sa p"
    and sp: "slab_pages w' p = slab_pages w p"
    and k: "frames_kept (block p (sa_order sa)) (pga w) (pga w')"
  shows "free_objs w' p = free_objs w p"
  unfolding free_objs_def sp
proof (rule chain_cong)
  fix a i assume a: "a \<in> set (chain (vmem (pga w)) (slab_free_objs (slab_pages w p)) (slab_free_count (slab_pages w p)))"
    and i: "i < (8 :: nat)"
  then have "a \<in> slots sa p" using b by (auto simp: free_objs_def)
  note s = slot_inside [OF ok this]
  have "frame_of (a + i) \<in> block p (sa_order sa)" "PAGE_OFFSET \<le> a + i"
    using frame_of_block [of p "a + i" "sa_order sa"] s i by (auto simp: block_bytes_def)
  then show "vmem (pga w') (a + i) = vmem (pga w) (a + i)" using k by (simp add: frames_kept_def)
qed

lemma slab_block_kept:
  assumes "slab_block w sa c p" "cache_ok sa"
    and "\<And>q. q \<in> block p (sa_order sa) \<Longrightarrow> slab_pages w' q = slab_pages w q"
    and "frames_kept (block p (sa_order sa)) (pga w) (pga w')"
  shows "slab_block w' sa c p" "free_objs w' p = free_objs w p"
proof -
  have p: "slab_pages w' p = slab_pages w p" by (rule assms(3)) simp
  show fo: "free_objs w' p = free_objs w p"
    using assms by (intro free_objs_kept [OF assms(2) _ p assms(4)]) (simp add: slab_block_def)
  have "owned_block (pga w') (p, sa_order sa)"
    by (rule frames_kept_owned [where s = "pga w"]) (use assms(1,4) in \<open>simp_all add: slab_block_def\<close>)
  moreover have "flag_set (pg_flags (mem_map (pga w') ! q)) PAGE_FLAGS_SLAB \<and> slab_cache (slab_pages w' q) = c"
    if "q \<in> block p (sa_order sa)" for q
    using assms(1,4) assms(3) [OF that] that by (simp add: slab_block_def frames_kept_def)
  ultimately show "slab_block w' sa c p" using assms(1) p fo by (simp add: slab_block_def)
qed

lemma flag_slab_marked: "flag_set f PAGE_FLAGS_SLAB \<Longrightarrow> flag_set f MARKED"
proof -
  assume "flag_set f PAGE_FLAGS_SLAB"
  then have "bit f 2" by (simp add: flag_set_def PAGE_FLAGS_SLAB_def and_exp_eq_0_iff_not_bit [of f 2, simplified])
  then have "bit (f AND MARKED) 2" by (simp add: bit_simps MARKED_def PAGE_FLAGS_SLAB_def PAGE_FLAGS_KMALLOC_def)
  then show ?thesis by (auto simp: flag_set_def)
qed

lemma slab_block_marked:
  assumes "slab_block w sa c p"
  shows "block p (sa_order sa) \<subseteq> marked (pga w)"
proof
  fix q assume q: "q \<in> block p (sa_order sa)"
  from assms have o: "owned_block (pga w) (p, sa_order sa)" by (simp add: slab_block_def)
  then have "q < length (mem_map (pga w))" "q \<notin> free_frames (pga w)"
    using q by (auto simp: owned_block_def block_ok_def block_def)
  with assms q show "q \<in> marked (pga w)" by (auto simp: marked_def slab_block_def intro: flag_slab_marked)
qed

lemma slab_invD:
  assumes "slab_inv w"
  shows "pg_inv (pga w)" "linear_ok (pga w)"
    and "c < length (caches w) \<Longrightarrow> distinct (sa_list (caches w ! c))"
    and "(c, p) \<in> slab_blocks w \<Longrightarrow> cache_ok (caches w ! c)"
    and "(c, p) \<in> slab_blocks w \<Longrightarrow> slab_block w (caches w ! c) c p"
    and "b \<in> slab_blocks w \<Longrightarrow> b' \<in> slab_blocks w \<Longrightarrow> b \<noteq> b' \<Longrightarrow> block_of w b \<inter> block_of w b' = {}"
  using assms by (auto simp: slab_inv_def)

text \<open>
  A step that works on one block: the lists of the caches stay, the page table of the other
  blocks stays, and so do their frames.
\<close>

lemma slab_inv_step:
  assumes inv: "slab_inv w" and b: "(c, p) \<in> slab_blocks w"
    and new: "pg_inv (pga w')" "linear_ok (pga w')" "caches w' = caches w"
    and blk: "slab_block w' (caches w ! c) c p"
    and sp: "\<And>q. q \<noteq> p \<Longrightarrow> slab_pages w' q = slab_pages w q"
    and k: "\<And>F. F \<inter> block_of w (c, p) = {} \<Longrightarrow> F \<inter> free_frames (pga w) = {} \<Longrightarrow> frames_kept F (pga w) (pga w')"
  shows "slab_inv w'" "\<And>c' p'. (c', p') \<in> slab_blocks w \<Longrightarrow> p' \<noteq> p \<Longrightarrow> free_objs w' p' = free_objs w p'"
    "slab_blocks w' = slab_blocks w"
proof -
  show sb: "slab_blocks w' = slab_blocks w" by (simp add: slab_blocks_def new(3))
  have other: "slab_block w' (caches w ! c') c' p' \<and> free_objs w' p' = free_objs w p'"
    if b': "(c', p') \<in> slab_blocks w" "(c', p') \<noteq> (c, p)" for c' p'
  proof -
    have dj: "block p' (sa_order (caches w ! c')) \<inter> block_of w (c, p) = {}"
      using slab_invD(6) [OF inv b'(1) b b'(2)] by (simp add: block_of_def)
    have "p \<in> block_of w (c, p)" by (simp add: block_of_def)
    with dj have "slab_pages w' q = slab_pages w q" if "q \<in> block p' (sa_order (caches w ! c'))" for q
      using that by (intro sp) auto
    moreover have "frames_kept (block p' (sa_order (caches w ! c'))) (pga w) (pga w')"
      using slab_invD(5) [OF inv b'(1)] by (intro k [OF dj]) (simp add: slab_block_def owned_block_def)
    ultimately show ?thesis
      using slab_block_kept [OF slab_invD(5,4) [OF inv b'(1)]] by blast
  qed
  show "free_objs w' p' = free_objs w p'" if "(c', p') \<in> slab_blocks w" "p' \<noteq> p" for c' p'
    using other [OF that(1)] that(2) by simp
  have "cache_ok (caches w' ! c') \<and> slab_block w' (caches w' ! c') c' p'" if "(c', p') \<in> slab_blocks w'" for c' p'
    using that other [of c' p'] blk slab_invD(4) [OF inv, of c' p'] unfolding sb new(3)
    by (cases "(c', p') = (c, p)") auto
  then show "slab_inv w'"
    using inv new sb by (auto simp: slab_inv_def block_of_def)
qed

section \<open>Objects do not overlap\<close>

lemma slot_frame:
  assumes "cache_ok sa" "a \<in> slots sa p" "a \<le> x" "x < a + sa_size sa"
  shows "PAGE_OFFSET \<le> x" "frame_of x \<in> block p (sa_order sa)"
  using frame_of_block [of p x "sa_order sa"] slot_inside [OF assms(1,2)] assms(3,4)
  by (auto simp: block_bytes_def)

lemma slots_disjoint:
  assumes inv: "slab_inv w" and b: "(c, p) \<in> slab_blocks w" "(c', p') \<in> slab_blocks w"
    and a: "a \<in> slots (caches w ! c) p" "a' \<in> slots (caches w ! c') p'" and ne: "(c, p) \<noteq> (c', p') \<or> a \<noteq> a'"
  shows "{a..<a + sa_size (caches w ! c)} \<inter> {a'..<a' + sa_size (caches w ! c')} = {}"
proof (cases "(c, p) = (c', p')")
  case True
  then show ?thesis using ne a slots_apart [of a "caches w ! c" p a'] slots_apart [of a' "caches w ! c" p a]
    by (cases "a < a'") auto
next
  case False
  then have dj: "block_of w (c, p) \<inter> block_of w (c', p') = {}" by (rule slab_invD(6) [OF inv b])
  show ?thesis
  proof (rule ccontr)
    assume "\<not> ?thesis"
    then obtain x where "x \<in> {a..<a + sa_size (caches w ! c)} \<inter> {a'..<a' + sa_size (caches w ! c')}" by blast
    then have x: "a \<le> x" "x < a + sa_size (caches w ! c)" "a' \<le> x" "x < a' + sa_size (caches w ! c')" by simp_all
    have "frame_of x \<in> block_of w (c, p)"
      using slot_frame(2) [OF slab_invD(4) [OF inv b(1)] a(1) x(1,2)] by (simp add: block_of_def)
    moreover have "frame_of x \<in> block_of w (c', p')"
      using slot_frame(2) [OF slab_invD(4) [OF inv b(2)] a(2) x(3,4)] by (simp add: block_of_def)
    ultimately show False using dj by blast
  qed
qed

lemma slots_unique:
  assumes inv: "slab_inv w" and b: "(c, p) \<in> slab_blocks w" "(c', p') \<in> slab_blocks w"
    and a: "a \<in> slots (caches w ! c) p" "a \<in> slots (caches w ! c') p'"
  shows "(c, p) = (c', p')"
proof (rule ccontr)
  assume "(c, p) \<noteq> (c', p')"
  with slots_disjoint [OF inv b a] have "{a..<a + sa_size (caches w ! c)} \<inter> {a..<a + sa_size (caches w ! c')} = {}" by blast
  moreover have "0 < sa_size (caches w ! c)" "0 < sa_size (caches w ! c')"
    using slab_invD(4) [OF inv b(1)] slab_invD(4) [OF inv b(2)] by (simp_all add: cache_ok_def)
  then have "a \<in> {a..<a + sa_size (caches w ! c)} \<inter> {a..<a + sa_size (caches w ! c')}" by simp
  ultimately show False by blast
qed

lemma slot_ptr:
  assumes inv: "slab_inv w" and b: "(c, p) \<in> slab_blocks w" and a: "a \<in> slots (caches w ! c) p"
  shows "mapped (pga w) a 8" "8 dvd a" "mapped (pga w) a (sa_size (caches w ! c))"
proof -
  from slab_invD(5) [OF inv b] have bo: "block_ok (pga w) p (sa_order (caches w ! c))"
    by (simp add: slab_block_def owned_block_def)
  note s = slot_inside [OF slab_invD(4) [OF inv b] a]
  show "mapped (pga w) a 8" "mapped (pga w) a (sa_size (caches w ! c))"
    using s by (auto intro!: block_mapped [OF bo s(1)] simp: block_bytes_def)
  show "8 dvd a" using bo by (intro slot_aligned(2) [OF slab_invD(4) [OF inv b] _ a]) (simp add: block_ok_def)
qed

section \<open>Taking and giving objects\<close>

lemma slab_take_block:
  assumes inv: "slab_inv w" and b: "(c, p) \<in> slab_blocks w" and n: "slab_free_count (slab_pages w p) = Suc n"
  defines "obj \<equiv> slab_free_objs (slab_pages w p)"
  defines "w' \<equiv> upd_slab p (\<lambda>sp. sp\<lparr>slab_free_objs := le_value (vmem (pga w)) obj, slab_free_count := slab_free_count sp - 1\<rparr>) w"
  shows "load_ptr obj (pga w) = Some (le_value (vmem (pga w)) obj)" "slab_inv w'"
    "free_objs w p = obj # free_objs w' p" "\<And>c' p'. (c', p') \<in> slab_blocks w \<Longrightarrow> p' \<noteq> p \<Longrightarrow> free_objs w' p' = free_objs w p'"
proof -
  have fo: "free_objs w p = obj # free_objs w' p"
    using n by (simp add: free_objs_def w'_def obj_def upd_slab_def)
  then show "free_objs w p = obj # free_objs w' p" .
  note blk = slab_invD(5) [OF inv b]
  then have "obj \<in> slots (caches w ! c) p" using fo by (simp add: slab_block_def)
  note sp = slot_ptr [OF inv b this]
  show "load_ptr obj (pga w) = Some (le_value (vmem (pga w)) obj)"
    by (rule load_ptr_in [OF slab_invD(2) [OF inv] sp(1,2)])
  have pw: "pga w' = pga w" "caches w' = caches w" by (simp_all add: w'_def upd_slab_def)
  have "slab_block w' (caches w ! c) c p"
    using blk fo unfolding slab_block_def pw by (auto simp: w'_def upd_slab_def)
  from slab_inv_step [OF inv b _ _ pw(2) this] slab_invD(1,2) [OF inv] frames_kept_refl [of _ "pga w"]
  show "slab_inv w'" "\<And>c' p'. (c', p') \<in> slab_blocks w \<Longrightarrow> p' \<noteq> p \<Longrightarrow> free_objs w' p' = free_objs w p'"
    by (simp_all add: pw) (simp_all add: w'_def upd_slab_def)
qed

text \<open>What taking an object out of the block \<open>(c, p)\<close> does.\<close>

definition obj_taken :: "nat \<Rightarrow> nat \<Rightarrow> nat \<Rightarrow> slab_world \<Rightarrow> slab_world \<Rightarrow> bool" where
  "obj_taken c p obj w w' \<longleftrightarrow> (c, p) \<in> slab_blocks w \<and> slab_inv w' \<and> caches w' = caches w \<and> pga w' = pga w
     \<and> free_objs w p = obj # free_objs w' p
     \<and> (\<forall>c' p'. (c', p') \<in> slab_blocks w \<longrightarrow> p' \<noteq> p \<longrightarrow> free_objs w' p' = free_objs w p')"

lemma slab_take_ok:
  assumes inv: "slab_inv w" and c: "c < length (caches w)" and ps: "set ps \<subseteq> set (sa_list (caches w ! c))"
  shows "slab_take ps w = Some (None, w) \<and> (\<forall>p \<in> set ps. slab_free_count (slab_pages w p) = 0) \<or>
    (\<exists>p obj w'. slab_take ps w = Some (Some obj, w') \<and> obj_taken c p obj w w')"
  using ps
proof (induction ps)
  case (Cons p ps)
  then have b: "(c, p) \<in> slab_blocks w" using c by (simp add: slab_blocks_def)
  show ?case
  proof (cases "slab_free_count (slab_pages w p)")
    case 0
    with Cons show ?thesis by auto
  next
    case (Suc n)
    note t = slab_take_block [OF inv b Suc]
    let ?w' = "upd_slab p (\<lambda>sp. sp\<lparr>slab_free_objs := le_value (vmem (pga w)) (slab_free_objs (slab_pages w p)),
      slab_free_count := slab_free_count sp - 1\<rparr>) w"
    have "slab_take (p # ps) w = Some (Some (slab_free_objs (slab_pages w p)), ?w')" using Suc t(1) by simp
    moreover have "obj_taken c p (slab_free_objs (slab_pages w p)) w ?w'"
      unfolding obj_taken_def using t(2-4) b by (simp add: upd_slab_def)
    ultimately show ?thesis by blast
  qed
qed simp

lemma ram_upd [simp]:
  "free_frames (s\<lparr>ram := m\<rparr>) = free_frames s" "pg_inv_ex X (s\<lparr>ram := m\<rparr>) = pg_inv_ex X s"
  "linear_ok (s\<lparr>ram := m\<rparr>) = linear_ok s" "owned_block (s\<lparr>ram := m\<rparr>) b = owned_block s b"
proof -
  have a: "area (s\<lparr>ram := m\<rparr>) = area s" "pcp (s\<lparr>ram := m\<rparr>) = pcp s" "shape_ok (s\<lparr>ram := m\<rparr>) = shape_ok s"
    "block_ok (s\<lparr>ram := m\<rparr>) = block_ok s"
    by (auto simp: fun_eq_iff area_def pcp_def shape_ok_def block_ok_def)
  then have f: "free_blocks (s\<lparr>ram := m\<rparr>) = free_blocks s" by (simp add: free_blocks_def)
  then show ff: "free_frames (s\<lparr>ram := m\<rparr>) = free_frames s" by (simp add: free_frames_def)
  show "pg_inv_ex X (s\<lparr>ram := m\<rparr>) = pg_inv_ex X s" by (simp add: pg_inv_ex_def a f)
  show "linear_ok (s\<lparr>ram := m\<rparr>) = linear_ok s" by (simp add: linear_ok_def a)
  show "owned_block (s\<lparr>ram := m\<rparr>) b = owned_block s b" by (simp add: owned_block_def a ff)
qed

lemma page_to_virt_block:
  assumes "linear_ok s" "block_ok s p ord"
  shows "page_to_virt s p = block_base p" "block_base p + PAGE_SIZE * 2 ^ ord < 2 ^ 64"
proof -
  show "page_to_virt s p = block_base p"
    using page_to_virt_eq [OF assms(1) block_ok_lt [OF assms(2)]] by (simp add: block_base_def)
  have "(p + 2 ^ ord) * PAGE_SIZE \<le> length (mem_map s) * PAGE_SIZE"
    using assms(2) by (intro mult_le_mono1) (simp add: block_ok_def)
  also have "\<dots> \<le> 2 ^ 37" by (rule linear_okD(1) [OF assms(1)])
  finally show "block_base p + PAGE_SIZE * 2 ^ ord < 2 ^ 64"
    by (simp add: block_base_def PAGE_OFFSET_def algebra_simps)
qed

lemma slot_less:
  assumes inv: "slab_inv w" and b: "(c, p) \<in> slab_blocks w" and a: "a \<in> slots (caches w ! c) p"
  shows "a < 2 ^ 64"
proof -
  from slab_invD(5) [OF inv b] have "block_ok (pga w) p (sa_order (caches w ! c))"
    by (simp add: slab_block_def owned_block_def)
  from page_to_virt_block(2) [OF slab_invD(2) [OF inv] this] slot_inside(2) [OF slab_invD(4) [OF inv b] a]
  show ?thesis unfolding block_bytes_def by linarith
qed

text \<open>A store into a slot of one block leaves the other frames and the other slots alone.\<close>

lemma store_slot:
  assumes inv: "slab_inv w" and b: "(c, p) \<in> slab_blocks w" and a: "a \<in> slots (caches w ! c) p"
  obtains s' where "store_ptr a x (pga w) = Some s'" "\<exists>m. s' = (pga w)\<lparr>ram := m\<rparr>"
    "x < 2 ^ 64 \<Longrightarrow> le_value (vmem s') a = x"
    "\<And>u. PAGE_OFFSET \<le> u \<Longrightarrow> u < a \<or> a + 8 \<le> u \<Longrightarrow> vmem s' u = vmem (pga w) u"
    "\<And>F. F \<inter> block_of w (c, p) = {} \<Longrightarrow> F \<inter> free_frames (pga w) = {} \<Longrightarrow> frames_kept F (pga w) s'"
proof -
  note sp = slot_ptr [OF inv b a] note ok = slab_invD(4) [OF inv b]
  from store_ptr_in [OF slab_invD(2) [OF inv] sp(1,2), of x] obtain m where
    m: "store_ptr a x (pga w) = Some ((pga w)\<lparr>ram := m\<rparr>)"
      "\<And>u. PAGE_OFFSET \<le> u \<Longrightarrow> vmem ((pga w)\<lparr>ram := m\<rparr>) u = le_store a x (vmem (pga w)) u" by blast
  have a8: "PAGE_OFFSET \<le> a" "a + 8 \<le> a + sa_size (caches w ! c)"
    using slot_inside [OF ok a] by (auto simp: block_base_def)
  have "le_value (vmem ((pga w)\<lparr>ram := m\<rparr>)) a = x" if "x < 2 ^ 64"
  proof -
    have "le_value (vmem ((pga w)\<lparr>ram := m\<rparr>)) a = le_value (le_store a x (vmem (pga w))) a"
      using a8(1) by (intro le_value_cong m(2)) simp
    then show ?thesis using le_value_store [OF that] by simp
  qed
  moreover have keep: "vmem ((pga w)\<lparr>ram := m\<rparr>) u = vmem (pga w) u" if "PAGE_OFFSET \<le> u" "u < a \<or> a + 8 \<le> u" for u
    using m(2) [OF that(1)] le_store_other [OF that(2)] by simp
  moreover have "frames_kept F (pga w) ((pga w)\<lparr>ram := m\<rparr>)"
    if F: "F \<inter> block_of w (c, p) = {}" "F \<inter> free_frames (pga w) = {}" for F
  proof -
    have "vmem ((pga w)\<lparr>ram := m\<rparr>) v = vmem (pga w) v" if v: "PAGE_OFFSET \<le> v" "frame_of v \<in> F" for v
    proof (rule keep [OF v(1)], rule ccontr)
      assume "\<not> (v < a \<or> a + 8 \<le> v)"
      then have "frame_of v \<in> block_of w (c, p)"
        using slot_frame(2) [OF ok a, of v] a8 by (simp add: block_of_def)
      with F(1) v(2) show False by blast
    qed
    with F(2) show ?thesis by (auto simp: frames_kept_def)
  qed
  ultimately show thesis using m(1) by (intro that [of "(pga w)\<lparr>ram := m\<rparr>"]) auto
qed

lemma slab_give_block:
  assumes inv: "slab_inv w" and b: "(c, p) \<in> slab_blocks w"
    and obj: "obj \<in> slots (caches w ! c) p" "obj \<notin> set (free_objs w p)"
  shows "\<exists>s'. store_ptr obj (slab_free_objs (slab_pages w p)) (pga w) = Some s' \<and>
    (let w' = upd_slab p (\<lambda>sp. sp\<lparr>slab_free_objs := obj, slab_free_count := slab_free_count sp + 1\<rparr>) (w\<lparr>pga := s'\<rparr>) in
     slab_inv w' \<and> free_objs w' p = obj # free_objs w p
     \<and> (\<forall>c' p'. (c', p') \<in> slab_blocks w \<longrightarrow> p' \<noteq> p \<longrightarrow> free_objs w' p' = free_objs w p'))"
proof -
  let ?sa = "caches w ! c" let ?h = "slab_free_objs (slab_pages w p)" let ?n = "slab_free_count (slab_pages w p)"
  note blk = slab_invD(5) [OF inv b] note ok = slab_invD(4) [OF inv b]
  have fl: "distinct (free_objs w p)" "set (free_objs w p) \<subseteq> slots ?sa p" using blk by (simp_all add: slab_block_def)
  obtain s' where s': "store_ptr obj ?h (pga w) = Some s'" "\<exists>m. s' = (pga w)\<lparr>ram := m\<rparr>"
    "?h < 2 ^ 64 \<Longrightarrow> le_value (vmem s') obj = ?h"
    "\<And>u. PAGE_OFFSET \<le> u \<Longrightarrow> u < obj \<or> obj + 8 \<le> u \<Longrightarrow> vmem s' u = vmem (pga w) u"
    "\<And>F. F \<inter> block_of w (c, p) = {} \<Longrightarrow> F \<inter> free_frames (pga w) = {} \<Longrightarrow> frames_kept F (pga w) s'"
    using store_slot [OF inv b obj(1)] by metis
  define w' where "w' = upd_slab p (\<lambda>sp. sp\<lparr>slab_free_objs := obj, slab_free_count := slab_free_count sp + 1\<rparr>) (w\<lparr>pga := s'\<rparr>)"
  have old: "chain (vmem s') ?h ?n = free_objs w p" unfolding free_objs_def
  proof (rule chain_cong)
    fix a i assume "a \<in> set (chain (vmem (pga w)) ?h ?n)" and i: "i < (8 :: nat)"
    then have a: "a \<in> slots ?sa p" "a \<noteq> obj" using fl obj(2) by (auto simp: free_objs_def)
    have "a + i < obj \<or> obj + 8 \<le> a + i"
      using slots_apart [OF a(1) obj(1)] slots_apart [OF obj(1) a(1)] a(2) i slot_inside(3) [OF ok a(1)]
      by (cases "a < obj") auto
    moreover have "PAGE_OFFSET \<le> a + i" using slot_inside(1) [OF ok a(1)] by (simp add: block_base_def)
    ultimately show "vmem s' (a + i) = vmem (pga w) (a + i)" by (intro s'(4)) auto
  qed
  have fo: "free_objs w' p = obj # free_objs w p"
  proof (cases ?n)
    case 0
    then show ?thesis by (simp add: free_objs_def w'_def upd_slab_def)
  next
    case (Suc k)
    then have "?h \<in> set (free_objs w p)" by (simp add: free_objs_def)
    then have "?h \<in> slots ?sa p" using fl(2) by blast
    then have "?h < 2 ^ 64" by (rule slot_less [OF inv b])
    then show ?thesis using s'(3) old by (simp add: free_objs_def w'_def upd_slab_def)
  qed
  have pw: "pga w' = s'" "caches w' = caches w" by (simp_all add: w'_def upd_slab_def)
  have "slab_block w' ?sa c p"
    using blk fo obj fl s'(2) unfolding slab_block_def pw by (auto simp: w'_def upd_slab_def)
  from slab_inv_step [OF inv b _ _ pw(2) this] slab_invD(1,2) [OF inv] s'(2,5)
  have "slab_inv w'" "\<forall>c' p'. (c', p') \<in> slab_blocks w \<longrightarrow> p' \<noteq> p \<longrightarrow> free_objs w' p' = free_objs w p'"
    by (auto simp: pw) (auto simp: w'_def upd_slab_def)
  with fo s'(1) show ?thesis by (auto simp: w'_def Let_def)
qed

end
