(* ===== verification/Slab_Ops.thy ===== *)
theory Slab_Ops
  imports Slab_Inv
begin

text \<open>
  The slab operations in terms of the invariant: giving an object back, adding a block, setting
  up and taking down a cache.
\<close>

section \<open>Giving an object back\<close>

definition obj_given :: "nat \<Rightarrow> nat \<Rightarrow> nat \<Rightarrow> slab_world \<Rightarrow> slab_world \<Rightarrow> bool" where
  "obj_given c p obj w w' \<longleftrightarrow> slab_inv w' \<and> caches w' = caches w \<and> (\<exists>m. pga w' = (pga w)\<lparr>ram := m\<rparr>)
     \<and> free_objs w' p = obj # free_objs w p
     \<and> (\<forall>c' p'. (c', p') \<in> slab_blocks w \<longrightarrow> p' \<noteq> p \<longrightarrow> free_objs w' p' = free_objs w p')"

lemma give_misses:
  assumes inv: "slab_inv w" and b: "(c, p) \<in> slab_blocks w" "(c, q) \<in> slab_blocks w" "p \<noteq> q"
    and obj: "obj \<in> slots (caches w ! c) p"
  shows "\<not> (block_base q \<le> obj \<and> obj < block_base q + block_bytes (caches w ! c))"
proof
  assume "block_base q \<le> obj \<and> obj < block_base q + block_bytes (caches w ! c)"
  then have "frame_of obj \<in> block_of w (c, q)"
    using frame_of_block(2) [of q obj "sa_order (caches w ! c)"] by (simp add: block_of_def block_bytes_def)
  moreover have "frame_of obj \<in> block_of w (c, p)"
    using slot_frame(2) [OF slab_invD(4) [OF inv b(1)] obj order_refl] slot_inside(3) [OF slab_invD(4) [OF inv b(1)] obj]
    by (simp add: block_of_def)
  ultimately show False using slab_invD(6) [OF inv b(1,2)] b(3) by auto
qed

lemma slab_give_ok:
  assumes inv: "slab_inv w" and c: "c < length (caches w)"
    and obj: "obj \<in> slots (caches w ! c) p" "obj \<notin> set (free_objs w p)"
  shows "set ps \<subseteq> set (sa_list (caches w ! c)) \<Longrightarrow> p \<in> set ps \<Longrightarrow>
    \<exists>w'. slab_give ps obj w = Some w' \<and> obj_given c p obj w w'"
proof (induction ps)
  case (Cons q ps)
  let ?sa = "caches w ! c"
  have bq: "(c, q) \<in> slab_blocks w" and bp: "(c, p) \<in> slab_blocks w" using Cons.prems c by (auto simp: slab_blocks_def)
  note blk = slab_invD(5) [OF inv bq]
  have sc: "nth_opt (caches w) (slab_cache (slab_pages w q)) = Some ?sa"
    using blk c by (simp add: slab_block_def nth_opt_in)
  have bo: "block_ok (pga w) q (sa_order ?sa)" using blk by (simp add: slab_block_def owned_block_def)
  note pv = page_to_virt_block [OF slab_invD(2) [OF inv] bo]
  have e: "wrap64 (page_to_virt (pga w) q + push_bit (sa_order ?sa) PAGE_SIZE) = block_base q + block_bytes ?sa"
    using pv by (simp add: push_bit_eq_mult block_bytes_def)
  show ?case
  proof (cases "q = p")
    case True
    have "block_base p \<le> obj \<and> obj < block_base p + block_bytes ?sa"
      using slot_inside [OF slab_invD(4) [OF inv bp] obj(1)] by auto
    moreover from slab_give_block [OF inv bp obj] obtain s' where
      s': "store_ptr obj (slab_free_objs (slab_pages w p)) (pga w) = Some s'"
      "let w' = upd_slab p (\<lambda>sp. sp\<lparr>slab_free_objs := obj, slab_free_count := slab_free_count sp + 1\<rparr>) (w\<lparr>pga := s'\<rparr>) in
       slab_inv w' \<and> free_objs w' p = obj # free_objs w p
       \<and> (\<forall>c' p'. (c', p') \<in> slab_blocks w \<longrightarrow> p' \<noteq> p \<longrightarrow> free_objs w' p' = free_objs w p')" by blast
    moreover have "\<exists>m. s' = (pga w)\<lparr>ram := m\<rparr>" using s'(1) by (auto simp: store_ptr_def split: if_splits)
    ultimately show ?thesis using sc pv(1) e True
      by (simp add: on_pga_def Let_def obj_given_def) (simp add: upd_slab_def)
  next
    case False
    with Cons.prems(2) have "p \<in> set ps" by simp
    with Cons obtain w' where "slab_give ps obj w = Some w'" "obj_given c p obj w w'" by auto
    moreover have "\<not> (block_base q \<le> obj \<and> obj < block_base q + block_bytes ?sa)"
      using give_misses [OF inv bp bq _ obj(1)] False by blast
    ultimately show ?thesis using sc pv(1) e by (auto simp: Let_def)
  qed
qed simp

section \<open>Steps of the page allocator\<close>

lemma slab_inv_frames:
  assumes inv: "slab_inv w" and pg: "pg_inv (pga w')" and k: "frames_kept F (pga w) (pga w')"
    and F: "\<And>b. b \<in> slab_blocks w \<Longrightarrow> block_of w b \<subseteq> F"
    and c: "caches w' = caches w" and sp: "\<And>q. q \<in> F \<Longrightarrow> slab_pages w' q = slab_pages w q"
  shows "slab_inv w'" "\<And>c p. (c, p) \<in> slab_blocks w \<Longrightarrow> free_objs w' p = free_objs w p"
proof -
  have "slab_block w' (caches w ! c) c p \<and> free_objs w' p = free_objs w p" if b: "(c, p) \<in> slab_blocks w" for c p
  proof -
    have m: "block p (sa_order (caches w ! c)) \<subseteq> F" using F [OF b] by (simp add: block_of_def)
    show ?thesis
      using slab_block_kept [OF slab_invD(5,4) [OF inv b], of w'] sp m frames_kept_mono [OF k m] by blast
  qed
  moreover have "slab_blocks w' = slab_blocks w" "block_of w' = block_of w"
    by (auto simp: slab_blocks_def block_of_def c fun_eq_iff)
  moreover have "linear_ok (pga w')" by (rule linear_ok_kept [OF k slab_invD(2) [OF inv] pg])
  ultimately show "slab_inv w'" "\<And>c p. (c, p) \<in> slab_blocks w \<Longrightarrow> free_objs w' p = free_objs w p"
    using inv pg by (auto simp: slab_inv_def c)
qed

lemma block_of_marked: "slab_inv w \<Longrightarrow> b \<in> slab_blocks w \<Longrightarrow> block_of w b \<subseteq> marked (pga w)"
  using slab_block_marked [OF slab_invD(5), of w "fst b" "snd b"] by (simp add: block_of_def)

lemma slab_inv_pages:
  assumes inv: "slab_inv w" and pg: "pg_inv (pga w')" and k: "frames_kept (marked (pga w)) (pga w) (pga w')"
    and c: "caches w' = caches w" and sp: "\<And>q. q \<in> marked (pga w) \<Longrightarrow> slab_pages w' q = slab_pages w q"
  shows "slab_inv w'" "\<And>c p. (c, p) \<in> slab_blocks w \<Longrightarrow> free_objs w' p = free_objs w p"
  using slab_inv_frames [OF inv pg k block_of_marked [OF inv] c sp] by blast+

text \<open>Setting a flag bit that the page allocator does not look at.\<close>

lemma buddy_flags_or:
  assumes "f \<in> {PAGE_FLAGS_BUDDY, PAGE_FLAGS_HEAD, PAGE_FLAGS_FREE, PAGE_FLAGS_PCP}"
    "g \<in> {PAGE_FLAGS_SLAB, PAGE_FLAGS_KMALLOC}"
  shows "flag_set (x OR g) f \<longleftrightarrow> flag_set x f" "flag_set (x AND NOT g) f \<longleftrightarrow> flag_set x f"
proof -
  have "g AND f = 0" "NOT g AND f = f" using assms by (auto simp: page_flag_defs)
  then show "flag_set (x OR g) f \<longleftrightarrow> flag_set x f" "flag_set (x AND NOT g) f \<longleftrightarrow> flag_set x f"
    by (simp_all add: flag_set_def bit.conj_disj_distrib2 and.assoc)
qed

definition same_to_buddy :: "page \<Rightarrow> page \<Rightarrow> bool" where
  "same_to_buddy pg pg' \<longleftrightarrow> (\<forall>f \<in> {PAGE_FLAGS_BUDDY, PAGE_FLAGS_HEAD, PAGE_FLAGS_FREE, PAGE_FLAGS_PCP}.
     flag_set (pg_flags pg') f = flag_set (pg_flags pg) f)"

lemma same_to_buddy_marks:
  "g \<in> {PAGE_FLAGS_SLAB, PAGE_FLAGS_KMALLOC} \<Longrightarrow> same_to_buddy pg (pg\<lparr>pg_flags := pg_flags pg OR g\<rparr>)"
  "g \<in> {PAGE_FLAGS_SLAB, PAGE_FLAGS_KMALLOC} \<Longrightarrow> same_to_buddy pg (pg\<lparr>pg_flags := pg_flags pg OR g, buddy_page_order := k\<rparr>)"
  "g \<in> {PAGE_FLAGS_SLAB, PAGE_FLAGS_KMALLOC} \<Longrightarrow> same_to_buddy pg (pg\<lparr>pg_flags := pg_flags pg AND NOT g\<rparr>)"
  using buddy_flags_or [of _ g "pg_flags pg"] by (auto simp: same_to_buddy_def)

lemma same_to_buddy_trans: "same_to_buddy a b \<Longrightarrow> same_to_buddy b c \<Longrightarrow> same_to_buddy a c"
  by (simp add: same_to_buddy_def)

lemma same_to_buddy_head: "same_to_buddy a b \<Longrightarrow> head_flags (pg_flags b) = head_flags (pg_flags a)"
  by (simp add: same_to_buddy_def head_flags_def)

text \<open>
  Changing the pages of frames that are in use, in ways the page allocator does not see. Only the
  free flag matters to it there.
\<close>

definition pages_marked :: "nat set \<Rightarrow> (page \<Rightarrow> page) \<Rightarrow> pgalloc \<Rightarrow> pgalloc \<Rightarrow> bool" where
  "pages_marked P f s s' \<longleftrightarrow> pg_inv s' \<and> free_frames s' = free_frames s \<and> ram s' = ram s
     \<and> length (mem_map s') = length (mem_map s) \<and> phys_offset s' = phys_offset s
     \<and> (\<forall>q < length (mem_map s). mem_map s' ! q = (if q \<in> P then f (mem_map s ! q) else mem_map s ! q))"

lemma buddy_free:
  assumes "pg_inv s" "p < length (mem_map s)" "page_is_buddy (mem_map s ! p) ord"
  shows "p \<in> free_frames s"
  using pg_inv_listed [OF assms(1,2) _ assms(3)] not_free_not_listed by blast

lemma upd_pages_ok:
  assumes same: "\<And>pg. same_to_buddy pg (f pg)"
  shows "pg_inv s \<Longrightarrow> distinct ps \<Longrightarrow> set ps \<subseteq> {..<length (mem_map s)} \<Longrightarrow> set ps \<inter> free_frames s = {} \<Longrightarrow>
    \<exists>s'. upd_pages f ps s = Some s' \<and> pages_marked (set ps) f s s'"
proof (induction ps arbitrary: s)
  case Nil
  then show ?case by (simp add: pages_marked_def)
next
  case (Cons p ps)
  define s1 where "s1 = s\<lparr>mem_map := (mem_map s)[p := f (mem_map s ! p)]\<rparr>"
  have p: "p < length (mem_map s)" "p \<notin> free_frames s" using Cons.prems by auto
  have "\<not> page_is_buddy (f (mem_map s ! p)) ord" for ord
  proof
    assume "page_is_buddy (f (mem_map s ! p)) ord"
    then have "page_is_buddy (mem_map s ! p) (buddy_page_order (mem_map s ! p))"
      using same [of "mem_map s ! p"] by (auto simp: page_is_buddy_def same_to_buddy_def split: if_splits)
    with buddy_free [OF Cons.prems(1) p(1)] p(2) show False by blast
  qed
  then have inv: "pg_inv s1" unfolding s1_def by (intro upd_page_inv [OF Cons.prems(1) p]) auto
  have "\<exists>s'. upd_pages f ps s1 = Some s' \<and> pages_marked (set ps) f s1 s'"
    using Cons.prems by (intro Cons.IH inv) (auto simp: s1_def)
  then obtain s' where s': "upd_pages f ps s1 = Some s'" "pages_marked (set ps) f s1 s'" by blast
  have "upd_pages f (p # ps) s = Some s'" using s'(1) p(1) by (simp add: upd_page_in s1_def)
  moreover have "pages_marked (set (p # ps)) f s s'"
    using s'(2) p(1) Cons.prems(2) by (auto simp: pages_marked_def s1_def nth_list_update)
  ultimately show ?case by blast
qed

lemma owned_marked:
  assumes same: "\<And>pg. same_to_buddy pg (f pg)" and inv: "pg_inv s" and own: "owned_block s (p, ord)"
  shows "\<exists>s'. upd_pages f [p..<p + 2 ^ ord] s = Some s' \<and> pages_marked (block p ord) f s s' \<and> owned_block s' (p, ord)"
proof -
  have bl: "set [p..<p + 2 ^ ord] = block p ord" by (simp add: block_def)
  have o: "block_ok s p ord" "block p ord \<inter> free_frames s = {}" "head_flags (pg_flags (mem_map s ! p))"
    using own by (simp_all add: owned_block_def)
  have "\<exists>s'. upd_pages f [p..<p + 2 ^ ord] s = Some s' \<and> pages_marked (set [p..<p + 2 ^ ord]) f s s'"
    using o by (intro upd_pages_ok [OF same inv]) (simp_all only: bl distinct_upt, auto simp: block_def block_ok_def)
  then obtain s' where s': "upd_pages f [p..<p + 2 ^ ord] s = Some s'" "pages_marked (block p ord) f s s'"
    unfolding bl by blast
  have "mem_map s' ! p = f (mem_map s ! p)"
    using s'(2) block_ok_lt [OF o(1)] by (simp add: pages_marked_def)
  then have "head_flags (pg_flags (mem_map s' ! p))" using same_to_buddy_head [OF same [of "mem_map s ! p"]] o(3) by simp
  with s' o show ?thesis by (auto simp: owned_block_def block_ok_def pages_marked_def)
qed

lemma pages_marked_kept:
  assumes "pages_marked P f s s'" "F \<inter> P = {}" "F \<inter> free_frames s = {}" "F \<subseteq> {..<length (mem_map s)}"
  shows "frames_kept F s s'"
proof -
  have "mem_map s' ! p = mem_map s ! p \<and> p \<notin> free_frames s'" if "p \<in> F" for p
  proof -
    from that assms(2-4) have "p \<notin> P" "p \<notin> free_frames s" "p < length (mem_map s)" by auto
    with assms(1) show ?thesis by (simp add: pages_marked_def)
  qed
  with assms(1) show ?thesis by (simp add: pages_marked_def frames_kept_def vmem_def)
qed

lemma mark_pages_eq:
  "mark_pages ps c w = do {
     s \<leftarrow> upd_pages (\<lambda>pg. pg\<lparr>pg_flags := pg_flags pg OR PAGE_FLAGS_SLAB\<rparr>) ps (pga w);
     Some (w\<lparr>pga := s, slab_pages := (\<lambda>q. if q \<in> set ps then (slab_pages w q)\<lparr>slab_cache := c\<rparr> else slab_pages w q)\<rparr>) }"
proof (induction ps arbitrary: w)
  case (Cons p ps)
  let ?f = "\<lambda>pg. pg\<lparr>pg_flags := pg_flags pg OR PAGE_FLAGS_SLAB\<rparr>"
  show ?case
  proof (cases "upd_page p ?f (pga w)")
    case (Some s1)
    then show ?thesis by (cases "upd_pages ?f ps s1") (auto simp: on_pga_def upd_slab_def Cons.IH fun_eq_iff)
  qed (simp add: on_pga_def)
qed simp

section \<open>Threading a new block\<close>

lemma link_objs_ok:
  assumes ok: "cache_ok sa" and bo: "block_ok s p (sa_order sa)" and lin: "linear_ok s"
    and k: "k * sa_size sa < block_bytes sa"
  shows "\<exists>m. link_objs (sa_size sa) (block_base p + k * sa_size sa) (block_base p + block_bytes sa) s = Some (s\<lparr>ram := m\<rparr>)
    \<and> (\<forall>u \<ge> PAGE_OFFSET. u < block_base p + k * sa_size sa \<or> block_base p + block_bytes sa \<le> u \<longrightarrow>
         vmem (s\<lparr>ram := m\<rparr>) u = vmem s u)
    \<and> (\<forall>j \<ge> k. Suc j * sa_size sa < block_bytes sa \<longrightarrow>
         le_value (vmem (s\<lparr>ram := m\<rparr>)) (block_base p + j * sa_size sa) = block_base p + Suc j * sa_size sa)"
  using k lin bo
proof (induction "block_bytes sa - k * sa_size sa" arbitrary: k s rule: less_induct)
  case less
  let ?sz = "sa_size sa" let ?a = "block_base p + k * ?sz" let ?e = "block_base p + block_bytes sa"
  have al: "8 dvd ?sz" "8 dvd block_bytes sa" "8 dvd block_base p" "0 < ?sz"
    using cache_ok_pow2 [OF ok] ok block_base_aligned [OF ok, of p] less.prems(3)
    by (auto simp: cache_ok_def block_ok_def intro: dvd_trans)
  then have a8: "8 dvd ?a" by simp
  have "8 dvd block_bytes sa - k * ?sz" using al by (intro dvd_diff_nat) auto
  with less.prems(1) have "8 \<le> block_bytes sa - k * ?sz" by (intro dvd_imp_le) auto
  then have in8: "?a + 8 \<le> ?e" using less.prems(1) by linarith
  then have mp: "mapped s ?a 8" by (intro block_mapped [OF less.prems(3)]) (auto simp: block_bytes_def)
  have po: "PAGE_OFFSET \<le> ?a" by (simp add: block_base_def)
  show ?case
  proof (cases "?a + ?sz < ?e")
    case True
    from store_ptr_in [OF less.prems(2) mp a8, of "?a + ?sz"] obtain m where
      m: "store_ptr ?a (?a + ?sz) s = Some (s\<lparr>ram := m\<rparr>)"
        "\<And>u. PAGE_OFFSET \<le> u \<Longrightarrow> vmem (s\<lparr>ram := m\<rparr>) u = le_store ?a (?a + ?sz) (vmem s) u" by blast
    have "Suc k * ?sz < block_bytes sa" using True by simp
    moreover from this al(4) have "block_bytes sa - Suc k * ?sz < block_bytes sa - k * ?sz" by simp
    moreover have "block_ok (s\<lparr>ram := m\<rparr>) p (sa_order sa)" using less.prems(3) by (simp add: block_ok_def)
    ultimately obtain m' where
      m': "link_objs ?sz (block_base p + Suc k * ?sz) ?e (s\<lparr>ram := m\<rparr>) = Some (s\<lparr>ram := m'\<rparr>)"
        "\<And>u. PAGE_OFFSET \<le> u \<Longrightarrow> u < block_base p + Suc k * ?sz \<or> ?e \<le> u \<Longrightarrow> vmem (s\<lparr>ram := m'\<rparr>) u = vmem (s\<lparr>ram := m\<rparr>) u"
        "\<And>j. Suc k \<le> j \<Longrightarrow> Suc j * ?sz < block_bytes sa \<Longrightarrow>
           le_value (vmem (s\<lparr>ram := m'\<rparr>)) (block_base p + j * ?sz) = block_base p + Suc j * ?sz"
      using less.hyps [of "Suc k" "s\<lparr>ram := m\<rparr>"] less.prems(2) by auto
    have "?a + ?sz < 2 ^ 64"
      using True page_to_virt_block(2) [OF less.prems(2,3)] unfolding block_bytes_def by linarith
    have "8 \<le> ?sz" using al(1,4) by (intro dvd_imp_le)
    have "le_value (vmem (s\<lparr>ram := m'\<rparr>)) ?a = le_value (le_store ?a (?a + ?sz) (vmem s)) ?a"
      using \<open>8 \<le> ?sz\<close> po by (intro le_value_cong) (simp add: m'(2) m(2))
    then have "le_value (vmem (s\<lparr>ram := m'\<rparr>)) ?a = ?a + ?sz"
      using le_value_store [OF \<open>?a + ?sz < 2 ^ 64\<close>] by simp
    then have "le_value (vmem (s\<lparr>ram := m'\<rparr>)) (block_base p + j * ?sz) = block_base p + Suc j * ?sz"
      if "k \<le> j" "Suc j * ?sz < block_bytes sa" for j
      using that m'(3) [of j] by (cases "j = k") (auto simp: algebra_simps)
    moreover have "vmem (s\<lparr>ram := m'\<rparr>) u = vmem s u" if "PAGE_OFFSET \<le> u" "u < ?a \<or> ?e \<le> u" for u
      using that in8 m'(2) [of u] m(2) [of u] le_store_other [of u ?a] by auto
    moreover have "link_objs ?sz ?a ?e s = Some (s\<lparr>ram := m'\<rparr>)"
      using True al(4) m(1) m'(1) by (subst link_objs.simps) (simp add: algebra_simps)
    ultimately show ?thesis by blast
  next
    case False
    from store_ptr_in [OF less.prems(2) mp a8, of 0] obtain m where
      m: "store_ptr ?a 0 s = Some (s\<lparr>ram := m\<rparr>)"
        "\<And>u. PAGE_OFFSET \<le> u \<Longrightarrow> vmem (s\<lparr>ram := m\<rparr>) u = le_store ?a 0 (vmem s) u" by blast
    have "vmem (s\<lparr>ram := m\<rparr>) u = vmem s u" if "PAGE_OFFSET \<le> u" "u < ?a \<or> ?e \<le> u" for u
      using that in8 m(2) [of u] le_store_other [of u ?a] by auto
    moreover have "\<not> Suc j * ?sz < block_bytes sa" if "k \<le> j" for j
    proof -
      have "Suc k * ?sz \<le> Suc j * ?sz" using that by (intro mult_le_mono1) simp
      moreover from False have "block_bytes sa \<le> Suc k * ?sz" by simp
      ultimately show ?thesis by linarith
    qed
    moreover have "link_objs ?sz ?a ?e s = Some (s\<lparr>ram := m\<rparr>)" using False m(1) by (subst link_objs.simps) simp
    ultimately show ?thesis by blast
  qed
qed

text \<open>The free list of a freshly threaded block holds all its slots.\<close>

lemma chain_slots:
  assumes "\<And>j. k \<le> j \<Longrightarrow> Suc j < k + n \<Longrightarrow> le_value m (base + j * sz) = base + Suc j * sz"
  shows "chain m (base + k * sz) n = map (\<lambda>j. base + j * sz) [k..<k + n]"
  using assms
proof (induction n arbitrary: k)
  case (Suc n)
  show ?case
  proof (cases n)
    case (Suc n')
    then have "le_value m (base + k * sz) = base + Suc k * sz" by (intro Suc.prems) auto
    moreover have "chain m (base + Suc k * sz) n = map (\<lambda>j. base + j * sz) [Suc k..<Suc k + n]"
      by (rule Suc.IH) (use Suc.prems in auto)
    ultimately show ?thesis by (simp add: upt_conv_Cons)
  qed simp
qed simp

section \<open>Adding a block\<close>

text \<open>What a successful \<open>slab_add_page\<close> leaves: one more block, all of it free.\<close>

definition page_added :: "nat \<Rightarrow> nat \<Rightarrow> slab_world \<Rightarrow> slab_world \<Rightarrow> bool" where
  "page_added c p w w' \<longleftrightarrow> caches w' = (caches w)[c := (caches w ! c)\<lparr>sa_list := p # sa_list (caches w ! c)\<rparr>]
     \<and> set (free_objs w' p) = slots (caches w ! c) p \<and> 0 < slab_free_count (slab_pages w' p)
     \<and> block p (sa_order (caches w ! c)) \<inter> marked (pga w) = {}
     \<and> (\<forall>c' p'. (c', p') \<in> slab_blocks w \<longrightarrow> p' \<noteq> p \<and> free_objs w' p' = free_objs w p')"

lemma block_count_pos: "cache_ok sa \<Longrightarrow> 0 < block_bytes sa div sa_size sa"
  by (simp add: cache_ok_def div_greater_zero_iff)

lemma new_block_free:
  assumes ok: "cache_ok sa" and m: "\<And>j. Suc j * sa_size sa < block_bytes sa \<Longrightarrow>
      le_value m (block_base p + j * sa_size sa) = block_base p + Suc j * sa_size sa"
  defines "fl \<equiv> chain m (block_base p) (block_bytes sa div sa_size sa)"
  shows "set fl = slots sa p" "distinct fl"
proof -
  let ?n = "block_bytes sa div sa_size sa"
  have sz: "0 < sa_size sa" using ok by (simp add: cache_ok_def)
  have "le_value m (block_base p + j * sa_size sa) = block_base p + Suc j * sa_size sa" if "Suc j < ?n" for j
  proof (rule m)
    have "Suc (Suc j) * sa_size sa \<le> ?n * sa_size sa" using that by (intro mult_le_mono1) simp
    also have "\<dots> \<le> block_bytes sa" by simp
    finally show "Suc j * sa_size sa < block_bytes sa" using sz by simp
  qed
  then have fl: "fl = map (\<lambda>j. block_base p + j * sa_size sa) [0..<?n]"
    using chain_slots [of 0 ?n m "block_base p" "sa_size sa"] by (simp add: fl_def)
  show "set fl = slots sa p" by (auto simp: fl slots_def)
  show "distinct fl" using sz by (auto simp: fl distinct_map inj_on_def)
qed

lemma sa_list_upd [simp]:
  "block_bytes (sa\<lparr>sa_list := l\<rparr>) = block_bytes sa" "slots (sa\<lparr>sa_list := l\<rparr>) p = slots sa p"
  "cache_ok (sa\<lparr>sa_list := l\<rparr>) = cache_ok sa" "slab_block w (sa\<lparr>sa_list := l\<rparr>) c p = slab_block w sa c p"
proof -
  show "block_bytes (sa\<lparr>sa_list := l\<rparr>) = block_bytes sa" by (simp add: block_bytes_def)
  then show "slots (sa\<lparr>sa_list := l\<rparr>) p = slots sa p" "cache_ok (sa\<lparr>sa_list := l\<rparr>) = cache_ok sa"
    by (simp_all add: slots_def cache_ok_def)
  then show "slab_block w (sa\<lparr>sa_list := l\<rparr>) c p = slab_block w sa c p"
    by (simp add: slab_block_def \<open>block_bytes (sa\<lparr>sa_list := l\<rparr>) = block_bytes sa\<close>)
qed

lemma add_block_inv:
  assumes inv: "slab_inv w" and c: "c < length (caches w)" and ok: "cache_ok (caches w ! c)"
    and pg: "pg_inv (pga w')" and k: "frames_kept (marked (pga w)) (pga w) (pga w')"
    and sp: "\<And>q. q \<in> marked (pga w) \<Longrightarrow> slab_pages w' q = slab_pages w q"
    and cs: "caches w' = (caches w)[c := (caches w ! c)\<lparr>sa_list := p # sa_list (caches w ! c)\<rparr>]"
    and blk: "slab_block w' (caches w ! c) c p" and dj: "block p (sa_order (caches w ! c)) \<inter> marked (pga w) = {}"
  shows "slab_inv w'" "\<And>c' p'. (c', p') \<in> slab_blocks w \<Longrightarrow> p' \<noteq> p \<and> free_objs w' p' = free_objs w p'"
proof -
  let ?w1 = "w'\<lparr>caches := caches w\<rparr>"
  have w1: "slab_inv ?w1" "\<And>c p. (c, p) \<in> slab_blocks w \<Longrightarrow> free_objs ?w1 p = free_objs w p"
    using slab_inv_pages [OF inv, of ?w1] pg k sp by auto
  have fo: "free_objs ?w1 q = free_objs w' q" "slab_block ?w1 sa d q = slab_block w' sa d q" for q sa d
    by (simp_all add: free_objs_def slab_block_def)
  note bw = block_of_marked [OF inv]
  have "q \<notin> marked (pga w)" if "q \<in> block p (sa_order (caches w ! c))" for q using that dj by blast
  then have pm: "p \<notin> marked (pga w)" by simp
  have ne: "p' \<noteq> p" if "(c', p') \<in> slab_blocks w" for c' p'
  proof -
    have "p' \<in> block_of w (c', p')" by (simp add: block_of_def)
    with bw [OF that] pm show ?thesis by blast
  qed
  then show "p' \<noteq> p \<and> free_objs w' p' = free_objs w p'" if "(c', p') \<in> slab_blocks w" for c' p'
    using w1(2) [OF that] that by (simp add: fo)
  have sb: "slab_blocks w' = insert (c, p) (slab_blocks w)"
    using c by (auto simp: slab_blocks_def cs nth_list_update split: if_splits)
  have "sa_order (caches w' ! d) = sa_order (caches w ! d)" for d
    by (cases "d = c") (use c in \<open>simp_all add: cs\<close>)
  then have bo: "block_of w' = block_of w" by (simp add: block_of_def fun_eq_iff)
  have "cache_ok (caches w' ! d) \<and> slab_block w' (caches w' ! d) d q" if "(d, q) \<in> slab_blocks w'" for d q
    using that slab_invD(4,5) [OF w1(1), of d q] blk ok c unfolding sb
    by (auto simp: cs nth_list_update fo slab_blocks_def)
  moreover have "block_of w (c, p) \<inter> block_of w b = {}" if "b \<in> slab_blocks w" for b
    using bw [OF that] dj by (auto simp: block_of_def)
  then have "\<forall>b \<in> slab_blocks w'. \<forall>b' \<in> slab_blocks w'. b \<noteq> b' \<longrightarrow> block_of w' b \<inter> block_of w' b' = {}"
    using slab_invD(6) [OF inv] unfolding sb bo by blast
  moreover have "\<forall>d < length (caches w'). distinct (sa_list (caches w' ! d))"
    using slab_invD(3) [OF inv] ne [of c] c by (auto simp: cs nth_list_update slab_blocks_def)
  ultimately show "slab_inv w'" using pg slab_invD(2) [OF w1(1)] by (auto simp: slab_inv_def)
qed

lemma flag_set_or: "flag_set (x OR PAGE_FLAGS_SLAB) PAGE_FLAGS_SLAB"
proof -
  have "bit ((x OR PAGE_FLAGS_SLAB) AND PAGE_FLAGS_SLAB) 2" by (simp add: bit_simps PAGE_FLAGS_SLAB_def)
  then show ?thesis by (auto simp: flag_set_def)
qed

lemma write_block_kept:
  assumes F: "F \<inter> block p (sa_order sa) = {}" "F \<inter> free_frames s = {}"
    and m: "\<And>u. PAGE_OFFSET \<le> u \<Longrightarrow> u < block_base p \<or> block_base p + block_bytes sa \<le> u \<Longrightarrow>
      vmem (s\<lparr>ram := m\<rparr>) u = vmem s u"
  shows "frames_kept F s (s\<lparr>ram := m\<rparr>)"
proof -
  have "vmem (s\<lparr>ram := m\<rparr>) v = vmem s v" if v: "PAGE_OFFSET \<le> v" "frame_of v \<in> F" for v
  proof (rule m [OF v(1)], rule ccontr)
    assume "\<not> (v < block_base p \<or> block_base p + block_bytes sa \<le> v)"
    then have "frame_of v \<in> block p (sa_order sa)" using frame_of_block(2) [of p v "sa_order sa"] by (simp add: block_bytes_def)
    with F(1) v(2) show False by blast
  qed
  with F(2) show ?thesis by (auto simp: frames_kept_def)
qed

text \<open>Marking and threading a block the page allocator just handed out.\<close>

definition threaded :: "slab_allocator \<Rightarrow> nat \<Rightarrow> pgalloc \<Rightarrow> pgalloc \<Rightarrow> (nat \<Rightarrow> u8) \<Rightarrow> bool" where
  "threaded sa p s1 s2 m \<longleftrightarrow>
     upd_pages (\<lambda>pg. pg\<lparr>pg_flags := pg_flags pg OR PAGE_FLAGS_SLAB\<rparr>) [p..<p + 2 ^ sa_order sa] s1 = Some s2
     \<and> pages_marked (block p (sa_order sa)) (\<lambda>pg. pg\<lparr>pg_flags := pg_flags pg OR PAGE_FLAGS_SLAB\<rparr>) s1 s2
     \<and> owned_block s2 (p, sa_order sa) \<and> linear_ok s2
     \<and> link_objs (sa_size sa) (block_base p) (block_base p + block_bytes sa) s2 = Some (s2\<lparr>ram := m\<rparr>)
     \<and> (\<forall>u \<ge> PAGE_OFFSET. u < block_base p \<or> block_base p + block_bytes sa \<le> u \<longrightarrow> vmem (s2\<lparr>ram := m\<rparr>) u = vmem s2 u)
     \<and> (\<forall>j. Suc j * sa_size sa < block_bytes sa \<longrightarrow>
          le_value (vmem (s2\<lparr>ram := m\<rparr>)) (block_base p + j * sa_size sa) = block_base p + Suc j * sa_size sa)"

lemma thread_block:
  assumes ok: "cache_ok sa" and s1: "pg_inv s1" "linear_ok s1" "owned_block s1 (p, sa_order sa)"
  shows "\<exists>s2 m. threaded sa p s1 s2 m"
proof -
  let ?f = "\<lambda>pg. pg\<lparr>pg_flags := pg_flags pg OR PAGE_FLAGS_SLAB\<rparr>"
  from owned_marked [of ?f s1 p "sa_order sa", OF same_to_buddy_marks(1) s1(1,3)] obtain s2 where
    s2: "upd_pages ?f [p..<p + 2 ^ sa_order sa] s1 = Some s2" "pages_marked (block p (sa_order sa)) ?f s1 s2"
      "owned_block s2 (p, sa_order sa)" by auto
  have bok: "block_ok s2 p (sa_order sa)" using s2(3) by (simp add: owned_block_def)
  have "pg_inv s2" "length (mem_map s2) = length (mem_map s1)" using s2(2) by (simp_all add: pages_marked_def)
  then have lin2: "linear_ok s2" using s1(2) pg_inv_shape by (simp add: linear_ok_def)
  have "0 * sa_size sa < block_bytes sa" using ok by (auto simp: cache_ok_def)
  from link_objs_ok [OF ok bok lin2 this] s2 lin2 show ?thesis by (auto simp: threaded_def)
qed

lemma slab_add_page_eval:
  assumes c: "c < length (caches w)" and ok: "cache_ok (caches w ! c)" and t: "threaded (caches w ! c) p s1 s2 m"
    and al: "page_alloc shrink (sa_order (caches w ! c)) (pga w) = Some (Some p, s1)"
  defines "spg \<equiv> (\<lambda>q. if q \<in> set [p..<p + 2 ^ sa_order (caches w ! c)] then (slab_pages w q)\<lparr>slab_cache := c\<rparr> else slab_pages w q)"
  defines "n \<equiv> block_bytes (caches w ! c) div sa_size (caches w ! c)"
  shows "slab_add_page shrink c w = Some (Inr (), w\<lparr>pga := s2\<lparr>ram := m\<rparr>,
    slab_pages := spg(p := (spg p)\<lparr>slab_free_objs := block_base p, slab_objs_count := n, slab_free_count := n\<rparr>),
    caches := (caches w)[c := (caches w ! c)\<lparr>sa_list := p # sa_list (caches w ! c)\<rparr>]\<rparr>)"
proof -
  let ?sa = "caches w ! c"
  have bok: "block_ok s2 p (sa_order ?sa)" "linear_ok s2" using t by (simp_all add: threaded_def owned_block_def)
  note pv = page_to_virt_block [OF bok(2,1)]
  from ok obtain k where k: "sa_align ?sa = 2 ^ k" by (auto simp: cache_ok_def)
  have "2 ^ sa_order ?sa dvd p" using bok by (simp add: block_ok_def)
  then have "is_aligned (block_base p) (sa_align ?sa)"
    using block_base_aligned [OF ok] k by (simp add: is_aligned_pow2)
  moreover have "2 ^ (PAGE_SHIFT + sa_order ?sa) = block_bytes ?sa" by (simp add: block_bytes_def layout_simps power_add)
  moreover have "block_base p + block_bytes ?sa < 2 ^ 64" using pv(2) by (simp add: block_bytes_def)
  moreover from this have "sub64 (block_base p + block_bytes ?sa) (block_base p) = block_bytes ?sa" by (simp add: sub64_id)
  ultimately show ?thesis
    using c al t pv(1) block_count_pos [OF ok]
    by (simp add: slab_add_page_def nth_opt_in slab_mark_page_range_def mark_pages_eq threaded_def spg_def n_def
        on_pga_def upd_cache_def upd_slab_def Let_def cong: if_cong)
qed

lemma slab_add_page_block:
  assumes inv: "slab_inv w" and c: "c < length (caches w)" and ok: "cache_ok (caches w ! c)"
    and al: "page_alloc shrink (sa_order (caches w ! c)) (pga w) = Some (Some p, s1)"
    and s1: "pg_inv s1" "frames_kept (marked (pga w)) (pga w) s1" "owned_block s1 (p, sa_order (caches w ! c))"
    and dj: "block p (sa_order (caches w ! c)) \<inter> marked (pga w) = {}"
  shows "\<exists>w'. slab_add_page shrink c w = Some (Inr (), w') \<and> slab_inv w'
    \<and> frames_kept (marked (pga w)) (pga w) (pga w') \<and> page_added c p w w'"
proof -
  let ?sa = "caches w ! c" let ?n = "block_bytes ?sa div sa_size ?sa" let ?B = "block p (sa_order ?sa)"
  from thread_block [OF ok s1(1) linear_ok_kept [OF s1(2) slab_invD(2) [OF inv] s1(1)] s1(3)] obtain s2 m where
    t: "threaded ?sa p s1 s2 m" by blast
  note pm = t [unfolded threaded_def]
  define spg where "spg = (\<lambda>q. if q \<in> set [p..<p + 2 ^ sa_order ?sa] then (slab_pages w q)\<lparr>slab_cache := c\<rparr> else slab_pages w q)"
  define w' where "w' = w\<lparr>pga := s2\<lparr>ram := m\<rparr>,
    slab_pages := spg(p := (spg p)\<lparr>slab_free_objs := block_base p, slab_objs_count := ?n, slab_free_count := ?n\<rparr>),
    caches := (caches w)[c := ?sa\<lparr>sa_list := p # sa_list ?sa\<rparr>]\<rparr>"
  have ev: "slab_add_page shrink c w = Some (Inr (), w')"
    unfolding w'_def spg_def by (rule slab_add_page_eval [OF c ok t al])
  have bl: "set [p..<p + 2 ^ sa_order ?sa] = ?B" by (simp add: block_def)
  have len: "?B \<subseteq> {..<length (mem_map s1)}" "pg_inv s2" "free_frames s2 = free_frames s1"
    using pm by (auto simp: owned_block_def block_ok_def block_def pages_marked_def)
  have fr: "marked (pga w) \<inter> free_frames s1 = {}" "marked (pga w) \<subseteq> {..<length (mem_map s1)}"
    using s1(2) by (auto simp: frames_kept_def marked_def)
  have "frames_kept (marked (pga w)) s1 s2"
    by (rule pages_marked_kept [OF conjunct1 [OF conjunct2 [OF pm]]]) (use dj fr in auto)
  moreover have "frames_kept (marked (pga w)) s2 (s2\<lparr>ram := m\<rparr>)"
    by (rule write_block_kept [where p = p and sa = ?sa]) (use dj fr len(3) pm in auto)
  ultimately have K: "frames_kept (marked (pga w)) (pga w) (pga w')"
    using s1(2) by (simp add: w'_def) (blast intro: frames_kept_trans)
  have nb: "set (free_objs w' p) = slots ?sa p" "distinct (free_objs w' p)"
    using new_block_free [OF ok, of "vmem (s2\<lparr>ram := m\<rparr>)" p] pm by (simp_all add: free_objs_def w'_def)
  have "flag_set (pg_flags (mem_map s2 ! q)) PAGE_FLAGS_SLAB \<and> slab_cache (slab_pages w' q) = c" if "q \<in> ?B" for q
    using that pm len(1) by (auto simp: pages_marked_def flag_set_or w'_def spg_def bl simp del: set_upt)
  then have blk: "slab_block w' ?sa c p"
    using pm nb by (simp add: slab_block_def) (simp add: w'_def)
  have "slab_pages w' q = slab_pages w q" if "q \<in> marked (pga w)" for q
    using that dj Blocks.block_start [of p "sa_order ?sa"] by (auto simp: w'_def spg_def bl simp del: set_upt Blocks.block_start)
  note ai = add_block_inv [OF inv c ok _ K this _ blk dj]
  have A: "slab_inv w'" "\<And>c' p'. (c', p') \<in> slab_blocks w \<Longrightarrow> p' \<noteq> p \<and> free_objs w' p' = free_objs w p'"
    using ai len(2) by (simp_all add: w'_def)
  have "page_added c p w w'"
    unfolding page_added_def using A(2) nb(1) block_count_pos [OF ok] dj by simp (simp add: w'_def)
  then show ?thesis using ev A(1) K by blast
qed

lemma slab_add_page_ok:
  assumes inv: "slab_inv w" and c: "c < length (caches w)" and ok: "cache_ok (caches w ! c)"
    and sh: "reclaim_spares shrink"
  shows "(\<exists>w'. slab_add_page shrink c w = Some (Inl ENOMEM, w') \<and> slab_inv w' \<and> caches w' = caches w
      \<and> frames_kept (marked (pga w)) (pga w) (pga w')
      \<and> (\<forall>c' p'. (c', p') \<in> slab_blocks w \<longrightarrow> free_objs w' p' = free_objs w p')) \<or>
    (\<exists>p w'. slab_add_page shrink c w = Some (Inr (), w') \<and> slab_inv w'
      \<and> frames_kept (marked (pga w)) (pga w) (pga w') \<and> page_added c p w w')"
proof -
  from page_alloc_marked [OF slab_invD(1) [OF inv] sh, of "sa_order (caches w ! c)"] obtain r s1 where
    r: "page_alloc shrink (sa_order (caches w ! c)) (pga w) = Some (r, s1)" "pg_inv s1"
      "frames_kept (marked (pga w)) (pga w) s1"
      "\<And>p. r = Some p \<Longrightarrow> owned_block s1 (p, sa_order (caches w ! c))
         \<and> block p (sa_order (caches w ! c)) \<inter> marked (pga w) = {}" by blast
  show ?thesis
  proof (cases r)
    case None
    let ?w1 = "w\<lparr>pga := s1\<rparr>"
    from slab_inv_pages [OF inv, of ?w1] r(2,3)
    have "slab_inv ?w1" "\<And>c p. (c, p) \<in> slab_blocks w \<Longrightarrow> free_objs ?w1 p = free_objs w p" by auto
    moreover have "slab_add_page shrink c w = Some (Inl ENOMEM, ?w1)"
      using r(1) c None by (simp add: slab_add_page_def nth_opt_in)
    ultimately show ?thesis using r(3) by auto
  next
    case (Some p)
    with slab_add_page_block [OF inv c ok _ r(2,3)] r(1,4) show ?thesis by blast
  qed
qed

end
