(* ===== verification/Slab_Props.thy ===== *)
theory Slab_Props
  imports Slab_Ops
begin

text \<open>
  The slab allocator against its abstract contract: each cache holds a set of objects in use,
  allocation adds an object that was not in it, release takes one out, and objects in use never
  overlap.
\<close>

section \<open>Objects in use\<close>

lemma live_taken:
  assumes inv: "slab_inv w" and t: "obj_taken c p obj w w'"
  shows "obj \<notin> live_objs w c" "live_objs w' = (live_objs w)(c := insert obj (live_objs w c))"
proof -
  from t have b: "(c, p) \<in> slab_blocks w" and cs: "caches w' = caches w" and fo: "free_objs w p = obj # free_objs w' p"
    and oth: "\<And>c' p'. (c', p') \<in> slab_blocks w \<Longrightarrow> p' \<noteq> p \<Longrightarrow> free_objs w' p' = free_objs w p'"
    unfolding obj_taken_def by blast+
  have sl: "obj \<in> slots (caches w ! c) p" "obj \<notin> set (free_objs w' p)"
    using slab_invD(5) [OF inv b] fo by (auto simp: slab_block_def)
  have sb: "slab_blocks w' = slab_blocks w" by (simp add: slab_blocks_def cs)
  have "(c, q) \<in> slab_blocks w \<Longrightarrow> obj \<in> slots (caches w ! c) q \<Longrightarrow> q = p" for q
    using slots_unique [OF inv b _ sl(1)] by blast
  then show "obj \<notin> live_objs w c" using fo by (auto simp: live_objs_def)
  have "a \<in> live_objs w' d \<longleftrightarrow> a \<in> ((live_objs w)(c := insert obj (live_objs w c))) d" for a d
  proof -
    have step: "a \<notin> set (free_objs w' q) \<longleftrightarrow> a \<notin> set (free_objs w q) \<or> q = p \<and> a = obj"
      if "(d, q) \<in> slab_blocks w" for q
      using oth [OF that] fo sl(2) by (cases "q = p") auto
    have "a \<in> live_objs w' d \<longleftrightarrow> (\<exists>q. (d, q) \<in> slab_blocks w \<and> a \<in> slots (caches w ! d) q
        \<and> (a \<notin> set (free_objs w q) \<or> q = p \<and> a = obj))"
      unfolding live_objs_def mem_Collect_eq sb cs using step by blast
    also have "\<dots> \<longleftrightarrow> a \<in> live_objs w d \<or> a = obj \<and> (d, p) \<in> slab_blocks w \<and> obj \<in> slots (caches w ! d) p"
      unfolding live_objs_def mem_Collect_eq by blast
    also have "(d, p) \<in> slab_blocks w \<and> obj \<in> slots (caches w ! d) p \<longleftrightarrow> d = c"
      using slots_unique [OF inv b _ sl(1)] b sl(1) by blast
    finally show ?thesis by auto
  qed
  then show "live_objs w' = (live_objs w)(c := insert obj (live_objs w c))" by (intro ext) blast
qed

lemma live_given:
  assumes inv: "slab_inv w" and b: "(c, p) \<in> slab_blocks w" and obj: "obj \<in> slots (caches w ! c) p"
    and t: "obj_given c p obj w w'"
  shows "live_objs w' = (live_objs w)(c := live_objs w c - {obj})"
proof -
  from t have cs: "caches w' = caches w" and fo: "free_objs w' p = obj # free_objs w p"
    and oth: "\<And>c' p'. (c', p') \<in> slab_blocks w \<Longrightarrow> p' \<noteq> p \<Longrightarrow> free_objs w' p' = free_objs w p'"
    by (auto simp: obj_given_def)
  have sb: "slab_blocks w' = slab_blocks w" by (simp add: slab_blocks_def cs)
  have "a \<in> live_objs w' d \<longleftrightarrow> a \<in> ((live_objs w)(c := live_objs w c - {obj})) d" for a d
  proof -
    have step: "a \<notin> set (free_objs w' q) \<longleftrightarrow> a \<notin> set (free_objs w q) \<and> \<not> (q = p \<and> a = obj)"
      if "(d, q) \<in> slab_blocks w" for q
      using oth [OF that] fo by (cases "q = p") auto
    have uq: "d = c \<and> q = p" if "(d, q) \<in> slab_blocks w" "obj \<in> slots (caches w ! d) q" for q
      using slots_unique [OF inv b that(1) obj that(2)] by auto
    have "a \<in> live_objs w' d \<longleftrightarrow> (\<exists>q. (d, q) \<in> slab_blocks w \<and> a \<in> slots (caches w ! d) q
        \<and> a \<notin> set (free_objs w q) \<and> \<not> (q = p \<and> a = obj))"
      unfolding live_objs_def mem_Collect_eq sb cs using step by blast
    also have "\<dots> \<longleftrightarrow> a \<in> live_objs w d \<and> \<not> (d = c \<and> a = obj)"
      unfolding live_objs_def mem_Collect_eq using uq by blast
    finally show ?thesis by auto
  qed
  then show ?thesis by (intro ext) blast
qed

lemma live_added:
  assumes inv: "slab_inv w" and c: "c < length (caches w)" and t: "page_added c p w w'"
  shows "live_objs w' = live_objs w"
proof -
  from t have cs: "caches w' = (caches w)[c := (caches w ! c)\<lparr>sa_list := p # sa_list (caches w ! c)\<rparr>]"
    and fo: "set (free_objs w' p) = slots (caches w ! c) p"
    and oth: "\<And>c' p'. (c', p') \<in> slab_blocks w \<Longrightarrow> p' \<noteq> p \<and> free_objs w' p' = free_objs w p'"
    by (auto simp: page_added_def)
  have sb: "slab_blocks w' = insert (c, p) (slab_blocks w)"
    using c by (auto simp: slab_blocks_def cs nth_list_update split: if_splits)
  have sl: "slots (caches w' ! d) q = slots (caches w ! d) q" if "d < length (caches w)" for d q
    using that c by (simp add: cs nth_list_update)
  have "a \<in> live_objs w' d \<longleftrightarrow> a \<in> live_objs w d" for a d
    using fo oth sl c unfolding live_objs_def sb by (auto simp: slab_blocks_def)
  then show ?thesis by (intro ext) blast
qed

lemma live_same:
  assumes "caches w' = caches w" "\<And>c p. (c, p) \<in> slab_blocks w \<Longrightarrow> free_objs w' p = free_objs w p"
  shows "live_objs w' = live_objs w"
proof -
  have "slab_blocks w' = slab_blocks w" using assms(1) by (simp add: slab_blocks_def)
  then show ?thesis using assms by (auto simp: live_objs_def fun_eq_iff)
qed

section \<open>The operations\<close>

text \<open>The geometry of the caches, which only \<open>slab_init\<close> changes.\<close>

definition same_caches :: "slab_world \<Rightarrow> slab_world \<Rightarrow> bool" where
  "same_caches w w' \<longleftrightarrow> map (\<lambda>sa. (sa_size sa, sa_align sa, sa_order sa)) (caches w')
     = map (\<lambda>sa. (sa_size sa, sa_align sa, sa_order sa)) (caches w)"

lemma same_caches_refl: "caches w' = caches w \<Longrightarrow> same_caches w w'"
  by (simp add: same_caches_def)

lemma same_caches_nth:
  assumes "same_caches w w'"
  shows "length (caches w') = length (caches w)"
    and "c < length (caches w) \<Longrightarrow> sa_size (caches w' ! c) = sa_size (caches w ! c)
      \<and> sa_align (caches w' ! c) = sa_align (caches w ! c) \<and> sa_order (caches w' ! c) = sa_order (caches w ! c)"
proof -
  show l: "length (caches w') = length (caches w)"
    using assms unfolding same_caches_def by (rule map_eq_imp_length_eq)
  assume "c < length (caches w)"
  with l assms show "sa_size (caches w' ! c) = sa_size (caches w ! c)
      \<and> sa_align (caches w' ! c) = sa_align (caches w ! c) \<and> sa_order (caches w' ! c) = sa_order (caches w ! c)"
    unfolding same_caches_def by (simp add: list_eq_iff_nth_eq)
qed

lemma page_added_caches: "c < length (caches w) \<Longrightarrow> page_added c p w w' \<Longrightarrow> same_caches w w'"
  by (auto simp: page_added_def same_caches_def map_update list_update_same_conv intro!: nth_equalityI)

lemma page_added_blocks:
  assumes "c < length (caches w)" "page_added c p w w'"
  shows "\<forall>b \<in> slab_blocks w'. b \<in> slab_blocks w \<or> block_of w' b \<inter> marked (pga w) = {}"
  using assms by (auto simp: page_added_def slab_blocks_def block_of_def nth_list_update split: if_splits)

lemma slab_alloc_ok:
  assumes inv: "slab_inv w" and c: "c < length (caches w)" and ok: "cache_ok (caches w ! c)"
    and sh: "reclaim_spares shrink"
  shows "\<exists>r w'. slab_alloc shrink c w = Some (r, w') \<and> slab_inv w' \<and> same_caches w w'
    \<and> frames_kept (marked (pga w)) (pga w) (pga w')
    \<and> (\<forall>b \<in> slab_blocks w'. b \<in> slab_blocks w \<or> block_of w' b \<inter> marked (pga w) = {})
    \<and> (case r of None \<Rightarrow> live_objs w' = live_objs w
       | Some obj \<Rightarrow> obj \<notin> live_objs w c \<and> live_objs w' = (live_objs w)(c := insert obj (live_objs w c)))"
proof -
  have refl: "frames_kept (marked (pga w)) (pga w) (pga w)" by (rule frames_kept_refl) (auto simp: marked_def)
  have hit: ?thesis if "slab_take (sa_list (caches w ! c)) w = Some (Some obj, w')" "obj_taken c p obj w w'" for p obj w'
  proof -
    have "slab_alloc shrink c w = Some (Some obj, w')" using that(1) c by (simp add: slab_alloc_def nth_opt_in)
    moreover have "slab_inv w'" "caches w' = caches w" "pga w' = pga w" using that(2) by (simp_all add: obj_taken_def)
    moreover from this have "slab_blocks w' = slab_blocks w" by (simp add: slab_blocks_def)
    ultimately show ?thesis using live_taken [OF inv that(2)] refl same_caches_refl by auto
  qed
  from slab_take_ok [OF inv c subset_refl] show ?thesis
  proof (elim disjE exE conjE)
    assume miss: "slab_take (sa_list (caches w ! c)) w = Some (None, w)"
    from slab_add_page_ok [OF inv c ok sh] show ?thesis
    proof (elim disjE exE conjE)
      fix w' assume "slab_add_page shrink c w = Some (Inl ENOMEM, w')" "slab_inv w'" "caches w' = caches w"
        "frames_kept (marked (pga w)) (pga w) (pga w')"
        "\<forall>c' p'. (c', p') \<in> slab_blocks w \<longrightarrow> free_objs w' p' = free_objs w p'"
      moreover from this have "slab_blocks w' = slab_blocks w" by (simp add: slab_blocks_def)
      ultimately show ?thesis using miss c live_same [of w' w] same_caches_refl [of w' w]
        by (auto simp: slab_alloc_def nth_opt_in)
    next
      fix p w1 assume w1: "slab_add_page shrink c w = Some (Inr (), w1)" "slab_inv w1"
        "frames_kept (marked (pga w)) (pga w) (pga w1)" "page_added c p w w1"
      note cs = page_added_caches [OF c w1(4)]
      have c1: "c < length (caches w1)" using same_caches_nth(1) [OF cs] c by simp
      have p: "p \<in> set (sa_list (caches w1 ! c))" "0 < slab_free_count (slab_pages w1 p)"
        using w1(4) c by (simp_all add: page_added_def)
      from slab_take_ok [OF w1(2) c1 subset_refl] p obtain q obj w2 where
        w2: "slab_take (sa_list (caches w1 ! c)) w1 = Some (Some obj, w2)" "obj_taken c q obj w1 w2" by fastforce
      have "slab_alloc shrink c w = Some (Some obj, w2)"
        using miss w1(1) w2(1) c c1 by (simp add: slab_alloc_def nth_opt_in)
      moreover have w2': "slab_inv w2" "caches w2 = caches w1" "pga w2 = pga w1" using w2(2) by (simp_all add: obj_taken_def)
      moreover have "\<forall>b \<in> slab_blocks w2. b \<in> slab_blocks w \<or> block_of w2 b \<inter> marked (pga w) = {}"
        using page_added_blocks [OF c w1(4)] w2'(2) by (simp add: slab_blocks_def block_of_def)
      ultimately show ?thesis
        using live_taken [OF w1(2) w2(2)] live_added [OF inv c w1(4)] w1(3) cs by (auto simp: same_caches_def)
    qed
  qed (use hit in blast)
qed

lemma slab_free_ok:
  assumes inv: "slab_inv w" and c: "c < length (caches w)" and obj: "obj \<in> live_objs w c"
  shows "\<exists>w'. slab_free c obj w = Some w' \<and> slab_inv w' \<and> caches w' = caches w \<and> (\<exists>m. pga w' = (pga w)\<lparr>ram := m\<rparr>)
    \<and> live_objs w' = (live_objs w)(c := live_objs w c - {obj})"
proof -
  from obj obtain p where p: "(c, p) \<in> slab_blocks w" "obj \<in> slots (caches w ! c) p" "obj \<notin> set (free_objs w p)"
    by (auto simp: live_objs_def)
  note ok = slab_invD(4) [OF inv p(1)]
  have "2 ^ sa_order (caches w ! c) dvd p"
    using slab_invD(5) [OF inv p(1)] by (simp add: slab_block_def owned_block_def block_ok_def)
  from slot_aligned(1) [OF ok this p(2)] ok have al: "is_aligned obj (sa_align (caches w ! c))"
    by (auto simp: cache_ok_def is_aligned_pow2)
  have "p \<in> set (sa_list (caches w ! c))" using p(1) by (simp add: slab_blocks_def)
  from slab_give_ok [OF inv c p(2,3) subset_refl this] obtain w' where
    w': "slab_give (sa_list (caches w ! c)) obj w = Some w'" "obj_given c p obj w w'" by blast
  have "obj \<noteq> 0" using slot_inside(1) [OF ok p(2)] by (simp add: block_base_def PAGE_OFFSET_def)
  then have "slab_free c obj w = Some w'" using w'(1) al c by (simp add: slab_free_def nth_opt_in)
  moreover have "slab_inv w'" "caches w' = caches w" "\<exists>m. pga w' = (pga w)\<lparr>ram := m\<rparr>" using w'(2) by (auto simp: obj_given_def)
  ultimately show ?thesis using live_given [OF inv p(1,2) w'(2)] by blast
qed

section \<open>Clients\<close>

text \<open>The bytes clients own, and what they may do to memory.\<close>

definition live_bytes :: "slab_world \<Rightarrow> nat set" where
  "live_bytes w = {u. \<exists>c a. a \<in> live_objs w c \<and> a \<le> u \<and> u < a + sa_size (caches w ! c)}"

definition client_write :: "(nat \<Rightarrow> u8) \<Rightarrow> slab_world \<Rightarrow> bool" where
  "client_write m w \<longleftrightarrow> (\<forall>u \<ge> PAGE_OFFSET. u \<notin> live_bytes w \<longrightarrow> vmem ((pga w)\<lparr>ram := m\<rparr>) u = vmem (pga w) u)"

lemma client_write_ok:
  assumes inv: "slab_inv w" and m: "client_write m w"
  defines "w' \<equiv> w\<lparr>pga := (pga w)\<lparr>ram := m\<rparr>\<rparr>"
  shows "slab_inv w'" "live_objs w' = live_objs w"
proof -
  have cs: "caches w' = caches w" "slab_pages w' = slab_pages w" "pga w' = (pga w)\<lparr>ram := m\<rparr>" by (simp_all add: w'_def)
  have fo: "free_objs w' p = free_objs w p" if b: "(c, p) \<in> slab_blocks w" for c p
    unfolding free_objs_def cs
  proof (rule chain_cong)
    fix a i assume "a \<in> set (chain (vmem (pga w)) (slab_free_objs (slab_pages w p)) (slab_free_count (slab_pages w p)))"
      and i: "i < (8 :: nat)"
    then have af: "a \<in> set (free_objs w p)" by (simp add: free_objs_def)
    then have a: "a \<in> slots (caches w ! c) p" using slab_invD(5) [OF inv b] by (auto simp: slab_block_def)
    note s = slot_inside [OF slab_invD(4) [OF inv b] a]
    have "a + i \<notin> live_bytes w"
    proof
      assume "a + i \<in> live_bytes w"
      then obtain d x q where x: "(d, q) \<in> slab_blocks w" "x \<in> slots (caches w ! d) q" "x \<notin> set (free_objs w q)"
        "x \<le> a + i" "a + i < x + sa_size (caches w ! d)" by (auto simp: live_bytes_def live_objs_def)
      have "(c, p) \<noteq> (d, q) \<or> a \<noteq> x" using af x(3) by auto
      from slots_disjoint [OF inv b x(1) a x(2) this] x(4,5) i s(3)
      have "a + i \<notin> {a..<a + sa_size (caches w ! c)}" by auto
      with i s(3) show False by simp
    qed
    moreover have "PAGE_OFFSET \<le> a + i" using s(1) by (simp add: block_base_def)
    ultimately show "vmem ((pga w)\<lparr>ram := m\<rparr>) (a + i) = vmem (pga w) (a + i)" using m by (simp add: client_write_def)
  qed
  then have blk: "slab_block w' (caches w ! c) c p" if "(c, p) \<in> slab_blocks w" for c p
    using slab_invD(5) [OF inv that] fo [OF that] by (simp add: slab_block_def cs)
  have "slab_blocks w' = slab_blocks w" "block_of w' = block_of w" by (simp_all add: slab_blocks_def block_of_def cs fun_eq_iff)
  then show "slab_inv w'" using inv blk by (auto simp: slab_inv_def cs)
  show "live_objs w' = live_objs w" using fo by (intro live_same cs(1)) auto
qed

text \<open>The contract as an interface, for the code that uses a cache of objects.\<close>

locale object_cache =
  fixes alloc :: "'s \<Rightarrow> (nat option \<times> 's) option" and release :: "nat \<Rightarrow> 's \<Rightarrow> 's option"
    and inv :: "'s \<Rightarrow> bool" and live :: "'s \<Rightarrow> nat set"
  assumes alloc_returns: "inv s \<Longrightarrow> \<exists>r s'. alloc s = Some (r, s')"
    and alloc_inv: "inv s \<Longrightarrow> alloc s = Some (r, s') \<Longrightarrow> inv s'"
    and alloc_fresh: "inv s \<Longrightarrow> alloc s = Some (Some a, s') \<Longrightarrow> a \<notin> live s \<and> live s' = insert a (live s)"
    and alloc_fail: "inv s \<Longrightarrow> alloc s = Some (None, s') \<Longrightarrow> live s' = live s"
    and release_ok: "inv s \<Longrightarrow> a \<in> live s \<Longrightarrow> \<exists>s'. release a s = Some s' \<and> inv s' \<and> live s' = live s - {a}"
begin

text \<open>Taking \<open>n\<close> objects, stopping at the first failure, and giving a list of objects back.\<close>

primrec take_objs :: "nat \<Rightarrow> 's \<Rightarrow> (nat list \<times> 's) option" where
  "take_objs 0 s = Some ([], s)"
| "take_objs (Suc n) s = do {
     (r, s) \<leftarrow> alloc s;
     (case r of None \<Rightarrow> Some ([], s) | Some a \<Rightarrow> do { (as, s) \<leftarrow> take_objs n s; Some (a # as, s) }) }"

primrec give_objs :: "nat list \<Rightarrow> 's \<Rightarrow> 's option" where
  "give_objs [] s = Some s"
| "give_objs (a # as) s = do { s \<leftarrow> release a s; give_objs as s }"

lemma take_objs_fresh:
  "inv s \<Longrightarrow> \<exists>as s'. take_objs n s = Some (as, s') \<and> inv s' \<and> distinct as
     \<and> set as \<inter> live s = {} \<and> live s' = set as \<union> live s"
proof (induction n arbitrary: s)
  case (Suc n)
  from alloc_returns [OF Suc.prems] obtain r s1 where r: "alloc s = Some (r, s1)" by blast
  note i1 = alloc_inv [OF Suc.prems r]
  show ?case
  proof (cases r)
    case None
    then show ?thesis using r i1 alloc_fail [OF Suc.prems] by auto
  next
    case (Some a)
    from Suc.IH [OF i1] obtain as s' where "take_objs n s1 = Some (as, s')" "inv s'" "distinct as"
      "set as \<inter> live s1 = {}" "live s' = set as \<union> live s1" by blast
    moreover have "a \<notin> live s" "live s1 = insert a (live s)" using alloc_fresh [OF Suc.prems] r Some by blast+
    ultimately show ?thesis using r Some by auto
  qed
qed simp

lemma give_objs_ok:
  "inv s \<Longrightarrow> distinct as \<Longrightarrow> set as \<subseteq> live s \<Longrightarrow> \<exists>s'. give_objs as s = Some s' \<and> inv s' \<and> live s' = live s - set as"
proof (induction as arbitrary: s)
  case (Cons a as)
  from release_ok [OF Cons.prems(1), of a] Cons.prems(3) obtain s1 where
    s1: "release a s = Some s1" "inv s1" "live s1 = live s - {a}" by auto
  have "\<exists>s'. give_objs as s1 = Some s' \<and> inv s' \<and> live s' = live s1 - set as"
    using Cons.prems s1 by (intro Cons.IH) auto
  then show ?case using s1 by auto
qed simp

lemma take_give:
  assumes "inv s"
  shows "\<exists>as s' s''. take_objs n s = Some (as, s') \<and> give_objs as s' = Some s'' \<and> inv s'' \<and> live s'' = live s"
proof -
  from take_objs_fresh [OF assms, of n] obtain as s' where t: "take_objs n s = Some (as, s')" "inv s'" "distinct as"
    "set as \<inter> live s = {}" "live s' = set as \<union> live s" by blast
  from give_objs_ok [OF t(2,3)] t(5) obtain s'' where "give_objs as s' = Some s''" "inv s''" "live s'' = live s' - set as"
    by auto
  with t show ?thesis by (intro exI [of _ as] exI [of _ s'] exI [of _ s'']) auto
qed

end

definition cache_ready :: "(nat \<Rightarrow> pgalloc \<Rightarrow> pgalloc option) \<Rightarrow> nat \<Rightarrow> slab_world \<Rightarrow> bool" where
  "cache_ready shrink c w \<longleftrightarrow> slab_inv w \<and> c < length (caches w) \<and> cache_ok (caches w ! c) \<and> reclaim_spares shrink"

lemma cache_ok_same:
  assumes "same_caches w w'" "c < length (caches w)"
  shows "cache_ok (caches w' ! c) = cache_ok (caches w ! c)"
  using same_caches_nth(2) [OF assms] by (simp add: cache_ok_def block_bytes_def)

interpretation slab: object_cache "slab_alloc shrink c" "slab_free c" "cache_ready shrink c" "\<lambda>w. live_objs w c"
proof unfold_locales
  fix w assume "cache_ready shrink c w"
  then have w: "slab_inv w" "c < length (caches w)" "cache_ok (caches w ! c)" "reclaim_spares shrink"
    by (simp_all add: cache_ready_def)
  note al = slab_alloc_ok [OF w]
  then show "\<exists>r w'. slab_alloc shrink c w = Some (r, w')" by blast
  show "cache_ready shrink c w'" if "slab_alloc shrink c w = Some (r, w')" for r w'
    using al that w cache_ok_same [of w w' c] same_caches_nth(1) [of w w'] by (auto simp: cache_ready_def)
  show "a \<notin> live_objs w c \<and> live_objs w' c = insert a (live_objs w c)"
    if "slab_alloc shrink c w = Some (Some a, w')" for a w' using al that by auto
  show "live_objs w' c = live_objs w c" if "slab_alloc shrink c w = Some (None, w')" for w' using al that by auto
  show "\<exists>w'. slab_free c a w = Some w' \<and> cache_ready shrink c w' \<and> live_objs w' c = live_objs w c - {a}"
    if "a \<in> live_objs w c" for a
  proof -
    from slab_free_ok [OF w(1,2) that] obtain w' where w': "slab_free c a w = Some w'" "slab_inv w'" "caches w' = caches w"
      "live_objs w' = (live_objs w)(c := live_objs w c - {a})" by blast
    then show ?thesis using w by (simp add: cache_ready_def)
  qed
qed

end
