(* ===== verification/Slab_Init.thy ===== *)
theory Slab_Init
  imports Slab_Props
begin

text \<open>
  Setting up a cache (\<open>slab_init\<close> with the rounding macro of \<open>src/src/include/brk/kernel.h\<close>),
  and the properties of the slab allocator.
\<close>

section \<open>Rounding up to a power of two\<close>

text \<open>Each line of the macro doubles the distance over which a bit is copied down.\<close>

definition spread :: "nat \<Rightarrow> u64 \<Rightarrow> u64 \<Rightarrow> bool" where
  "spread k v v' \<longleftrightarrow> (\<forall>n < 64. bit v' n \<longleftrightarrow> (\<exists>i < k. bit v (n + i)))"

lemma spread_start: "spread 1 v v"
  by (simp add: spread_def)

lemma spread_double:
  assumes "spread k v v'"
  shows "spread (k + k) v (v' OR drop_bit k v')"
proof -
  have "bit (v' OR drop_bit k v') n \<longleftrightarrow> (\<exists>i < k + k. bit v (n + i))" if n: "n < 64" for n
  proof -
    have hi: "bit v' (n + k) \<longleftrightarrow> (\<exists>i < k. bit v (n + k + i))"
    proof (cases "n + k < 64")
      case True
      with assms show ?thesis by (simp add: spread_def)
    next
      case False
      then have "\<not> bit v' (n + k)" "\<not> bit v (n + k + i)" for i by (auto dest: bit_imp_le_length)
      then show ?thesis by simp
    qed
    have "(\<exists>i < k + k. bit v (n + i)) \<longleftrightarrow> (\<exists>i < k. bit v (n + i)) \<or> (\<exists>i < k. bit v (n + k + i))"
    proof
      assume "\<exists>i < k + k. bit v (n + i)"
      then obtain i where i: "i < k + k" "bit v (n + i)" by blast
      show "(\<exists>i < k. bit v (n + i)) \<or> (\<exists>i < k. bit v (n + k + i))"
      proof (cases "i < k")
        case False
        with i have "i - k < k" "bit v (n + k + (i - k))" by simp_all
        then show ?thesis by blast
      qed (use i in blast)
    next
      assume "(\<exists>i < k. bit v (n + i)) \<or> (\<exists>i < k. bit v (n + k + i))"
      then show "\<exists>i < k + k. bit v (n + i)"
      proof (elim disjE exE conjE)
        fix i assume "i < k" "bit v (n + k + i)"
        then show ?thesis by (intro exI [of _ "k + i"]) (simp add: ac_simps)
      qed (auto intro: trans_less_add1)
    qed
    then show ?thesis using assms n hi by (simp add: spread_def bit_or_iff bit_drop_bit_eq add.commute)
  qed
  then show ?thesis by (simp add: spread_def)
qed

lemma spread_mask:
  assumes "spread 64 v v'" "v \<noteq> 0"
  shows "\<exists>k. bit v k \<and> v' = mask (Suc k) \<and> unat v < 2 ^ Suc k"
proof -
  have fin: "finite {n. bit v n}" by (rule finite_subset [of _ "{..<64}"]) (auto dest: bit_imp_le_length)
  have ne: "{n. bit v n} \<noteq> {}" using assms(2) by (auto simp: bit_eq_iff)
  define k where "k = Max {n. bit v n}"
  have k: "bit v k" "\<And>n. bit v n \<Longrightarrow> n \<le> k" using Max_in [OF fin ne] Max_ge [OF fin] by (auto simp: k_def)
  then have k64: "k < 64" by (auto dest: bit_imp_le_length)
  have "bit v' n \<longleftrightarrow> n < Suc k" if n: "n < 64" for n
  proof
    assume "bit v' n"
    then obtain i where "bit v (n + i)" using assms(1) n by (auto simp: spread_def)
    from k(2) [OF this] show "n < Suc k" by simp
  next
    assume "n < Suc k"
    then have "bit v (n + (k - n))" "k - n < 64" using k k64 by simp_all
    then show "bit v' n" using assms(1) n by (auto simp: spread_def)
  qed
  then have "v' = mask (Suc k)" by (intro bit_word_eqI) (simp add: bit_mask_iff)
  moreover have "take_bit (Suc k) v = v"
    using k(2) by (intro bit_word_eqI) (auto simp: bit_take_bit_iff less_Suc_eq_le)
  then have "unat v = take_bit (Suc k) (unat v)" by (metis unsigned_take_bit_eq)
  then have "unat v < 2 ^ Suc k" by (metis take_bit_nat_less_exp)
  ultimately show ?thesis using k(1) by blast
qed

lemma round_up_to_pow_of_two_ok:
  fixes x :: u64
  assumes "0 < unat x" "unat x \<le> 2 ^ 63"
  shows "\<exists>k \<le> 63. unat (round_up_to_pow_of_two x) = 2 ^ k \<and> unat x \<le> 2 ^ k"
proof (cases "x AND (x - 1) = 0")
  case True
  have x: "x \<noteq> 0" using assms(1) by auto
  have "unat (x - 1) = unat x - 1" using x by (simp add: unat_minus_one)
  with True have "is_power_of_two (unat x)" using x assms(1) by (metis is_power_of_two_def unat_0 unsigned_and_eq less_numeral_extra(3))
  then obtain k where k: "unat x = 2 ^ k" using is_power_of_two_pow2 by blast
  have "(2 :: nat) ^ k \<le> 2 ^ 63" using k assms(2) by simp
  then have "k \<le> 63" by (rule power_le_imp_le_exp [rotated]) simp
  with True x k show ?thesis by (auto simp: round_up_to_pow_of_two_def)
next
  case False
  then have x: "x \<noteq> 0" "x - 1 \<noteq> 0" by auto
  define v where "v = x - 1"
  define v1 v2 v4 v8 v16 r where "v1 = v OR drop_bit 1 v" and "v2 = v1 OR drop_bit 2 v1" and "v4 = v2 OR drop_bit 4 v2"
    and "v8 = v4 OR drop_bit 8 v4" and "v16 = v8 OR drop_bit 16 v8" and "r = v16 OR drop_bit 32 v16"
  note vs = v1_def v2_def v4_def v8_def v16_def r_def
  have "spread 2 v v1" using spread_double [OF spread_start [of v]] by (simp add: vs(1) numeral_2_eq_2)
  then have "spread 4 v v2" using spread_double [of 2 v v1] by (simp add: vs(2))
  then have "spread 8 v v4" using spread_double [of 4 v v2] by (simp add: vs(3))
  then have "spread 16 v v8" using spread_double [of 8 v v4] by (simp add: vs(4))
  then have "spread 32 v v16" using spread_double [of 16 v v8] by (simp add: vs(5))
  then have "spread 64 v r" using spread_double [of 32 v v16] by (simp add: vs(6))
  from spread_mask [OF this] x obtain k where k: "bit v k" "r = mask (Suc k)" "unat v < 2 ^ Suc k" by (auto simp: v_def)
  have uv: "unat v = unat x - 1" using x(1) by (simp add: v_def unat_minus_one)
  have "bit (unat v) k" using k(1) by (simp add: bit_unsigned_iff)
  then have "2 ^ k \<le> unat v" by (rule contrapos_pp) (simp add: bit_iff_odd)
  with uv assms have "(2 :: nat) ^ k < 2 ^ 63" by linarith
  then have k63: "k < 63" by (rule power_less_imp_less_exp [rotated]) simp
  have "round_up_to_pow_of_two x = r + 1"
    by (simp only: round_up_to_pow_of_two_def Let_def x(1) False if_False vs v_def)
  also have "\<dots> = 2 ^ Suc k" by (simp add: k(2) mask_eq_exp_minus_1)
  also have "\<dots> = word_of_nat (2 ^ Suc k)" by simp
  finally have "unat (round_up_to_pow_of_two x) = take_bit 64 (2 ^ Suc k)" by (simp only: unsigned_of_nat) simp
  moreover have "(2 :: nat) ^ Suc k < 2 ^ 64" using k63 by (intro power_strict_increasing) simp_all
  ultimately have "unat (round_up_to_pow_of_two x) = 2 ^ Suc k" by (simp only: take_bit_nat_eq_self)
  moreover have "unat x \<le> 2 ^ Suc k" using k(3) uv assms(1) by linarith
  ultimately show ?thesis using k63 by (intro exI [of _ "Suc k"]) simp
qed

section \<open>Setting up a cache\<close>

lemma page_order_from_ok:
  "n \<le> PAGE_ORDER_MAX \<Longrightarrow> page_order_from n sz \<le> PAGE_ORDER_MAX
    \<and> (sz \<le> PAGE_SIZE * 2 ^ PAGE_ORDER_MAX \<longrightarrow> sz \<le> PAGE_SIZE * 2 ^ page_order_from n sz)"
proof (induction n sz rule: page_order_from.induct)
  case (1 n sz)
  then show ?case by (subst (1 2) page_order_from.simps) auto
qed

lemma page_order_ok:
  "page_order sz \<le> PAGE_ORDER_MAX" "sz \<le> PAGE_SIZE * 2 ^ PAGE_ORDER_MAX \<Longrightarrow> sz \<le> PAGE_SIZE * 2 ^ page_order sz"
  using page_order_from_ok [of 0 sz] by (simp_all add: page_order_def)

lemma page_order_from_large:
  "PAGE_SIZE * 2 ^ PAGE_ORDER_MAX < sz \<Longrightarrow> n \<le> PAGE_ORDER_MAX \<Longrightarrow> page_order_from n sz = PAGE_ORDER_MAX"
proof (induction n sz rule: page_order_from.induct)
  case (1 n sz)
  have "PAGE_SIZE * 2 ^ n < sz" if "n < PAGE_ORDER_MAX"
  proof -
    have "(2 :: nat) ^ n \<le> 2 ^ PAGE_ORDER_MAX" using that by (intro power_increasing) simp_all
    then have "PAGE_SIZE * 2 ^ n \<le> PAGE_SIZE * 2 ^ PAGE_ORDER_MAX" by (intro mult_le_mono2)
    with "1.prems"(1) show ?thesis by linarith
  qed
  with 1 show ?case by (cases "n < PAGE_ORDER_MAX") (simp_all add: page_order_from.simps [of n] page_order_from.simps [of PAGE_ORDER_MAX])
qed

lemma slab_geometry_ok:
  assumes "0 < sz" "sz \<le> 2 ^ 63" "0 < align" "align \<le> 2 ^ 63"
  shows "\<exists>s k. slab_geometry sz align = (s, 2 ^ k) \<and> 3 \<le> k \<and> 2 ^ k dvd s \<and> sz \<le> s \<and> align \<le> 2 ^ k \<and> 0 < s"
proof -
  define a0 where "a0 = (if align < 8 then 8 else align)"
  define s0 where "s0 = (if sz < 8 then 8 else sz)"
  have a0: "8 \<le> a0" "a0 \<le> 2 ^ 63" "align \<le> a0" using assms by (auto simp: a0_def)
  have s0: "8 \<le> s0" "s0 \<le> 2 ^ 63" "sz \<le> s0" using assms by (auto simp: s0_def)
  have ua: "unat (word_of_nat a0 :: u64) = a0"
    using a0 by (simp add: unsigned_of_nat take_bit_nat_eq_self)
  obtain k where k: "(if \<not> is_power_of_two a0 then unat (round_up_to_pow_of_two (word_of_nat a0)) else a0) = 2 ^ k"
    "k \<le> 63" "a0 \<le> 2 ^ k"
  proof (cases "is_power_of_two a0")
    case True
    then obtain k where k: "a0 = 2 ^ k" using is_power_of_two_pow2 by blast
    with a0(2) have "(2 :: nat) ^ k \<le> 2 ^ 63" by simp
    then have "k \<le> 63" by (rule power_le_imp_le_exp [rotated]) simp
    with True k show ?thesis by (intro that [of k]) auto
  next
    case False
    with round_up_to_pow_of_two_ok [of "word_of_nat a0"] ua a0 show ?thesis by (auto intro: that)
  qed
  have "(2 :: nat) ^ 3 \<le> 2 ^ k" using a0(1) k(3) by simp
  then have "3 \<le> k" by (rule power_le_imp_le_exp [rotated]) simp
  have "(2 :: nat) ^ k \<le> 2 ^ 63" using k(2) by (intro power_increasing) simp_all
  then have fit: "s0 + 2 ^ k \<le> 2 ^ 64" using s0(2) by simp
  have g: "slab_geometry sz align = (if \<not> is_aligned s0 (2 ^ k) then round_up s0 (2 ^ k) else s0, 2 ^ k)"
    by (simp only: slab_geometry_def Let_def a0_def [symmetric] s0_def [symmetric] k(1))
  show ?thesis
  proof (cases "is_aligned s0 (2 ^ k)")
    case True
    then show ?thesis using g \<open>3 \<le> k\<close> s0 a0 k(3) by (auto simp: is_aligned_pow2)
  next
    case False
    then show ?thesis
      using g \<open>3 \<le> k\<close> s0 a0 k(3) round_up_ge [OF fit] round_up_dvd [OF fit] by auto
  qed
qed

lemma slab_init_ok:
  assumes inv: "slab_inv w" and c: "c < length (caches w)" "sa_list (caches w ! c) = []"
    and sz: "0 < sz" "sz \<le> 2 ^ 63" "0 < align" "align \<le> 2 ^ 63"
    and small: "fst (slab_geometry sz align) \<le> PAGE_SIZE * 2 ^ PAGE_ORDER_MAX" and sh: "reclaim_spares shrink"
  shows "\<exists>r w'. slab_init shrink c sz align w = Some (r, w') \<and> cache_ready shrink c w'
    \<and> sz \<le> sa_size (caches w' ! c) \<and> align \<le> sa_align (caches w' ! c) \<and> live_objs w' = live_objs w
    \<and> length (caches w') = length (caches w) \<and> (\<forall>d. d \<noteq> c \<longrightarrow> caches w' ! d = caches w ! d)
    \<and> frames_kept (marked (pga w)) (pga w) (pga w')"
proof -
  obtain s k where g: "slab_geometry sz align = (s, 2 ^ k)" "3 \<le> k" "2 ^ k dvd s" "sz \<le> s" "align \<le> 2 ^ k" "0 < s"
    using slab_geometry_ok [OF sz] by blast
  define sa where "sa = \<lparr>sa_size = s, sa_align = 2 ^ k, sa_order = page_order s, sa_list = []\<rparr>"
  define w1 where "w1 = w\<lparr>caches := (caches w)[c := sa]\<rparr>"
  have ok: "cache_ok sa" using g page_order_ok [of s] small by (auto simp: cache_ok_def sa_def block_bytes_def)
  have sb: "slab_blocks w1 = slab_blocks w"
    using c by (auto simp: slab_blocks_def w1_def sa_def nth_list_update split: if_splits)
  have ne: "d \<noteq> c" if "(d, p) \<in> slab_blocks w" for d p using that c by (auto simp: slab_blocks_def)
  have fo: "free_objs w1 = free_objs w" "slab_block w1 = slab_block w" "pga w1 = pga w"
    by (simp_all add: free_objs_def slab_block_def w1_def fun_eq_iff)
  have cs: "caches w1 ! d = (if d = c then sa else caches w ! d)" for d using c by (simp add: w1_def)
  have bo: "block_of w1 b = block_of w b" if "b \<in> slab_blocks w" for b
    using that ne [of "fst b" "snd b"] by (simp add: block_of_def cs)
  have "distinct (sa_list (caches w1 ! d))" if "d < length (caches w1)" for d
    using that slab_invD(3) [OF inv, of d] by (simp add: cs) (simp add: w1_def sa_def)
  moreover have "cache_ok (caches w1 ! d) \<and> slab_block w1 (caches w1 ! d) d p" if "(d, p) \<in> slab_blocks w" for d p
    using slab_invD(4,5) [OF inv that] ne [OF that] by (simp add: cs fo)
  ultimately have inv1: "slab_inv w1"
    using slab_invD(1,2) [OF inv] slab_invD(6) [OF inv] bo unfolding slab_inv_def sb fo by auto
  have live1: "live_objs w1 = live_objs w"
    using ne by (auto simp: live_objs_def sb fo cs fun_eq_iff)
  have c1: "c < length (caches w1)" "cache_ok (caches w1 ! c)" using c ok by (simp_all add: cs) (simp add: w1_def)
  have ev: "slab_init shrink c sz align w = slab_add_page shrink c w1"
    using sz c g(1) by (simp add: slab_init_def upd_cache_def nth_opt_in w1_def sa_def)
  from slab_add_page_ok [OF inv1 c1 sh] show ?thesis
  proof (elim disjE exE conjE)
    fix w' assume "slab_add_page shrink c w1 = Some (Inl ENOMEM, w')" "slab_inv w'" "caches w' = caches w1"
      "frames_kept (marked (pga w1)) (pga w1) (pga w')"
      "\<forall>c' p'. (c', p') \<in> slab_blocks w1 \<longrightarrow> free_objs w' p' = free_objs w1 p'"
    with live_same [of w' w1] live1 c1 sh g show ?thesis unfolding ev
      by (auto simp: cache_ready_def cs fo(3)) (auto simp: sa_def w1_def)
  next
    fix p w' assume w': "slab_add_page shrink c w1 = Some (Inr (), w')" "slab_inv w'"
      "frames_kept (marked (pga w1)) (pga w1) (pga w')" "page_added c p w1 w'"
    have "caches w' = (caches w1)[c := sa\<lparr>sa_list := [p]\<rparr>]" using w'(4) by (simp add: page_added_def cs sa_def)
    with w' live_added [OF inv1 c1(1) w'(4)] live1 c1 sh g ok show ?thesis unfolding ev
      by (auto simp: cache_ready_def fo(3) cs) (auto simp: sa_def w1_def)
  qed
qed

section \<open>Properties\<close>

text \<open>
  What happens to the caches after they are set up: allocations from any of them, releases of
  objects in use, and writes of clients into the objects they own.
\<close>

inductive slab_run :: "(nat \<Rightarrow> pgalloc \<Rightarrow> pgalloc option) \<Rightarrow> slab_world \<Rightarrow> slab_world \<Rightarrow> bool" for shrink w0 where
  start: "slab_run shrink w0 w0"
| alloc: "slab_run shrink w0 w \<Longrightarrow> c < length (caches w) \<Longrightarrow> cache_ok (caches w ! c) \<Longrightarrow>
    slab_alloc shrink c w = Some (r, w') \<Longrightarrow> slab_run shrink w0 w'"
| release: "slab_run shrink w0 w \<Longrightarrow> c < length (caches w) \<Longrightarrow> obj \<in> live_objs w c \<Longrightarrow>
    slab_free c obj w = Some w' \<Longrightarrow> slab_run shrink w0 w'"
| client: "slab_run shrink w0 w \<Longrightarrow> client_write m w \<Longrightarrow> slab_run shrink w0 (w\<lparr>pga := (pga w)\<lparr>ram := m\<rparr>\<rparr>)"

lemma slab_run_inv: "slab_run shrink w0 w \<Longrightarrow> slab_inv w0 \<Longrightarrow> reclaim_spares shrink \<Longrightarrow> slab_inv w"
proof (induction rule: slab_run.induct)
  case (alloc w c r w')
  then show ?case using slab_alloc_ok [of w c shrink] by auto
next
  case (release w c obj w')
  then show ?case using slab_free_ok [of w c obj] by auto
next
  case (client w m)
  then show ?case using client_write_ok by blast
qed

lemma live_objs_cache: "a \<in> live_objs w c \<Longrightarrow> c < length (caches w)"
  by (auto simp: live_objs_def slab_blocks_def)

lemma live_obj_ok:
  assumes inv: "slab_inv w" and a: "a \<in> live_objs w c"
  shows "sa_align (caches w ! c) dvd a" "mapped (pga w) a (sa_size (caches w ! c))"
proof -
  from a obtain p where p: "(c, p) \<in> slab_blocks w" "a \<in> slots (caches w ! c) p" by (auto simp: live_objs_def)
  have "2 ^ sa_order (caches w ! c) dvd p"
    using slab_invD(5) [OF inv p(1)] by (simp add: slab_block_def owned_block_def block_ok_def)
  from slot_aligned(1) [OF slab_invD(4) [OF inv p(1)] this p(2)] show "sa_align (caches w ! c) dvd a" .
  from slot_ptr(3) [OF inv p] show "mapped (pga w) a (sa_size (caches w ! c))" .
qed

lemma live_objs_apart:
  assumes inv: "slab_inv w" and a: "a \<in> live_objs w c" "b \<in> live_objs w d" "(c, a) \<noteq> (d, b)"
  shows "{a..<a + sa_size (caches w ! c)} \<inter> {b..<b + sa_size (caches w ! d)} = {}"
proof -
  from a obtain p q where p: "(c, p) \<in> slab_blocks w" "a \<in> slots (caches w ! c) p"
    and q: "(d, q) \<in> slab_blocks w" "b \<in> slots (caches w ! d) q" by (auto simp: live_objs_def)
  then show ?thesis using slots_disjoint [OF inv p(1) q(1) p(2) q(2)] a(3) by auto
qed


text \<open>A world with one cache that is not set up yet, for the examples.\<close>

definition fresh_world :: "pgalloc \<Rightarrow> slab_world" where
  "fresh_world s = \<lparr>pga = s,
     slab_pages = (\<lambda>_. \<lparr>slab_free_objs = 0, slab_cache = 0, slab_free_count = 0, slab_objs_count = 0\<rparr>),
     caches = [\<lparr>sa_size = 0, sa_align = 0, sa_order = 0, sa_list = []\<rparr>]\<rparr>"

lemma fresh_world_inv:
  assumes "pg_inv s" "length (mem_map s) = 2 ^ PAGE_ORDER_MAX"
  shows "slab_inv (fresh_world s)" "live_objs (fresh_world s) c = {}"
proof -
  have "slab_blocks (fresh_world s) = {}" by (auto simp: slab_blocks_def fresh_world_def intro!: gr0I)
  moreover have "linear_ok s" using assms pg_inv_shape [OF assms(1)] by (simp add: linear_ok_def layout_simps)
  ultimately show "slab_inv (fresh_world s)" "live_objs (fresh_world s) c = {}"
    using assms(1) by (simp_all add: slab_inv_def live_objs_def) (simp_all add: fresh_world_def)
qed

lemma no_reclaim: "reclaim_spares (\<lambda>_ s. Some s)"
  unfolding reclaim_spares_def using frames_kept_refl by (auto simp: marked_def intro!: frames_kept_refl)




end
