(* ===== verification/Kmalloc.thy ===== *)
theory Kmalloc
  imports Slab_Init
begin

text \<open>
  The general-purpose allocator (\<open>src/src/mm/kmalloc.c\<close>): requests of up to a page come from ten
  slab caches, larger ones are blocks of pages. The array \<open>kmalloc_allocators\<close> is the first ten
  entries of the list of caches.
\<close>

section \<open>Model\<close>

definition NR_KMALLOC_ALLOCATORS :: nat where "NR_KMALLOC_ALLOCATORS = 10"
definition SIZE_MAX :: nat where "SIZE_MAX = 2 ^ 64 - 1"

definition kmalloc_block_head :: "nat \<Rightarrow> nat \<Rightarrow> nat" where
  "kmalloc_block_head pfn order = pfn - (pfn AND (2 ^ order - 1))"

definition kmalloc_mark_block :: "nat \<Rightarrow> nat \<Rightarrow> pgalloc \<Rightarrow> pgalloc option" where
  "kmalloc_mark_block head order s =
     upd_pages (\<lambda>pg. pg\<lparr>pg_flags := pg_flags pg OR PAGE_FLAGS_KMALLOC, buddy_page_order := order\<rparr>)
       [head..<head + 2 ^ order] s"

definition kmalloc_unmark_block :: "nat \<Rightarrow> nat \<Rightarrow> pgalloc \<Rightarrow> pgalloc option" where
  "kmalloc_unmark_block head order s =
     upd_pages (\<lambda>pg. pg\<lparr>pg_flags := pg_flags pg AND NOT PAGE_FLAGS_KMALLOC\<rparr>) [head..<head + 2 ^ order] s"

definition kmalloc_allocator_index :: "nat \<Rightarrow> nat option" where
  "kmalloc_allocator_index sz =
     (if sz \<le> 8 then Some 0 else if sz \<le> 16 then Some 1 else if sz \<le> 32 then Some 2 else if sz \<le> 64 then Some 3
      else if sz \<le> 128 then Some 4 else if sz \<le> 256 then Some 5 else if sz \<le> 512 then Some 6
      else if sz \<le> 1024 then Some 7 else if sz \<le> 2048 then Some 8 else if sz \<le> 4096 then Some 9 else None)"

text \<open>\<open>alignof(max_align_t)\<close> is 16; what \<open>slab_init\<close> returns is not looked at.\<close>

fun kmalloc_init_from :: "(nat \<Rightarrow> pgalloc \<Rightarrow> pgalloc option) \<Rightarrow> nat \<Rightarrow> nat list \<Rightarrow> slab_world \<Rightarrow> slab_world option" where
  "kmalloc_init_from shrink i [] w = Some w"
| "kmalloc_init_from shrink i (sz # szs) w = do {
     (_, w) \<leftarrow> slab_init shrink i sz 16 w;
     kmalloc_init_from shrink (Suc i) szs w }"

definition kmalloc_init :: "(nat \<Rightarrow> pgalloc \<Rightarrow> pgalloc option) \<Rightarrow> slab_world \<Rightarrow> slab_world option" where
  "kmalloc_init shrink w = kmalloc_init_from shrink 0 [8, 16, 32, 64, 128, 256, 512, 1024, 2048, 4096] w"

definition kmalloc :: "(nat \<Rightarrow> pgalloc \<Rightarrow> pgalloc option) \<Rightarrow> nat \<Rightarrow> slab_world \<Rightarrow> (nat option \<times> slab_world) option" where
  "kmalloc shrink sz w =
     (if sz = 0 then Some (None, w)
      else (case kmalloc_allocator_index sz of
          Some index \<Rightarrow> slab_alloc shrink index w
        | None \<Rightarrow> (let order = page_order sz in do {
            (r, s) \<leftarrow> page_alloc shrink order (pga w);
            (case r of
               None \<Rightarrow> Some (None, w\<lparr>pga := s\<rparr>)
             | Some pg \<Rightarrow> do {
                 s \<leftarrow> (if order > 0 then kmalloc_mark_block pg order s else Some s);
                 Some (Some (page_to_virt s pg), w\<lparr>pga := s\<rparr>) }) })))"

definition kcalloc :: "(nat \<Rightarrow> pgalloc \<Rightarrow> pgalloc option) \<Rightarrow> nat \<Rightarrow> nat \<Rightarrow> slab_world \<Rightarrow> (nat option \<times> slab_world) option" where
  "kcalloc shrink nmemb sz w =
     (if nmemb \<noteq> 0 \<and> sz > SIZE_MAX div nmemb then Some (None, w)
      else (let bytes = nmemb * sz in do {
        (r, w) \<leftarrow> kmalloc shrink bytes w;
        (case r of
           None \<Rightarrow> Some (None, w)
         | Some ptr \<Rightarrow> do { w \<leftarrow> on_pga (clear_mem ptr bytes) w; Some (Some ptr, w) }) }))"

definition kzalloc :: "(nat \<Rightarrow> pgalloc \<Rightarrow> pgalloc option) \<Rightarrow> nat \<Rightarrow> slab_world \<Rightarrow> (nat option \<times> slab_world) option" where
  "kzalloc shrink sz w = kcalloc shrink 1 sz w"

definition kfree :: "nat \<Rightarrow> slab_world \<Rightarrow> slab_world option" where
  "kfree ptr w =
     (if ptr = 0 then Some w
      else (let pfn = virt_to_page (pga w) ptr in do {
        pg \<leftarrow> nth_opt (mem_map (pga w)) pfn;
        if flag_set (pg_flags pg) PAGE_FLAGS_SLAB then slab_free (slab_cache (slab_pages w pfn)) ptr w
        else if flag_set (pg_flags pg) PAGE_FLAGS_KMALLOC then (let head = kmalloc_block_head pfn (buddy_page_order pg) in do {
            hd_pg \<leftarrow> nth_opt (mem_map (pga w)) head;
            _ \<leftarrow> assert_opt (flag_set (pg_flags hd_pg) PAGE_FLAGS_HEAD);
            w \<leftarrow> on_pga (kmalloc_unmark_block head (buddy_page_order hd_pg)) w;
            on_pga (page_free head (buddy_page_order hd_pg)) w })
        else on_pga (page_free pfn (buddy_page_order pg)) w }))"

section \<open>Pointers in use\<close>

text \<open>A block of pages in the hands of a client, and the pointers handed out with their usable sizes.\<close>

definition large_block :: "pgalloc \<Rightarrow> nat \<times> nat \<Rightarrow> bool" where
  "large_block s b \<longleftrightarrow> 0 < snd b \<and> owned_block s b \<and> \<not> flag_set (pg_flags (mem_map s ! fst b)) PAGE_FLAGS_SLAB
     \<and> (\<forall>q \<in> block (fst b) (snd b). flag_set (pg_flags (mem_map s ! q)) PAGE_FLAGS_KMALLOC
          \<and> buddy_page_order (mem_map s ! q) = snd b)"

definition kptrs :: "(nat \<times> nat) set \<Rightarrow> slab_world \<Rightarrow> (nat \<times> nat) set" where
  "kptrs L w = {(a, n). \<exists>c < NR_KMALLOC_ALLOCATORS. a \<in> live_objs w c \<and> n = sa_size (caches w ! c)}
     \<union> {(a, n). \<exists>(p, ord) \<in> L. a = block_base p \<and> n = PAGE_SIZE * 2 ^ ord}"

definition kmalloc_inv :: "(nat \<times> nat) set \<Rightarrow> slab_world \<Rightarrow> bool" where
  "kmalloc_inv L w \<longleftrightarrow> slab_inv w \<and> NR_KMALLOC_ALLOCATORS \<le> length (caches w)
     \<and> (\<forall>i < NR_KMALLOC_ALLOCATORS. cache_ok (caches w ! i) \<and> 2 ^ (i + 3) \<le> sa_size (caches w ! i))
     \<and> (\<forall>b \<in> L. large_block (pga w) b \<and> (\<forall>b' \<in> L. b \<noteq> b' \<longrightarrow> blocks_apart b b')
          \<and> (\<forall>sb \<in> slab_blocks w. block (fst b) (snd b) \<inter> block_of w sb = {}))"

lemma index_ok:
  "kmalloc_allocator_index sz = Some i \<Longrightarrow> i < NR_KMALLOC_ALLOCATORS \<and> sz \<le> 2 ^ (i + 3)"
  by (auto simp: kmalloc_allocator_index_def NR_KMALLOC_ALLOCATORS_def split: if_splits)

lemma index_none: "kmalloc_allocator_index sz = None \<Longrightarrow> PAGE_SIZE < sz"
  by (auto simp: kmalloc_allocator_index_def PAGE_SIZE_def split: if_splits)

lemma page_order_from_ge: "n \<le> PAGE_ORDER_MAX \<Longrightarrow> n \<le> page_order_from n sz"
proof (induction n sz rule: page_order_from.induct)
  case (1 n sz)
  then show ?case by (subst page_order_from.simps) auto
qed

lemma page_order_pos: "PAGE_SIZE < sz \<Longrightarrow> 0 < page_order sz"
  using page_order_from_ge [of 1 sz]
  by (auto simp: page_order_def page_order_from.simps [of 0] PAGE_ORDER_MAX_def)

section \<open>Blocks of pages\<close>

lemma flag_kmalloc_marked: "flag_set f PAGE_FLAGS_KMALLOC \<Longrightarrow> flag_set f MARKED"
proof -
  assume "flag_set f PAGE_FLAGS_KMALLOC"
  then have "bit f 4" by (simp add: flag_set_def PAGE_FLAGS_KMALLOC_def and_exp_eq_0_iff_not_bit [of f 4, simplified])
  then have "bit (f AND MARKED) 4" by (simp add: bit_simps MARKED_def PAGE_FLAGS_SLAB_def PAGE_FLAGS_KMALLOC_def)
  then show ?thesis by (auto simp: flag_set_def)
qed

lemma large_block_marked:
  assumes "large_block s b"
  shows "block (fst b) (snd b) \<subseteq> marked s"
proof
  fix q assume q: "q \<in> block (fst b) (snd b)"
  from assms have "owned_block s b" by (simp add: large_block_def)
  then have "q < length (mem_map s)" "q \<notin> free_frames s"
    using q by (auto simp: owned_block_def block_ok_def block_def)
  with assms q show "q \<in> marked s" by (auto simp: marked_def large_block_def intro: flag_kmalloc_marked)
qed

lemma large_block_kept:
  assumes k: "frames_kept (block (fst b) (snd b)) s s'" and b: "large_block s b"
  shows "large_block s' b"
proof -
  have o: "owned_block s' b" using frames_kept_owned [OF k] b by (simp add: large_block_def)
  have "mem_map s' ! q = mem_map s ! q" if "q \<in> block (fst b) (snd b)" for q
    using k that by (simp add: frames_kept_def)
  then show ?thesis using o b by (auto simp: large_block_def)
qed

lemma kmalloc_invD:
  assumes "kmalloc_inv L w"
  shows "slab_inv w" "i < NR_KMALLOC_ALLOCATORS \<Longrightarrow> i < length (caches w)"
    "i < NR_KMALLOC_ALLOCATORS \<Longrightarrow> cache_ok (caches w ! i)" "i < NR_KMALLOC_ALLOCATORS \<Longrightarrow> 2 ^ (i + 3) \<le> sa_size (caches w ! i)"
    "b \<in> L \<Longrightarrow> large_block (pga w) b" "b \<in> L \<Longrightarrow> b' \<in> L \<Longrightarrow> b \<noteq> b' \<Longrightarrow> blocks_apart b b'"
    "b \<in> L \<Longrightarrow> sb \<in> slab_blocks w \<Longrightarrow> block (fst b) (snd b) \<inter> block_of w sb = {}"
  using assms by (auto simp: kmalloc_inv_def)

lemma slab_large_apart:
  assumes inv: "kmalloc_inv L w" and a: "a \<in> live_objs w c" and b: "(p, ord) \<in> L"
  shows "{a..<a + sa_size (caches w ! c)} \<inter> {block_base p..<block_base p + PAGE_SIZE * 2 ^ ord} = {}"
proof (rule ccontr)
  assume "\<not> ?thesis"
  then obtain x where "x \<in> {a..<a + sa_size (caches w ! c)} \<inter> {block_base p..<block_base p + PAGE_SIZE * 2 ^ ord}" by blast
  then have x: "a \<le> x" "x < a + sa_size (caches w ! c)" "block_base p \<le> x" "x < block_base p + PAGE_SIZE * 2 ^ ord" by simp_all
  from a obtain q where q: "(c, q) \<in> slab_blocks w" "a \<in> slots (caches w ! c) q" by (auto simp: live_objs_def)
  have "frame_of x \<in> block_of w (c, q)"
    using slot_frame(2) [OF slab_invD(4) [OF kmalloc_invD(1) [OF inv] q(1)] q(2) x(1,2)] by (simp add: block_of_def)
  moreover have "frame_of x \<in> block p ord" by (rule frame_of_block(2) [OF x(3,4)])
  ultimately show False using kmalloc_invD(7) [OF inv b q(1)] by auto
qed

lemma large_apart:
  assumes "blocks_apart (p, ord) (q, ord')"
  shows "{block_base p..<block_base p + PAGE_SIZE * 2 ^ ord} \<inter> {block_base q..<block_base q + PAGE_SIZE * 2 ^ ord'} = {}"
proof (rule ccontr)
  assume "\<not> ?thesis"
  then obtain x where "x \<in> {block_base p..<block_base p + PAGE_SIZE * 2 ^ ord}
    \<inter> {block_base q..<block_base q + PAGE_SIZE * 2 ^ ord'}" by blast
  then have "frame_of x \<in> block p ord" "frame_of x \<in> block q ord'" by (auto intro: frame_of_block)
  with assms show False by (auto simp: blocks_apart_def)
qed

text \<open>A slab step keeps the large blocks.\<close>

lemma kmalloc_inv_slab:
  assumes inv: "kmalloc_inv L w" and s: "slab_inv w'" "same_caches w w'" "frames_kept (marked (pga w)) (pga w) (pga w')"
    and sb: "\<forall>b \<in> slab_blocks w'. b \<in> slab_blocks w \<or> block_of w' b \<inter> marked (pga w) = {}"
  shows "kmalloc_inv L w'"
proof -
  have len: "NR_KMALLOC_ALLOCATORS \<le> length (caches w)" using inv by (simp add: kmalloc_inv_def)
  have bo: "block_of w' b = block_of w b" if "b \<in> slab_blocks w" for b
    using that same_caches_nth(2) [OF s(2), of "fst b"] by (auto simp: block_of_def slab_blocks_def)
  have m: "block (fst b) (snd b) \<subseteq> marked (pga w)" if "b \<in> L" for b
    by (rule large_block_marked [OF kmalloc_invD(5) [OF inv that]])
  have "large_block (pga w') b" if "b \<in> L" for b
    by (rule large_block_kept [OF frames_kept_mono [OF s(3) m [OF that]] kmalloc_invD(5) [OF inv that]])
  moreover have "block (fst b) (snd b) \<inter> block_of w' x = {}" if "b \<in> L" "x \<in> slab_blocks w'" for b x
    using sb that m [OF that(1)] kmalloc_invD(7) [OF inv that(1), of x] bo [of x] by blast
  moreover have "cache_ok (caches w' ! i) \<and> 2 ^ (i + 3) \<le> sa_size (caches w' ! i)" if "i < NR_KMALLOC_ALLOCATORS" for i
    using kmalloc_invD(2-4) [OF inv that] cache_ok_same [OF s(2), of i] same_caches_nth(2) [OF s(2), of i] by simp
  ultimately show ?thesis
    using s(1) len same_caches_nth(1) [OF s(2)] kmalloc_invD(6) [OF inv] by (simp add: kmalloc_inv_def)
qed

lemma kptrs_slab:
  assumes "kmalloc_inv L w" "same_caches w w'"
  shows "kptrs L w' = {(a, n). \<exists>c < NR_KMALLOC_ALLOCATORS. a \<in> live_objs w' c \<and> n = sa_size (caches w ! c)}
     \<union> {(a, n). \<exists>(p, ord) \<in> L. a = block_base p \<and> n = PAGE_SIZE * 2 ^ ord}"
proof -
  have "sa_size (caches w' ! c) = sa_size (caches w ! c)" if "c < NR_KMALLOC_ALLOCATORS" for c
    using same_caches_nth(2) [OF assms(2) kmalloc_invD(2) [OF assms(1) that]] by simp
  then show ?thesis unfolding kptrs_def by (intro arg_cong2 [where f = "(\<union>)"]) auto
qed

text \<open>A step of the page allocator that keeps the blocks in use.\<close>

lemma kmalloc_inv_frames:
  assumes inv: "kmalloc_inv L w" and L': "L' \<subseteq> L" and pg: "pg_inv s'" and k: "frames_kept F (pga w) s'"
    and F: "\<And>b. b \<in> slab_blocks w \<Longrightarrow> block_of w b \<subseteq> F" "\<And>b. b \<in> L' \<Longrightarrow> block (fst b) (snd b) \<subseteq> F"
  shows "kmalloc_inv L' (w\<lparr>pga := s'\<rparr>)" "live_objs (w\<lparr>pga := s'\<rparr>) = live_objs w"
proof -
  let ?w' = "w\<lparr>pga := s'\<rparr>"
  note s = slab_inv_frames [OF kmalloc_invD(1) [OF inv], of ?w' F]
  have s1: "slab_inv ?w'" "\<And>c p. (c, p) \<in> slab_blocks w \<Longrightarrow> free_objs ?w' p = free_objs w p"
    using s pg k F(1) by auto
  show "live_objs ?w' = live_objs w" using s1(2) by (intro live_same) auto
  have "large_block s' b" if "b \<in> L'" for b
    using large_block_kept [OF frames_kept_mono [OF k F(2) [OF that]]] kmalloc_invD(5) [OF inv, of b] that L' by auto
  moreover have "slab_blocks ?w' = slab_blocks w" "block_of ?w' = block_of w"
    by (auto simp: slab_blocks_def block_of_def fun_eq_iff)
  moreover have "(\<forall>b' \<in> L'. b \<noteq> b' \<longrightarrow> blocks_apart b b') \<and> (\<forall>sb \<in> slab_blocks w. block (fst b) (snd b) \<inter> block_of w sb = {})"
    if "b \<in> L'" for b
    using kmalloc_invD(6,7) [OF inv, of b] that L' by blast
  ultimately show "kmalloc_inv L' ?w'" using s1(1) inv by (simp add: kmalloc_inv_def)
qed

lemma kptrs_large:
  "live_objs w' = live_objs w \<Longrightarrow> caches w' = caches w \<Longrightarrow> kptrs L w' = kptrs L w"
  "kptrs (insert (p, ord) L) w = insert (block_base p, PAGE_SIZE * 2 ^ ord) (kptrs L w)"
  by (auto simp: kptrs_def)

lemma kmalloc_inv_insert:
  assumes inv: "kmalloc_inv L w" and b: "large_block (pga w) b"
    and d: "\<And>b'. b' \<in> L \<Longrightarrow> block (fst b) (snd b) \<inter> block (fst b') (snd b') = {}"
      "\<And>sb. sb \<in> slab_blocks w \<Longrightarrow> block (fst b) (snd b) \<inter> block_of w sb = {}"
  shows "kmalloc_inv (insert b L) w"
proof -
  have "blocks_apart b b'" "blocks_apart b' b" if "b' \<in> L" for b'
    using d(1) [OF that] by (auto simp: blocks_apart_def)
  then have "\<forall>x \<in> insert b L. \<forall>y \<in> insert b L. x \<noteq> y \<longrightarrow> blocks_apart x y"
    using kmalloc_invD(6) [OF inv] by blast
  then show ?thesis using inv b d(2) by (simp add: kmalloc_inv_def)
qed

section \<open>The operations\<close>

text \<open>A new pointer: its block is apart from every other pointer's.\<close>

definition kptr_new :: "nat \<Rightarrow> nat \<Rightarrow> (nat \<times> nat) set \<Rightarrow> bool" where
  "kptr_new a n P \<longleftrightarrow> (\<forall>(b, m) \<in> P. {a..<a + n} \<inter> {b..<b + m} = {})"

lemma kmalloc_slab:
  assumes inv: "kmalloc_inv L w" and sh: "reclaim_spares shrink" and c: "c < NR_KMALLOC_ALLOCATORS"
  shows "\<exists>r w'. slab_alloc shrink c w = Some (r, w') \<and> kmalloc_inv L w'
    \<and> (case r of None \<Rightarrow> kptrs L w' = kptrs L w
       | Some a \<Rightarrow> kptrs L w' = insert (a, sa_size (caches w ! c)) (kptrs L w) \<and> kptr_new a (sa_size (caches w ! c)) (kptrs L w))"
proof -
  note ci = kmalloc_invD(2,3) [OF inv c]
  from slab_alloc_ok [OF kmalloc_invD(1) [OF inv] ci sh] obtain r w' where
    r: "slab_alloc shrink c w = Some (r, w')" "slab_inv w'" "same_caches w w'" "frames_kept (marked (pga w)) (pga w) (pga w')"
      "\<forall>b \<in> slab_blocks w'. b \<in> slab_blocks w \<or> block_of w' b \<inter> marked (pga w) = {}"
      "case r of None \<Rightarrow> live_objs w' = live_objs w
       | Some obj \<Rightarrow> obj \<notin> live_objs w c \<and> live_objs w' = (live_objs w)(c := insert obj (live_objs w c))" by blast
  note inv' = kmalloc_inv_slab [OF inv r(2-5)]
  note k' = kptrs_slab [OF inv r(3)] kptrs_slab [OF inv same_caches_refl [of w w, OF refl]]
  show ?thesis
  proof (cases r)
    case None
    then show ?thesis using r(1,6) inv' k' by auto
  next
    case (Some a)
    with r(6) have l: "a \<notin> live_objs w c" "live_objs w' = (live_objs w)(c := insert a (live_objs w c))" by auto
    have sz: "sa_size (caches w' ! d) = sa_size (caches w ! d)" if "d < NR_KMALLOC_ALLOCATORS" for d
      using same_caches_nth(2) [OF r(3) kmalloc_invD(2) [OF inv that]] by simp
    have "{a..<a + sa_size (caches w ! c)} \<inter> {b..<b + sa_size (caches w ! d)} = {}"
      if "d < NR_KMALLOC_ALLOCATORS" "b \<in> live_objs w d" for b d
    proof -
      have "a \<in> live_objs w' c" "b \<in> live_objs w' d" "(c, a) \<noteq> (d, b)" using l that(2) by auto
      from live_objs_apart [OF r(2) this] show ?thesis by (simp only: sz [OF that(1)] sz [OF c])
    qed
    moreover have "{a..<a + sa_size (caches w ! c)} \<inter> {block_base p..<block_base p + PAGE_SIZE * 2 ^ ord} = {}"
      if "(p, ord) \<in> L" for p ord
      using slab_large_apart [OF inv' _ that, of a c] l sz [OF c] by simp
    ultimately have "kptr_new a (sa_size (caches w ! c)) (kptrs L w)"
      unfolding kptr_new_def kptrs_def by blast
    moreover have "kptrs L w' = insert (a, sa_size (caches w ! c)) (kptrs L w)"
      unfolding k' using c l(2) by (auto split: if_splits)
    ultimately show ?thesis using r(1) inv' Some by auto
  qed
qed

lemma kmalloc_block_ok:
  assumes s1: "pg_inv s1" "owned_block s1 (p, ord)" "pg_flags (mem_map s1 ! p) = PAGE_FLAGS_NEW_PAGE" and o: "0 < ord"
  shows "\<exists>s2. kmalloc_mark_block p ord s1 = Some s2 \<and> pg_inv s2 \<and> large_block s2 (p, ord)
    \<and> (\<forall>F. F \<inter> block p ord = {} \<longrightarrow> F \<inter> free_frames s1 = {} \<longrightarrow> F \<subseteq> {..<length (mem_map s1)} \<longrightarrow> frames_kept F s1 s2)"
proof -
  let ?f = "\<lambda>pg. pg\<lparr>pg_flags := pg_flags pg OR PAGE_FLAGS_KMALLOC, buddy_page_order := ord\<rparr>"
  have "same_to_buddy pg (?f pg)" for pg by (rule same_to_buddy_marks(2)) simp
  from owned_marked [of ?f, OF this s1(1,2)] obtain s2 where
    s2: "kmalloc_mark_block p ord s1 = Some s2" "pages_marked (block p ord) ?f s1 s2" "owned_block s2 (p, ord)"
    unfolding kmalloc_mark_block_def by blast
  have b: "block_ok s1 p ord" using s1(2) by (simp add: owned_block_def)
  then have q: "mem_map s2 ! q = ?f (mem_map s1 ! q)" if "q \<in> block p ord" for q
    using s2(2) that by (auto simp: pages_marked_def block_ok_def block_def)
  have "flag_set (x OR PAGE_FLAGS_KMALLOC) PAGE_FLAGS_KMALLOC" for x :: u32
  proof -
    have "bit ((x OR PAGE_FLAGS_KMALLOC) AND PAGE_FLAGS_KMALLOC) 4" by (simp add: bit_simps PAGE_FLAGS_KMALLOC_def)
    then show ?thesis by (auto simp: flag_set_def)
  qed
  moreover have "mem_map s2 ! p = ?f (mem_map s1 ! p)" using q [of p] by (simp add: block_def)
  moreover have "\<not> flag_set (PAGE_FLAGS_NEW_PAGE OR PAGE_FLAGS_KMALLOC) PAGE_FLAGS_SLAB" by (simp add: flag_set_def page_flag_defs)
  ultimately have "large_block s2 (p, ord)" using s2(3) q s1(3) o by (simp add: large_block_def)
  moreover have "pg_inv s2" using s2(2) by (simp add: pages_marked_def)
  ultimately show ?thesis using s2(1) pages_marked_kept [OF s2(2)] by blast
qed

lemma kmalloc_large:
  assumes inv: "kmalloc_inv L w" and sh: "reclaim_spares shrink" and sz: "kmalloc_allocator_index sz = None"
  shows "\<exists>r w' L'. kmalloc shrink sz w = Some (r, w') \<and> kmalloc_inv L' w'
    \<and> (case r of None \<Rightarrow> kptrs L' w' = kptrs L w
       | Some a \<Rightarrow> kptrs L' w' = insert (a, PAGE_SIZE * 2 ^ page_order sz) (kptrs L w)
           \<and> kptr_new a (PAGE_SIZE * 2 ^ page_order sz) (kptrs L w))"
proof -
  let ?ord = "page_order sz" let ?M = "marked (pga w)"
  have ord: "0 < ?ord" "sz \<noteq> 0" using page_order_pos index_none [OF sz] by auto
  note si = kmalloc_invD(1) [OF inv]
  have M: "\<And>b. b \<in> slab_blocks w \<Longrightarrow> block_of w b \<subseteq> ?M" "\<And>b. b \<in> L \<Longrightarrow> block (fst b) (snd b) \<subseteq> ?M"
    using block_of_marked [OF si] large_block_marked [OF kmalloc_invD(5) [OF inv]] by blast+
  from page_alloc_marked [OF slab_invD(1) [OF si] sh, of ?ord] obtain r s1 where
    r: "page_alloc shrink ?ord (pga w) = Some (r, s1)" "pg_inv s1" "frames_kept ?M (pga w) s1"
      "\<And>p. r = Some p \<Longrightarrow> owned_block s1 (p, ?ord) \<and> block p ?ord \<inter> ?M = {} \<and> pg_flags (mem_map s1 ! p) = PAGE_FLAGS_NEW_PAGE"
    by blast
  show ?thesis
  proof (cases r)
    case None
    then have "kmalloc shrink sz w = Some (None, w\<lparr>pga := s1\<rparr>)" using r(1) ord sz by (simp add: kmalloc_def)
    moreover note kmalloc_inv_frames [OF inv subset_refl r(2,3) M]
    ultimately show ?thesis using kptrs_large(1) [of "w\<lparr>pga := s1\<rparr>" w L] by fastforce
  next
    case (Some p)
    note p = r(4) [OF Some]
    from kmalloc_block_ok [OF r(2) _ _ ord(1), of p] p obtain s2 where
      s2: "kmalloc_mark_block p ?ord s1 = Some s2" "pg_inv s2" "large_block s2 (p, ?ord)"
        "\<And>F. F \<inter> block p ?ord = {} \<Longrightarrow> F \<inter> free_frames s1 = {} \<Longrightarrow> F \<subseteq> {..<length (mem_map s1)} \<Longrightarrow> frames_kept F s1 s2"
      by blast
    have "frames_kept ?M s1 s2"
      using r(3) p by (intro s2(4)) (auto simp: frames_kept_def marked_def)
    with r(3) have k: "frames_kept ?M (pga w) s2" by (rule frames_kept_trans)
    let ?w' = "w\<lparr>pga := s2\<rparr>" let ?a = "block_base p" let ?n = "PAGE_SIZE * 2 ^ ?ord"
    note i = kmalloc_inv_frames [OF inv subset_refl s2(2) k M]
    have sb: "slab_blocks ?w' = slab_blocks w" "block_of ?w' = block_of w" by (auto simp: slab_blocks_def block_of_def fun_eq_iff)
    have dl: "block p ?ord \<inter> block (fst b) (snd b) = {}" if "b \<in> L" for b using p M(2) [OF that] by blast
    have ds: "block p ?ord \<inter> block_of w b = {}" if "b \<in> slab_blocks w" for b using p M(1) [OF that] by blast
    have inv': "kmalloc_inv (insert (p, ?ord) L) ?w'"
      by (rule kmalloc_inv_insert [OF i(1)]) (use s2(3) dl ds sb in auto)
    have "page_to_virt s2 p = ?a"
      using page_to_virt_block(1) [OF slab_invD(2) [OF kmalloc_invD(1) [OF inv']], of p ?ord] s2(3)
      by (simp add: large_block_def owned_block_def)
    then have "kmalloc shrink sz w = Some (Some ?a, ?w')" using r(1) s2(1) Some ord sz by (simp add: kmalloc_def)
    moreover have "kptr_new ?a ?n (kptrs L w)"
      using slab_large_apart [OF inv', of _ _ p ?ord] large_apart [of p ?ord] dl i(2)
      unfolding kptr_new_def kptrs_def by (fastforce simp: blocks_apart_def)
    moreover have "kptrs (insert (p, ?ord) L) ?w' = insert (?a, ?n) (kptrs L w)"
      unfolding kptrs_large(2) using kptrs_large(1) [of ?w' w L] i(2) by simp
    ultimately show ?thesis using inv' by fastforce
  qed
qed

lemma kmalloc_inv_ram:
  assumes inv: "kmalloc_inv L w" and s: "slab_inv w'" "caches w' = caches w" "pga w' = (pga w)\<lparr>ram := m\<rparr>"
  shows "kmalloc_inv L w'"
proof -
  have "slab_blocks w' = slab_blocks w" "block_of w' = block_of w" "large_block (pga w') = large_block (pga w)"
    by (auto simp: slab_blocks_def block_of_def large_block_def owned_block_def block_ok_def s(2,3) fun_eq_iff)
  with inv s(1,2) show ?thesis by (simp add: kmalloc_inv_def)
qed

lemma kfree_slab:
  assumes inv: "kmalloc_inv L w" and c: "c < NR_KMALLOC_ALLOCATORS" and a: "a \<in> live_objs w c"
  shows "\<exists>w'. kfree a w = Some w' \<and> kmalloc_inv L w' \<and> kptrs L w' = kptrs L w - {(a, sa_size (caches w ! c))}"
proof -
  note si = kmalloc_invD(1) [OF inv]
  from a obtain p where p: "(c, p) \<in> slab_blocks w" "a \<in> slots (caches w ! c) p" by (auto simp: live_objs_def)
  note ok = slab_invD(4) [OF si p(1)] and blk = slab_invD(5) [OF si p(1)] and ptr = slot_ptr [OF si p]
  have sz: "0 < sa_size (caches w ! d)" if "b \<in> live_objs w d" for b d
    using that slab_invD(4) [OF si] by (fastforce simp: live_objs_def cache_ok_def)
  have v: "virt_to_page (pga w) a = frame_of a"
    using virt_to_page_eq [OF slab_invD(2) [OF si] ptr(1)] by (simp add: frame_of_def)
  have fr: "frame_of a \<in> block p (sa_order (caches w ! c))" by (rule slot_frame(2) [OF ok p(2)]) (use sz [OF a] in simp_all)
  then have "frame_of a < length (mem_map (pga w))" using blk by (auto simp: slab_block_def owned_block_def block_ok_def block_def)
  moreover have "flag_set (pg_flags (mem_map (pga w) ! frame_of a)) PAGE_FLAGS_SLAB" "slab_cache (slab_pages w (frame_of a)) = c"
    using blk fr by (auto simp: slab_block_def)
  moreover have "a \<noteq> 0" using slot_inside(1) [OF ok p(2)] by (simp add: block_base_def PAGE_OFFSET_def)
  ultimately have kf: "kfree a w = slab_free c a w" by (simp add: kfree_def v nth_opt_in)
  from slab_free_ok [OF si kmalloc_invD(2) [OF inv c] a] obtain w' m where
    w': "slab_free c a w = Some w'" "slab_inv w'" "caches w' = caches w" "pga w' = (pga w)\<lparr>ram := m\<rparr>"
      "live_objs w' = (live_objs w)(c := live_objs w c - {a})" by blast
  have one: "d = c" if "a \<in> live_objs w d" for d
    using live_objs_apart [OF si a that] sz [OF a] sz [OF that] by (cases "d = c") auto
  then have "x \<in> live_objs w' d \<longleftrightarrow> x \<in> live_objs w d \<and> x \<noteq> a" for x d by (auto simp: w'(5))
  moreover have "a \<noteq> block_base q" if "(q, ord) \<in> L" for q ord
    using slab_large_apart [OF inv a that] sz [OF a] by (auto simp: PAGE_SIZE_def)
  ultimately have "kptrs L w' = kptrs L w - {(a, sa_size (caches w ! c))}"
    unfolding kptrs_def w'(3) using one by auto
  then show ?thesis using kf w'(1) kmalloc_inv_ram [OF inv w'(2-4)] by auto
qed

lemma kmalloc_block_head_aligned: "2 ^ ord dvd p \<Longrightarrow> kmalloc_block_head p ord = p"
  using take_bit_eq_mask [of ord p] by (auto simp: kmalloc_block_head_def mask_eq_exp_minus_1 take_bit_eq_mod dvd_eq_mod_eq_0)

lemma free_large:
  assumes inv: "kmalloc_inv L w" and b: "(p, ord) \<in> L"
  shows "\<exists>s1 s2. kmalloc_unmark_block p ord (pga w) = Some s1 \<and> page_free p ord s1 = Some s2
    \<and> kmalloc_inv (L - {(p, ord)}) (w\<lparr>pga := s2\<rparr>) \<and> live_objs (w\<lparr>pga := s2\<rparr>) = live_objs w"
proof -
  let ?f = "\<lambda>pg. pg\<lparr>pg_flags := pg_flags pg AND NOT PAGE_FLAGS_KMALLOC\<rparr>" let ?L = "L - {(p, ord)}"
  let ?F = "(\<Union>sb \<in> slab_blocks w. block_of w sb) \<union> (\<Union>b \<in> ?L. block (fst b) (snd b))"
  note si = kmalloc_invD(1) [OF inv]
  have own: "owned_block (pga w) (p, ord)" using kmalloc_invD(5) [OF inv b] by (simp add: large_block_def)
  have "same_to_buddy pg (?f pg)" for pg by (rule same_to_buddy_marks(3)) simp
  from owned_marked [of ?f, OF this slab_invD(1) [OF si] own] obtain s1 where
    s1: "kmalloc_unmark_block p ord (pga w) = Some s1" "pages_marked (block p ord) ?f (pga w) s1" "owned_block s1 (p, ord)"
    unfolding kmalloc_unmark_block_def by blast
  have "block_of w sb \<subseteq> marked (pga w)" if "sb \<in> slab_blocks w" for sb by (rule block_of_marked [OF si that])
  moreover have "block (fst b) (snd b) \<subseteq> marked (pga w)" if "b \<in> ?L" for b
    using large_block_marked [OF kmalloc_invD(5) [OF inv]] that by blast
  ultimately have "?F \<subseteq> marked (pga w)" by blast
  then have F: "?F \<inter> free_frames (pga w) = {}" "?F \<subseteq> {..<length (mem_map (pga w))}" by (auto simp: marked_def)
  have "block_of w sb \<inter> block p ord = {}" if "sb \<in> slab_blocks w" for sb using kmalloc_invD(7) [OF inv b that] by auto
  moreover have "block (fst b') (snd b') \<inter> block p ord = {}" if "b' \<in> ?L" for b'
    using kmalloc_invD(6) [OF inv b, of b'] that by (auto simp: blocks_apart_def)
  ultimately have dj: "?F \<inter> block p ord = {}" by blast
  note k1 = pages_marked_kept [OF s1(2) dj F]
  have "?F \<inter> free_frames s1 = {}" "pg_inv s1" using F(1) s1(2) by (simp_all add: pages_marked_def)
  from page_free_kept [OF this(2) s1(3) this(1) dj] obtain s2 where
    s2: "page_free p ord s1 = Some s2" "pg_inv s2" "frames_kept ?F s1 s2" by blast
  have "kmalloc_inv ?L (w\<lparr>pga := s2\<rparr>)" "live_objs (w\<lparr>pga := s2\<rparr>) = live_objs w"
    by (rule kmalloc_inv_frames [OF inv _ s2(2) frames_kept_trans [OF k1 s2(3)]]; blast)+
  with s1(1) s2(1) show ?thesis by blast
qed

lemma kfree_large:
  assumes inv: "kmalloc_inv L w" and b: "(p, ord) \<in> L"
  shows "\<exists>w'. kfree (block_base p) w = Some w' \<and> kmalloc_inv (L - {(p, ord)}) w'
    \<and> kptrs (L - {(p, ord)}) w' = kptrs L w - {(block_base p, PAGE_SIZE * 2 ^ ord)}"
proof -
  let ?a = "block_base p"
  note si = kmalloc_invD(1) [OF inv]
  have lb: "large_block (pga w) (p, ord)" by (rule kmalloc_invD(5) [OF inv b])
  then have bo: "block_ok (pga w) p ord" "flag_set (pg_flags (mem_map (pga w) ! p)) PAGE_FLAGS_HEAD"
    by (simp_all add: large_block_def owned_block_def head_flags_def)
  note p = block_ok_lt [OF bo(1)]
  have pg: "\<not> flag_set (pg_flags (mem_map (pga w) ! p)) PAGE_FLAGS_SLAB"
    "flag_set (pg_flags (mem_map (pga w) ! p)) PAGE_FLAGS_KMALLOC" "buddy_page_order (mem_map (pga w) ! p) = ord"
    using lb by (simp_all add: large_block_def block_def)
  have "Suc p * PAGE_SIZE \<le> length (mem_map (pga w)) * PAGE_SIZE" using p by (intro mult_le_mono1) simp
  then have "mapped (pga w) ?a 1" by (simp add: mapped_def block_base_def PAGE_SIZE_def)
  from virt_to_page_eq [OF slab_invD(2) [OF si] this] have v: "virt_to_page (pga w) ?a = p"
    by (simp add: block_base_def PAGE_SIZE_def)
  have "?a \<noteq> 0" by (simp add: block_base_def PAGE_OFFSET_def)
  moreover from free_large [OF inv b] obtain s1 s2 where
    s: "kmalloc_unmark_block p ord (pga w) = Some s1" "page_free p ord s1 = Some s2"
      "kmalloc_inv (L - {(p, ord)}) (w\<lparr>pga := s2\<rparr>)" "live_objs (w\<lparr>pga := s2\<rparr>) = live_objs w" by blast
  moreover have "kmalloc_block_head p ord = p" using bo(1) by (simp add: block_ok_def kmalloc_block_head_aligned)
  ultimately have kf: "kfree ?a w = Some (w\<lparr>pga := s2\<rparr>)"
    using p pg bo(2) by (simp add: kfree_def v nth_opt_in on_pga_def)
  have "q = p" if "(q, ord') \<in> L" "?a = block_base q" for q ord'
    using that by (simp add: block_base_def PAGE_SIZE_def)
  moreover have "ord' = ord" if "(p, ord') \<in> L" for ord'
    using large_apart [of p ord p ord'] kmalloc_invD(6) [OF inv b that] by (cases "ord' = ord") (auto simp: PAGE_SIZE_def)
  moreover have "(?a, PAGE_SIZE * 2 ^ ord) \<noteq> (x, sa_size (caches w ! c))" if "x \<in> live_objs w c" for x c
    using slab_large_apart [OF inv that b] by (auto simp: PAGE_SIZE_def)
  ultimately have "kptrs (L - {(p, ord)}) w = kptrs L w - {(?a, PAGE_SIZE * 2 ^ ord)}"
    unfolding kptrs_def by fastforce
  then show ?thesis using kf s(3) kptrs_large(1) [of "w\<lparr>pga := s2\<rparr>" w, OF s(4)] by simp
qed

section \<open>Setting up\<close>

lemma kmalloc_init_from_ok:
  assumes "slab_inv w" "reclaim_spares shrink" "i + length szs \<le> length (caches w)"
    and "\<And>j. i \<le> j \<Longrightarrow> j < i + length szs \<Longrightarrow> sa_list (caches w ! j) = []"
    and "\<And>sz. sz \<in> set szs \<Longrightarrow> 0 < sz \<and> sz \<le> 2 ^ 63 \<and> fst (slab_geometry sz 16) \<le> PAGE_SIZE * 2 ^ PAGE_ORDER_MAX"
  shows "\<exists>w'. kmalloc_init_from shrink i szs w = Some w' \<and> slab_inv w' \<and> length (caches w') = length (caches w)
    \<and> live_objs w' = live_objs w \<and> (\<forall>d < i. caches w' ! d = caches w ! d)
    \<and> (\<forall>j < length szs. cache_ok (caches w' ! (i + j)) \<and> szs ! j \<le> sa_size (caches w' ! (i + j)))"
  using assms
proof (induction szs arbitrary: i w)
  case (Cons sz szs)
  have sz: "0 < sz" "sz \<le> 2 ^ 63" "fst (slab_geometry sz 16) \<le> PAGE_SIZE * 2 ^ PAGE_ORDER_MAX" using Cons.prems(5) by auto
  have "i < length (caches w)" "sa_list (caches w ! i) = []" using Cons.prems(3,4) by auto
  from slab_init_ok [OF Cons.prems(1) this sz(1,2) _ _ sz(3) Cons.prems(2)] obtain r w1 where
    w1: "slab_init shrink i sz 16 w = Some (r, w1)" "cache_ready shrink i w1" "sz \<le> sa_size (caches w1 ! i)"
      "live_objs w1 = live_objs w" "length (caches w1) = length (caches w)" "\<And>d. d \<noteq> i \<Longrightarrow> caches w1 ! d = caches w ! d"
    by auto
  have "\<exists>w'. kmalloc_init_from shrink (Suc i) szs w1 = Some w' \<and> slab_inv w' \<and> length (caches w') = length (caches w1)
    \<and> live_objs w' = live_objs w1 \<and> (\<forall>d < Suc i. caches w' ! d = caches w1 ! d)
    \<and> (\<forall>j < length szs. cache_ok (caches w' ! (Suc i + j)) \<and> szs ! j \<le> sa_size (caches w' ! (Suc i + j)))"
    using w1 Cons.prems by (intro Cons.IH) (auto simp: cache_ready_def)
  then obtain w' where w': "kmalloc_init_from shrink (Suc i) szs w1 = Some w'" "slab_inv w'" "length (caches w') = length (caches w)"
    "live_objs w' = live_objs w" "\<And>d. d < Suc i \<Longrightarrow> caches w' ! d = caches w1 ! d"
    "\<And>j. j < length szs \<Longrightarrow> cache_ok (caches w' ! (Suc i + j)) \<and> szs ! j \<le> sa_size (caches w' ! (Suc i + j))"
    using w1(4,5) by auto
  have "cache_ok (caches w' ! (i + j)) \<and> (sz # szs) ! j \<le> sa_size (caches w' ! (i + j))" if "j < length (sz # szs)" for j
    using that w'(5) [of i] w'(6) [of "j - 1"] w1(2,3) by (cases j) (auto simp: cache_ready_def)
  then show ?case using w1(1,6) w'(1-5) by auto
qed simp

lemma kmalloc_init_ok:
  assumes "slab_inv w" "reclaim_spares shrink" "NR_KMALLOC_ALLOCATORS \<le> length (caches w)"
    and "\<And>j. j < NR_KMALLOC_ALLOCATORS \<Longrightarrow> sa_list (caches w ! j) = []"
  shows "\<exists>w'. kmalloc_init shrink w = Some w' \<and> kmalloc_inv {} w' \<and> kptrs {} w' = {}"
proof -
  define szs :: "nat list" where "szs = [8, 16, 32, 64, 128, 256, 512, 1024, 2048, 4096]"
  have len: "length szs = NR_KMALLOC_ALLOCATORS" by (simp add: szs_def NR_KMALLOC_ALLOCATORS_def)
  have "0 < sz \<and> sz \<le> 2 ^ 63 \<and> fst (slab_geometry sz 16) \<le> PAGE_SIZE * 2 ^ PAGE_ORDER_MAX" if "sz \<in> set szs" for sz
    using that
    by (auto simp: szs_def slab_geometry_def is_power_of_two_def is_aligned_def round_up_def round_down_def layout_simps)
  with assms kmalloc_init_from_ok [of w shrink 0 szs] obtain w' where
    w': "kmalloc_init shrink w = Some w'" "slab_inv w'" "length (caches w') = length (caches w)" "live_objs w' = live_objs w"
      "\<And>j. j < length szs \<Longrightarrow> cache_ok (caches w' ! j) \<and> szs ! j \<le> sa_size (caches w' ! j)"
    by (auto simp: kmalloc_init_def szs_def [symmetric] len)
  have "szs = map (\<lambda>i. 2 ^ (i + 3)) [0..<NR_KMALLOC_ALLOCATORS]"
    by (simp add: szs_def NR_KMALLOC_ALLOCATORS_def upt_rec)
  then have "szs ! i = 2 ^ (i + 3)" if "i < NR_KMALLOC_ALLOCATORS" for i using that by simp
  then have "cache_ok (caches w' ! i) \<and> 2 ^ (i + 3) \<le> sa_size (caches w' ! i)" if "i < NR_KMALLOC_ALLOCATORS" for i
    using w'(5) [of i] that by (simp add: len)
  with w'(2,3) assms(3) have "kmalloc_inv {} w'" by (simp add: kmalloc_inv_def)
  moreover have "live_objs w c = {}" if "c < NR_KMALLOC_ALLOCATORS" for c
    using assms(4) [OF that] by (auto simp: live_objs_def slab_blocks_def)
  then have "kptrs {} w' = {}" by (auto simp: kptrs_def w'(4))
  ultimately show ?thesis using w'(1) by blast
qed

definition boot_world :: "pgalloc \<Rightarrow> slab_world" where
  "boot_world s = (fresh_world s)\<lparr>caches := replicate NR_KMALLOC_ALLOCATORS \<lparr>sa_size = 0, sa_align = 0, sa_order = 0, sa_list = []\<rparr>\<rparr>"

lemma boot_world_ready:
  "\<exists>s w. page_free 0 PAGE_ORDER_MAX one_block = Some s \<and> kmalloc_init (\<lambda>_ s. Some s) (boot_world s) = Some w
     \<and> kmalloc_inv {} w \<and> kptrs {} w = {}"
proof -
  obtain s where s: "page_free 0 PAGE_ORDER_MAX one_block = Some s" "pg_inv s" "length (mem_map s) = 2 ^ PAGE_ORDER_MAX"
    using one_block_freed by blast
  have "slab_blocks (boot_world s) = {}" by (auto simp: slab_blocks_def boot_world_def)
  with slab_invD(1,2) [OF fresh_world_inv(1) [OF s(2,3)]] have "slab_inv (boot_world s)"
    by (simp add: slab_inv_def) (simp add: boot_world_def)
  with kmalloc_init_ok [of "boot_world s", OF _ no_reclaim] s(1) show ?thesis by (auto simp: boot_world_def)
qed

section \<open>Properties\<close>



text \<open>
  C29: \<open>kfree\<close> of a pointer in use, from a cache or a block of pages, passes every check of the
  code, takes exactly that pointer out of the set of pointers in use, and keeps the invariant:
  no other block is given back or changed owner.
\<close>

theorem kfree_safe:
  assumes "kmalloc_inv L w" "(a, n) \<in> kptrs L w"
  shows "\<exists>w' L'. kfree a w = Some w' \<and> kmalloc_inv L' w' \<and> kptrs L' w' = kptrs L w - {(a, n)}"
proof -
  from assms(2) consider c where "c < NR_KMALLOC_ALLOCATORS" "a \<in> live_objs w c" "n = sa_size (caches w ! c)"
    | p ord where "(p, ord) \<in> L" "a = block_base p" "n = PAGE_SIZE * 2 ^ ord" by (auto simp: kptrs_def)
  then show ?thesis
  proof cases
    case 1
    with kfree_slab [OF assms(1) 1(1,2)] show ?thesis by auto
  next
    case 2
    with kfree_large [OF assms(1) 2(1)] show ?thesis by auto
  qed
qed

text \<open>A world whose memory is one block of pages that a client of \<open>kmalloc\<close> holds.\<close>

definition held_world :: "pgalloc \<Rightarrow> slab_world" where
  "held_world s = (fresh_world s)\<lparr>caches := map (\<lambda>i. \<lparr>sa_size = 2 ^ (i + 3), sa_align = 8, sa_order = 0, sa_list = []\<rparr>)
     [0..<NR_KMALLOC_ALLOCATORS]\<rparr>"

lemma held_world_inv:
  assumes "pg_inv s" "length (mem_map s) = 2 ^ PAGE_ORDER_MAX" "large_block s b"
  shows "kmalloc_inv {b} (held_world s)"
proof -
  have sb: "slab_blocks (held_world s) = {}" by (auto simp: slab_blocks_def held_world_def)
  have "linear_ok s" by (rule slab_invD(2) [OF fresh_world_inv(1) [OF assms(1,2)], unfolded fresh_world_def, simplified])
  with sb assms(1) have "slab_inv (held_world s)" by (simp add: slab_inv_def) (simp add: held_world_def fresh_world_def)
  moreover have "cache_ok \<lparr>sa_size = 2 ^ (i + 3), sa_align = 8, sa_order = 0, sa_list = []\<rparr>" if "i < NR_KMALLOC_ALLOCATORS" for i
  proof -
    have "(2 :: nat) ^ i \<le> 2 ^ 9" using that by (intro power_increasing) (simp_all add: NR_KMALLOC_ALLOCATORS_def)
    then show ?thesis by (auto simp: cache_ok_def block_bytes_def PAGE_SIZE_def power_add intro!: exI [of _ 3])
  qed
  ultimately show ?thesis
    using assms(3) sb by (simp add: kmalloc_inv_def) (simp add: held_world_def fresh_world_def)
qed

theorem kfree_safe_witness:
  "\<exists>s w. kmalloc_mark_block 0 PAGE_ORDER_MAX one_block = Some s \<and> kfree (block_base 0) (held_world s) = Some w"
proof -
  have l: "(0 :: nat) < 2 ^ PAGE_ORDER_MAX" by simp
  have "owned_block one_block (0, PAGE_ORDER_MAX)" using one_block_inv by (simp add: owned_block_def)
  moreover have "pg_flags (mem_map one_block ! 0) = PAGE_FLAGS_NEW_PAGE" using l by (simp add: one_block_def page_alloc_init_def)
  ultimately obtain s where s: "kmalloc_mark_block 0 PAGE_ORDER_MAX one_block = Some s" "pg_inv s" "large_block s (0, PAGE_ORDER_MAX)"
      "frames_kept {} one_block s"
    using kmalloc_block_ok [OF one_block_inv(1), of 0 PAGE_ORDER_MAX] by (auto simp: PAGE_ORDER_MAX_def)
  have "length (mem_map s) = 2 ^ PAGE_ORDER_MAX" using s(4) one_block_length by (simp add: frames_kept_def)
  note i = held_world_inv [OF s(2) this s(3)]
  have "(block_base 0, PAGE_SIZE * 2 ^ PAGE_ORDER_MAX) \<in> kptrs {(0, PAGE_ORDER_MAX)} (held_world s)" by (simp add: kptrs_def)
  from kfree_safe [OF i this] s(1) show ?thesis by blast
qed

text \<open>
  C30: A request above 16 MiB is served as a request for 16 MiB: \<open>page_order\<close> stops at the
  largest order, so \<open>kmalloc\<close> returns a block that is smaller than what was asked for instead
  of failing.
\<close>

theorem kmalloc_above_limit:
  assumes "PAGE_SIZE * 2 ^ PAGE_ORDER_MAX < sz"
  shows "kmalloc shrink sz w = kmalloc shrink (PAGE_SIZE * 2 ^ PAGE_ORDER_MAX) w"
proof -
  let ?m = "PAGE_SIZE * 2 ^ PAGE_ORDER_MAX :: nat"
  have "page_order sz = PAGE_ORDER_MAX" "page_order ?m = PAGE_ORDER_MAX"
    using page_order_from_large [OF assms, of 0] page_order_ok [of ?m]
    by (simp_all add: page_order_def PAGE_SIZE_def)
  moreover have "kmalloc_allocator_index sz = None" "kmalloc_allocator_index ?m = None" "sz \<noteq> 0" "?m \<noteq> 0"
    using assms by (simp_all add: kmalloc_allocator_index_def PAGE_SIZE_def PAGE_ORDER_MAX_def)
  ultimately show ?thesis by (simp add: kmalloc_def)
qed

theorem kmalloc_above_limit_witness:
  "kmalloc (\<lambda>_ s. Some s) 16777217 (boot_world one_block)
     = kmalloc (\<lambda>_ s. Some s) (PAGE_SIZE * 2 ^ PAGE_ORDER_MAX) (boot_world one_block)"
  by (rule kmalloc_above_limit) (simp add: PAGE_SIZE_def PAGE_ORDER_MAX_def)

end
