(* ===== verification/Pgtable.thy ===== *)
theory Pgtable
  imports Pgalloc
begin

text \<open>
  Page tables: the Sv39 entries of \<open>src/src/riscv/include/arch/pgtable.h\<close> and the mapping and unmapping
  of ranges in \<open>src/src/mm/mm.c\<close>. A table is known by its physical address, so that the \<open>phys_to_virt\<close>
  of a mapping context drops out; \<open>alloc_frame\<close> is an argument, as it is a function pointer in the code.
  Entries are below \<open>2 ^ 64\<close> and none of the shifts that build them loses bits, so they are natural
  numbers like the addresses.
\<close>

section \<open>Entries\<close>

definition PTE_V :: nat where "PTE_V = 1"
definition PTE_R :: nat where "PTE_R = 2"
definition PTE_W :: nat where "PTE_W = 4"
definition PTE_X :: nat where "PTE_X = 8"
definition PTE_U :: nat where "PTE_U = 16"
definition PTE_COW :: nat where "PTE_COW = 256"

definition PGD_SHIFT :: nat where "PGD_SHIFT = 30"
definition PMD_SHIFT :: nat where "PMD_SHIFT = 21"
definition PTE_SHIFT :: nat where "PTE_SHIFT = 12"
definition PTRS_PER_TABLE :: nat where "PTRS_PER_TABLE = 512"
definition PGD_FLAGS_MASK :: nat where "PGD_FLAGS_MASK = 1023"
definition PAGE_SIZE_2M :: nat where "PAGE_SIZE_2M = 0x200000"
definition PAGE_SIZE_1G :: nat where "PAGE_SIZE_1G = 0x40000000"

text \<open>The three levels have the same flags; a table's entry that is valid with no other flag points to the next level.\<close>

definition pgd_flags :: "nat \<Rightarrow> nat" where
  "pgd_flags e = e AND PGD_FLAGS_MASK"

definition pgd_is_valid :: "nat \<Rightarrow> bool" where
  "pgd_is_valid e \<longleftrightarrow> pgd_flags e AND PTE_V \<noteq> 0"

definition pgd_is_leaf :: "nat \<Rightarrow> bool" where
  "pgd_is_leaf e \<longleftrightarrow> pgd_is_valid e \<and> pgd_flags e \<noteq> PTE_V"

definition pgd_index :: "nat \<Rightarrow> nat" where
  "pgd_index vaddr = drop_bit PGD_SHIFT vaddr AND (PTRS_PER_TABLE - 1)"

definition pgd_set_next :: "nat \<Rightarrow> nat" where
  "pgd_set_next pmd_phys = push_bit 10 (drop_bit PTE_SHIFT pmd_phys) OR PTE_V"

definition pgd_set_leaf :: "nat \<Rightarrow> nat \<Rightarrow> nat" where
  "pgd_set_leaf phys flags = push_bit 28 (drop_bit PGD_SHIFT phys) OR PTE_V OR flags"

definition pgd_next :: "nat \<Rightarrow> nat" where
  "pgd_next e = push_bit PTE_SHIFT (drop_bit 10 e)"

definition pgd_leaf :: "nat \<Rightarrow> nat" where
  "pgd_leaf e = push_bit PGD_SHIFT (drop_bit 28 e)"

definition pmd_index :: "nat \<Rightarrow> nat" where
  "pmd_index vaddr = drop_bit PMD_SHIFT vaddr AND (PTRS_PER_TABLE - 1)"

definition pmd_set_leaf :: "nat \<Rightarrow> nat \<Rightarrow> nat" where
  "pmd_set_leaf phys flags = push_bit 19 (drop_bit PMD_SHIFT phys) OR PTE_V OR flags"

definition pmd_leaf :: "nat \<Rightarrow> nat" where
  "pmd_leaf e = push_bit PMD_SHIFT (drop_bit 19 e)"

definition pte_index :: "nat \<Rightarrow> nat" where
  "pte_index vaddr = drop_bit PTE_SHIFT vaddr AND (PTRS_PER_TABLE - 1)"

definition pte_set_leaf :: "nat \<Rightarrow> nat \<Rightarrow> nat" where
  "pte_set_leaf phys flags = push_bit 10 (drop_bit PTE_SHIFT phys) OR PTE_V OR flags"

definition pte_leaf :: "nat \<Rightarrow> nat" where
  "pte_leaf e = push_bit PTE_SHIFT (drop_bit 10 e)"

section \<open>Ranges\<close>

text \<open>The tables in memory, by physical address and index.\<close>

type_synonym ptmem = "nat \<Rightarrow> nat \<Rightarrow> nat"

definition set_entry :: "nat \<Rightarrow> nat \<Rightarrow> nat \<Rightarrow> ptmem \<Rightarrow> ptmem" where
  "set_entry tb i e m = m(tb := (m tb)(i := e))"

fun unmap_range :: "nat \<Rightarrow> nat \<Rightarrow> nat \<Rightarrow> nat \<Rightarrow> ptmem \<Rightarrow> ptmem option" where
  "unmap_range 0 addr end_addr root m = (if addr < end_addr then None else Some m)"
| "unmap_range (Suc n) addr end_addr root m =
     (if \<not> addr < end_addr then Some m
      else (let pgde = m root (pgd_index addr) in
        if pgd_is_leaf pgde then do {
          _ \<leftarrow> assert_opt (end_addr - addr \<ge> PAGE_SIZE_1G);
          unmap_range n (wrap64 (addr + PAGE_SIZE_1G)) end_addr root (set_entry root (pgd_index addr) 0 m) }
        else do {
          _ \<leftarrow> assert_opt (pgd_is_valid pgde);
          let pmd = pgd_next pgde; pmde = m pmd (pmd_index addr) in
          if pgd_is_leaf pmde then do {
            _ \<leftarrow> assert_opt (end_addr - addr \<ge> PAGE_SIZE_2M);
            unmap_range n (wrap64 (addr + PAGE_SIZE_2M)) end_addr root (set_entry pmd (pmd_index addr) 0 m) }
          else do {
            _ \<leftarrow> assert_opt (pgd_is_valid pmde);
            let pt = pgd_next pmde in do {
              _ \<leftarrow> assert_opt (pgd_is_valid (m pt (pte_index addr)));
              unmap_range n (wrap64 (addr + PAGE_SIZE)) end_addr root (set_entry pt (pte_index addr) 0 m) } } }))"

text \<open>One round takes at least a page, so that this fuel is enough.\<close>

definition do_unmap_range :: "nat \<Rightarrow> nat \<Rightarrow> nat \<Rightarrow> ptmem \<Rightarrow> ptmem option" where
  "do_unmap_range addr end_addr root m = unmap_range ((end_addr - addr) div PAGE_SIZE + 1) addr end_addr root m"

text \<open>The table an entry points to, made first when there is none. \<open>None\<close> in the result stands for failure.\<close>

definition next_table :: "('s \<Rightarrow> (nat \<times> 's) option) \<Rightarrow> nat \<Rightarrow> nat \<Rightarrow> ptmem \<Rightarrow> 's \<Rightarrow> (nat option \<times> ptmem \<times> 's) option" where
  "next_table alloc_frame tb i m s =
     (if pgd_is_valid (m tb i) then Some (Some (pgd_next (m tb i)), m, s)
      else do {
        (pa, s) \<leftarrow> alloc_frame s;
        Some (if pa = 0 then (None, m, s)
          else (Some pa, set_entry tb i (pgd_set_next pa) (m(pa := (\<lambda>_. 0))), s)) })"

text \<open>The body of the loop of \<open>map_fixed_size_pages\<close>; the flag says whether all tables were there or could be made.\<close>

definition map_one :: "('s \<Rightarrow> (nat \<times> 's) option) \<Rightarrow> nat \<Rightarrow> nat \<Rightarrow> nat \<Rightarrow> nat \<Rightarrow> nat \<Rightarrow> ptmem \<Rightarrow> 's \<Rightarrow> (bool \<times> ptmem \<times> 's) option" where
  "map_one alloc_frame root flags page_size addr paddr m s =
     (if page_size = PAGE_SIZE_1G then do {
        _ \<leftarrow> assert_opt (\<not> pgd_is_valid (m root (pgd_index addr)));
        Some (True, set_entry root (pgd_index addr) (pgd_set_leaf paddr flags) m, s) }
      else do {
        (pmd, m, s) \<leftarrow> next_table alloc_frame root (pgd_index addr) m s;
        (case pmd of
           None \<Rightarrow> Some (False, m, s)
         | Some pmd \<Rightarrow>
             if page_size = PAGE_SIZE_2M then do {
               _ \<leftarrow> assert_opt (\<not> pgd_is_valid (m pmd (pmd_index addr)));
               Some (True, set_entry pmd (pmd_index addr) (pmd_set_leaf paddr flags) m, s) }
             else do {
               (pt, m, s) \<leftarrow> next_table alloc_frame pmd (pmd_index addr) m s;
               (case pt of
                  None \<Rightarrow> Some (False, m, s)
                | Some pt \<Rightarrow> do {
                    _ \<leftarrow> assert_opt (\<not> pgd_is_valid (m pt (pte_index addr)));
                    Some (True, set_entry pt (pte_index addr) (pte_set_leaf paddr flags) m, s) }) }) })"

fun map_fixed :: "nat \<Rightarrow> ('s \<Rightarrow> (nat \<times> 's) option) \<Rightarrow> nat \<Rightarrow> nat \<Rightarrow> nat \<Rightarrow> nat \<Rightarrow> nat \<Rightarrow> nat \<Rightarrow> nat \<Rightarrow> ptmem \<Rightarrow> 's
    \<Rightarrow> ((errno + unit) \<times> ptmem \<times> 's) option" where
  "map_fixed 0 alloc_frame root flags page_size start_addr end_addr addr paddr m s =
     (if addr < end_addr then None else Some (Inr (), m, s))"
| "map_fixed (Suc n) alloc_frame root flags page_size start_addr end_addr addr paddr m s =
     (if \<not> addr < end_addr then Some (Inr (), m, s)
      else do {
        (ok, m, s) \<leftarrow> map_one alloc_frame root flags page_size addr paddr m s;
        if ok then map_fixed n alloc_frame root flags page_size start_addr end_addr
          (wrap64 (addr + page_size)) (wrap64 (paddr + page_size)) m s
        else do { m \<leftarrow> do_unmap_range start_addr addr root m; Some (Inl ENOMEM, m, s) } })"

definition map_fixed_size_pages :: "('s \<Rightarrow> (nat \<times> 's) option) \<Rightarrow> nat \<Rightarrow> nat \<Rightarrow> nat \<Rightarrow> nat \<Rightarrow> nat \<Rightarrow> nat \<Rightarrow> ptmem \<Rightarrow> 's
    \<Rightarrow> ((errno + unit) \<times> ptmem \<times> 's) option" where
  "map_fixed_size_pages alloc_frame root flags addr paddr sz page_size m s =
     map_fixed (sz div page_size + 1) alloc_frame root flags page_size addr (wrap64 (addr + sz)) addr paddr m s"

definition chunk :: "nat \<Rightarrow> nat \<Rightarrow> nat \<Rightarrow> nat \<times> nat" where
  "chunk addr paddr rem_size =
     (if is_aligned addr PAGE_SIZE_1G \<and> is_aligned paddr PAGE_SIZE_1G \<and> rem_size \<ge> PAGE_SIZE_1G
      then (PAGE_SIZE_1G, round_down rem_size PAGE_SIZE_1G)
      else if is_aligned addr PAGE_SIZE_2M \<and> is_aligned paddr PAGE_SIZE_2M \<and> rem_size \<ge> PAGE_SIZE_2M
      then (PAGE_SIZE_2M, round_down rem_size PAGE_SIZE_2M)
      else (PAGE_SIZE, round_down rem_size PAGE_SIZE))"

text \<open>A chunk of a smaller page size follows one of a larger size at most, and 4 KiB pages take all the rest: three rounds.\<close>

fun map_chunks :: "nat \<Rightarrow> ('s \<Rightarrow> (nat \<times> 's) option) \<Rightarrow> nat \<Rightarrow> nat \<Rightarrow> nat \<Rightarrow> nat \<Rightarrow> nat \<Rightarrow> ptmem \<Rightarrow> 's
    \<Rightarrow> ((errno + unit) \<times> ptmem \<times> 's) option" where
  "map_chunks 0 alloc_frame root flags end_addr addr paddr m s = (if addr < end_addr then None else Some (Inr (), m, s))"
| "map_chunks (Suc n) alloc_frame root flags end_addr addr paddr m s =
     (if \<not> addr < end_addr then Some (Inr (), m, s)
      else (let (page_size, rem_size) = chunk addr paddr (end_addr - addr) in do {
        (r, m, s) \<leftarrow> map_fixed_size_pages alloc_frame root flags addr paddr rem_size page_size m s;
        (case r of
           Inl e \<Rightarrow> Some (Inl e, m, s)
         | Inr _ \<Rightarrow> map_chunks n alloc_frame root flags end_addr (wrap64 (addr + rem_size)) (wrap64 (paddr + rem_size)) m s) }))"

definition map_pages :: "('s \<Rightarrow> (nat \<times> 's) option) \<Rightarrow> nat \<Rightarrow> nat \<Rightarrow> nat \<Rightarrow> nat \<Rightarrow> nat \<Rightarrow> ptmem \<Rightarrow> 's \<Rightarrow> ((errno + unit) \<times> ptmem \<times> 's) option" where
  "map_pages alloc_frame root addr paddr sz flags m s = do {
     _ \<leftarrow> assert_opt (is_aligned addr PAGE_SIZE);
     _ \<leftarrow> assert_opt (is_aligned sz PAGE_SIZE);
     _ \<leftarrow> assert_opt (is_aligned paddr PAGE_SIZE);
     map_chunks 3 alloc_frame root flags (wrap64 (addr + sz)) addr paddr m s }"

definition unmap_pages :: "nat \<Rightarrow> nat \<Rightarrow> nat \<Rightarrow> ptmem \<Rightarrow> ptmem option" where
  "unmap_pages root addr sz m = do {
     _ \<leftarrow> assert_opt (is_aligned addr PAGE_SIZE);
     _ \<leftarrow> assert_opt (is_aligned sz PAGE_SIZE);
     do_unmap_range addr (wrap64 (addr + sz)) root m }"

text \<open>Tables come from the page allocator; \<open>shrink\<close> is the reclaimer it calls.\<close>

definition alloc_pgtable_frame :: "(nat \<Rightarrow> pgalloc \<Rightarrow> pgalloc option) \<Rightarrow> pgalloc \<Rightarrow> (nat \<times> pgalloc) option" where
  "alloc_pgtable_frame shrink s = do {
     (pg, s) \<leftarrow> page_alloc shrink 0 s;
     Some (case pg of None \<Rightarrow> 0 | Some pg \<Rightarrow> pfn_to_phys s pg, s) }"

definition map_pages_final :: "(nat \<Rightarrow> pgalloc \<Rightarrow> pgalloc option) \<Rightarrow> nat \<Rightarrow> nat \<Rightarrow> nat \<Rightarrow> nat \<Rightarrow> nat \<Rightarrow> ptmem \<Rightarrow> pgalloc
    \<Rightarrow> ((errno + unit) \<times> ptmem \<times> pgalloc) option" where
  "map_pages_final shrink root addr sz paddr flags m s = map_pages (alloc_pgtable_frame shrink) root addr paddr sz flags m s"

definition map_user_pages :: "(nat \<Rightarrow> pgalloc \<Rightarrow> pgalloc option) \<Rightarrow> nat \<Rightarrow> nat \<Rightarrow> nat \<Rightarrow> nat \<Rightarrow> nat \<Rightarrow> ptmem \<Rightarrow> pgalloc
    \<Rightarrow> ((errno + unit) \<times> ptmem \<times> pgalloc) option" where
  "map_user_pages shrink root addr sz paddr flags m s =
     map_pages_final shrink root addr (round_up sz PAGE_SIZE) paddr (flags OR PTE_U) m s"

definition unmap_user_pages :: "nat \<Rightarrow> nat \<Rightarrow> nat \<Rightarrow> ptmem \<Rightarrow> ptmem option" where
  "unmap_user_pages root addr sz m = unmap_pages root addr sz m"

definition map_kernel_pages :: "(nat \<Rightarrow> pgalloc \<Rightarrow> pgalloc option) \<Rightarrow> nat \<Rightarrow> nat \<Rightarrow> nat \<Rightarrow> nat \<Rightarrow> nat \<Rightarrow> ptmem \<Rightarrow> pgalloc
    \<Rightarrow> ((errno + unit) \<times> ptmem \<times> pgalloc) option" where
  "map_kernel_pages shrink root addr sz paddr flags m s =
     map_pages_final shrink root addr (round_up sz PAGE_SIZE) paddr flags m s"

definition unmap_kernel_pages :: "nat \<Rightarrow> nat \<Rightarrow> nat \<Rightarrow> ptmem \<Rightarrow> ptmem option" where
  "unmap_kernel_pages root addr sz m = unmap_pages root addr sz m"

section \<open>Single pages of user space\<close>

text \<open>The place of the valid 4 KiB entry for an address, if there is one: table and index.\<close>

definition lookup_pte :: "nat \<Rightarrow> nat \<Rightarrow> ptmem \<Rightarrow> (nat \<times> nat) option" where
  "lookup_pte root addr m = (let pgde = m root (pgd_index addr) in
     if \<not> pgd_is_valid pgde \<or> pgd_is_leaf pgde then None
     else (let pmde = m (pgd_next pgde) (pmd_index addr) in
       if \<not> pgd_is_valid pmde \<or> pgd_is_leaf pmde then None
       else (let pt = pgd_next pmde in
         if \<not> pgd_is_valid (m pt (pte_index addr)) then None else Some (pt, pte_index addr))))"

definition uvm_page_is_mapped :: "nat \<Rightarrow> nat \<Rightarrow> ptmem \<Rightarrow> bool" where
  "uvm_page_is_mapped root addr m \<longleftrightarrow> lookup_pte root addr m \<noteq> None"

definition update_present_pte :: "nat \<Rightarrow> nat \<Rightarrow> nat \<Rightarrow> ptmem \<Rightarrow> bool \<times> ptmem" where
  "update_present_pte root addr flags m = (case lookup_pte root addr m of
     None \<Rightarrow> (False, m)
   | Some (pt, i) \<Rightarrow>
       (let flags = (if pgd_flags (m pt i) AND PTE_COW \<noteq> 0 then flags - (flags AND PTE_W) OR PTE_COW else flags) in
        (True, set_entry pt i (if flags AND (PTE_R OR PTE_W OR PTE_X) \<noteq> 0
           then pte_set_leaf (pte_leaf (m pt i)) (flags OR PTE_U) else 0) m)))"

definition uvm_cow_protect :: "nat \<Rightarrow> nat \<Rightarrow> ptmem \<Rightarrow> (errno + unit) \<times> ptmem" where
  "uvm_cow_protect root addr m = (case lookup_pte root addr m of
     None \<Rightarrow> (Inl ENOENT, m)
   | Some (pt, i) \<Rightarrow>
       (let flags = pgd_flags (m pt i) in
        (Inr (), if flags AND PTE_COW = 0 \<or> flags AND PTE_W \<noteq> 0
           then set_entry pt i (pte_set_leaf (pte_leaf (m pt i)) (flags - (flags AND (PTE_W OR PTE_COW)) OR PTE_COW)) m else m)))"

definition uvm_pte_is_cow :: "nat \<Rightarrow> nat \<Rightarrow> ptmem \<Rightarrow> bool" where
  "uvm_pte_is_cow root addr m = (case lookup_pte root addr m of None \<Rightarrow> False | Some (pt, i) \<Rightarrow> pgd_flags (m pt i) AND PTE_COW \<noteq> 0)"

definition uvm_pte_flags :: "nat \<Rightarrow> nat \<Rightarrow> ptmem \<Rightarrow> errno + nat" where
  "uvm_pte_flags root addr m = (case lookup_pte root addr m of
     None \<Rightarrow> Inl ENOMEM
   | Some (pt, i) \<Rightarrow> Inr (pgd_flags (m pt i) AND (PTE_R OR PTE_W OR PTE_X)))"

end
