(* ===== verification/Pgtable_Walk.thy ===== *)
theory Pgtable_Walk
  imports Pgtable
begin

text \<open>
  What page tables mean: the walk the hardware does, the tree that the tables form, and what a
  change of one entry does to both.
\<close>

section \<open>Entries\<close>

lemma flags_mod: "pgd_flags e = e mod 1024"
  using take_bit_eq_mask [of 10 e] by (simp add: pgd_flags_def PGD_FLAGS_MASK_def take_bit_eq_mod mask_eq_exp_minus_1)

lemma valid_odd: "pgd_is_valid e \<longleftrightarrow> odd e"
proof -
  have "e mod 1024 AND 1 = e mod 1024 mod 2" by (metis and_one_eq)
  also have "\<dots> = e mod 2" by (simp add: mod_mod_cancel)
  finally show ?thesis by (simp add: pgd_is_valid_def flags_mod PTE_V_def odd_iff_mod_2_eq_one)
qed

lemma leaf_iff: "pgd_is_leaf e \<longleftrightarrow> odd e \<and> e mod 1024 \<noteq> 1"
  by (simp add: pgd_is_leaf_def valid_odd flags_mod PTE_V_def)

lemma invalid_zero [simp]: "\<not> pgd_is_valid 0" "\<not> pgd_is_leaf 0"
  by (simp_all add: valid_odd leaf_iff)

lemma or_low:
  fixes x f :: nat
  assumes "f < 2 ^ n"
  shows "(push_bit n x OR f) div 2 ^ n = x" "(push_bit n x OR f) mod 2 ^ n = f"
proof -
  have f: "drop_bit n f = 0" "take_bit n f = f" using assms by (simp_all add: drop_bit_eq_div take_bit_eq_mod)
  have "drop_bit n (push_bit n x) = x" by (simp add: drop_bit_eq_div push_bit_eq_mult)
  then have "drop_bit n (push_bit n x OR f) = x" using f by (simp add: drop_bit_or)
  then show "(push_bit n x OR f) div 2 ^ n = x" by (simp add: drop_bit_eq_div)
  have "take_bit n (push_bit n x OR f) = f" using f by (simp add: take_bit_or take_bit_push_bit)
  then show "(push_bit n x OR f) mod 2 ^ n = f" by (simp add: take_bit_eq_mod)
qed

definition leaf_flags :: "nat \<Rightarrow> bool" where
  "leaf_flags f \<longleftrightarrow> 2 \<le> f \<and> f < 1024"

lemma leaf_flags_or: "leaf_flags f \<Longrightarrow> PTE_V OR f < 1024 \<and> odd (PTE_V OR f) \<and> PTE_V OR f \<noteq> 1"
proof -
  assume f: "leaf_flags f"
  have eq: "PTE_V OR f = f + of_bool (even f)" unfolding PTE_V_def by (rule one_or_eq)
  have "f < 1023" if "even f" using f that by (auto simp: leaf_flags_def less_Suc_eq_le intro!: le_neq_implies_less)
  then show ?thesis using f unfolding eq by (auto simp: leaf_flags_def)
qed

lemma set_next_next: "4096 dvd pa \<Longrightarrow> pgd_next (pgd_set_next pa) = pa"
  using or_low(1) [of 1 10 "drop_bit 12 pa"]
  by (simp add: pgd_next_def pgd_set_next_def PTE_V_def PTE_SHIFT_def drop_bit_eq_div push_bit_eq_mult)

lemma set_next_dir: "pgd_is_valid (pgd_set_next pa)" "\<not> pgd_is_leaf (pgd_set_next pa)"
proof -
  have m: "pgd_set_next pa mod 1024 = 1" using or_low(2) [of 1 10 "drop_bit 12 pa"] by (simp add: pgd_set_next_def PTE_V_def PTE_SHIFT_def)
  then have "odd (pgd_set_next pa)" using dvd_mod_iff [of 2 1024 "pgd_set_next pa"] by simp
  then show "pgd_is_valid (pgd_set_next pa)" "\<not> pgd_is_leaf (pgd_set_next pa)" using m by (simp_all add: valid_odd leaf_iff)
qed

text \<open>A leaf entry at a level whose pages have \<open>2 ^ k\<close> bytes, for the three shifts of the entry formats.\<close>

lemma leaf_entry:
  fixes pa k f :: nat
  assumes "leaf_flags f" "k \<ge> 12"
  defines "e \<equiv> push_bit (k - 2) (drop_bit k pa) OR PTE_V OR f"
  shows "pgd_is_valid e" "pgd_is_leaf e" "pgd_flags e = PTE_V OR f" "2 ^ k dvd pa \<Longrightarrow> push_bit k (drop_bit (k - 2) e) = pa"
proof -
  note f = leaf_flags_or [OF assms(1)]
  have le: "(2 ^ 10 :: nat) \<le> 2 ^ (k - 2)" using assms(2) by (intro power_increasing) auto
  then have lt: "PTE_V OR f < 2 ^ (k - 2)" using f by simp
  have dv: "(1024 :: nat) dvd 2 ^ (k - 2)" using assms(2) le_imp_power_dvd [of 10 "k - 2" "2 :: nat"] by simp
  have m: "e mod 1024 = PTE_V OR f"
    using or_low(2) [OF lt, of "drop_bit k pa"] mod_mod_cancel [OF dv, of e] f by (simp add: e_def or.assoc)
  then have "odd e" using f dvd_mod_iff [of 2 1024 e] by simp
  then show "pgd_is_valid e" "pgd_is_leaf e" "pgd_flags e = PTE_V OR f" using m f by (simp_all add: valid_odd leaf_iff flags_mod)
  have "drop_bit (k - 2) e = drop_bit k pa" using or_low(1) [OF lt, of "drop_bit k pa"] by (simp add: e_def or.assoc drop_bit_eq_div)
  then show "2 ^ k dvd pa \<Longrightarrow> push_bit k (drop_bit (k - 2) e) = pa" by (simp add: drop_bit_eq_div push_bit_eq_mult)
qed

section \<open>Addresses\<close>

lemma index_mod: "pgd_index a = a div 2 ^ 30 mod 512" "pmd_index a = a div 2 ^ 21 mod 512" "pte_index a = a div 2 ^ 12 mod 512"
proof -
  have "x AND 511 = x mod (512 :: nat)" for x using take_bit_eq_mask [of 9 x] by (simp add: take_bit_eq_mod mask_eq_exp_minus_1)
  then show "pgd_index a = a div 2 ^ 30 mod 512" "pmd_index a = a div 2 ^ 21 mod 512" "pte_index a = a div 2 ^ 12 mod 512"
    by (simp_all add: pgd_index_def pmd_index_def pte_index_def PTRS_PER_TABLE_def PGD_SHIFT_def PMD_SHIFT_def PTE_SHIFT_def drop_bit_eq_div)
qed

text \<open>Addresses the hardware accepts: bits 39 to 63 repeat bit 38.\<close>

definition canon :: "nat \<Rightarrow> bool" where
  "canon a \<longleftrightarrow> a < 2 ^ 38 \<or> (2 ^ 64 - 2 ^ 38 \<le> a \<and> a < 2 ^ 64)"

text \<open>Whether the walk for two addresses ends in the same page of \<open>2 ^ k\<close> bytes.\<close>

definition same_block :: "nat \<Rightarrow> nat \<Rightarrow> nat \<Rightarrow> bool" where
  "same_block k a b \<longleftrightarrow> pgd_index a = pgd_index b \<and> (k < 30 \<longrightarrow> pmd_index a = pmd_index b) \<and> (k < 21 \<longrightarrow> pte_index a = pte_index b)"

lemma index_split: "a div 2 ^ 21 = 512 * (a div 2 ^ 30) + pmd_index a" "a div 2 ^ 12 = 512 * (a div 2 ^ 21) + pte_index a"
proof -
  have "a div 2 ^ 30 = a div 2 ^ 21 div 512" "a div 2 ^ 21 = a div 2 ^ 12 div 512" by (simp_all add: div_mult2_eq [symmetric])
  then show "a div 2 ^ 21 = 512 * (a div 2 ^ 30) + pmd_index a" "a div 2 ^ 12 = 512 * (a div 2 ^ 21) + pte_index a"
    unfolding index_mod by (simp_all add: mult.commute)
qed

lemma pgd_index_inj:
  assumes "canon a" "canon b"
  shows "pgd_index a = pgd_index b \<longleftrightarrow> a div 2 ^ 30 = b div 2 ^ 30"
proof -
  have r: "x div 2 ^ 30 < 256 \<or> 2 ^ 34 - 256 \<le> x div 2 ^ 30 \<and> x div 2 ^ 30 < 2 ^ 34" if "canon x" for x :: nat
  proof -
    have "x div 2 ^ 30 < 256" if "x < 2 ^ 38" using that by (simp add: less_mult_imp_div_less)
    moreover have "2 ^ 34 - 256 \<le> x div 2 ^ 30 \<and> x div 2 ^ 30 < 2 ^ 34" if "2 ^ 64 - 2 ^ 38 \<le> x" "x < 2 ^ 64"
      using div_le_mono [OF that(1), of "2 ^ 30"] that(2) by (simp add: less_mult_imp_div_less)
    ultimately show ?thesis using \<open>canon x\<close> by (auto simp: canon_def)
  qed
  have hi: "x mod 512 = x - (2 ^ 34 - 512)" if "2 ^ 34 - 256 \<le> x" "x < 2 ^ 34" for x :: nat
  proof -
    have "x = (x - (2 ^ 34 - 512)) + 512 * (2 ^ 25 - 1)" using that by simp
    then have "x mod 512 = (x - (2 ^ 34 - 512)) mod 512" by (metis mod_mult_self2)
    then show ?thesis using that by simp
  qed
  have "x mod 512 = y mod 512 \<longleftrightarrow> x = y" if "x < 256 \<or> 2 ^ 34 - 256 \<le> x \<and> x < 2 ^ 34" "y < 256 \<or> 2 ^ 34 - 256 \<le> y \<and> y < 2 ^ 34" for x y :: nat
    using that hi [of x] hi [of y] by auto
  from this [OF r [OF assms(1)] r [OF assms(2)]] show ?thesis by (simp add: index_mod)
qed

lemma same_block_iff:
  assumes "canon a" "canon b" "k \<in> {12, 21, 30}"
  shows "same_block k a b \<longleftrightarrow> a div 2 ^ k = b div 2 ^ k"
proof -
  note i = pgd_index_inj [OF assms(1,2)]
  have p: "pmd_index x < 512" "pte_index x < 512" for x by (simp_all add: index_mod)
  have pair: "512 * x + r = 512 * y + s \<longleftrightarrow> x = y \<and> r = s" if "r < 512" "s < 512" for x y r s :: nat
  proof -
    have "(512 * x + r) div 512 = x" "(512 * x + r) mod 512 = r" "(512 * y + s) div 512 = y" "(512 * y + s) mod 512 = s"
      using that by simp_all
    then show ?thesis by metis
  qed
  have m: "a div 2 ^ 21 = b div 2 ^ 21 \<longleftrightarrow> a div 2 ^ 30 = b div 2 ^ 30 \<and> pmd_index a = pmd_index b"
    unfolding index_split(1) by (rule pair [OF p(1) p(1)])
  have t: "a div 2 ^ 12 = b div 2 ^ 12 \<longleftrightarrow> a div 2 ^ 21 = b div 2 ^ 21 \<and> pte_index a = pte_index b"
    unfolding index_split(2) by (rule pair [OF p(2) p(2)])
  show ?thesis using assms(3) i m t by (elim insertE) (simp_all add: same_block_def)
qed

lemma block_range:
  fixes a b :: nat
  assumes "2 ^ k dvd a"
  shows "b div 2 ^ k = a div 2 ^ k \<longleftrightarrow> a \<le> b \<and> b < a + 2 ^ k"
proof -
  from assms obtain c where c: "a = 2 ^ k * c" by (elim dvdE)
  have "b div 2 ^ k = c \<longleftrightarrow> 2 ^ k * c \<le> b \<and> b < 2 ^ k * c + 2 ^ k"
    using div_mult_mod_eq [of b "2 ^ k"] mod_less_divisor [of "2 ^ k" b]
    by (metis add.commute div_nat_eqI dividend_less_times_div mult.commute mult_Suc_right nat_zero_less_power_iff times_div_less_eq_dividend zero_less_numeral)
  then show ?thesis by (simp add: c)
qed

section \<open>The walk\<close>

text \<open>The translation the hardware makes of an address: the size of the page, its physical address and its flags.\<close>

definition entry :: "nat \<Rightarrow> ptmem \<Rightarrow> nat \<Rightarrow> (nat \<times> nat \<times> nat) option" where
  "entry root m va = (let e = m root (pgd_index va) in
     if \<not> pgd_is_valid e then None
     else if pgd_is_leaf e then Some (30, pgd_leaf e, pgd_flags e)
     else (let f = m (pgd_next e) (pmd_index va) in
       if \<not> pgd_is_valid f then None
       else if pgd_is_leaf f then Some (21, pmd_leaf f, pgd_flags f)
       else (let g = m (pgd_next f) (pte_index va) in
         if \<not> pgd_is_valid g then None else Some (12, pte_leaf g, pgd_flags g))))"

definition translate :: "nat \<Rightarrow> ptmem \<Rightarrow> nat \<Rightarrow> (nat \<times> nat) option" where
  "translate root m va = map_option (\<lambda>(k, pa, f). (pa + va mod 2 ^ k, f)) (entry root m va)"

text \<open>The largest page that can be entered for an address; zero when there is one already.\<close>

definition hole :: "nat \<Rightarrow> ptmem \<Rightarrow> nat \<Rightarrow> nat" where
  "hole root m va = (let e = m root (pgd_index va) in
     if \<not> pgd_is_valid e then 30
     else if pgd_is_leaf e then 0
     else (let f = m (pgd_next e) (pmd_index va) in
       if \<not> pgd_is_valid f then 21
       else if pgd_is_leaf f then 0
       else if \<not> pgd_is_valid (m (pgd_next f) (pte_index va)) then 12 else 0))"

text \<open>The table at the end of a path of indices.\<close>

definition is_dir :: "nat \<Rightarrow> bool" where
  "is_dir e \<longleftrightarrow> pgd_is_valid e \<and> \<not> pgd_is_leaf e"

fun descend :: "ptmem \<Rightarrow> nat \<Rightarrow> nat list \<Rightarrow> nat option" where
  "descend m t [] = Some t"
| "descend m t (i # is) = (if is_dir (m t i) then descend m (pgd_next (m t i)) is else None)"

text \<open>The tables form a tree: different paths lead to different tables. All of them are in \<open>X\<close>.\<close>

definition tree :: "nat set \<Rightarrow> nat \<Rightarrow> ptmem \<Rightarrow> bool" where
  "tree X root m \<longleftrightarrow> (\<forall>p q t. length p \<le> 2 \<and> length q \<le> 2 \<and> descend m root p = Some t \<longrightarrow>
     t \<in> X \<and> (descend m root q = Some t \<longrightarrow> p = q))"

lemma treeD: "tree X root m \<Longrightarrow> descend m root p = Some t \<Longrightarrow> length p \<le> 2 \<Longrightarrow> t \<in> X"
  "tree X root m \<Longrightarrow> descend m root p = Some t \<Longrightarrow> descend m root q = Some t \<Longrightarrow> length p \<le> 2 \<Longrightarrow> length q \<le> 2 \<Longrightarrow> p = q"
  by (auto simp: tree_def)

lemma descend_snoc: "descend m t (p @ [i]) = Option.bind (descend m t p) (\<lambda>t. if is_dir (m t i) then Some (pgd_next (m t i)) else None)"
  by (induction m t p rule: descend.induct) simp_all

section \<open>Changing one entry\<close>

lemma set_entry_at: "set_entry t i e m t' j = (if t' = t \<and> j = i then e else m t' j)"
  by (simp add: set_entry_def)

text \<open>A path that does not lead through the changed entry leads where it did.\<close>

lemma descend_write:
  assumes "tree X root m" "descend m root p = Some t" "length p \<le> 2" "length q \<le> 2" "\<not> is_dir (m t i)" "\<not> is_dir e \<or> length p = 2"
  shows "descend (set_entry t i e m) root q = descend m root q"
  using assms(4)
proof (induction q rule: rev_induct)
  case (snoc j q)
  then have IH: "descend (set_entry t i e m) root q = descend m root q" by simp
  show ?case
  proof (cases "descend m root q")
    case None
    then show ?thesis using IH by (simp add: descend_snoc)
  next
    case (Some t')
    have "p = q" if "t' = t" using treeD(2) [OF assms(1,2)] Some that assms(3) snoc.prems by auto
    then have "length p < 2" if "t' = t" using that snoc.prems by auto
    then have "is_dir (set_entry t i e m t' j) = is_dir (m t' j) \<and> (is_dir (m t' j) \<longrightarrow> set_entry t i e m t' j = m t' j)"
      using assms(5,6) by (auto simp: set_entry_at)
    then show ?thesis using IH Some by (simp add: descend_snoc)
  qed
qed simp

lemma tree_write:
  assumes "tree X root m" "descend m root p = Some t" "length p \<le> 2" "\<not> is_dir (m t i)" "\<not> is_dir e \<or> length p = 2"
  shows "tree X root (set_entry t i e m)"
  using assms(1) descend_write [OF assms(1-3) _ assms(4,5)] unfolding tree_def by metis

text \<open>A new table of zeroes under an entry that was not valid.\<close>

lemma descend_link:
  assumes tr: "tree X root m" and p: "descend m root p = Some t" "length p \<le> 1" "\<not> pgd_is_valid (m t i)"
    and pa: "pa \<notin> X" "4096 dvd pa" and q: "length q \<le> 2"
  shows "descend (set_entry t i (pgd_set_next pa) (m(pa := (\<lambda>_. 0)))) root q = (if q = p @ [i] then Some pa else descend m root q)"
proof -
  define M where "M = set_entry t i (pgd_set_next pa) (m(pa := (\<lambda>_. 0)))"
  have tX: "t \<in> X" using treeD(1) [OF tr p(1)] p(2) by simp
  have M: "M t' j = (if t' = t \<and> j = i then pgd_set_next pa else if t' = pa then 0 else m t' j)" for t' j
    by (simp add: M_def set_entry_at)
  have old: "descend m root (p @ [i]) = None" using p by (simp add: descend_snoc is_dir_def)
  from q have "descend M root q = (if q = p @ [i] then Some pa else descend m root q)"
  proof (induction q rule: rev_induct)
    case (snoc j q)
    have IH: "descend M root q = (if q = p @ [i] then Some pa else descend m root q)" using snoc by simp
    note step = descend_snoc [of M root q j] descend_snoc [of m root q j]
    consider "q = p @ [i]" | "q \<noteq> p @ [i]" "descend m root q = None"
      | t' where "q \<noteq> p @ [i]" "descend m root q = Some t'" by (cases "descend m root q") auto
    then show ?case
    proof cases
      case 1
      have "M pa j = 0" using tX pa(1) M [of pa j] by auto
      then show ?thesis using 1 IH old step by (simp add: is_dir_def)
    next
      case 2
      then show ?thesis using IH step p(1) by auto
    next
      case 3
      have t': "t' \<in> X" using treeD(1) [OF tr 3(2)] snoc.prems by simp
      show ?thesis
      proof (cases "t' = t \<and> j = i")
        case True
        then have "q = p" using treeD(2) [OF tr p(1)] 3 p(2) snoc.prems by auto
        then show ?thesis using True IH 3 step set_next_dir set_next_next [OF pa(2)] M [of t i] by (simp add: is_dir_def)
      next
        case False
        then have "M t' j = m t' j" using t' pa(1) M [of t' j] by auto
        moreover have "q @ [j] \<noteq> p @ [i]" using False 3 p(1) by auto
        ultimately show ?thesis using IH 3 step by auto
      qed
    qed
  qed (use p(1) in simp)
  then show ?thesis by (simp add: M_def)
qed

lemma tree_link:
  assumes "tree X root m" "descend m root p = Some t" "length p \<le> 1" "\<not> pgd_is_valid (m t i)" "pa \<notin> X" "4096 dvd pa"
  shows "tree (insert pa X) root (set_entry t i (pgd_set_next pa) (m(pa := (\<lambda>_. 0))))"
  unfolding tree_def
proof (intro allI impI, elim conjE)
  fix q r :: "nat list" and u
  let ?m = "set_entry t i (pgd_set_next pa) (m(pa := (\<lambda>_. 0)))"
  assume q: "length q \<le> 2" "length r \<le> 2" "descend ?m root q = Some u"
  have X: "v \<in> X" if "descend m root s = Some v" "length s \<le> 2" for s v using treeD(1) [OF assms(1) that] .
  note d = descend_link [OF assms q(1)] descend_link [OF assms q(2)]
  show "u \<in> insert pa X \<and> (descend ?m root r = Some u \<longrightarrow> q = r)"
    using q d X [of q] X [of r] assms(5) treeD(2) [OF assms(1), of q u r] by (auto split: if_splits)
qed

text \<open>The walk, read off the tables along the path of an address.\<close>

lemma entry_path:
  "entry root m va = (let e = m root (pgd_index va) in
     if pgd_is_leaf e then Some (30, pgd_leaf e, pgd_flags e)
     else Option.bind (descend m root [pgd_index va]) (\<lambda>t. let f = m t (pmd_index va) in
       if pgd_is_leaf f then Some (21, pmd_leaf f, pgd_flags f)
       else Option.bind (descend m root [pgd_index va, pmd_index va]) (\<lambda>t. let g = m t (pte_index va) in
         if pgd_is_valid g then Some (12, pte_leaf g, pgd_flags g) else None)))"
  by (auto simp: entry_def Let_def is_dir_def pgd_is_leaf_def)

lemma hole_path:
  "hole root m va = (let e = m root (pgd_index va) in
     if \<not> pgd_is_valid e then 30 else if pgd_is_leaf e then 0
     else case descend m root [pgd_index va] of None \<Rightarrow> 0 | Some t \<Rightarrow> (let f = m t (pmd_index va) in
       if \<not> pgd_is_valid f then 21 else if pgd_is_leaf f then 0
       else case descend m root [pgd_index va, pmd_index va] of None \<Rightarrow> 0 | Some t \<Rightarrow>
         if pgd_is_valid (m t (pte_index va)) then 0 else 12))"
  by (auto simp: hole_def Let_def is_dir_def)

text \<open>What the tables hold after a change, by path.\<close>

lemma cell_write:
  assumes "tree X root m" "descend m root p = Some t" "length p \<le> 2" "descend m root q = Some u" "length q \<le> 2"
  shows "set_entry t i e m u j = (if q = p \<and> j = i then e else m u j)"
  using treeD(2) [OF assms(1,2), of q] assms by (auto simp: set_entry_at)

lemma cell_link:
  assumes "tree X root m" "descend m root p = Some t" "length p \<le> 2" "descend m root q = Some u" "length q \<le> 2" "pa \<notin> X"
  shows "set_entry t i e (m(pa := (\<lambda>_. 0))) u j = (if q = p \<and> j = i then e else m u j)"
    "set_entry t i e (m(pa := (\<lambda>_. 0))) pa j = 0"
proof -
  have "t \<in> X" "u \<in> X" using treeD(1) [OF assms(1)] assms by auto
  then show "set_entry t i e (m(pa := (\<lambda>_. 0))) u j = (if q = p \<and> j = i then e else m u j)"
    "set_entry t i e (m(pa := (\<lambda>_. 0))) pa j = 0"
    using treeD(2) [OF assms(1,2), of q] assms by (auto simp: set_entry_at)
qed

lemma entry_cong:
  assumes "m' root (pgd_index va) = m root (pgd_index va)"
    and "descend m' root [pgd_index va] = descend m root [pgd_index va]"
    and "descend m' root [pgd_index va, pmd_index va] = descend m root [pgd_index va, pmd_index va]"
    and "\<And>t. descend m root [pgd_index va] = Some t \<Longrightarrow> m' t (pmd_index va) = m t (pmd_index va)"
    and "\<And>t. descend m root [pgd_index va, pmd_index va] = Some t \<Longrightarrow> m' t (pte_index va) = m t (pte_index va)"
  shows "entry root m' va = entry root m va" "hole root m' va = hole root m va"
proof -
  show "entry root m' va = entry root m va"
    using assms(4,5) unfolding entry_path assms(1-3)
    by (cases "descend m root [pgd_index va]"; cases "descend m root [pgd_index va, pmd_index va]") (simp_all add: Let_def del: descend.simps)
  show "hole root m' va = hole root m va"
    using assms(4,5) unfolding hole_path assms(1-3)
    by (cases "descend m root [pgd_index va]"; cases "descend m root [pgd_index va, pmd_index va]") (simp_all add: Let_def del: descend.simps)
qed

lemma write_root:
  assumes tr: "tree X root m" and "\<not> is_dir (m root i)" "\<not> is_dir e"
  shows "pgd_index va = i \<Longrightarrow> entry root (set_entry root i e m) va = (if pgd_is_leaf e then Some (30, pgd_leaf e, pgd_flags e) else None)"
    "pgd_index va = i \<Longrightarrow> hole root (set_entry root i e m) va = (if pgd_is_valid e then 0 else 30)"
    "pgd_index va \<noteq> i \<Longrightarrow> entry root (set_entry root i e m) va = entry root m va"
    "pgd_index va \<noteq> i \<Longrightarrow> hole root (set_entry root i e m) va = hole root m va"
proof -
  have e: "pgd_is_leaf e \<longleftrightarrow> pgd_is_valid e" using assms(3) by (auto simp: is_dir_def pgd_is_leaf_def)
  show "pgd_index va = i \<Longrightarrow> entry root (set_entry root i e m) va = (if pgd_is_leaf e then Some (30, pgd_leaf e, pgd_flags e) else None)"
    "pgd_index va = i \<Longrightarrow> hole root (set_entry root i e m) va = (if pgd_is_valid e then 0 else 30)"
    using e by (simp_all add: entry_def hole_def set_entry_at Let_def)
  have p: "descend m root [] = Some root" "length ([] :: nat list) \<le> 2" by simp_all
  note d = descend_write [OF tr p _ assms(2)] and c = cell_write [OF tr p]
  assume "pgd_index va \<noteq> i"
  then have "set_entry root i e m root (pgd_index va) = m root (pgd_index va)" by (simp add: set_entry_at)
  moreover have "set_entry root i e m t j = m t j" if "descend m root [a] = Some t" for a t j using c [OF that] by simp
  moreover have "set_entry root i e m t j = m t j" if "descend m root [a, b] = Some t" for a b t j using c [OF that] by simp
  ultimately show "entry root (set_entry root i e m) va = entry root m va" "hole root (set_entry root i e m) va = hole root m va"
    using d assms(3) by (intro entry_cong; simp del: descend.simps)+
qed

lemma write_pmd:
  assumes tr: "tree X root m" and t: "descend m root [k] = Some t" and "\<not> is_dir (m t i)" "\<not> is_dir e"
  shows "pgd_index va = k \<Longrightarrow> pmd_index va = i \<Longrightarrow>
      entry root (set_entry t i e m) va = (if pgd_is_leaf e then Some (21, pmd_leaf e, pgd_flags e) else None)"
    "pgd_index va = k \<Longrightarrow> pmd_index va = i \<Longrightarrow> hole root (set_entry t i e m) va = (if pgd_is_valid e then 0 else 21)"
    "\<not> (pgd_index va = k \<and> pmd_index va = i) \<Longrightarrow> entry root (set_entry t i e m) va = entry root m va"
    "\<not> (pgd_index va = k \<and> pmd_index va = i) \<Longrightarrow> hole root (set_entry t i e m) va = hole root m va"
proof -
  have e: "pgd_is_leaf e \<longleftrightarrow> pgd_is_valid e" using assms(4) by (auto simp: is_dir_def pgd_is_leaf_def)
  have p: "length [k] \<le> 2" by simp
  note d = descend_write [OF tr t p _ assms(3)] and c = cell_write [OF tr t p]
  have r: "set_entry t i e m root j = m root j" for j using c [of "[]" root] by simp
  have dir: "is_dir (m root k)" "pgd_next (m root k) = t" using t by (auto split: if_splits)
  show "pgd_index va = k \<Longrightarrow> pmd_index va = i \<Longrightarrow>
      entry root (set_entry t i e m) va = (if pgd_is_leaf e then Some (21, pmd_leaf e, pgd_flags e) else None)"
    "pgd_index va = k \<Longrightarrow> pmd_index va = i \<Longrightarrow> hole root (set_entry t i e m) va = (if pgd_is_valid e then 0 else 21)"
    using e dir by (simp_all add: entry_def hole_def r is_dir_def Let_def) (simp_all add: set_entry_at)
  assume ne: "\<not> (pgd_index va = k \<and> pmd_index va = i)"
  have "set_entry t i e m u (pmd_index va) = m u (pmd_index va)" if "descend m root [pgd_index va] = Some u" for u
    using c [OF that] ne by auto
  moreover have "set_entry t i e m u j = m u j" if "descend m root [a, b] = Some u" for a b u j using c [OF that] by simp
  ultimately show "entry root (set_entry t i e m) va = entry root m va" "hole root (set_entry t i e m) va = hole root m va"
    using d assms(4) r by (intro entry_cong; simp del: descend.simps)+
qed

lemma write_pt:
  assumes tr: "tree X root m" and t: "descend m root [k, l] = Some t"
  shows "pgd_index va = k \<Longrightarrow> pmd_index va = l \<Longrightarrow> pte_index va = i \<Longrightarrow>
      entry root (set_entry t i e m) va = (if pgd_is_valid e then Some (12, pte_leaf e, pgd_flags e) else None)"
    "pgd_index va = k \<Longrightarrow> pmd_index va = l \<Longrightarrow> pte_index va = i \<Longrightarrow> hole root (set_entry t i e m) va = (if pgd_is_valid e then 0 else 12)"
    "\<not> (pgd_index va = k \<and> pmd_index va = l \<and> pte_index va = i) \<Longrightarrow> entry root (set_entry t i e m) va = entry root m va"
    "\<not> (pgd_index va = k \<and> pmd_index va = l \<and> pte_index va = i) \<Longrightarrow> hole root (set_entry t i e m) va = hole root m va"
    "tree X root (set_entry t i e m)"
proof -
  have p: "length [k, l] \<le> 2" by simp
  note c = cell_write [OF tr t p]
  have r: "set_entry t i e m root j = m root j" for j using c [of "[]" root] by simp
  have u: "set_entry t i e m u j = m u j" if "descend m root [a] = Some u" for a u j using c [OF that] by simp
  have d: "descend (set_entry t i e m) root q = descend m root q" if "length q \<le> 2" for q
    using that
  proof (induction q rule: rev_induct)
    case (snoc j q)
    have "set_entry t i e m v j = m v j" if "descend m root q = Some v" for v using c [OF that] snoc.prems by auto
    then show ?case using snoc by (cases "descend m root q") (simp_all add: descend_snoc)
  qed simp
  then show "tree X root (set_entry t i e m)" using tr unfolding tree_def by metis
  have dir: "is_dir (m root k)" "is_dir (m (pgd_next (m root k)) l)" "pgd_next (m (pgd_next (m root k)) l) = t"
    "descend m root [k] = Some (pgd_next (m root k))" using t by (auto split: if_splits)
  show "pgd_index va = k \<Longrightarrow> pmd_index va = l \<Longrightarrow> pte_index va = i \<Longrightarrow>
      entry root (set_entry t i e m) va = (if pgd_is_valid e then Some (12, pte_leaf e, pgd_flags e) else None)"
    "pgd_index va = k \<Longrightarrow> pmd_index va = l \<Longrightarrow> pte_index va = i \<Longrightarrow> hole root (set_entry t i e m) va = (if pgd_is_valid e then 0 else 12)"
    using dir u [OF dir(4)] by (simp_all add: entry_def hole_def r is_dir_def Let_def) (simp_all add: set_entry_at)
  assume ne: "\<not> (pgd_index va = k \<and> pmd_index va = l \<and> pte_index va = i)"
  have "set_entry t i e m v (pte_index va) = m v (pte_index va)" if "descend m root [pgd_index va, pmd_index va] = Some v" for v
    using c [OF that] ne by auto
  then show "entry root (set_entry t i e m) va = entry root m va" "hole root (set_entry t i e m) va = hole root m va"
    using d r u by (intro entry_cong; simp del: descend.simps)+
qed

end
