(* ===== verification/Pgtable_Map.thy ===== *)
theory Pgtable_Map
  imports Pgtable_Walk
begin

text \<open>
  Mapping and unmapping of ranges: what they do to the walk, for every source of frames that
  hands out unused, aligned ones.
\<close>

section \<open>New tables\<close>

lemma link_root:
  assumes tr: "tree X root m" and i: "\<not> pgd_is_valid (m root i)" and pa: "pa \<notin> X" "4096 dvd pa"
  defines "m' \<equiv> set_entry root i (pgd_set_next pa) (m(pa := (\<lambda>_. 0)))"
  shows "entry root m' va = entry root m va" "hole root m' va = (if pgd_index va = i then 21 else hole root m va)"
proof -
  have p: "descend m root [] = Some root" "length ([] :: nat list) \<le> 1" "length ([] :: nat list) \<le> 2" by simp_all
  note d = descend_link [OF tr p(1,2) i pa, folded m'_def]
    and c = cell_link [OF tr p(1,3) _ _ pa(1), where i = i and e = "pgd_set_next pa", folded m'_def]
  have r: "m' root j = (if j = i then pgd_set_next pa else m root j)" for j using c(1) [OF p(1,3)] by simp
  have z: "m' pa j = 0" for j using c(2) [OF p(1,3)] .
  have "entry root m' va = entry root m va \<and> hole root m' va = (if pgd_index va = i then 21 else hole root m va)"
  proof (cases "pgd_index va = i")
    case True
    then show ?thesis using i set_next_dir set_next_next [OF pa(2)] by (simp add: entry_def hole_def r z)
  next
    case False
    then have r': "m' root (pgd_index va) = m root (pgd_index va)" by (simp add: r)
    have "m' t j = m t j" if "descend m root [a] = Some t" for a t j using c(1) [OF that] by simp
    moreover have "m' t j = m t j" if "descend m root [a, b] = Some t" for a b t j using c(1) [OF that] by simp
    ultimately show ?thesis using entry_cong [of m' root va m] r' d [of "[pgd_index va]"] d [of "[pgd_index va, pmd_index va]"] False
      by (simp del: descend.simps)
  qed
  then show "entry root m' va = entry root m va" "hole root m' va = (if pgd_index va = i then 21 else hole root m va)" by simp_all
qed

lemma link_pmd:
  assumes tr: "tree X root m" and t: "descend m root [k] = Some t" and i: "\<not> pgd_is_valid (m t i)" and pa: "pa \<notin> X" "4096 dvd pa"
  defines "m' \<equiv> set_entry t i (pgd_set_next pa) (m(pa := (\<lambda>_. 0)))"
  shows "entry root m' va = entry root m va" "hole root m' va = (if pgd_index va = k \<and> pmd_index va = i then 12 else hole root m va)"
proof -
  have p: "length [k] \<le> 1" "length [k] \<le> 2" by simp_all
  note d = descend_link [OF tr t p(1) i pa, folded m'_def]
    and c = cell_link [OF tr t p(2) _ _ pa(1), where i = i and e = "pgd_set_next pa", folded m'_def]
  have r: "m' root j = m root j" for j using c(1) [of "[]" root] by simp
  have tt: "m' t i = pgd_set_next pa" using c(1) [OF t p(2)] by simp
  have z: "m' pa j = 0" for j using c(2) [of "[]" root] by simp
  have dir: "is_dir (m root k)" "pgd_next (m root k) = t" using t by (auto split: if_splits)
  have "entry root m' va = entry root m va \<and> hole root m' va = (if pgd_index va = k \<and> pmd_index va = i then 12 else hole root m va)"
  proof (cases "pgd_index va = k \<and> pmd_index va = i")
    case True
    then show ?thesis using i dir set_next_dir set_next_next [OF pa(2)] by (simp add: entry_def hole_def r z tt is_dir_def)
  next
    case False
    have "m' u (pmd_index va) = m u (pmd_index va)" if "descend m root [pgd_index va] = Some u" for u using c(1) [OF that] False by auto
    moreover have "m' u j = m u j" if "descend m root [a, b] = Some u" for a b u j using c(1) [OF that] by simp
    ultimately show ?thesis using entry_cong [of m' root va m] r d [of "[pgd_index va]"] d [of "[pgd_index va, pmd_index va]"] False
      by (auto simp del: descend.simps)
  qed
  then show "entry root m' va = entry root m va" "hole root m' va = (if pgd_index va = k \<and> pmd_index va = i then 12 else hole root m va)"
    by simp_all
qed

section \<open>One page\<close>

text \<open>The walk before and after a page of \<open>2 ^ k\<close> bytes has been entered, or, with \<open>b\<close> false, has not.\<close>

definition one_more :: "nat \<Rightarrow> bool \<Rightarrow> nat \<Rightarrow> nat \<Rightarrow> nat \<Rightarrow> nat \<Rightarrow> ptmem \<Rightarrow> ptmem \<Rightarrow> bool" where
  "one_more k b addr paddr f root m m' \<longleftrightarrow>
     (\<forall>va. entry root m' va = (if b \<and> same_block k va addr then Some (k, paddr, PTE_V OR f) else entry root m va)
       \<and> (\<not> same_block k va addr \<longrightarrow> min k (hole root m va) \<le> hole root m' va))"

lemma one_more_trans:
  assumes "\<forall>va. entry root m1 va = entry root m va \<and> min k (hole root m va) \<le> hole root m1 va" "one_more k b addr paddr f root m1 m2"
  shows "one_more k b addr paddr f root m m2"
proof -
  have h: "min k (hole root m va) \<le> min k (hole root m1 va)" for va using assms(1) by simp
  have "min k (hole root m va) \<le> hole root m2 va" if "\<not> same_block k va addr" for va
    using assms(2) that order.trans [OF h] by (simp add: one_more_def)
  then show ?thesis using assms by (simp add: one_more_def)
qed

lemma enter_1g:
  assumes "tree X root m" "hole root m addr = 30" "leaf_flags f" "2 ^ 30 dvd paddr"
  shows "one_more 30 True addr paddr f root m (set_entry root (pgd_index addr) (pgd_set_leaf paddr f) m)"
    "tree X root (set_entry root (pgd_index addr) (pgd_set_leaf paddr f) m)" "\<not> pgd_is_valid (m root (pgd_index addr))"
proof -
  let ?e = "pgd_set_leaf paddr f"
  have e: "pgd_is_valid ?e" "pgd_is_leaf ?e" "pgd_flags ?e = PTE_V OR f" "pgd_leaf ?e = paddr"
    using leaf_entry [OF assms(3), of 30 paddr] assms(4) by (simp_all add: pgd_set_leaf_def pgd_leaf_def PGD_SHIFT_def)
  show nv: "\<not> pgd_is_valid (m root (pgd_index addr))" using assms(2) by (auto simp: hole_def Let_def split: if_splits)
  have nd: "\<not> is_dir (m root (pgd_index addr))" "\<not> is_dir ?e" using nv e by (simp_all add: is_dir_def)
  note w = write_root [OF assms(1) nd]
  show "one_more 30 True addr paddr f root m (set_entry root (pgd_index addr) ?e m)"
    using w e by (simp add: one_more_def same_block_def)
  show "tree X root (set_entry root (pgd_index addr) ?e m)" using tree_write [OF assms(1), of "[]"] nd by simp
qed

lemma enter_2m:
  assumes "tree X root m" "21 \<le> hole root m addr" "descend m root [pgd_index addr] = Some t" "leaf_flags f" "2 ^ 21 dvd paddr"
  shows "one_more 21 True addr paddr f root m (set_entry t (pmd_index addr) (pmd_set_leaf paddr f) m)"
    "tree X root (set_entry t (pmd_index addr) (pmd_set_leaf paddr f) m)" "\<not> pgd_is_valid (m t (pmd_index addr))"
proof -
  let ?e = "pmd_set_leaf paddr f"
  have e: "pgd_is_valid ?e" "pgd_is_leaf ?e" "pgd_flags ?e = PTE_V OR f" "pmd_leaf ?e = paddr"
    using leaf_entry [OF assms(4), of 21 paddr] assms(5) by (simp_all add: pmd_set_leaf_def pmd_leaf_def PMD_SHIFT_def)
  show nv: "\<not> pgd_is_valid (m t (pmd_index addr))"
    using assms(2,3) by (auto simp: hole_def is_dir_def Let_def split: if_splits)
  have nd: "\<not> is_dir (m t (pmd_index addr))" "\<not> is_dir ?e" using nv e by (simp_all add: is_dir_def)
  note w = write_pmd [OF assms(1,3) nd]
  show "one_more 21 True addr paddr f root m (set_entry t (pmd_index addr) ?e m)"
    unfolding one_more_def using w e by (auto simp: same_block_def)
  show "tree X root (set_entry t (pmd_index addr) ?e m)" using tree_write [OF assms(1,3)] nd by simp
qed

lemma enter_4k:
  assumes "tree X root m" "12 \<le> hole root m addr" "descend m root [pgd_index addr, pmd_index addr] = Some t" "leaf_flags f" "2 ^ 12 dvd paddr"
  shows "one_more 12 True addr paddr f root m (set_entry t (pte_index addr) (pte_set_leaf paddr f) m)"
    "tree X root (set_entry t (pte_index addr) (pte_set_leaf paddr f) m)" "\<not> pgd_is_valid (m t (pte_index addr))"
proof -
  let ?e = "pte_set_leaf paddr f"
  have e: "pgd_is_valid ?e" "pgd_flags ?e = PTE_V OR f" "pte_leaf ?e = paddr"
    using leaf_entry [OF assms(4), of 12 paddr] assms(5) by (simp_all add: pte_set_leaf_def pte_leaf_def PTE_SHIFT_def)
  show "\<not> pgd_is_valid (m t (pte_index addr))"
    using assms(2,3) by (auto simp: hole_def is_dir_def Let_def split: if_splits)
  note w = write_pt [OF assms(1,3)]
  show "one_more 12 True addr paddr f root m (set_entry t (pte_index addr) ?e m)"
    unfolding one_more_def using w(1-4) e by (auto simp: same_block_def)
  show "tree X root (set_entry t (pte_index addr) ?e m)" by (rule w(5))
qed

section \<open>Unmapping\<close>

lemma entry_shift: "entry root m va = Some (k, pa, f) \<Longrightarrow> k \<in> {12, 21, 30}"
  by (auto simp: entry_def Let_def split: if_splits)

lemma entry_block: "entry root m va = Some (k, pa, f) \<Longrightarrow> same_block k vb va \<Longrightarrow> entry root m vb = Some (k, pa, f)"
  by (auto simp: entry_def same_block_def Let_def split: if_splits)

lemma unmap_step:
  assumes tr: "tree X root m" and e: "entry root m addr = Some (k, pa, f)" and len: "addr + 2 ^ k \<le> end_addr"
  shows "\<exists>m'. unmap_range (Suc n) addr end_addr root m = unmap_range n (wrap64 (addr + 2 ^ k)) end_addr root m' \<and> tree X root m'
    \<and> (\<forall>va. entry root m' va = (if same_block k va addr then None else entry root m va))"
proof -
  let ?e = "m root (pgd_index addr)"
  let ?t = "pgd_next ?e"
  let ?f = "m ?t (pmd_index addr)"
  have lt: "addr < end_addr" "end_addr - addr \<ge> 2 ^ k" using len by (simp_all add: less_le_trans [of addr "addr + 2 ^ k"])
  have v: "pgd_is_valid ?e" using e by (auto simp: entry_def Let_def split: if_splits)
  show ?thesis
  proof (cases "pgd_is_leaf ?e")
    case True
    then have k: "k = 30" using e v by (auto simp: entry_def Let_def)
    have nd: "\<not> is_dir ?e" "\<not> is_dir 0" using True by (simp_all add: is_dir_def)
    note w = write_root [OF tr nd] and tr' = tree_write [OF tr, of "[]" root "pgd_index addr" 0]
    have "unmap_range (Suc n) addr end_addr root m = unmap_range n (wrap64 (addr + 2 ^ k)) end_addr root (set_entry root (pgd_index addr) 0 m)"
      using True lt k by (simp add: PAGE_SIZE_1G_def)
    moreover have "entry root (set_entry root (pgd_index addr) 0 m) va = (if same_block k va addr then None else entry root m va)" for va
      using w(1,3) [of va] k by (simp add: same_block_def)
    ultimately show ?thesis using tr' nd by (intro exI [of _ "set_entry root (pgd_index addr) 0 m"]) simp
  next
    case False
    then have t: "descend m root [pgd_index addr] = Some ?t" using v by (simp add: is_dir_def)
    have vf: "pgd_is_valid ?f" using e v False by (auto simp: entry_def Let_def split: if_splits)
    show ?thesis
    proof (cases "pgd_is_leaf ?f")
      case True
      then have k: "k = 21" using e v vf False by (auto simp: entry_def Let_def)
      have nd: "\<not> is_dir ?f" "\<not> is_dir 0" using True by (simp_all add: is_dir_def)
      note w = write_pmd [OF tr t nd] and tr' = tree_write [OF tr t, of "pmd_index addr" 0]
      have "unmap_range (Suc n) addr end_addr root m = unmap_range n (wrap64 (addr + 2 ^ k)) end_addr root (set_entry ?t (pmd_index addr) 0 m)"
        using True False v lt k by (simp add: PAGE_SIZE_2M_def)
      moreover have "entry root (set_entry ?t (pmd_index addr) 0 m) va = (if same_block k va addr then None else entry root m va)" for va
        using w(1,3) [of va] k by (simp add: same_block_def)
      ultimately show ?thesis using tr' nd by (intro exI [of _ "set_entry ?t (pmd_index addr) 0 m"]) simp
    next
      case nl: False
      then have u: "descend m root [pgd_index addr, pmd_index addr] = Some (pgd_next ?f)" using v vf False by (simp add: is_dir_def)
      have k: "k = 12" and vg: "pgd_is_valid (m (pgd_next ?f) (pte_index addr))"
        using e v vf False nl by (auto simp: entry_def Let_def split: if_splits)
      note w = write_pt [OF tr u]
      have "unmap_range (Suc n) addr end_addr root m = unmap_range n (wrap64 (addr + 2 ^ k)) end_addr root (set_entry (pgd_next ?f) (pte_index addr) 0 m)"
        using nl False v vf vg lt k by (simp add: PAGE_SIZE_def)
      moreover have "entry root (set_entry (pgd_next ?f) (pte_index addr) 0 m) va = (if same_block k va addr then None else entry root m va)" for va
        using w(1,3) [of va] k by (simp add: same_block_def)
      ultimately show ?thesis using w(5) by (intro exI [of _ "set_entry (pgd_next ?f) (pte_index addr) 0 m"]) simp
    qed
  qed
qed

text \<open>Every page that reaches into the range lies in it.\<close>

definition whole_pages :: "nat \<Rightarrow> ptmem \<Rightarrow> nat \<Rightarrow> nat \<Rightarrow> bool" where
  "whole_pages root m a b \<longleftrightarrow> (\<forall>va. a \<le> va \<and> va < b \<longrightarrow> (\<exists>k pa f. entry root m va = Some (k, pa, f)
     \<and> a \<le> va div 2 ^ k * 2 ^ k \<and> va div 2 ^ k * 2 ^ k + 2 ^ k \<le> b))"

text \<open>A range of addresses the hardware accepts; both ends are in the same half of the address space.\<close>

definition canon_range :: "nat \<Rightarrow> nat \<Rightarrow> bool" where
  "canon_range a b \<longleftrightarrow> b < 2 ^ 64 \<and> (\<forall>va. a \<le> va \<and> va < b \<longrightarrow> canon va)"

lemma whole_pages_rest:
  assumes w: "whole_pages root m a b" and c: "canon_range a b" "a < b"
    and e: "entry root m a = Some (k, pa, f)"
  shows "2 ^ k dvd a" "a + 2 ^ k \<le> b" "\<And>va. canon va \<Longrightarrow> same_block k va a \<longleftrightarrow> a \<le> va \<and> va < a + 2 ^ k"
    "\<And>va. a + 2 ^ k \<le> va \<Longrightarrow> va < b \<Longrightarrow> \<exists>k' pa f. entry root m va = Some (k', pa, f)
      \<and> a + 2 ^ k \<le> va div 2 ^ k' * 2 ^ k' \<and> va div 2 ^ k' * 2 ^ k' + 2 ^ k' \<le> b"
proof -
  note k = entry_shift [OF e]
  from w c(2) e have a: "a \<le> a div 2 ^ k * 2 ^ k" "a div 2 ^ k * 2 ^ k + 2 ^ k \<le> b" unfolding whole_pages_def by fastforce+
  then have eq: "a div 2 ^ k * 2 ^ k = a" by (meson div_times_less_eq_dividend le_antisym)
  then show dv: "2 ^ k dvd a" by (metis dvd_triv_right)
  show le: "a + 2 ^ k \<le> b" using a(2) eq by simp
  have ca: "canon a" using c by (simp add: canon_range_def)
  show sb: "same_block k va a \<longleftrightarrow> a \<le> va \<and> va < a + 2 ^ k" if "canon va" for va
    using same_block_iff [OF that ca k] block_range [OF dv, of va] by simp
  fix va assume va: "a + 2 ^ k \<le> va" "va < b"
  then have "a \<le> va" by simp
  with w va(2) obtain k' pa' f' where e': "entry root m va = Some (k', pa', f')" "a \<le> va div 2 ^ k' * 2 ^ k'"
    "va div 2 ^ k' * 2 ^ k' + 2 ^ k' \<le> b" unfolding whole_pages_def by blast
  let ?s = "va div 2 ^ k' * 2 ^ k'"
  have s: "?s \<le> va" "?s div 2 ^ k' = va div 2 ^ k'" by simp_all
  have "?s < b" using s(1) va(2) by (rule le_less_trans)
  then have cs: "canon ?s" "canon va" using c(1) e'(2) va(2) \<open>a \<le> va\<close> unfolding canon_range_def by blast+
  have "a + 2 ^ k \<le> ?s"
  proof (rule ccontr)
    assume "\<not> a + 2 ^ k \<le> ?s"
    then have "same_block k ?s a" using sb [OF cs(1)] e'(2) by simp
    from entry_block [OF e this] have es: "entry root m ?s = Some (k, pa, f)" .
    have "same_block k' ?s va" using same_block_iff [OF cs entry_shift [OF e'(1)]] s(2) by simp
    from entry_block [OF e'(1) this] es have "k' = k" by simp
    then have "va div 2 ^ k = a div 2 ^ k" using \<open>same_block k ?s a\<close> same_block_iff [OF cs(1) ca k] by simp
    then show False using block_range [OF dv, of va] va(1) by simp
  qed
  then show "\<exists>k' pa f. entry root m va = Some (k', pa, f) \<and> a + 2 ^ k \<le> va div 2 ^ k' * 2 ^ k' \<and> va div 2 ^ k' * 2 ^ k' + 2 ^ k' \<le> b"
    using e' by blast
qed

lemma unmap_range_ok:
  assumes "tree X root m" "whole_pages root m addr end_addr" "canon_range addr end_addr" "(end_addr - addr) div 4096 < n"
  shows "\<exists>m'. unmap_range n addr end_addr root m = Some m' \<and> tree X root m'
    \<and> (\<forall>va. canon va \<longrightarrow> entry root m' va = (if addr \<le> va \<and> va < end_addr then None else entry root m va))"
  using assms
proof (induction n arbitrary: addr m)
  case (Suc n)
  show ?case
  proof (cases "addr < end_addr")
    case False
    then show ?thesis using Suc.prems(1) by auto
  next
    case True
    then obtain k pa f where e: "entry root m addr = Some (k, pa, f)" using Suc.prems(2) unfolding whole_pages_def by blast
    note r = whole_pages_rest [OF Suc.prems(2,3) True e]
    from unmap_step [OF Suc.prems(1) e r(2), of n] obtain m1 where
      m1: "unmap_range (Suc n) addr end_addr root m = unmap_range n (wrap64 (addr + 2 ^ k)) end_addr root m1" "tree X root m1"
        "\<forall>va. entry root m1 va = (if same_block k va addr then None else entry root m va)" by blast
    have wr: "wrap64 (addr + 2 ^ k) = addr + 2 ^ k" using r(2) Suc.prems(3) by (simp add: canon_range_def)
    have c: "canon_range (addr + 2 ^ k) end_addr" using Suc.prems(3) by (auto simp: canon_range_def)
    have keep: "entry root m1 va = entry root m va" if "addr + 2 ^ k \<le> va" "va < end_addr" for va
    proof -
      have "canon va" using Suc.prems(3) that by (simp add: canon_range_def)
      with r(3) that m1(3) show ?thesis by simp
    qed
    have w: "whole_pages root m1 (addr + 2 ^ k) end_addr" unfolding whole_pages_def
      using r(4) keep by auto
    have "(4096 :: nat) \<le> 2 ^ k" using entry_shift [OF e] by auto
    then have "end_addr - (addr + 2 ^ k) \<le> end_addr - addr - 4096" "4096 \<le> end_addr - addr" using r(2) by linarith+
    then have "(end_addr - (addr + 2 ^ k)) div 4096 < n" using Suc.prems(4) by linarith
    from Suc.IH [OF m1(2) w c this] obtain m' where m': "unmap_range n (addr + 2 ^ k) end_addr root m1 = Some m'" "tree X root m'"
      "\<forall>va. canon va \<longrightarrow> entry root m' va = (if addr + 2 ^ k \<le> va \<and> va < end_addr then None else entry root m1 va)" by blast
    have "entry root m' va = (if addr \<le> va \<and> va < end_addr then None else entry root m va)" if "canon va" for va
      using m'(3) m1(3) r(2) r(3) [OF that] that by auto
    then show ?thesis using m1(1) wr m'(1,2) by auto
  qed
qed simp

lemma aligned_floor:
  fixes a b v :: nat
  shows "d dvd a \<Longrightarrow> a \<le> v \<Longrightarrow> a \<le> v div d * d" "d dvd b \<Longrightarrow> v < b \<Longrightarrow> v div d * d + d \<le> b"
proof -
  show "a \<le> v div d * d" if "d dvd a" "a \<le> v"
    using div_le_mono [OF that(2), of d] dvd_div_mult_self [OF that(1)] mult_le_mono1 by metis
  show "v div d * d + d \<le> b" if "d dvd b" "v < b"
  proof -
    from that(1) obtain c where c: "b = c * d" by (metis dvd_def mult.commute)
    then have "v div d < c" using that(2) by (simp add: less_mult_imp_div_less)
    then have "Suc (v div d) * d \<le> c * d" by (intro mult_le_mono1) simp
    then show ?thesis using c by simp
  qed
qed

lemma uniform_whole_pages:
  assumes "2 ^ k dvd a" "2 ^ k dvd b" "\<forall>va. a \<le> va \<and> va < b \<longrightarrow> (\<exists>pa f. entry root m va = Some (k, pa, f))"
  shows "whole_pages root m a b"
  unfolding whole_pages_def
proof (intro allI impI, elim conjE)
  fix va assume "a \<le> va" "va < b"
  with aligned_floor(1) [OF assms(1), of va] aligned_floor(2) [OF assms(2), of va] assms(3)
  show "\<exists>k pa f. entry root m va = Some (k, pa, f) \<and> a \<le> va div 2 ^ k * 2 ^ k \<and> va div 2 ^ k * 2 ^ k + 2 ^ k \<le> b" by blast
qed

lemma hole_entry: "entry root m va = None \<longleftrightarrow> hole root m va \<noteq> 0"
  by (auto simp: entry_def hole_def Let_def)

text \<open>What a mapping of a range by pages of one size ends with: all of it, or \<open>ENOMEM\<close> and none.\<close>

definition mapped_chunk :: "nat \<Rightarrow> nat \<Rightarrow> nat \<Rightarrow> nat \<Rightarrow> nat \<Rightarrow> nat \<Rightarrow> nat \<Rightarrow> ptmem \<Rightarrow> errno + unit \<Rightarrow> ptmem \<Rightarrow> bool" where
  "mapped_chunk k f start addr end_addr paddr root m r m' \<longleftrightarrow> (case r of
     Inr _ \<Rightarrow> \<forall>va. canon va \<longrightarrow> (if addr \<le> va \<and> va < end_addr
       then entry root m' va = Some (k, paddr + (va - addr) div 2 ^ k * 2 ^ k, PTE_V OR f)
       else entry root m' va = entry root m va \<and> min k (hole root m va) \<le> hole root m' va)
   | Inl e \<Rightarrow> e = ENOMEM \<and> (\<forall>va. canon va \<longrightarrow> entry root m' va = (if start \<le> va \<and> va < end_addr then None else entry root m va)))"

lemma mapped_chunk_step:
  assumes o: "one_more k True addr paddr f root m m1" and le: "addr + 2 ^ k \<le> end_addr" "start \<le> addr"
    and sb: "\<And>va. canon va \<Longrightarrow> same_block k va addr \<longleftrightarrow> addr \<le> va \<and> va < addr + 2 ^ k"
    and rest: "mapped_chunk k f start (addr + 2 ^ k) end_addr (paddr + 2 ^ k) root m1 res m'"
  shows "mapped_chunk k f start addr end_addr paddr root m res m'"
proof -
  have e1: "entry root m1 va = (if same_block k va addr then Some (k, paddr, PTE_V OR f) else entry root m va)"
    "\<not> same_block k va addr \<Longrightarrow> min k (hole root m va) \<le> hole root m1 va" for va using o by (auto simp: one_more_def)
  show ?thesis
  proof (cases res)
    case (Inl e)
    then show ?thesis using rest e1(1) sb le by (auto simp: mapped_chunk_def)
  next
    case (Inr u)
    have "if addr \<le> va \<and> va < end_addr
       then entry root m' va = Some (k, paddr + (va - addr) div 2 ^ k * 2 ^ k, PTE_V OR f)
       else entry root m' va = entry root m va \<and> min k (hole root m va) \<le> hole root m' va" if va: "canon va" for va
    proof -
      have R: "if addr + 2 ^ k \<le> va \<and> va < end_addr
         then entry root m' va = Some (k, paddr + 2 ^ k + (va - (addr + 2 ^ k)) div 2 ^ k * 2 ^ k, PTE_V OR f)
         else entry root m' va = entry root m1 va \<and> min k (hole root m1 va) \<le> hole root m' va"
        using rest Inr va by (simp add: mapped_chunk_def)
      consider "addr \<le> va" "va < addr + 2 ^ k" | "addr + 2 ^ k \<le> va" "va < end_addr" | "va < addr \<or> end_addr \<le> va" by linarith
      then show ?thesis
      proof cases
        case 1
        then have "(va - addr) div 2 ^ k = 0" by (simp add: less_diff_conv2)
        then show ?thesis using 1 R e1(1) sb [OF va] le(1) by simp
      next
        case 2
        then have "(va - addr) div 2 ^ k = Suc ((va - addr - 2 ^ k) div 2 ^ k)" by (intro le_div_geq) simp_all
        then show ?thesis using 2 R by (simp add: algebra_simps)
      next
        case 3
        then have ns: "\<not> same_block k va addr" using sb [OF va] le(1) by auto
        have "min k (hole root m va) \<le> min k (hole root m1 va)" using e1(2) [OF ns] by simp
        then show ?thesis using 3 R e1(1) ns le(1) by auto
      qed
    qed
    then show ?thesis using Inr by (simp add: mapped_chunk_def)
  qed
qed

section \<open>Ranges of mixed page sizes\<close>

text \<open>What a mapping of a range ends with; a failure leaves everything as it was when the range is shorter than 2 MiB.\<close>

definition mapped_range :: "nat \<Rightarrow> nat \<Rightarrow> nat \<Rightarrow> nat \<Rightarrow> nat \<Rightarrow> ptmem \<Rightarrow> errno + unit \<Rightarrow> ptmem \<Rightarrow> bool" where
  "mapped_range f addr end_addr paddr root m r m' \<longleftrightarrow> (case r of
     Inr _ \<Rightarrow> \<forall>va. canon va \<longrightarrow> (if addr \<le> va \<and> va < end_addr
       then translate root m' va = Some (paddr + (va - addr), PTE_V OR f) else entry root m' va = entry root m va)
   | Inl e \<Rightarrow> e = ENOMEM \<and> (\<forall>va. canon va \<longrightarrow> \<not> (addr \<le> va \<and> va < end_addr) \<or> end_addr - addr < 2 ^ 21 \<longrightarrow> entry root m' va = entry root m va))"

lemma chunk_translate:
  assumes "2 ^ k dvd addr" "addr \<le> va" "entry root m va = Some (k, paddr + (va - addr) div 2 ^ k * 2 ^ k, fl)"
  shows "translate root m va = Some (paddr + (va - addr), fl)"
proof -
  have "va mod 2 ^ k = (va - addr) mod 2 ^ k" using assms(1,2) by (metis le_add_diff_inverse mod_add_left_eq dvd_imp_mod_0 add_0)
  then have "paddr + (va - addr) div 2 ^ k * 2 ^ k + va mod 2 ^ k = paddr + (va - addr)" by (metis add.assoc div_mult_mod_eq)
  then show ?thesis using assms(3) unfolding translate_def by simp
qed

lemma mapped_range_step:
  assumes "2 ^ k dvd addr" "addr + l \<le> end_addr" "addr < addr + l"
    and e1: "\<And>va. canon va \<Longrightarrow> if addr \<le> va \<and> va < addr + l
      then entry root m1 va = Some (k, paddr + (va - addr) div 2 ^ k * 2 ^ k, PTE_V OR f)
      else entry root m1 va = entry root m va \<and> min k (hole root m va) \<le> hole root m1 va"
    and r: "mapped_range f (addr + l) end_addr (paddr + l) root m1 res m'"
    and short: "end_addr - addr < 2 ^ 21 \<Longrightarrow> res = Inr ()"
  shows "mapped_range f addr end_addr paddr root m res m'"
proof (cases res)
  case (Inl e)
  with r have e: "e = ENOMEM" "\<And>va. canon va \<Longrightarrow> \<not> (addr + l \<le> va \<and> va < end_addr) \<Longrightarrow> entry root m' va = entry root m1 va"
    unfolding mapped_range_def by auto
  have "entry root m' va = entry root m va" if "canon va" "\<not> (addr \<le> va \<and> va < end_addr)" for va
    using e(2) [OF that(1)] e1 [OF that(1)] that(2) assms(2,3) by (auto split: if_splits)
  then show ?thesis using e(1) Inl short unfolding mapped_range_def by auto
next
  case (Inr u)
  have "if addr \<le> va \<and> va < end_addr then translate root m' va = Some (paddr + (va - addr), PTE_V OR f)
      else entry root m' va = entry root m va" if v: "canon va" for va
  proof (cases "addr + l \<le> va \<and> va < end_addr")
    case True
    then have "translate root m' va = Some (paddr + l + (va - (addr + l)), PTE_V OR f)"
      using r Inr v by (simp add: mapped_range_def)
    then show ?thesis using True by simp
  next
    case False
    then have same: "entry root m' va = entry root m1 va" using r Inr v unfolding mapped_range_def by auto
    show ?thesis
    proof (cases "addr \<le> va \<and> va < addr + l")
      case True
      then have "entry root m' va = Some (k, paddr + (va - addr) div 2 ^ k * 2 ^ k, PTE_V OR f)" using e1 [OF v] same by simp
      from chunk_translate [OF assms(1) _ this] True assms(2) show ?thesis by simp
    next
      case out: False
      then have "\<not> (addr \<le> va \<and> va < end_addr)" using False by auto
      then show ?thesis using e1 [OF v] same out by (simp only: if_False)
    qed
  qed
  then show ?thesis using Inr unfolding mapped_range_def by simp
qed

lemma aligned_sizes: "is_aligned a PAGE_SIZE \<longleftrightarrow> 2 ^ 12 dvd a" "is_aligned a PAGE_SIZE_2M \<longleftrightarrow> 2 ^ 21 dvd a" "is_aligned a PAGE_SIZE_1G \<longleftrightarrow> 2 ^ 30 dvd a"
  using is_aligned_pow2 [of a 12] is_aligned_pow2 [of a 21] is_aligned_pow2 [of a 30]
  by (simp_all add: PAGE_SIZE_def PAGE_SIZE_2M_def PAGE_SIZE_1G_def)

lemma round_sizes: "round_down a PAGE_SIZE = a div 2 ^ 12 * 2 ^ 12" "round_down a PAGE_SIZE_2M = a div 2 ^ 21 * 2 ^ 21"
    "round_down a PAGE_SIZE_1G = a div 2 ^ 30 * 2 ^ 30"
  using round_down_pow2 [of a 12] round_down_pow2 [of a 21] round_down_pow2 [of a 30]
  by (simp_all add: PAGE_SIZE_def PAGE_SIZE_2M_def PAGE_SIZE_1G_def mult.commute)

text \<open>The page size that is chosen: it divides the addresses and fits, and what it leaves is shorter than one such page.\<close>

lemma chunk_cases:
  assumes "2 ^ 12 dvd addr" "2 ^ 12 dvd paddr" "2 ^ 12 dvd rem_size" "0 < rem_size"
  shows "\<exists>k r. chunk addr paddr rem_size = (2 ^ k, r * 2 ^ k) \<and> k \<in> {12, 21, 30} \<and> 2 ^ k dvd addr \<and> 2 ^ k dvd paddr
    \<and> 0 < r \<and> r * 2 ^ k \<le> rem_size \<and> rem_size - r * 2 ^ k < 2 ^ k \<and> 2 ^ 12 dvd r * 2 ^ k \<and> (k = 12 \<longrightarrow> r * 2 ^ k = rem_size)"
proof -
  define k :: nat where "k = (if 2 ^ 30 dvd addr \<and> 2 ^ 30 dvd paddr \<and> 2 ^ 30 \<le> rem_size then 30
    else if 2 ^ 21 dvd addr \<and> 2 ^ 21 dvd paddr \<and> 2 ^ 21 \<le> rem_size then 21 else 12)"
  have k: "k \<in> {12, 21, 30}" "2 ^ k dvd addr" "2 ^ k dvd paddr" using assms by (auto simp: k_def)
  have "2 ^ 12 \<le> rem_size" using assms(3,4) by (rule dvd_imp_le)
  then have le: "2 ^ k \<le> rem_size" by (auto simp: k_def)
  have "chunk addr paddr rem_size = (2 ^ k, rem_size div 2 ^ k * 2 ^ k)"
    unfolding chunk_def aligned_sizes round_sizes by (simp add: k_def PAGE_SIZE_def PAGE_SIZE_2M_def PAGE_SIZE_1G_def)
  moreover have "0 < rem_size div 2 ^ k" using le by (simp add: div_greater_zero_iff)
  moreover have "rem_size - rem_size div 2 ^ k * 2 ^ k < 2 ^ k" by (simp add: minus_div_mult_eq_mod)
  moreover have "(2 :: nat) ^ 12 dvd 2 ^ k" using k(1) by (intro le_imp_power_dvd) auto
  ultimately show ?thesis using k assms(3) by (intro exI [of _ k] exI [of _ "rem_size div 2 ^ k"]) auto
qed

section \<open>Sources of frames\<close>

text \<open>\<open>ok X s\<close>: the frames of \<open>X\<close> are in use by the tables, and the source is in order.\<close>

locale frame_source =
  fixes alloc :: "'s \<Rightarrow> (nat \<times> 's) option"
    and ok :: "nat set \<Rightarrow> 's \<Rightarrow> bool"
  assumes alloc_ok: "ok X s \<Longrightarrow> \<exists>pa s'. alloc s = Some (pa, s') \<and> (if pa = 0 then ok X s' else ok (insert pa X) s' \<and> pa \<notin> X \<and> 4096 dvd pa)"
begin

lemma next_root_ok:
  assumes "tree X root m" "ok X s" "12 \<le> hole root m addr"
  shows "\<exists>r m' s' X'. next_table alloc root (pgd_index addr) m s = Some (r, m', s') \<and> X \<subseteq> X' \<and> tree X' root m' \<and> ok X' s'
    \<and> (\<forall>va. entry root m' va = entry root m va \<and> min 21 (hole root m va) \<le> hole root m' va)
    \<and> (\<forall>t. r = Some t \<longrightarrow> descend m' root [pgd_index addr] = Some t)"
proof (cases "pgd_is_valid (m root (pgd_index addr))")
  case True
  then have "is_dir (m root (pgd_index addr))" using assms(3) by (auto simp: is_dir_def hole_def)
  then show ?thesis using True assms by (auto simp: next_table_def)
next
  case False
  from alloc_ok [OF assms(2)] obtain pa s' where a: "alloc s = Some (pa, s')"
    "if pa = 0 then ok X s' else ok (insert pa X) s' \<and> pa \<notin> X \<and> 4096 dvd pa" by blast
  show ?thesis
  proof (cases "pa = 0")
    case True
    then show ?thesis using a False assms(1) by (auto simp: next_table_def)
  next
    case nz: False
    let ?m = "set_entry root (pgd_index addr) (pgd_set_next pa) (m(pa := (\<lambda>_. 0)))"
    have pa: "pa \<notin> X" "4096 dvd pa" "ok (insert pa X) s'" using a(2) nz by simp_all
    have p: "descend m root [] = Some root" "length ([] :: nat list) \<le> 1" by simp_all
    note l = link_root [OF assms(1) False pa(1,2)] and tr = tree_link [OF assms(1) p False pa(1,2)]
      and d = descend_link [OF assms(1) p False pa(1,2), of "[pgd_index addr]"]
    have "min 21 (hole root m va) \<le> hole root ?m va" for va using l(2) [of va] by simp
    moreover have "next_table alloc root (pgd_index addr) m s = Some (Some pa, ?m, s')" using False a(1) nz by (simp add: next_table_def)
    ultimately show ?thesis using l(1) tr d pa(3) by (intro exI [of _ "Some pa"] exI [of _ ?m] exI [of _ s'] exI [of _ "insert pa X"]) auto
  qed
qed

lemma next_pmd_ok:
  assumes "tree X root m" "ok X s" "12 \<le> hole root m addr" "descend m root [pgd_index addr] = Some t"
  shows "\<exists>r m' s' X'. next_table alloc t (pmd_index addr) m s = Some (r, m', s') \<and> X \<subseteq> X' \<and> tree X' root m' \<and> ok X' s'
    \<and> (\<forall>va. entry root m' va = entry root m va \<and> min 12 (hole root m va) \<le> hole root m' va)
    \<and> (\<forall>u. r = Some u \<longrightarrow> descend m' root [pgd_index addr, pmd_index addr] = Some u)"
proof -
  have dir: "is_dir (m root (pgd_index addr))" "t = pgd_next (m root (pgd_index addr))" using assms(4) by (auto split: if_splits)
  show ?thesis
  proof (cases "pgd_is_valid (m t (pmd_index addr))")
    case True
    then have "is_dir (m t (pmd_index addr))" using assms(3) dir by (auto simp: is_dir_def hole_def)
    then show ?thesis using True assms dir by (auto simp: next_table_def)
  next
    case False
    from alloc_ok [OF assms(2)] obtain pa s' where a: "alloc s = Some (pa, s')"
      "if pa = 0 then ok X s' else ok (insert pa X) s' \<and> pa \<notin> X \<and> 4096 dvd pa" by blast
    show ?thesis
    proof (cases "pa = 0")
      case True
      then show ?thesis using a False assms(1) by (auto simp: next_table_def)
    next
      case nz: False
      let ?m = "set_entry t (pmd_index addr) (pgd_set_next pa) (m(pa := (\<lambda>_. 0)))"
      have pa: "pa \<notin> X" "4096 dvd pa" "ok (insert pa X) s'" using a(2) nz by simp_all
      have p: "length [pgd_index addr] \<le> 1" by simp
      note l = link_pmd [OF assms(1,4) False pa(1,2)] and tr = tree_link [OF assms(1,4) p False pa(1,2)]
        and d = descend_link [OF assms(1,4) p False pa(1,2), of "[pgd_index addr, pmd_index addr]"]
      have "min 12 (hole root m va) \<le> hole root ?m va" for va using l(2) [of va] by simp
      moreover have "next_table alloc t (pmd_index addr) m s = Some (Some pa, ?m, s')" using False a(1) nz by (simp add: next_table_def)
      ultimately show ?thesis using l(1) tr d pa(3) by (intro exI [of _ "Some pa"] exI [of _ ?m] exI [of _ s'] exI [of _ "insert pa X"]) auto
    qed
  qed
qed

lemma map_one_ok:
  assumes "tree X root m" "ok X s" "k \<in> {12, 21, 30}" "k \<le> hole root m addr" "leaf_flags f" "2 ^ k dvd paddr"
  shows "\<exists>b m' s' X'. map_one alloc root f (2 ^ k) addr paddr m s = Some (b, m', s') \<and> X \<subseteq> X' \<and> tree X' root m' \<and> ok X' s'
    \<and> one_more k b addr paddr f root m m'"
proof (cases "k = 30")
  case True
  have "hole root m addr \<le> 30" by (auto simp: hole_def Let_def)
  then have "hole root m addr = 30" using assms(4) True by simp
  note e = enter_1g [OF assms(1) this assms(5), of paddr]
  have "map_one alloc root f (2 ^ k) addr paddr m s = Some (True, set_entry root (pgd_index addr) (pgd_set_leaf paddr f) m, s)"
    using e(3) assms(6) True by (simp add: map_one_def PAGE_SIZE_1G_def)
  then show ?thesis using e(1,2) assms(2,6) True by blast
next
  case False
  have lt: "12 \<le> hole root m addr" using assms(3,4) by auto
  from next_root_ok [OF assms(1,2) lt] obtain r m1 s1 X1 where
    1: "next_table alloc root (pgd_index addr) m s = Some (r, m1, s1)" "X \<subseteq> X1" "tree X1 root m1" "ok X1 s1"
      "\<forall>va. entry root m1 va = entry root m va \<and> min 21 (hole root m va) \<le> hole root m1 va"
      "\<forall>t. r = Some t \<longrightarrow> descend m1 root [pgd_index addr] = Some t" by blast
  have k21: "k \<le> 21" using assms(3) False by auto
  have keep: "\<forall>va. entry root m1 va = entry root m va \<and> min k (hole root m va) \<le> hole root m1 va"
    using 1(5) k21 by (meson min.mono order.refl order.trans)
  have h1: "k \<le> hole root m1 addr" using keep assms(4) by (metis min.absorb1)
  have ps: "(2 :: nat) ^ k \<noteq> PAGE_SIZE_1G" using k21 power_increasing [of k 21 "2 :: nat"] by (simp add: PAGE_SIZE_1G_def)
  show ?thesis
  proof (cases r)
    case None
    moreover have "one_more k False addr paddr f root m m1" using keep by (simp add: one_more_def)
    moreover have "map_one alloc root f (2 ^ k) addr paddr m s = Some (False, m1, s1)" using 1(1) None ps by (simp add: map_one_def)
    ultimately show ?thesis using 1(2-4) by blast
  next
    case (Some t)
    then have t: "descend m1 root [pgd_index addr] = Some t" using 1(6) by blast
    show ?thesis
    proof (cases "k = 21")
      case True
      let ?m = "set_entry t (pmd_index addr) (pmd_set_leaf paddr f) m1"
      have h: "21 \<le> hole root m1 addr" "2 ^ 21 dvd paddr" using h1 assms(6) True by simp_all
      note e = enter_2m [OF 1(3) h(1) t assms(5) h(2)]
      have "map_one alloc root f (2 ^ k) addr paddr m s = Some (True, ?m, s1)"
        using 1(1) Some e(3) ps True by (simp add: map_one_def PAGE_SIZE_2M_def)
      moreover have "one_more k True addr paddr f root m ?m" using one_more_trans [OF keep] e(1) True by blast
      ultimately show ?thesis using 1(2,4) e(2) by blast
    next
      case k12: False
      then have k: "k = 12" using assms(3) False by auto
      from next_pmd_ok [OF 1(3,4) _ t] h1 k obtain r2 m2 s2 X2 where
        2: "next_table alloc t (pmd_index addr) m1 s1 = Some (r2, m2, s2)" "X1 \<subseteq> X2" "tree X2 root m2" "ok X2 s2"
          "\<forall>va. entry root m2 va = entry root m1 va \<and> min 12 (hole root m1 va) \<le> hole root m2 va"
          "\<forall>u. r2 = Some u \<longrightarrow> descend m2 root [pgd_index addr, pmd_index addr] = Some u" by blast
      have keep2: "\<forall>va. entry root m2 va = entry root m va \<and> min k (hole root m va) \<le> hole root m2 va"
        proof
        fix va
        have "min 12 (hole root m va) \<le> min 12 (hole root m1 va)" using keep k by simp
        also have "\<dots> \<le> hole root m2 va" using 2(5) by simp
        finally show "entry root m2 va = entry root m va \<and> min k (hole root m va) \<le> hole root m2 va" using keep 2(5) k by simp
      qed
      have h2: "12 \<le> hole root m2 addr" using keep2 assms(4) k by (metis min.absorb1)
      show ?thesis
      proof (cases r2)
        case None
        moreover have "one_more k False addr paddr f root m m2" using keep2 by (simp add: one_more_def)
        moreover have "map_one alloc root f (2 ^ k) addr paddr m s = Some (False, m2, s2)"
          using 1(1) 2(1) None Some k by (simp add: map_one_def PAGE_SIZE_1G_def PAGE_SIZE_2M_def)
        moreover have "X \<subseteq> X2" using 1(2) 2(2) by blast
        ultimately show ?thesis using 2(3,4) by blast
      next
        case (Some u)
        let ?m = "set_entry u (pte_index addr) (pte_set_leaf paddr f) m2"
        have h: "2 ^ 12 dvd paddr" "descend m2 root [pgd_index addr, pmd_index addr] = Some u" using assms(6) k 2(6) Some by auto
        note e = enter_4k [OF 2(3) h2 h(2) assms(5) h(1)]
        have "map_one alloc root f (2 ^ k) addr paddr m s = Some (True, ?m, s2)"
          using 1(1) 2(1) Some e(3) k \<open>r = Some t\<close> by (simp add: map_one_def PAGE_SIZE_1G_def PAGE_SIZE_2M_def)
        moreover have "one_more k True addr paddr f root m ?m" using one_more_trans [OF keep2] e(1) k by blast
        moreover have "X \<subseteq> X2" using 1(2) 2(2) by blast
        ultimately show ?thesis using 2(4) e(2) by blast
      qed
    qed
  qed
qed

lemma map_fixed_ok:
  assumes "tree X root m" "ok X s" and k: "k \<in> {12, 21, 30}" and f: "leaf_flags f"
    and "2 ^ k dvd start" "2 ^ k dvd addr" "2 ^ k dvd paddr" "start \<le> addr" "end_addr = addr + r * 2 ^ k" "canon_range start end_addr"
    and "\<forall>va. addr \<le> va \<and> va < end_addr \<longrightarrow> k \<le> hole root m va"
    and "\<forall>va. start \<le> va \<and> va < addr \<longrightarrow> (\<exists>pa fl. entry root m va = Some (k, pa, fl))"
    and "r < n" "paddr + r * 2 ^ k < 2 ^ 64"
  shows "\<exists>res m' s' X'. map_fixed n alloc root f (2 ^ k) start end_addr addr paddr m s = Some (res, m', s')
    \<and> X \<subseteq> X' \<and> tree X' root m' \<and> ok X' s' \<and> mapped_chunk k f start addr end_addr paddr root m res m'"
  using assms(1,2,6-)
proof (induction r arbitrary: n addr paddr m s X)
  case 0
  then obtain n' where "n = Suc n'" by (cases n) auto
  then show ?case using 0 by (auto simp: mapped_chunk_def)
next
  case (Suc r)
  note P = Suc.prems
  obtain n' where n: "n = Suc n'" using P(10) by (cases n) auto
  have pos: "(0 :: nat) < 2 ^ k" by simp
  have lt: "addr < end_addr" and next_le: "addr + 2 ^ k \<le> end_addr" using P(6) pos by (simp_all add: algebra_simps)
  have ca: "canon addr" using P(5,7) lt by (simp add: canon_range_def)
  have sb: "same_block k va addr \<longleftrightarrow> addr \<le> va \<and> va < addr + 2 ^ k" if "canon va" for va
    using same_block_iff [OF that ca k] block_range [OF P(3), of va] by simp
  have cr: "canon va" if "start \<le> va" "va < end_addr" for va using P(7) that by (simp add: canon_range_def)
  have ha: "k \<le> hole root m addr" using P(8) lt by simp
  from map_one_ok [OF P(1,2) k ha f P(4)] obtain b m1 s1 X1 where
    o: "map_one alloc root f (2 ^ k) addr paddr m s = Some (b, m1, s1)" "X \<subseteq> X1" "tree X1 root m1" "ok X1 s1"
      "one_more k b addr paddr f root m m1" by blast
  have e1: "entry root m1 va = (if b \<and> same_block k va addr then Some (k, paddr, PTE_V OR f) else entry root m va)"
    "\<not> same_block k va addr \<Longrightarrow> min k (hole root m va) \<le> hole root m1 va" for va using o(5) by (auto simp: one_more_def)
  show ?case
  proof (cases b)
    case True
    have wr: "wrap64 (addr + 2 ^ k) = addr + 2 ^ k" "wrap64 (paddr + 2 ^ k) = paddr + 2 ^ k"
      using next_le P(7,11) by (simp_all add: canon_range_def)
    have "\<exists>res m' s' X'. map_fixed n' alloc root f (2 ^ k) start end_addr (addr + 2 ^ k) (paddr + 2 ^ k) m1 s1 = Some (res, m', s')
      \<and> X1 \<subseteq> X' \<and> tree X' root m' \<and> ok X' s' \<and> mapped_chunk k f start (addr + 2 ^ k) end_addr (paddr + 2 ^ k) root m1 res m'"
    proof (rule Suc.IH [OF o(3,4)])
      show "2 ^ k dvd addr + 2 ^ k" "2 ^ k dvd paddr + 2 ^ k" "start \<le> addr + 2 ^ k" "end_addr = addr + 2 ^ k + r * 2 ^ k"
        "canon_range start end_addr" "r < n'" "paddr + 2 ^ k + r * 2 ^ k < 2 ^ 64"
        using P n by (simp_all add: algebra_simps)
      have "k \<le> hole root m1 va" if va: "addr + 2 ^ k \<le> va" "va < end_addr" for va
      proof -
        have "canon va" "\<not> same_block k va addr" using cr [of va] sb [of va] va P(5) by auto
        then have "min k (hole root m va) \<le> hole root m1 va" using e1(2) by simp
        moreover have "k \<le> hole root m va" using P(8) va by simp
        ultimately show ?thesis by simp
      qed
      then show "\<forall>va. addr + 2 ^ k \<le> va \<and> va < end_addr \<longrightarrow> k \<le> hole root m1 va" by blast
      have "\<exists>pa fl. entry root m1 va = Some (k, pa, fl)" if "start \<le> va" "va < addr + 2 ^ k" for va
        using e1(1) [of va] True P(9) sb [OF cr] that next_le by (cases "va < addr") auto
      then show "\<forall>va. start \<le> va \<and> va < addr + 2 ^ k \<longrightarrow> (\<exists>pa fl. entry root m1 va = Some (k, pa, fl))" by blast
    qed
    then obtain res m' s' X' where r: "map_fixed n' alloc root f (2 ^ k) start end_addr (addr + 2 ^ k) (paddr + 2 ^ k) m1 s1 = Some (res, m', s')"
      "X1 \<subseteq> X'" "tree X' root m'" "ok X' s'" "mapped_chunk k f start (addr + 2 ^ k) end_addr (paddr + 2 ^ k) root m1 res m'" by blast
    have "mapped_chunk k f start addr end_addr paddr root m res m'"
      using mapped_chunk_step [OF _ next_le P(5) sb r(5)] o(5) True by simp
    then show ?thesis using o(1,2) r(1-4) n lt wr True by auto
  next
    case False
    have "whole_pages root m1 start addr" using uniform_whole_pages [OF assms(5) P(3)] P(9) e1(1) False by simp
    moreover have "canon_range start addr" using P(7) lt by (auto simp: canon_range_def)
    ultimately obtain m' where m': "do_unmap_range start addr root m1 = Some m'" "tree X1 root m'"
      "\<forall>va. canon va \<longrightarrow> entry root m' va = (if start \<le> va \<and> va < addr then None else entry root m1 va)"
      using unmap_range_ok [OF o(3), of start addr "(addr - start) div 4096 + 1"] by (auto simp: do_unmap_range_def PAGE_SIZE_def)
    have "entry root m va = None" if "addr \<le> va" "va < end_addr" for va
      using P(8) that k unfolding hole_entry by fastforce
    then have "mapped_chunk k f start addr end_addr paddr root m (Inl ENOMEM) m'"
      using m'(3) e1(1) False P(5) lt by (auto simp: mapped_chunk_def)
    then show ?thesis using o m'(1,2) n lt False by auto
  qed
qed

lemma map_fixed_size_pages_ok:
  assumes "tree X root m" "ok X s" "k \<in> {12, 21, 30}" "leaf_flags f" "2 ^ k dvd addr" "2 ^ k dvd paddr"
    and "canon_range addr (addr + r * 2 ^ k)" "\<forall>va. addr \<le> va \<and> va < addr + r * 2 ^ k \<longrightarrow> k \<le> hole root m va"
    and "paddr + r * 2 ^ k < 2 ^ 64"
  shows "\<exists>res m' s' X'. map_fixed_size_pages alloc root f addr paddr (r * 2 ^ k) (2 ^ k) m s = Some (res, m', s')
    \<and> X \<subseteq> X' \<and> tree X' root m' \<and> ok X' s' \<and> mapped_chunk k f addr addr (addr + r * 2 ^ k) paddr root m res m'"
proof -
  have "wrap64 (addr + r * 2 ^ k) = addr + r * 2 ^ k" using assms(7) by (simp add: canon_range_def)
  then show ?thesis
    unfolding map_fixed_size_pages_def
    by (simp only:) (rule map_fixed_ok [OF assms(1-5) assms(5,6) le_refl refl assms(7,8)]; use assms(9) in auto)
qed

lemma map_chunks_ok:
  assumes "tree X root m" "ok X s" "leaf_flags f" "2 ^ 12 dvd addr" "2 ^ 12 dvd paddr" "2 ^ 12 dvd end_addr - addr" "addr \<le> end_addr"
    and "canon_range addr end_addr" "paddr + (end_addr - addr) < 2 ^ 64"
    and "\<forall>va. addr \<le> va \<and> va < end_addr \<longrightarrow> 12 \<le> hole root m va \<and> (2 ^ 21 \<le> end_addr - addr \<longrightarrow> 21 \<le> hole root m va)
      \<and> (2 ^ 30 \<le> end_addr - addr \<longrightarrow> 30 \<le> hole root m va)"
    and "end_addr = addr \<or> (0 < n \<and> (2 ^ 21 \<le> end_addr - addr \<longrightarrow> 1 < n) \<and> (2 ^ 30 \<le> end_addr - addr \<longrightarrow> 2 < n))"
  shows "\<exists>res m' s' X'. map_chunks n alloc root f end_addr addr paddr m s = Some (res, m', s')
    \<and> X \<subseteq> X' \<and> tree X' root m' \<and> ok X' s' \<and> mapped_range f addr end_addr paddr root m res m'"
  using assms(1,2,4-)
proof (induction n arbitrary: addr paddr m s X)
  case 0
  then show ?case by (auto simp: mapped_range_def)
next
  case (Suc n)
  note P = Suc.prems
  show ?case
  proof (cases "addr < end_addr")
    case False
    then show ?thesis using P(1,2,6) by (auto simp: mapped_range_def)
  next
    case True
    from chunk_cases [OF P(3,4,5)] True obtain k r where c: "chunk addr paddr (end_addr - addr) = (2 ^ k, r * 2 ^ k)"
      "k \<in> {12, 21, 30}" "2 ^ k dvd addr" "2 ^ k dvd paddr" "0 < r" "r * 2 ^ k \<le> end_addr - addr"
      "end_addr - addr - r * 2 ^ k < 2 ^ k" "2 ^ 12 dvd r * 2 ^ k" "k = 12 \<longrightarrow> r * 2 ^ k = end_addr - addr" by auto
    let ?mid = "addr + r * 2 ^ k"
    have le: "?mid \<le> end_addr" "addr < ?mid" using c(5,6) True by auto
    have fit: "2 ^ k \<le> end_addr - addr" using c(5,6) by (metis One_nat_def Suc_leI le_trans mult_1 mult_le_mono1)
    have hk: "k \<le> hole root m va" if "addr \<le> va" "va < end_addr" for va using P(9) that fit c(2) by auto
    have cr: "canon_range addr ?mid" "canon_range ?mid end_addr" using P(7) le by (auto simp: canon_range_def)
    have pa64: "paddr + r * 2 ^ k < 2 ^ 64" using P(8) c(6) by linarith
    have mid64: "?mid < 2 ^ 64" using P(7) le(1) by (simp add: canon_range_def)
    from map_fixed_size_pages_ok [OF P(1,2) c(2) assms(3) c(3,4) cr(1) _ pa64] hk le obtain res m1 s1 X1 where
      m1: "map_fixed_size_pages alloc root f addr paddr (r * 2 ^ k) (2 ^ k) m s = Some (res, m1, s1)"
        "X \<subseteq> X1" "tree X1 root m1" "ok X1 s1" "mapped_chunk k f addr addr ?mid paddr root m res m1" by fastforce
    have run: "map_chunks (Suc n) alloc root f end_addr addr paddr m s = (case res of Inl e \<Rightarrow> Some (Inl e, m1, s1)
        | Inr _ \<Rightarrow> map_chunks n alloc root f end_addr ?mid (paddr + r * 2 ^ k) m1 s1)"
      using True c(1) m1(1) wrap64_id [OF mid64] wrap64_id [OF pa64] by (simp split: sum.split)
    show ?thesis
    proof (cases res)
      case (Inl e)
      have none: "entry root m va = None" if "addr \<le> va" "va < end_addr" for va using P(9) that unfolding hole_entry by fastforce
      have "end_addr = ?mid" if "end_addr - addr < 2 ^ 21" using that fit c(2,9) le by auto
      then have "mapped_range f addr end_addr paddr root m res m1"
        using m1(5) Inl none le by (auto simp: mapped_range_def mapped_chunk_def)
      then show ?thesis using run Inl m1(2-4) by auto
    next
      case (Inr u)
      have e1: "if addr \<le> va \<and> va < ?mid then entry root m1 va = Some (k, paddr + (va - addr) div 2 ^ k * 2 ^ k, PTE_V OR f)
          else entry root m1 va = entry root m va \<and> min k (hole root m va) \<le> hole root m1 va" if "canon va" for va
        using m1(5) Inr that by (simp add: mapped_chunk_def)
      have "\<exists>res m' s' X'. map_chunks n alloc root f end_addr ?mid (paddr + r * 2 ^ k) m1 s1 = Some (res, m', s')
        \<and> X1 \<subseteq> X' \<and> tree X' root m' \<and> ok X' s' \<and> mapped_range f ?mid end_addr (paddr + r * 2 ^ k) root m1 res m'"
      proof (rule Suc.IH [OF m1(3,4)])
        show "2 ^ 12 dvd ?mid" "2 ^ 12 dvd paddr + r * 2 ^ k" "?mid \<le> end_addr" "canon_range ?mid end_addr"
          using P(3,4) c(8) le(1) cr(2) by simp_all
        show "2 ^ 12 dvd end_addr - ?mid" using dvd_diff_nat [OF P(5) c(8)] by (simp add: diff_diff_add)
        show "paddr + r * 2 ^ k + (end_addr - ?mid) < 2 ^ 64" using P(8) le by simp
        have rest: "end_addr - ?mid < 2 ^ k" using c(7) by (simp add: diff_diff_add)
        have "k \<le> hole root m1 va" if "?mid \<le> va" "va < end_addr" for va
        proof -
          have "canon va" using P(7) that le(2) by (simp add: canon_range_def)
          then have "min k (hole root m va) \<le> hole root m1 va" using e1 that by simp
          moreover have "k \<le> hole root m va" using hk that le(2) by simp
          ultimately show ?thesis by simp
        qed
        then show "\<forall>va. ?mid \<le> va \<and> va < end_addr \<longrightarrow> 12 \<le> hole root m1 va \<and> (2 ^ 21 \<le> end_addr - ?mid \<longrightarrow> 21 \<le> hole root m1 va)
            \<and> (2 ^ 30 \<le> end_addr - ?mid \<longrightarrow> 30 \<le> hole root m1 va)"
          using rest c(2) by fastforce
        show "end_addr = ?mid \<or> (0 < n \<and> (2 ^ 21 \<le> end_addr - ?mid \<longrightarrow> 1 < n) \<and> (2 ^ 30 \<le> end_addr - ?mid \<longrightarrow> 2 < n))"
          using P(10) rest fit c(2,9) le True by auto
      qed
      then obtain res' m' s' X' where m': "map_chunks n alloc root f end_addr ?mid (paddr + r * 2 ^ k) m1 s1 = Some (res', m', s')"
        "X1 \<subseteq> X'" "tree X' root m'" "ok X' s'" "mapped_range f ?mid end_addr (paddr + r * 2 ^ k) root m1 res' m'" by blast
      have short: "res' = Inr ()" if "end_addr - addr < 2 ^ 21"
        using that m'(1) fit c(2,9) le by (cases n) auto
      have "mapped_range f addr end_addr paddr root m res' m'"
        by (rule mapped_range_step [OF c(3) le e1 m'(5) short])
      then show ?thesis using run Inr m' m1(2) by auto
    qed
  qed
qed

end

end
