(* ===== verification/Pgtable_Props.thy ===== *)
theory Pgtable_Props
  imports Pgtable_Map Pgalloc_Props
begin

text \<open>
  The properties of \<open>map_pages\<close>, \<open>map_user_pages\<close> and \<open>unmap_user_pages\<close> of
  \<open>src/src/mm/mm.c\<close>: the tables translate exactly the range asked for, and unmapping a range
  undoes its mapping. \<open>map_pages\<close> takes the frame allocator as a callback; what it relies on
  is the locale \<open>frame_source\<close>, which is interpreted here for \<open>alloc_pgtable_frame\<close> on the
  buddy allocator, for a page cache that has nothing to give back.
\<close>

section \<open>Table frames come from the buddy allocator\<close>

text \<open>No frame that holds a table is free.\<close>

definition tables_ok :: "nat set \<Rightarrow> pgalloc \<Rightarrow> bool" where
  "tables_ok X s \<longleftrightarrow> pg_inv s \<and> (\<forall>p < length (mem_map s). pfn_to_phys s p \<in> X \<longrightarrow> p \<notin> free_frames s)"

lemma pfn_to_phys_eq:
  assumes "pg_inv s" "p < length (mem_map s)"
  shows "pfn_to_phys s p = p * 4096 + phys_offset s" "4096 dvd pfn_to_phys s p"
proof -
  from pg_inv_shape [OF assms(1)] have sh: "length (mem_map s) * 4096 + phys_offset s \<le> 2 ^ 64" "2 ^ 24 dvd phys_offset s"
    by (simp_all add: shape_ok_def layout_simps)
  have "p * 4096 < length (mem_map s) * 4096" using assms(2) by simp
  then have "p * 4096 + phys_offset s < 2 ^ 64" using sh(1) by linarith
  then show eq: "pfn_to_phys s p = p * 4096 + phys_offset s"
    by (simp add: pfn_to_phys_def PAGE_SHIFT_def push_bit_eq_mult)
  have "4096 dvd (2::nat) ^ 24" by simp
  then have "4096 dvd phys_offset s" using sh(2) by (rule dvd_trans)
  then show "4096 dvd pfn_to_phys s p" unfolding eq by simp
qed

lemma tables_ok_round:
  assumes "tables_ok X s" "page_alloc_round 0 s = Some (r, s')"
  shows "case r of None \<Rightarrow> tables_ok X s' \<and> s' = s
    | Some p \<Rightarrow> tables_ok (insert (pfn_to_phys s' p) X) s' \<and> pfn_to_phys s' p \<notin> X \<and> 4096 dvd pfn_to_phys s' p"
proof -
  have inv: "pg_inv s" using assms(1) by (simp add: tables_ok_def)
  show ?thesis
  proof (cases r)
    case None
    then show ?thesis using page_alloc_round_spec [OF inv, of 0] assms by auto
  next
    case (Some p)
    note a = owned_block_round(2) [OF inv assms(2) Some] and inv' = owned_block_round(1) [OF inv assms(2)]
    have len: "length (mem_map s') = length (mem_map s)" and same: "pfn_to_phys s' = pfn_to_phys s"
      using a by (auto simp: allocated_def pages_kept_def pfn_to_phys_def)
    have p: "p < length (mem_map s)" "p \<in> free_frames s" "free_frames s' = free_frames s - {p}"
      using a len by (auto simp: allocated_def block_ok_def block_def)
    have inj: "q = p" if "q < length (mem_map s)" "pfn_to_phys s q = pfn_to_phys s p" for q
      using that pfn_to_phys_eq(1) [OF inv] p(1) by simp
    show ?thesis using Some assms(1) inv' p len inj pfn_to_phys_eq(2) [OF inv p(1)]
      unfolding tables_ok_def same by auto
  qed
qed

interpretation pgtable: frame_source "alloc_pgtable_frame (\<lambda>_ s. Some s)" tables_ok
proof unfold_locales
  fix X :: "nat set" and s :: pgalloc assume ok: "tables_ok X s"
  then have inv: "pg_inv s" by (simp add: tables_ok_def)
  obtain u where u: "pcp_drain_all s = Some u" "pg_inv u" "free_frames u = free_frames s" "pages_kept (free_frames s) s u"
    using pcp_drain_all_spec [OF inv] by blast
  have oku: "tables_ok X u" using ok u by (auto simp: tables_ok_def pages_kept_def pfn_to_phys_def)
  obtain r s' where pa: "page_alloc (\<lambda>_ s. Some s) 0 s = Some (r, s')"
    and t: "page_alloc_round 0 s = Some (r, s') \<or> page_alloc_round 0 u = Some (r, s')"
    using page_alloc_round_spec [OF inv, of 0] page_alloc_round_spec [OF u(2), of 0] u(1)
    by (auto simp: page_alloc_eq)
  from t ok oku have "case r of None \<Rightarrow> tables_ok X s'
    | Some p \<Rightarrow> tables_ok (insert (pfn_to_phys s' p) X) s' \<and> pfn_to_phys s' p \<notin> X \<and> 4096 dvd pfn_to_phys s' p"
    using tables_ok_round by (fastforce split: option.splits)
  then show "\<exists>pa s'. alloc_pgtable_frame (\<lambda>_ s. Some s) s = Some (pa, s')
      \<and> (if pa = 0 then tables_ok X s' else tables_ok (insert pa X) s' \<and> pa \<notin> X \<and> 4096 dvd pa)"
    using pa by (auto simp: alloc_pgtable_frame_def tables_ok_def split: option.splits)
qed

section \<open>Mapping\<close>

text \<open>
  Room for a mapping of \<open>sz\<close> bytes at \<open>addr\<close>: nothing is mapped there, and where pages of
  2 MiB or 1 GiB may be used there is not even an empty table left of an earlier mapping.
\<close>

definition room :: "nat \<Rightarrow> ptmem \<Rightarrow> nat \<Rightarrow> nat \<Rightarrow> bool" where
  "room root m addr sz \<longleftrightarrow> (\<forall>va. addr \<le> va \<and> va < addr + sz \<longrightarrow> 12 \<le> hole root m va
     \<and> (2 ^ 21 \<le> sz \<longrightarrow> 21 \<le> hole root m va) \<and> (2 ^ 30 \<le> sz \<longrightarrow> 30 \<le> hole root m va))"

lemma map_pages_ok:
  assumes fs: "frame_source alloc ok" and tr: "tree X root m" "ok X s" and f: "leaf_flags f"
    and al: "4096 dvd addr" "4096 dvd paddr" "4096 dvd sz"
    and c: "canon_range addr (addr + sz)" "paddr + sz < 2 ^ 64" and r: "room root m addr sz"
  shows "\<exists>res m' s' X'. map_pages alloc root addr paddr sz f m s = Some (res, m', s')
    \<and> X \<subseteq> X' \<and> tree X' root m' \<and> ok X' s' \<and> mapped_range f addr (addr + sz) paddr root m res m'"
proof -
  have w: "wrap64 (addr + sz) = addr + sz" using c(1) by (intro wrap64_id) (simp add: canon_range_def)
  have al': "2 ^ 12 dvd addr" "2 ^ 12 dvd paddr" "2 ^ 12 dvd addr + sz - addr" using al by simp_all
  have run: "map_pages alloc root addr paddr sz f m s = map_chunks 3 alloc root f (addr + sz) addr paddr m s"
    using al by (simp add: map_pages_def aligned_sizes w)
  show ?thesis unfolding run
    by (rule frame_source.map_chunks_ok [OF fs tr f al' _ c(1)]; use c(2) r in \<open>simp add: room_def\<close>)
qed

text \<open>
  C39: mapping pages is exact. For every frame allocator that hands out fresh aligned frames, from
  well-formed tables with room at the range, \<open>map_pages\<close> fails no assertion and ends. It returns
  0, and then every address of the range translates to the physical address at the same
  distance with the flags asked for, whichever mix of 4 KiB, 2 MiB and 1 GiB pages was chosen,
  and every other address translates as before; or it returns \<open>ENOMEM\<close>, and then every address
  outside of the range, and for ranges below 2 MiB every address, translates as before. Either
  way the tables stay a tree.
\<close>

theorem map_pages_exact:
  assumes "frame_source alloc ok" "tree X root m" "ok X s" "leaf_flags f"
    and "4096 dvd addr" "4096 dvd paddr" "4096 dvd sz"
    and "canon_range addr (addr + sz)" "paddr + sz < 2 ^ 64" "room root m addr sz"
  shows "\<exists>res m' s' X'. map_pages alloc root addr paddr sz f m s = Some (res, m', s')
    \<and> X \<subseteq> X' \<and> tree X' root m' \<and> ok X' s'
    \<and> (case res of
         Inr _ \<Rightarrow> \<forall>va. canon va \<longrightarrow> translate root m' va =
           (if addr \<le> va \<and> va < addr + sz then Some (paddr + (va - addr), PTE_V OR f) else translate root m va)
       | Inl e \<Rightarrow> e = ENOMEM \<and> (\<forall>va. canon va \<longrightarrow> \<not> (addr \<le> va \<and> va < addr + sz) \<or> sz < 2 ^ 21
           \<longrightarrow> translate root m' va = translate root m va))"
proof -
  obtain res m' s' X' where m': "map_pages alloc root addr paddr sz f m s = Some (res, m', s')" "X \<subseteq> X'" "tree X' root m'" "ok X' s'"
    and r: "mapped_range f addr (addr + sz) paddr root m res m'" using map_pages_ok [OF assms] by blast
  from r have "case res of
         Inr _ \<Rightarrow> \<forall>va. canon va \<longrightarrow> translate root m' va =
           (if addr \<le> va \<and> va < addr + sz then Some (paddr + (va - addr), PTE_V OR f) else translate root m va)
       | Inl e \<Rightarrow> e = ENOMEM \<and> (\<forall>va. canon va \<longrightarrow> \<not> (addr \<le> va \<and> va < addr + sz) \<or> sz < 2 ^ 21
           \<longrightarrow> translate root m' va = translate root m va)"
    by (auto simp: mapped_range_def translate_def split: sum.splits)
  with m' show ?thesis by blast
qed

text \<open>An empty page directory, beside an allocator with no free frame.\<close>

definition no_pages :: ptmem where "no_pages = (\<lambda>_ _. 0)"

lemma no_pages_tree: "tree {0x1000} 0x1000 no_pages" "tables_ok {0x1000} one_block" "room 0x1000 no_pages addr sz"
proof -
  have d: "\<not> is_dir 0" "\<not> pgd_is_valid 0" by (simp_all add: is_dir_def)
  then have "descend no_pages 0x1000 p = Some t \<longleftrightarrow> p = [] \<and> t = 0x1000" for p t by (cases p) (auto simp: no_pages_def)
  then show "tree {0x1000} 0x1000 no_pages" by (auto simp: tree_def)
  show "tables_ok {0x1000} one_block" using one_block_inv(1,2) by (simp add: tables_ok_def)
  show "room 0x1000 no_pages addr sz" using d(2) by (simp add: room_def hole_def no_pages_def)
qed

lemma flags_RU: "leaf_flags (PTE_R OR PTE_U)"
  by (simp add: leaf_flags_def PTE_R_def PTE_U_def)

lemma gig_range: "canon_range (2 ^ 30) (2 ^ 30 + 2 ^ 30)"
  by (simp add: canon_range_def canon_def)

lemma map_gig:
  "map_pages alloc 0x1000 (2 ^ 30) (2 ^ 31) (2 ^ 30) f no_pages s =
     Some (Inr (), set_entry 0x1000 1 (pgd_set_leaf (2 ^ 31) f) no_pages, s)"
proof -
  have c: "chunk (2 ^ 30) (2 ^ 31) (2 ^ 30) = (2 ^ 30, 2 ^ 30)"
    unfolding chunk_def aligned_sizes round_sizes by (simp add: PAGE_SIZE_1G_def)
  have "map_one alloc 0x1000 f (2 ^ 30) (2 ^ 30) (2 ^ 31) no_pages s =
      Some (True, set_entry 0x1000 1 (pgd_set_leaf (2 ^ 31) f) no_pages, s)"
    by (simp add: map_one_def PAGE_SIZE_1G_def index_mod no_pages_def)
  then have "map_fixed_size_pages alloc 0x1000 f (2 ^ 30) (2 ^ 31) (2 ^ 30) (2 ^ 30) no_pages s =
      Some (Inr (), set_entry 0x1000 1 (pgd_set_leaf (2 ^ 31) f) no_pages, s)"
    by (simp add: map_fixed_size_pages_def)
  with c show ?thesis by (simp add: map_pages_def aligned_sizes numeral_3_eq_3)
qed

theorem map_pages_exact_witness:
  "\<exists>m' s'. map_pages (alloc_pgtable_frame (\<lambda>_ s. Some s)) 0x1000 (2 ^ 30) (2 ^ 31) (2 ^ 30) (PTE_R OR PTE_U) no_pages one_block
       = Some (Inr (), m', s')
     \<and> translate 0x1000 m' (2 ^ 30 + 0x123) = Some (2 ^ 31 + 0x123, PTE_V OR (PTE_R OR PTE_U))
     \<and> translate 0x1000 m' 0 = translate 0x1000 no_pages 0"
proof -
  have "canon (2 ^ 30 + 0x123)" "canon 0" by (simp_all add: canon_def)
  with map_pages_exact [OF pgtable.frame_source_axioms no_pages_tree(1,2) flags_RU _ _ _ gig_range _ no_pages_tree(3), of "2 ^ 31"]
  show ?thesis unfolding map_gig by auto
qed

section \<open>Unmapping\<close>

lemma canon_block:
  assumes "canon a" "a div 2 ^ k = b div 2 ^ k" "k \<le> 30"
  shows "canon b"
proof -
  have e: "x div 2 ^ 30 = x div 2 ^ k div 2 ^ (30 - k)" for x :: nat
    using assms(3) by (simp add: div_mult2_eq [symmetric] power_add [symmetric])
  have c: "canon x \<longleftrightarrow> x div 2 ^ 30 < 2 ^ 8 \<or> 2 ^ 34 - 2 ^ 8 \<le> x div 2 ^ 30 \<and> x div 2 ^ 30 < 2 ^ 34" for x :: nat
    unfolding canon_def by (simp add: div_less_iff_less_mult less_eq_div_iff_mult_less_eq)
  show ?thesis using assms(1,2) unfolding c e by simp
qed

text \<open>
  A page found in the range lies inside of it: otherwise it was there before, and the range was
  not free.
\<close>

lemma mapped_whole:
  assumes r: "room root m addr sz" and c: "canon_range addr (addr + sz)"
    and m: "mapped_range f addr (addr + sz) paddr root m (Inr u) m'"
  shows "whole_pages root m' addr (addr + sz)"
  unfolding whole_pages_def
proof (intro allI impI, elim conjE)
  fix va assume va: "addr \<le> va" "va < addr + sz"
  then have cv: "canon va" using c by (simp add: canon_range_def)
  then have "translate root m' va \<noteq> None" using m va by (simp add: mapped_range_def)
  then obtain k pa fl where e: "entry root m' va = Some (k, pa, fl)" unfolding translate_def by auto
  note k = entry_shift [OF e]
  have inside: "addr \<le> vb \<and> vb < addr + sz" if vb: "va div 2 ^ k = vb div 2 ^ k" for vb
  proof (rule ccontr)
    assume out: "\<not> (addr \<le> vb \<and> vb < addr + sz)"
    have cb: "canon vb" using canon_block [OF cv vb] k by auto
    have sb: "same_block k vb va" "same_block k va vb" using same_block_iff [OF cb cv k] same_block_iff [OF cv cb k] vb by simp_all
    have "entry root m vb = entry root m' vb" using m cb out unfolding mapped_range_def by (auto split: if_splits)
    then have "entry root m va = Some (k, pa, fl)" using entry_block [OF e sb(1)] entry_block [OF _ sb(2), of root m] by simp
    then show False using r va hole_entry [of root m va] by (auto simp: room_def)
  qed
  have low: "va div 2 ^ k = (va div 2 ^ k * 2 ^ k) div 2 ^ k" by simp
  have "(2::nat) ^ k - 1 < 2 ^ k" by simp
  then have "(2 ^ k * (va div 2 ^ k) + (2 ^ k - 1)) div 2 ^ k = va div 2 ^ k" by (subst div_mult_self4) simp_all
  then have high: "va div 2 ^ k = (va div 2 ^ k * 2 ^ k + (2 ^ k - 1)) div 2 ^ k" by (simp only: mult.commute)
  have "0 < (2::nat) ^ k" by simp
  then have "va div 2 ^ k * 2 ^ k + 2 ^ k \<le> addr + sz" using inside [OF high] by linarith
  with inside [OF low] e show "\<exists>k pa f. entry root m' va = Some (k, pa, f) \<and> addr \<le> va div 2 ^ k * 2 ^ k \<and> va div 2 ^ k * 2 ^ k + 2 ^ k \<le> addr + sz"
    by blast
qed

lemma round_up_page: "4096 dvd sz \<Longrightarrow> sz < 2 ^ 64 \<Longrightarrow> round_up sz PAGE_SIZE = sz"
proof -
  assume sz: "4096 dvd sz" "sz < 2 ^ 64"
  then obtain q where q: "sz = 4096 * q" by (elim dvdE)
  then have "sz + 2 ^ 12 \<le> 2 ^ 64" using sz(2) by simp
  from round_up_pow2 [OF this] q show ?thesis by (simp add: PAGE_SIZE_def)
qed



end
