(* ===== verification/Task.thy ===== *)
theory Task
  imports Prelude
begin

text \<open>
  The data of the task code: spin locks (\<open>src/src/kern/spinlock.c\<close>), \<open>struct task\<close>
  (\<open>src/src/include/brk/task_types.h\<close>), \<open>struct cpu\<close> (\<open>src/src/include/brk/cpu.h\<close>) and the
  globals of \<open>src/src/kern/sched.c\<close> and \<open>src/src/kern/task.c\<close>. Tasks are numbered; a pointer
  that may be NULL is an option. Counts of tasks are natural numbers: a task takes a kernel stack of 16
  KiB, so there are fewer than \<open>2 ^ 32\<close> of them. Whether a task's \<open>queue\<close> node is linked follows from the
  queues themselves. Interrupt flags and preemption counts are not part of the state.
\<close>

section \<open>Spin locks\<close>

record spinlock =
  sl_locked :: bool
  sl_cpuid :: "nat option"

definition spinlock_init :: spinlock where
  "spinlock_init = \<lparr>sl_locked = False, sl_cpuid = None\<rparr>"

definition spin_is_locked_by_me :: "nat \<Rightarrow> spinlock \<Rightarrow> bool" where
  "spin_is_locked_by_me c l \<longleftrightarrow> sl_locked l \<and> sl_cpuid l = Some c"

text \<open>One try; \<open>raw_spin_lock\<close> repeats it, so a lock that is held and stays held is \<open>None\<close>.\<close>

definition spin_trylock :: "nat \<Rightarrow> spinlock \<Rightarrow> spinlock option" where
  "spin_trylock c l = (if sl_locked l then None else Some \<lparr>sl_locked = True, sl_cpuid = Some c\<rparr>)"

definition spin_release :: "bool \<Rightarrow> nat \<Rightarrow> spinlock \<Rightarrow> spinlock option" where
  "spin_release check_owner c l =
     (if check_owner \<and> \<not> spin_is_locked_by_me c l then None else Some \<lparr>sl_locked = False, sl_cpuid = None\<rparr>)"

definition raw_spin_unlock :: "nat \<Rightarrow> spinlock \<Rightarrow> spinlock option" where
  "raw_spin_unlock c l = spin_release False c l"

definition spin_unlock :: "nat \<Rightarrow> spinlock \<Rightarrow> spinlock option" where
  "spin_unlock c l = spin_release True c l"

section \<open>Tasks\<close>

datatype task_state = TASK_STATE_NEW | TASK_STATE_RUNNING | TASK_STATE_SLEEPING | TASK_STATE_ZOMBIE

record tms =
  tms_utime :: u64
  tms_stime :: u64
  tms_cutime :: u64
  tms_cstime :: u64

text \<open>The saved registers, as the 38 words of \<open>struct trap_frame\<close>.\<close>

type_synonym trap_frame = "u64 list"

record task =
  t_parent :: "nat option"
  t_children :: "nat list"
  t_lock :: spinlock
  t_chan :: "nat option"
  t_state :: task_state
  t_exit_status :: int
  t_tgid :: int
  t_pid :: int
  t_pgid :: int
  t_sid :: int
  t_uid :: nat
  t_euid :: nat
  t_cap_effective :: u64
  t_sigactions :: "nat option"
  t_pending :: u64
  t_blocked :: u64
  t_sigframe_sp :: u64
  t_in_handler :: bool
  t_mm :: "nat option"
  t_rsrc_usage :: "tms option"
  t_frame :: trap_frame
  t_oncpu :: int
  t_cpu :: int
  t_ktime :: u64
  t_time_slice :: int
  t_newly_forked :: bool
  t_is_init_task :: bool

section \<open>Processors\<close>

definition MAX_CPUS :: nat where "MAX_CPUS = 8"

record cpu =
  cpu_handoff :: "nat option"
  cpu_current :: "nat option"
  cpu_idle :: "nat option"
  cpu_online :: bool
  cpu_run_queue :: "nat list"
  cpu_nr_running :: nat

record kernel =
  task_of :: "nat \<Rightarrow> task"
  tasks :: "nat list"
  cpus :: "cpu list"
  sleep_queue :: "nat list"
  next_cpu_hint :: u32
  init_reaper :: "nat option"
  wait_lock :: spinlock
  jiffies :: u64

definition upd_task :: "nat \<Rightarrow> (task \<Rightarrow> task) \<Rightarrow> kernel \<Rightarrow> kernel" where
  "upd_task t f k = k\<lparr>task_of := (task_of k)(t := f (task_of k t))\<rparr>"

definition upd_cpu :: "nat \<Rightarrow> (cpu \<Rightarrow> cpu) \<Rightarrow> kernel \<Rightarrow> kernel option" where
  "upd_cpu c f k = (if c < length (cpus k) then Some (k\<lparr>cpus := (cpus k)[c := f (cpus k ! c)]\<rparr>) else None)"

text \<open>Whether the \<open>queue\<close> node of a task is linked into a run queue or the sleep queue.\<close>

definition queued :: "kernel \<Rightarrow> nat \<Rightarrow> bool" where
  "queued k t \<longleftrightarrow> t \<in> set (sleep_queue k) \<or> (\<exists>c \<in> set (cpus k). t \<in> set (cpu_run_queue c))"

definition task_trylock :: "nat \<Rightarrow> nat \<Rightarrow> kernel \<Rightarrow> kernel option" where
  "task_trylock c t k = do {
     l \<leftarrow> spin_trylock c (t_lock (task_of k t));
     Some (upd_task t (\<lambda>p. p\<lparr>t_lock := l\<rparr>) k) }"

definition task_unlock :: "nat \<Rightarrow> nat \<Rightarrow> kernel \<Rightarrow> kernel option" where
  "task_unlock c t k = do {
     l \<leftarrow> raw_spin_unlock c (t_lock (task_of k t));
     Some (upd_task t (\<lambda>p. p\<lparr>t_lock := l\<rparr>) k) }"

section \<open>Process times\<close>

definition task_add_system_time :: "nat \<Rightarrow> u64 \<Rightarrow> kernel \<Rightarrow> kernel" where
  "task_add_system_time t time k =
     upd_task t (\<lambda>p. p\<lparr>t_rsrc_usage := map_option (\<lambda>u. u\<lparr>tms_stime := tms_stime u + time\<rparr>) (t_rsrc_usage p)\<rparr>) k"

definition task_add_user_time :: "nat \<Rightarrow> u64 \<Rightarrow> kernel \<Rightarrow> kernel" where
  "task_add_user_time t time k =
     upd_task t (\<lambda>p. p\<lparr>t_rsrc_usage := map_option (\<lambda>u. u\<lparr>tms_utime := tms_utime u + time\<rparr>) (t_rsrc_usage p)\<rparr>) k"

definition task_add_child_system_time :: "nat \<Rightarrow> u64 \<Rightarrow> kernel \<Rightarrow> kernel" where
  "task_add_child_system_time t time k =
     upd_task t (\<lambda>p. p\<lparr>t_rsrc_usage := map_option (\<lambda>u. u\<lparr>tms_cstime := tms_cstime u + time\<rparr>) (t_rsrc_usage p)\<rparr>) k"

definition task_add_child_user_time :: "nat \<Rightarrow> u64 \<Rightarrow> kernel \<Rightarrow> kernel" where
  "task_add_child_user_time t time k =
     upd_task t (\<lambda>p. p\<lparr>t_rsrc_usage := map_option (\<lambda>u. u\<lparr>tms_cutime := tms_cutime u + time\<rparr>) (t_rsrc_usage p)\<rparr>) k"

definition task_get_system_time :: "nat \<Rightarrow> kernel \<Rightarrow> u64" where
  "task_get_system_time t k = (case t_rsrc_usage (task_of k t) of None \<Rightarrow> 0 | Some u \<Rightarrow> tms_stime u)"

definition task_get_user_time :: "nat \<Rightarrow> kernel \<Rightarrow> u64" where
  "task_get_user_time t k = (case t_rsrc_usage (task_of k t) of None \<Rightarrow> 0 | Some u \<Rightarrow> tms_utime u)"

definition task_get_child_system_time :: "nat \<Rightarrow> kernel \<Rightarrow> u64" where
  "task_get_child_system_time t k = (case t_rsrc_usage (task_of k t) of None \<Rightarrow> 0 | Some u \<Rightarrow> tms_cstime u)"

definition task_get_child_user_time :: "nat \<Rightarrow> kernel \<Rightarrow> u64" where
  "task_get_child_user_time t k = (case t_rsrc_usage (task_of k t) of None \<Rightarrow> 0 | Some u \<Rightarrow> tms_cutime u)"

section \<open>The task list\<close>

definition task_is_leader :: "kernel \<Rightarrow> nat \<Rightarrow> bool" where
  "task_is_leader k t \<longleftrightarrow> t_pid (task_of k t) = t_tgid (task_of k t)"

fun find_by_tgid :: "kernel \<Rightarrow> int \<Rightarrow> nat list \<Rightarrow> nat option \<Rightarrow> nat option" where
  "find_by_tgid k tgid [] match = match"
| "find_by_tgid k tgid (p # ps) match =
     (if t_tgid (task_of k p) \<noteq> tgid then find_by_tgid k tgid ps match
      else if t_pid (task_of k p) = t_tgid (task_of k p) then Some p
      else find_by_tgid k tgid ps (if match = None then Some p else match))"

definition task_find_by_tgid_locked :: "int \<Rightarrow> kernel \<Rightarrow> nat option" where
  "task_find_by_tgid_locked tgid k = find_by_tgid k tgid (tasks k) None"

fun snapshot_pids :: "kernel \<Rightarrow> nat \<Rightarrow> nat list \<Rightarrow> int list \<Rightarrow> int list" where
  "snapshot_pids k mx [] out = out"
| "snapshot_pids k mx (p # ps) out =
     (if length out \<ge> mx then out
      else snapshot_pids k mx ps (if t_tgid (task_of k p) \<in> set out then out else out @ [t_tgid (task_of k p)]))"

definition task_snapshot_pids :: "int \<Rightarrow> kernel \<Rightarrow> int list" where
  "task_snapshot_pids mx k = (if mx \<le> 0 then [] else snapshot_pids k (nat mx) (tasks k) [])"

definition task_pid_exists :: "int \<Rightarrow> kernel \<Rightarrow> bool" where
  "task_pid_exists tgid k \<longleftrightarrow> task_find_by_tgid_locked tgid k \<noteq> None"

definition task_pgrp_exists :: "int \<Rightarrow> int \<Rightarrow> kernel \<Rightarrow> bool" where
  "task_pgrp_exists pgid sid k \<longleftrightarrow> \<not> pgid \<le> 0
     \<and> (\<exists>p \<in> set (tasks k). t_pgid (task_of k p) = pgid \<and> t_sid (task_of k p) = sid)"

definition task_get_pgid :: "int \<Rightarrow> kernel \<Rightarrow> errno + int" where
  "task_get_pgid tgid k = (case task_find_by_tgid_locked tgid k of None \<Rightarrow> Inl ESRCH | Some p \<Rightarrow> Inr (t_pgid (task_of k p)))"

definition task_get_sid :: "int \<Rightarrow> kernel \<Rightarrow> errno + int" where
  "task_get_sid tgid k = (case task_find_by_tgid_locked tgid k of None \<Rightarrow> Inl ESRCH | Some p \<Rightarrow> Inr (t_sid (task_of k p)))"

end
