(* ===== verification/Sched.thy ===== *)
theory Sched
  imports Task
begin

text \<open>
  The scheduler (\<open>src/src/kern/sched.c\<close>): run queues, the context switch, sleeping and waking,
  exit and wait. The first argument \<open>c\<close> of an operation is the processor that executes it. A
  spin on a lock that nobody will release is \<open>None\<close>. Inter-processor interrupts and the switch
  of the page table have no effect on the state.
\<close>

section \<open>Run queues\<close>

definition TIME_SLICE_MAX :: int where "TIME_SLICE_MAX = 5"

definition cpu_load :: "cpu \<Rightarrow> nat" where
  "cpu_load c = (if cpu_current c \<noteq> None \<and> cpu_current c \<noteq> cpu_idle c then cpu_nr_running c + 1 else cpu_nr_running c)"

fun select_cpu :: "cpu list \<Rightarrow> nat list \<Rightarrow> int \<Rightarrow> nat \<Rightarrow> int" where
  "select_cpu cs [] best best_load = best"
| "select_cpu cs (i # is) best best_load =
     (if \<not> cpu_online (cs ! i) then select_cpu cs is best best_load
      else (let load = cpu_load (cs ! i) in
        if load < best_load then (if load = 0 then int i else select_cpu cs is (int i) load)
        else select_cpu cs is best best_load))"

definition task_select_cpu :: "kernel \<Rightarrow> int \<times> kernel" where
  "task_select_cpu k =
     (select_cpu (cpus k) (map (\<lambda>off. unat (next_cpu_hint k + word_of_nat off) mod MAX_CPUS) [0..<MAX_CPUS]) (- 1) (2 ^ 32 - 1),
      k\<lparr>next_cpu_hint := next_cpu_hint k + 1\<rparr>)"

definition join_target :: "nat \<Rightarrow> nat \<Rightarrow> kernel \<Rightarrow> (int \<times> kernel) option" where
  "join_target c t k =
     (if t_oncpu (task_of k t) < 0 then
        (let (target, k') = task_select_cpu k in Some (if target < 0 then t_cpu (task_of k t) else target, k'))
      else do {
        _ \<leftarrow> assert_opt (t_cpu (task_of k t) = int c);
        Some (t_cpu (task_of k t), k) })"

definition task_join :: "nat \<Rightarrow> nat \<Rightarrow> kernel \<Rightarrow> kernel option" where
  "task_join c t k = do {
     (target, k) \<leftarrow> join_target c t k;
     _ \<leftarrow> assert_opt (0 \<le> target \<and> target < int MAX_CPUS);
     _ \<leftarrow> assert_opt (\<not> queued k t);
     _ \<leftarrow> assert_opt (t_state (task_of k t) = TASK_STATE_RUNNING);
     k \<leftarrow> Some (upd_task t (\<lambda>p. p\<lparr>t_cpu := target\<rparr>) k);
     upd_cpu (nat target) (\<lambda>cp. cp\<lparr>cpu_run_queue := cpu_run_queue cp @ [t], cpu_nr_running := cpu_nr_running cp + 1\<rparr>) k }"

definition task_pick_next :: "nat \<Rightarrow> kernel \<Rightarrow> (nat option \<times> kernel) option" where
  "task_pick_next c k = do {
     cp \<leftarrow> nth_opt (cpus k) c;
     (case cpu_run_queue cp of
        [] \<Rightarrow> Some (None, k)
      | t # ts \<Rightarrow> do {
          _ \<leftarrow> assert_opt (t_cpu (task_of k t) = int c);
          _ \<leftarrow> assert_opt (cpu_nr_running cp > 0);
          k \<leftarrow> upd_cpu c (\<lambda>cp. cp\<lparr>cpu_run_queue := ts, cpu_nr_running := cpu_nr_running cp - 1\<rparr>) k;
          Some (Some t, k) }) }"

section \<open>The switch\<close>

text \<open>The part of \<open>task_sched\<close> after the next task is known: lines 281 to 303.\<close>

definition switch_to :: "nat \<Rightarrow> nat \<Rightarrow> nat \<Rightarrow> kernel \<Rightarrow> (bool \<times> kernel) option" where
  "switch_to c cur nxt k =
     (if nxt = cur then do {
        k \<leftarrow> Some (upd_task cur (\<lambda>p. p\<lparr>t_time_slice := TIME_SLICE_MAX\<rparr>) k);
        k \<leftarrow> upd_cpu c (\<lambda>cp. cp\<lparr>cpu_current := Some cur\<rparr>) k;
        Some (False, k) }
      else do {
        k \<leftarrow> Some (task_add_system_time cur (jiffies k - t_ktime (task_of k cur)) k);
        k \<leftarrow> upd_cpu c (\<lambda>cp. cp\<lparr>cpu_handoff := Some cur\<rparr>) k;
        k \<leftarrow> task_trylock c nxt k;
        _ \<leftarrow> assert_opt (t_oncpu (task_of k nxt) = - 1);
        k \<leftarrow> Some (upd_task nxt (\<lambda>p. p\<lparr>t_oncpu := int c\<rparr>) k);
        k \<leftarrow> upd_cpu c (\<lambda>cp. cp\<lparr>cpu_current := Some nxt\<rparr>) k;
        k \<leftarrow> Some (upd_task nxt (\<lambda>p. p\<lparr>t_time_slice := TIME_SLICE_MAX, t_ktime := jiffies k\<rparr>) k);
        Some (True, k) })"

text \<open>
  Up to the context switch; the result says whether there was one. After it the code that runs
  is the rest of the call in which the new task left the processor.
\<close>

definition task_sched :: "nat \<Rightarrow> kernel \<Rightarrow> (bool \<times> kernel) option" where
  "task_sched c k = do {
     cp \<leftarrow> nth_opt (cpus k) c;
     cur \<leftarrow> cpu_current cp;
     _ \<leftarrow> assert_opt (sl_locked (t_lock (task_of k cur)));
     _ \<leftarrow> assert_opt (t_oncpu (task_of k cur) = int c);
     k \<leftarrow> upd_cpu c (\<lambda>cp. cp\<lparr>cpu_current := None\<rparr>) k;
     k \<leftarrow> (case t_state (task_of k cur) of
         TASK_STATE_RUNNING \<Rightarrow> if cpu_idle cp \<noteq> Some cur then task_join c cur k else Some k
       | TASK_STATE_ZOMBIE \<Rightarrow> Some k
       | TASK_STATE_SLEEPING \<Rightarrow> Some k
       | TASK_STATE_NEW \<Rightarrow> None);
     (picked, k) \<leftarrow> task_pick_next c k;
     nxt \<leftarrow> (case picked of Some t \<Rightarrow> Some t | None \<Rightarrow> cpu_idle cp);
     switch_to c cur nxt k }"

text \<open>What the next task does first: the task to wake is the parent of a zombie that has now left the processor.\<close>

definition task_sched_resume :: "nat \<Rightarrow> kernel \<Rightarrow> (nat option \<times> kernel) option" where
  "task_sched_resume c k = do {
     cp \<leftarrow> nth_opt (cpus k) c;
     (case cpu_handoff cp of
        None \<Rightarrow> Some (None, k)
      | Some prev \<Rightarrow> do {
          parent \<leftarrow> Some (if t_state (task_of k prev) = TASK_STATE_ZOMBIE then t_parent (task_of k prev) else None);
          k \<leftarrow> Some (upd_task prev (\<lambda>p. p\<lparr>t_oncpu := - 1\<rparr>) k);
          k \<leftarrow> task_unlock c prev k;
          k \<leftarrow> upd_cpu c (\<lambda>cp. cp\<lparr>cpu_handoff := None\<rparr>) k;
          Some (parent, k) }) }"

definition task_yield_begin :: "nat \<Rightarrow> kernel \<Rightarrow> (bool \<times> kernel) option" where
  "task_yield_begin c k = do {
     cp \<leftarrow> nth_opt (cpus k) c;
     cur \<leftarrow> cpu_current cp;
     k \<leftarrow> task_trylock c cur k;
     task_sched c k }"

text \<open>After the switch every path drops the lock of the task that runs now.\<close>

definition switch_done :: "nat \<Rightarrow> kernel \<Rightarrow> kernel option" where
  "switch_done c k = do {
     cp \<leftarrow> nth_opt (cpus k) c;
     cur \<leftarrow> cpu_current cp;
     task_unlock c cur k }"

section \<open>Sleeping and waking\<close>

text \<open>\<open>task_sleep\<close> up to the point where the task is on the sleep queue and the caller's lock still held.\<close>

definition sleep_publish :: "nat \<Rightarrow> nat \<Rightarrow> kernel \<Rightarrow> kernel option" where
  "sleep_publish c ch k = do {
     cp \<leftarrow> nth_opt (cpus k) c;
     cur \<leftarrow> cpu_current cp;
     k \<leftarrow> task_trylock c cur k;
     k \<leftarrow> Some (upd_task cur (\<lambda>p. p\<lparr>t_state := TASK_STATE_SLEEPING, t_chan := Some ch\<rparr>) k);
     Some (k\<lparr>sleep_queue := sleep_queue k @ [cur]\<rparr>) }"

definition make_runnable :: "nat \<Rightarrow> nat \<Rightarrow> kernel \<Rightarrow> kernel option" where
  "make_runnable c p k = do {
     k \<leftarrow> Some (upd_task p (\<lambda>x. x\<lparr>t_state := TASK_STATE_RUNNING, t_chan := None\<rparr>) k);
     k \<leftarrow> Some (k\<lparr>sleep_queue := remove1 p (sleep_queue k)\<rparr>);
     task_join c p k }"

text \<open>
  One pass of the loop of \<open>task_wake_all\<close>: the first sleeper on the channel whose lock is free,
  or whether a locked one makes another pass necessary.
\<close>

definition sleeps_on :: "kernel \<Rightarrow> nat \<Rightarrow> nat \<Rightarrow> bool" where
  "sleeps_on k ch p \<longleftrightarrow> t_state (task_of k p) = TASK_STATE_SLEEPING \<and> t_chan (task_of k p) = Some ch"

fun find_wakee :: "kernel \<Rightarrow> nat \<Rightarrow> nat list \<Rightarrow> bool \<Rightarrow> nat option \<times> bool" where
  "find_wakee k ch [] retry = (None, retry)"
| "find_wakee k ch (p # ps) retry =
     (if \<not> sleeps_on k ch p then find_wakee k ch ps retry
      else if sl_locked (t_lock (task_of k p)) then find_wakee k ch ps True
      else (Some p, retry))"

text \<open>The flag says whether the loop goes on.\<close>

definition wake_all_pass :: "nat \<Rightarrow> nat \<Rightarrow> kernel \<Rightarrow> (bool \<times> kernel) option" where
  "wake_all_pass c ch k =
     (case find_wakee k ch (sleep_queue k) False of
        (Some p, _) \<Rightarrow> do { k \<leftarrow> make_runnable c p k; Some (True, k) }
      | (None, retry) \<Rightarrow> Some (retry, k))"

definition wake_spec_pass :: "nat \<Rightarrow> nat \<Rightarrow> kernel \<Rightarrow> (bool \<times> kernel) option" where
  "wake_spec_pass c t k =
     (if t \<notin> set (sleep_queue k) \<or> t_state (task_of k t) \<noteq> TASK_STATE_SLEEPING then Some (False, k)
      else if sl_locked (t_lock (task_of k t)) then Some (True, k)
      else do { k \<leftarrow> make_runnable c t k; Some (False, k) })"

text \<open>The whole loops, for callers that run alone: a retry would spin on a lock nobody releases.\<close>

fun wake_all_loop :: "nat \<Rightarrow> nat \<Rightarrow> nat \<Rightarrow> kernel \<Rightarrow> kernel option" where
  "wake_all_loop 0 c ch k = None"
| "wake_all_loop (Suc n) c ch k = do {
     (again, k) \<leftarrow> wake_all_pass c ch k;
     if again then wake_all_loop n c ch k else Some k }"

definition task_wake_all :: "nat \<Rightarrow> nat \<Rightarrow> kernel \<Rightarrow> kernel option" where
  "task_wake_all c ch k = wake_all_loop (Suc (length (sleep_queue k))) c ch k"

definition task_wake_spec :: "nat \<Rightarrow> nat \<Rightarrow> kernel \<Rightarrow> kernel option" where
  "task_wake_spec c t k = do {
     (again, k) \<leftarrow> wake_spec_pass c t k;
     if again then None else Some k }"

section \<open>Exit and wait\<close>

text \<open>The children of an exiting task go to the reaper; the result says whether there were any.\<close>

definition exit_reparent :: "nat \<Rightarrow> kernel \<Rightarrow> (bool \<times> kernel) option" where
  "exit_reparent cur k =
     (if t_children (task_of k cur) = [] then Some (False, k)
      else do {
        reaper \<leftarrow> init_reaper k;
        chs \<leftarrow> Some (t_children (task_of k cur));
        k \<leftarrow> Some (fold (\<lambda>ch. upd_task ch (\<lambda>p. p\<lparr>t_parent := Some reaper\<rparr>)) chs k);
        k \<leftarrow> Some (upd_task reaper (\<lambda>p. p\<lparr>t_children := chs @ t_children p\<rparr>) k);
        Some (True, k) })"

definition exit_die :: "nat \<Rightarrow> int \<Rightarrow> kernel \<Rightarrow> (bool \<times> kernel) option" where
  "exit_die c status k = do {
     cp \<leftarrow> nth_opt (cpus k) c;
     cur \<leftarrow> cpu_current cp;
     k \<leftarrow> task_trylock c cur k;
     k \<leftarrow> Some (upd_task cur (\<lambda>p. p\<lparr>t_state := TASK_STATE_ZOMBIE, t_exit_status := status\<rparr>) k);
     task_sched c k }"

definition exit_normal_status :: "int \<Rightarrow> int" where
  "exit_normal_status code = (code AND 255) * 256"

definition exit_signal_status :: "int \<Rightarrow> int" where
  "exit_signal_status sig = sig AND 127"

text \<open>One child of the scan of \<open>task_wait\<close>: whether it matches the pid, and whether it can be reaped.\<close>

definition wait_match :: "kernel \<Rightarrow> int \<Rightarrow> nat \<Rightarrow> bool" where
  "wait_match k pid ch \<longleftrightarrow> pid > 0 \<and> t_tgid (task_of k ch) = pid"

definition wait_reapable :: "kernel \<Rightarrow> int \<Rightarrow> nat \<Rightarrow> bool" where
  "wait_reapable k pid ch \<longleftrightarrow> \<not> (t_state (task_of k ch) \<noteq> TASK_STATE_ZOMBIE \<or> t_oncpu (task_of k ch) \<noteq> - 1
     \<or> (pid > 0 \<and> t_tgid (task_of k ch) \<noteq> pid))"

definition reap_times :: "nat \<Rightarrow> nat \<Rightarrow> kernel \<Rightarrow> kernel" where
  "reap_times parent ch k = (let
     k = task_add_child_system_time parent (task_get_system_time ch k + task_get_child_system_time ch k) k
   in task_add_child_user_time parent (task_get_user_time ch k + task_get_child_user_time ch k) k)"

definition reap_child :: "nat \<Rightarrow> nat \<Rightarrow> kernel \<Rightarrow> kernel option" where
  "reap_child parent ch k = do {
     k \<leftarrow> Some (reap_times parent ch k);
     k \<leftarrow> Some (upd_task parent (\<lambda>p. p\<lparr>t_children := remove1 ch (t_children p)\<rparr>) k);
     _ \<leftarrow> assert_opt (\<not> t_is_init_task (task_of k ch));
     Some (k\<lparr>tasks := remove1 ch (tasks k)\<rparr>) }"

section \<open>Starting a task\<close>

text \<open>The end of \<open>task_fork\<close>: the child is linked to its parent, made runnable and queued.\<close>

definition task_adopt :: "nat \<Rightarrow> nat \<Rightarrow> kernel \<Rightarrow> kernel" where
  "task_adopt parent ch k = upd_task parent (\<lambda>p. p\<lparr>t_children := ch # t_children p\<rparr>)
     (upd_task ch (\<lambda>p. p\<lparr>t_parent := Some parent\<rparr>) k)"

definition kthread_join :: "nat \<Rightarrow> nat \<Rightarrow> kernel \<Rightarrow> kernel option" where
  "kthread_join c t k = do {
     k \<leftarrow> Some (upd_task t (\<lambda>p. p\<lparr>t_state := TASK_STATE_RUNNING\<rparr>) k);
     task_join c t k }"

end
