(* ===== verification/Sched_Run.thy ===== *)
theory Sched_Run
  imports Sched
begin

text \<open>
  The processors running together. Each processor has a program counter that says where in the
  scheduler code its current task is; a step is what one processor does between two points where
  another one can see the difference. A task that comes back from the scheduler may go on with
  any call.
\<close>

section \<open>Steps\<close>

datatype phase =
    Exec
  | Scanning int bool bool "nat list" bool
  | Published
  | Switched
  | Waking "nat option"
  | Exiting int bool

record sys =
  kern :: kernel
  pc :: "nat \<Rightarrow> phase"

text \<open>A task as \<open>task_create\<close> leaves it (\<open>src/src/kern/task.c\<close>, lines 116 to 138).\<close>

definition fresh_task :: "nat \<Rightarrow> task \<Rightarrow> bool" where
  "fresh_task c p \<longleftrightarrow> t_state p = TASK_STATE_NEW \<and> t_oncpu p = - 1 \<and> t_cpu p = int c
     \<and> t_lock p = spinlock_init \<and> t_children p = [] \<and> t_parent p = None \<and> \<not> t_is_init_task p"

definition live :: "kernel \<Rightarrow> nat \<Rightarrow> bool" where
  "live k t \<longleftrightarrow> t \<in> set (tasks k) \<or> t_is_init_task (task_of k t) \<or> (\<exists>cp \<in> set (cpus k). cpu_idle cp = Some t)"

text \<open>Dropping the lock a sleeper came with, when it is \<open>wait_lock\<close>.\<close>

definition drop_wait_lock :: "nat \<Rightarrow> kernel \<Rightarrow> kernel" where
  "drop_wait_lock c k = (if sl_cpuid (wait_lock k) = Some c then k\<lparr>wait_lock := spinlock_init\<rparr> else k)"

definition take_wait_lock :: "nat \<Rightarrow> kernel \<Rightarrow> kernel" where
  "take_wait_lock c k = k\<lparr>wait_lock := \<lparr>sl_locked = True, sl_cpuid = Some c\<rparr>\<rparr>"

definition after_sched :: "nat \<Rightarrow> bool \<Rightarrow> kernel \<Rightarrow> sys \<Rightarrow> sys" where
  "after_sched c switched k s = \<lparr>kern = k, pc = (pc s)(c := if switched then Switched else Waking None)\<rparr>"

definition goto :: "nat \<Rightarrow> phase \<Rightarrow> kernel \<Rightarrow> sys \<Rightarrow> sys" where
  "goto c ph k s = \<lparr>kern = k, pc = (pc s)(c := ph)\<rparr>"

text \<open>The task that runs on a processor, when it is not the idle task.\<close>

definition runs :: "sys \<Rightarrow> nat \<Rightarrow> nat \<Rightarrow> bool" where
  "runs s c t \<longleftrightarrow> c < length (cpus (kern s)) \<and> cpu_current (cpus (kern s) ! c) = Some t
     \<and> (\<forall>cp \<in> set (cpus (kern s)). cpu_idle cp \<noteq> Some t)"

inductive sched_step :: "sys \<Rightarrow> sys \<Rightarrow> bool" where
  yield: "c < MAX_CPUS \<Longrightarrow> pc s c = Exec \<Longrightarrow> task_yield_begin c (kern s) = Some (sw, k) \<Longrightarrow> sched_step s (after_sched c sw k s)"
| resume: "c < MAX_CPUS \<Longrightarrow> pc s c = Switched \<Longrightarrow> task_sched_resume c (kern s) = Some (p, k) \<Longrightarrow> sched_step s (goto c (Waking p) k s)"
| wake_parent: "c < MAX_CPUS \<Longrightarrow> pc s c = Waking (Some p) \<Longrightarrow> wake_spec_pass c p (kern s) = Some (again, k) \<Longrightarrow>
    sched_step s (goto c (Waking (if again then Some p else None)) k s)"
| land: "c < MAX_CPUS \<Longrightarrow> pc s c = Waking None \<Longrightarrow> switch_done c (kern s) = Some k \<Longrightarrow> sched_step s (goto c Exec k s)"
| sleep: "c < MAX_CPUS \<Longrightarrow> pc s c = Exec \<Longrightarrow> runs s c t \<Longrightarrow> sleep_publish c ch (kern s) = Some k \<Longrightarrow> sched_step s (goto c Published k s)"
| block: "c < MAX_CPUS \<Longrightarrow> pc s c = Published \<Longrightarrow> task_sched c (drop_wait_lock c (kern s)) = Some (sw, k) \<Longrightarrow>
    sched_step s (after_sched c sw k s)"
| wake_all: "c < MAX_CPUS \<Longrightarrow> pc s c = Exec \<Longrightarrow> runs s c t \<Longrightarrow> wake_all_pass c ch (kern s) = Some (again, k) \<Longrightarrow> sched_step s (goto c Exec k s)"
| wake_spec: "c < MAX_CPUS \<Longrightarrow> pc s c = Exec \<Longrightarrow> runs s c t \<Longrightarrow> wake_spec_pass c p (kern s) = Some (again, k) \<Longrightarrow> sched_step s (goto c Exec k s)"
| exit_begin: "c < MAX_CPUS \<Longrightarrow> pc s c = Exec \<Longrightarrow> runs s c t \<Longrightarrow> init_reaper (kern s) \<noteq> Some t \<Longrightarrow> \<not> sl_locked (wait_lock (kern s)) \<Longrightarrow>
    exit_reparent t (kern s) = Some (r, k) \<Longrightarrow> sched_step s (goto c (Exiting status r) k s)"
| exit_wake: "c < MAX_CPUS \<Longrightarrow> pc s c = Exiting status True \<Longrightarrow> init_reaper (kern s) = Some p \<Longrightarrow>
    wake_spec_pass c p (kern s) = Some (again, k) \<Longrightarrow> sched_step s (goto c (Exiting status again) k s)"
| die: "c < MAX_CPUS \<Longrightarrow> pc s c = Exiting status False \<Longrightarrow> exit_die c status (kern s) = Some (sw, k) \<Longrightarrow> sched_step s (after_sched c sw k s)"
| wait_begin: "c < MAX_CPUS \<Longrightarrow> pc s c = Exec \<Longrightarrow> runs s c t \<Longrightarrow> \<not> sl_locked (wait_lock (kern s)) \<Longrightarrow> t_children (task_of (kern s) t) \<noteq> [] \<Longrightarrow>
    sched_step s (goto c (Scanning pid nohang nowait (t_children (task_of (kern s) t)) False) (take_wait_lock c (kern s)) s)"
| wait_skip: "c < MAX_CPUS \<Longrightarrow> pc s c = Scanning pid nohang nowait (ch # chs) found \<Longrightarrow> \<not> sl_locked (t_lock (task_of (kern s) ch)) \<Longrightarrow>
    \<not> wait_reapable (kern s) pid ch \<Longrightarrow>
    sched_step s (goto c (Scanning pid nohang nowait chs (found \<or> wait_match (kern s) pid ch)) (kern s) s)"
| wait_peek: "c < MAX_CPUS \<Longrightarrow> pc s c = Scanning pid nohang True (ch # chs) found \<Longrightarrow> \<not> sl_locked (t_lock (task_of (kern s) ch)) \<Longrightarrow>
    wait_reapable (kern s) pid ch \<Longrightarrow> sched_step s (goto c Exec (drop_wait_lock c (kern s)) s)"
| wait_reap: "c < MAX_CPUS \<Longrightarrow> pc s c = Scanning pid nohang False (ch # chs) found \<Longrightarrow> runs s c t \<Longrightarrow>
    \<not> sl_locked (t_lock (task_of (kern s) ch)) \<Longrightarrow> wait_reapable (kern s) pid ch \<Longrightarrow>
    reap_child t ch (kern s) = Some k \<Longrightarrow> sched_step s (goto c Exec (drop_wait_lock c k) s)"
| wait_return: "c < MAX_CPUS \<Longrightarrow> pc s c = Scanning pid nohang nowait [] found \<Longrightarrow> (pid > 0 \<and> \<not> found) \<or> nohang \<Longrightarrow>
    sched_step s (goto c Exec (drop_wait_lock c (kern s)) s)"
| wait_sleep: "c < MAX_CPUS \<Longrightarrow> pc s c = Scanning pid nohang nowait [] found \<Longrightarrow> runs s c t \<Longrightarrow> \<not> ((pid > 0 \<and> \<not> found) \<or> nohang) \<Longrightarrow>
    sleep_publish c t (kern s) = Some k \<Longrightarrow> sched_step s (goto c Published k s)"
| fork: "c < MAX_CPUS \<Longrightarrow> pc s c = Exec \<Longrightarrow> runs s c t \<Longrightarrow> \<not> live (kern s) ch \<Longrightarrow> fresh_task c p \<Longrightarrow> \<not> sl_locked (wait_lock (kern s)) \<Longrightarrow>
    kthread_join c ch ((task_adopt t ch (upd_task ch (\<lambda>_. p) (kern s)))\<lparr>tasks := tasks (kern s) @ [ch]\<rparr>) = Some k \<Longrightarrow>
    sched_step s (goto c Exec k s)"
| kthread: "c < MAX_CPUS \<Longrightarrow> pc s c = Exec \<Longrightarrow> runs s c t \<Longrightarrow> \<not> live (kern s) ch \<Longrightarrow> fresh_task c p \<Longrightarrow>
    kthread_join c ch ((upd_task ch (\<lambda>_. p) (kern s))\<lparr>tasks := tasks (kern s) @ [ch]\<rparr>) = Some k \<Longrightarrow>
    sched_step s (goto c Exec k s)"

section \<open>Where a task is\<close>

definition cur_on :: "kernel \<Rightarrow> nat \<Rightarrow> nat set" where
  "cur_on k t = {c. c < length (cpus k) \<and> cpu_current (cpus k ! c) = Some t}"

definition off_on :: "kernel \<Rightarrow> nat \<Rightarrow> nat set" where
  "off_on k t = {c. c < length (cpus k) \<and> cpu_handoff (cpus k ! c) = Some t}"

definition rq_on :: "kernel \<Rightarrow> nat \<Rightarrow> nat set" where
  "rq_on k t = {c. c < length (cpus k) \<and> t \<in> set (cpu_run_queue (cpus k ! c))}"

definition idle_on :: "kernel \<Rightarrow> nat \<Rightarrow> nat set" where
  "idle_on k t = {c. c < length (cpus k) \<and> cpu_idle (cpus k ! c) = Some t}"

text \<open>
  Everything the invariant says about a task: the processors it is current on, leaving, queued
  on and idle task of; whether it is on the sleep queue; its state, place and lock.
\<close>

type_synonym view = "(nat set \<times> nat set \<times> nat set \<times> nat set \<times> bool) \<times> task_state \<times> int \<times> int \<times> bool"

definition view :: "kernel \<Rightarrow> nat \<Rightarrow> view" where
  "view k t = ((cur_on k t, off_on k t, rq_on k t, idle_on k t, t \<in> set (sleep_queue k)),
     t_state (task_of k t), t_oncpu (task_of k t), t_cpu (task_of k t), sl_locked (t_lock (task_of k t)))"

definition holds_lock :: "phase \<Rightarrow> bool" where
  "holds_lock ph \<longleftrightarrow> (case ph of Published \<Rightarrow> True | Switched \<Rightarrow> True | Waking _ \<Rightarrow> True | _ \<Rightarrow> False)"

text \<open>The six places of a task. A sleeping, exiting or waiting task is never an idle task.\<close>

inductive place_ok :: "(nat \<Rightarrow> phase) \<Rightarrow> view \<Rightarrow> bool" for ph where
  running: "c < MAX_CPUS \<Longrightarrow> I \<subseteq> {c} \<Longrightarrow> (I \<noteq> {} \<Longrightarrow> ph c \<in> {Exec, Switched} \<union> range Waking) \<Longrightarrow> ph c \<noteq> Published \<Longrightarrow>
    place_ok ph (({c}, {}, {}, I, False), TASK_STATE_RUNNING, int c, int c, holds_lock (ph c))"
| publishing: "c < MAX_CPUS \<Longrightarrow> ph c = Published \<Longrightarrow>
    place_ok ph (({c}, {}, {}, {}, True), TASK_STATE_SLEEPING, int c, int c, True)"
| leaving_run: "c < MAX_CPUS \<Longrightarrow> place_ok ph (({}, {c}, {c}, {}, False), TASK_STATE_RUNNING, int c, int c, True)"
| leaving_idle: "c < MAX_CPUS \<Longrightarrow> place_ok ph (({}, {c}, {}, {c}, False), TASK_STATE_RUNNING, int c, int c, True)"
| leaving_sleep: "c < MAX_CPUS \<Longrightarrow> place_ok ph (({}, {c}, {}, {}, True), TASK_STATE_SLEEPING, int c, int c, True)"
| leaving_dead: "c < MAX_CPUS \<Longrightarrow> place_ok ph (({}, {c}, {}, {}, False), TASK_STATE_ZOMBIE, int c, int c, True)"
| ready: "c < MAX_CPUS \<Longrightarrow> place_ok ph (({}, {}, {c}, {}, False), TASK_STATE_RUNNING, - 1, int c, False)"
| asleep: "c < MAX_CPUS \<Longrightarrow> place_ok ph (({}, {}, {}, {}, True), TASK_STATE_SLEEPING, - 1, int c, False)"
| dead: "c < MAX_CPUS \<Longrightarrow> place_ok ph (({}, {}, {}, {}, False), TASK_STATE_ZOMBIE, - 1, int c, False)"
| idling: "c < MAX_CPUS \<Longrightarrow> place_ok ph (({}, {}, {}, {c}, False), TASK_STATE_RUNNING, - 1, int c, False)"

text \<open>A task that does not exist is nowhere.\<close>

definition absent :: "view \<Rightarrow> bool" where
  "absent v \<longleftrightarrow> fst v = ({}, {}, {}, {}, False)"

definition task_ok :: "sys \<Rightarrow> nat \<Rightarrow> bool" where
  "task_ok s t \<longleftrightarrow> (if live (kern s) t then place_ok (pc s) (view (kern s) t) else absent (view (kern s) t))"

definition cpu_ok :: "phase \<Rightarrow> cpu \<Rightarrow> bool" where
  "cpu_ok ph cp \<longleftrightarrow> distinct (cpu_run_queue cp) \<and> cpu_nr_running cp = length (cpu_run_queue cp)
     \<and> (cpu_handoff cp \<noteq> None \<longleftrightarrow> ph = Switched)
     \<and> (if cpu_online cp then cpu_current cp \<noteq> None \<and> cpu_idle cp \<noteq> None else cpu_current cp = None \<and> ph = Exec)"

definition sched_inv :: "sys \<Rightarrow> bool" where
  "sched_inv s \<longleftrightarrow> length (cpus (kern s)) = MAX_CPUS \<and> distinct (sleep_queue (kern s)) \<and> distinct (tasks (kern s))
     \<and> (\<forall>c < MAX_CPUS. cpu_ok (pc s c) (cpus (kern s) ! c)) \<and> (\<forall>t. task_ok s t)"

end
