(* ===== verification/Sched_Inv.thy ===== *)
theory Sched_Inv
  imports Sched_Run
begin

text \<open>
  The scheduler operations in terms of the places of tasks: what each does to the views of the
  tasks, and that the invariant survives every step.
\<close>

section \<open>Views\<close>

lemmas on_defs = cur_on_def off_on_def rq_on_def idle_on_def

lemma upd_task_simps [simp]:
  "cpus (upd_task t f k) = cpus k" "tasks (upd_task t f k) = tasks k" "sleep_queue (upd_task t f k) = sleep_queue k"
  "task_of (upd_task t f k) u = (if u = t then f (task_of k t) else task_of k u)"
  "init_reaper (upd_task t f k) = init_reaper k" "wait_lock (upd_task t f k) = wait_lock k" "jiffies (upd_task t f k) = jiffies k"
  by (simp_all add: upd_task_def)

lemma upd_cpu_in [simp]: "c < length (cpus k) \<Longrightarrow> upd_cpu c f k = Some (k\<lparr>cpus := (cpus k)[c := f (cpus k ! c)]\<rparr>)"
  by (simp add: upd_cpu_def)

text \<open>The part of the kernel the places depend on.\<close>

definition same_places :: "kernel \<Rightarrow> kernel \<Rightarrow> bool" where
  "same_places k k' \<longleftrightarrow> cpus k' = cpus k \<and> sleep_queue k' = sleep_queue k \<and> tasks k' = tasks k
     \<and> (\<forall>t. t_state (task_of k' t) = t_state (task_of k t) \<and> t_oncpu (task_of k' t) = t_oncpu (task_of k t)
          \<and> t_cpu (task_of k' t) = t_cpu (task_of k t) \<and> sl_locked (t_lock (task_of k' t)) = sl_locked (t_lock (task_of k t))
          \<and> t_is_init_task (task_of k' t) = t_is_init_task (task_of k t))"

lemma same_places_view:
  assumes "same_places k k'"
  shows "view k' t = view k t" "live k' t = live k t" "queued k' t = queued k t"
  using assms by (auto simp: same_places_def view_def live_def queued_def on_defs)

lemma bex_nth: "(\<exists>x \<in> set xs. P x) \<longleftrightarrow> (\<exists>i < length xs. P (xs ! i))"
  by (metis in_set_conv_nth)

lemma queued_iff: "queued k t \<longleftrightarrow> t \<in> set (sleep_queue k) \<or> rq_on k t \<noteq> {}"
  by (auto simp: queued_def rq_on_def bex_nth)

lemma live_idle: "live k t \<longleftrightarrow> t \<in> set (tasks k) \<or> t_is_init_task (task_of k t) \<or> idle_on k t \<noteq> {}"
  by (auto simp: live_def idle_on_def bex_nth)

lemma runs_idle: "runs s c t \<longleftrightarrow> c < length (cpus (kern s)) \<and> cpu_current (cpus (kern s) ! c) = Some t \<and> idle_on (kern s) t = {}"
  using bex_nth [of "cpus (kern s)" "\<lambda>cp. cpu_idle cp = Some t"] by (auto simp: runs_def idle_on_def)

section \<open>Using the invariant\<close>

lemma sched_invD:
  assumes "sched_inv s"
  shows "length (cpus (kern s)) = MAX_CPUS" "distinct (sleep_queue (kern s))" "distinct (tasks (kern s))"
    "c < MAX_CPUS \<Longrightarrow> cpu_ok (pc s c) (cpus (kern s) ! c)" "task_ok s t"
  using assms by (auto simp: sched_inv_def)

lemma place_ok_cong:
  assumes "place_ok ph v" "\<And>c. c \<in> fst (fst v) \<Longrightarrow> ph' c = ph c"
  shows "place_ok ph' v"
  using assms(1)
proof cases
  case (running c I)
  then have "ph' c = ph c" using assms(2) by simp
  with running place_ok.running [of c I ph'] show ?thesis by simp
next
  case (publishing c)
  then have "ph' c = ph c" using assms(2) by simp
  with publishing show ?thesis by (auto intro: place_ok.publishing)
qed (auto intro: place_ok.intros)

lemma sched_inv_step:
  assumes inv: "sched_inv s" and len: "length (cpus (kern s')) = MAX_CPUS"
    and d: "distinct (sleep_queue (kern s'))" "distinct (tasks (kern s'))"
    and cp: "\<And>c. c < MAX_CPUS \<Longrightarrow> cpu_ok (pc s' c) (cpus (kern s') ! c)"
    and same: "\<And>t. t \<notin> T \<Longrightarrow> view (kern s') t = view (kern s) t \<and> live (kern s') t = live (kern s) t
      \<and> (\<forall>c \<in> cur_on (kern s) t. pc s' c = pc s c)"
    and new: "\<And>t. t \<in> T \<Longrightarrow> task_ok s' t"
  shows "sched_inv s'"
proof -
  have "task_ok s' t" if "t \<notin> T" for t
  proof -
    have "fst (fst (view (kern s) t)) = cur_on (kern s) t" by (simp add: view_def)
    then show ?thesis using same [OF that] sched_invD(5) [OF inv, of t]
      by (auto simp: task_ok_def intro: place_ok_cong)
  qed
  with new have "task_ok s' t" for t by blast
  then show ?thesis using len d cp by (simp add: sched_inv_def)
qed

text \<open>What the queues say about a task.\<close>

lemma view_eq: "view k t = ((A, B, C, D, b), st, oc, cc, l) \<longleftrightarrow> cur_on k t = A \<and> off_on k t = B \<and> rq_on k t = C \<and> idle_on k t = D
  \<and> (t \<in> set (sleep_queue k)) = b \<and> t_state (task_of k t) = st \<and> t_oncpu (task_of k t) = oc \<and> t_cpu (task_of k t) = cc
  \<and> sl_locked (t_lock (task_of k t)) = l"
  by (simp add: view_def)

lemma here_live: "sched_inv s \<Longrightarrow> fst (view (kern s) t) \<noteq> ({}, {}, {}, {}, False) \<Longrightarrow> live (kern s) t"
  using sched_invD(5) [of s t] by (auto simp: task_ok_def absent_def split: if_splits)

lemma place_cases:
  assumes "sched_inv s" "fst (view (kern s) t) \<noteq> ({}, {}, {}, {}, False)"
  shows "place_ok (pc s) (view (kern s) t)"
  using here_live [OF assms] sched_invD(5) [OF assms(1), of t] by (simp add: task_ok_def)

lemma current_place:
  assumes inv: "sched_inv s" and c: "c < MAX_CPUS" "cpu_current (cpus (kern s) ! c) = Some t"
  shows "if pc s c = Published then view (kern s) t = (({c}, {}, {}, {}, True), TASK_STATE_SLEEPING, int c, int c, True)
    else \<exists>I \<subseteq> {c}. (I \<noteq> {} \<longrightarrow> pc s c \<in> {Exec, Switched} \<union> range Waking)
      \<and> view (kern s) t = (({c}, {}, {}, I, False), TASK_STATE_RUNNING, int c, int c, holds_lock (pc s c))"
proof -
  have on: "c \<in> cur_on (kern s) t" using c sched_invD(1) [OF inv] by (simp add: cur_on_def)
  then have "fst (view (kern s) t) \<noteq> ({}, {}, {}, {}, False)" by (auto simp: view_def)
  from place_cases [OF inv this] show ?thesis using on
    by cases (auto simp: view_def split: if_splits)
qed

lemma queue_place:
  assumes inv: "sched_inv s" and c: "c < MAX_CPUS" "t \<in> set (cpu_run_queue (cpus (kern s) ! c))"
  shows "view (kern s) t = (({}, {}, {c}, {}, False), TASK_STATE_RUNNING, - 1, int c, False)
    \<or> view (kern s) t = (({}, {c}, {c}, {}, False), TASK_STATE_RUNNING, int c, int c, True)"
proof -
  have on: "c \<in> rq_on (kern s) t" using c sched_invD(1) [OF inv] by (simp add: rq_on_def)
  then have "fst (view (kern s) t) \<noteq> ({}, {}, {}, {}, False)" by (auto simp: view_def)
  from place_cases [OF inv this] show ?thesis using on by cases (auto simp: view_def)
qed

lemma sleep_place:
  assumes inv: "sched_inv s" and t: "t \<in> set (sleep_queue (kern s))" "\<not> sl_locked (t_lock (task_of (kern s) t))"
  shows "\<exists>c < MAX_CPUS. view (kern s) t = (({}, {}, {}, {}, True), TASK_STATE_SLEEPING, - 1, int c, False)"
proof -
  from t(1) have "fst (view (kern s) t) \<noteq> ({}, {}, {}, {}, False)" by (auto simp: view_def)
  from place_cases [OF inv this] show ?thesis using t by cases (auto simp: view_def)
qed

lemma handoff_place:
  assumes inv: "sched_inv s" and c: "c < MAX_CPUS" "cpu_handoff (cpus (kern s) ! c) = Some t"
  shows "\<exists>C I b st. view (kern s) t = (({}, {c}, C, I, b), st, int c, int c, True)
    \<and> (C, I, b, st) \<in> {({c}, {}, False, TASK_STATE_RUNNING), ({}, {c}, False, TASK_STATE_RUNNING),
        ({}, {}, True, TASK_STATE_SLEEPING), ({}, {}, False, TASK_STATE_ZOMBIE)}"
proof -
  have on: "c \<in> off_on (kern s) t" using c sched_invD(1) [OF inv] by (simp add: off_on_def)
  then have "fst (view (kern s) t) \<noteq> ({}, {}, {}, {}, False)" by (auto simp: view_def)
  from place_cases [OF inv this] show ?thesis using on by cases (auto simp: view_def)
qed

lemma idle_place:
  assumes inv: "sched_inv s" and c: "c < MAX_CPUS" "cpu_idle (cpus (kern s) ! c) = Some t"
  shows "(\<exists>l. view (kern s) t = (({c}, {}, {}, {c}, False), TASK_STATE_RUNNING, int c, int c, l))
    \<or> view (kern s) t = (({}, {c}, {}, {c}, False), TASK_STATE_RUNNING, int c, int c, True)
    \<or> view (kern s) t = (({}, {}, {}, {c}, False), TASK_STATE_RUNNING, - 1, int c, False)"
proof -
  have on: "c \<in> idle_on (kern s) t" using c sched_invD(1) [OF inv] by (simp add: idle_on_def)
  then have "fst (view (kern s) t) \<noteq> ({}, {}, {}, {}, False)" by (auto simp: view_def)
  from place_cases [OF inv this] show ?thesis using on by cases (auto simp: view_def)
qed

section \<open>Joining a run queue\<close>

definition joined :: "nat \<Rightarrow> nat \<Rightarrow> kernel \<Rightarrow> kernel \<Rightarrow> bool" where
  "joined t d k k' \<longleftrightarrow> d < MAX_CPUS \<and> tasks k' = tasks k \<and> sleep_queue k' = sleep_queue k
     \<and> init_reaper k' = init_reaper k \<and> wait_lock k' = wait_lock k
     \<and> task_of k' = (task_of k)(t := (task_of k t)\<lparr>t_cpu := int d\<rparr>)
     \<and> cpus k' = (cpus k)[d := (cpus k ! d)\<lparr>cpu_run_queue := cpu_run_queue (cpus k ! d) @ [t],
          cpu_nr_running := cpu_nr_running (cpus k ! d) + 1\<rparr>]"

lemma select_cpu_range:
  "set is \<subseteq> {..<n} \<Longrightarrow> best = - 1 \<or> (0 \<le> best \<and> best < int n) \<Longrightarrow>
    select_cpu cs is best l = - 1 \<or> (0 \<le> select_cpu cs is best l \<and> select_cpu cs is best l < int n)"
  by (induction cs "is" best l rule: select_cpu.induct) (simp_all add: Let_def)

lemma task_join_ok:
  assumes len: "length (cpus k) = MAX_CPUS" and st: "t_state (task_of k t) = TASK_STATE_RUNNING" and q: "\<not> queued k t"
    and cpu: "0 \<le> t_cpu (task_of k t)" "t_cpu (task_of k t) < int MAX_CPUS"
    and on: "t_oncpu (task_of k t) < 0 \<or> t_cpu (task_of k t) = int c"
  shows "\<exists>k' d. task_join c t k = Some k' \<and> joined t d k k' \<and> (t_oncpu (task_of k t) < 0 \<or> d = c)"
proof -
  have "\<exists>target h. join_target c t k = Some (target, k\<lparr>next_cpu_hint := h\<rparr>) \<and> 0 \<le> target \<and> target < int MAX_CPUS
    \<and> (t_oncpu (task_of k t) < 0 \<or> target = int c)"
  proof (cases "t_oncpu (task_of k t) < 0")
    case True
    let ?is = "map (\<lambda>off. unat (next_cpu_hint k + word_of_nat off) mod MAX_CPUS) [0..<MAX_CPUS]"
    have "set ?is \<subseteq> {..<MAX_CPUS}" by (auto simp: MAX_CPUS_def)
    from select_cpu_range [OF this, of "- 1" "cpus k" "2 ^ 32 - 1"]
    have "fst (task_select_cpu k) = - 1 \<or> 0 \<le> fst (task_select_cpu k) \<and> fst (task_select_cpu k) < int MAX_CPUS"
      by (simp add: task_select_cpu_def)
    then show ?thesis using True cpu by (auto simp: join_target_def task_select_cpu_def)
  next
    case False
    then show ?thesis using on cpu by (auto simp: join_target_def intro!: exI [of _ "next_cpu_hint k"])
  qed
  then obtain target h where t: "join_target c t k = Some (target, k\<lparr>next_cpu_hint := h\<rparr>)" "0 \<le> target" "target < int MAX_CPUS"
    "t_oncpu (task_of k t) < 0 \<or> target = int c" by blast
  have "\<not> queued (k\<lparr>next_cpu_hint := h\<rparr>) t" using q by (simp add: queued_def)
  moreover have "nat target < length (cpus k)" using t(2,3) len by (simp add: nat_less_iff)
  ultimately show ?thesis
    using t st by (auto simp: task_join_def joined_def upd_task_def nat_less_iff intro!: exI [of _ "nat target"])
qed

lemma joined_view:
  assumes j: "joined t d k k'" and len: "length (cpus k) = MAX_CPUS"
  shows "u \<noteq> t \<Longrightarrow> view k' u = view k u" "live k' u = live k u"
    "cur_on k' u = cur_on k u" "off_on k' u = off_on k u" "idle_on k' u = idle_on k u" "rq_on k' t = insert d (rq_on k t)"
proof -
  have d: "d < length (cpus k)" "length (cpus k') = length (cpus k)" using j len by (auto simp: joined_def)
  have nth: "cpus k' ! c = (if c = d then (cpus k ! d)\<lparr>cpu_run_queue := cpu_run_queue (cpus k ! d) @ [t],
      cpu_nr_running := cpu_nr_running (cpus k ! d) + 1\<rparr> else cpus k ! c)" for c
    using j d by (simp add: joined_def)
  show on: "cur_on k' u = cur_on k u" "off_on k' u = off_on k u" "idle_on k' u = idle_on k u" for u
    by (auto simp: on_defs d nth)
  show "rq_on k' t = insert d (rq_on k t)" using d(1) by (auto simp: rq_on_def d(2) nth)
  show "live k' u = live k u" using j by (simp add: live_idle on(3)) (simp add: joined_def)
  assume "u \<noteq> t"
  then have "rq_on k' u = rq_on k u" by (auto simp: rq_on_def d(2) nth)
  with \<open>u \<noteq> t\<close> j show "view k' u = view k u" by (simp add: view_def on) (simp add: joined_def)
qed

lemma joined_cpu_ok:
  assumes "joined t d k k'" "length (cpus k) = MAX_CPUS" "t \<notin> set (cpu_run_queue (cpus k ! d))"
    "\<And>c. c < MAX_CPUS \<Longrightarrow> cpu_ok (ph c) (cpus k ! c)" "c < MAX_CPUS"
  shows "cpu_ok (ph c) (cpus k' ! c)"
proof -
  have "cpus k' ! c = (if c = d then (cpus k ! d)\<lparr>cpu_run_queue := cpu_run_queue (cpus k ! d) @ [t],
      cpu_nr_running := cpu_nr_running (cpus k ! d) + 1\<rparr> else cpus k ! c)"
    using assms(1,2) by (simp add: joined_def)
  with assms(3) assms(4) [OF assms(5)] show ?thesis by (cases "c = d") (auto simp: cpu_ok_def)
qed

section \<open>Waking\<close>

lemma make_runnable_ok:
  assumes inv: "sched_inv s" and t: "t \<in> set (sleep_queue (kern s))" "\<not> sl_locked (t_lock (task_of (kern s) t))"
  shows "\<exists>k'. make_runnable c t (kern s) = Some k' \<and> sched_inv (s\<lparr>kern := k'\<rparr>)
    \<and> sleep_queue k' = remove1 t (sleep_queue (kern s))
    \<and> (\<forall>u. u \<noteq> t \<longrightarrow> task_of k' u = task_of (kern s) u) \<and> t_state (task_of k' t) = TASK_STATE_RUNNING"
proof -
  let ?k = "kern s"
  let ?k1 = "(upd_task t (\<lambda>x. x\<lparr>t_state := TASK_STATE_RUNNING, t_chan := None\<rparr>) ?k)\<lparr>sleep_queue := remove1 t (sleep_queue ?k)\<rparr>"
  from sleep_place [OF inv t] obtain e where e: "e < MAX_CPUS"
    "view ?k t = (({}, {}, {}, {}, True), TASK_STATE_SLEEPING, - 1, int e, False)" by blast
  note v = e(2) [unfolded view_eq]
  note i = sched_invD [OF inv]
  have k1: "rq_on ?k1 = rq_on ?k" "cur_on ?k1 = cur_on ?k" "off_on ?k1 = off_on ?k" "idle_on ?k1 = idle_on ?k" by (auto simp: on_defs fun_eq_iff)
  have nq: "\<not> queued ?k1 t" using v i(2) by (simp add: queued_iff k1)
  have "\<exists>k' d. task_join c t ?k1 = Some k' \<and> joined t d ?k1 k' \<and> (t_oncpu (task_of ?k1 t) < 0 \<or> d = c)"
    by (rule task_join_ok [OF _ _ nq]) (use i(1) v e(1) in auto)
  then obtain k' d where k': "task_join c t ?k1 = Some k'" "joined t d ?k1 k'" by blast
  have len: "length (cpus ?k1) = MAX_CPUS" using i(1) by simp
  note jv = joined_view [OF k'(2) len]
  have d: "d < MAX_CPUS" using k'(2) by (simp add: joined_def)
  have "sched_inv (s\<lparr>kern := k'\<rparr>)"
  proof (rule sched_inv_step [where T = "{t}", OF inv])
    show "length (cpus (kern (s\<lparr>kern := k'\<rparr>))) = MAX_CPUS" "distinct (sleep_queue (kern (s\<lparr>kern := k'\<rparr>)))"
      "distinct (tasks (kern (s\<lparr>kern := k'\<rparr>)))" using k'(2) i by (simp_all add: joined_def)
    have "t \<notin> set (cpu_run_queue (cpus ?k1 ! d))" using v d i(1) by (auto simp: rq_on_def)
    from joined_cpu_ok [OF k'(2) len this, of "pc s"] i(4)
    show "cpu_ok (pc (s\<lparr>kern := k'\<rparr>) c) (cpus (kern (s\<lparr>kern := k'\<rparr>)) ! c)" if "c < MAX_CPUS" for c using that by simp
    show "task_ok (s\<lparr>kern := k'\<rparr>) u" if "u \<in> {t}" for u
    proof -
      have "view k' t = (({}, {}, {d}, {}, False), TASK_STATE_RUNNING, - 1, int d, False)"
        using k'(2) v i(2) by (simp add: view_eq jv(3-6) k1) (simp add: joined_def)
      moreover have "live k' t" using here_live [OF inv, of t] v jv(2) by (auto simp: live_idle k1 view_def split: if_splits)
      ultimately show ?thesis using that d by (simp add: task_ok_def place_ok.ready)
    qed
    fix u assume u: "u \<notin> {t}"
    have "view ?k1 u = view ?k u" using u by (simp add: view_def k1)
    then show "view (kern (s\<lparr>kern := k'\<rparr>)) u = view ?k u \<and> live (kern (s\<lparr>kern := k'\<rparr>)) u = live ?k u
        \<and> (\<forall>c \<in> cur_on ?k u. pc (s\<lparr>kern := k'\<rparr>) c = pc s c)"
      using u jv(1,2) by (simp add: live_idle k1)
  qed
  moreover have "make_runnable c t ?k = Some k'" using k'(1) by (simp add: make_runnable_def)
  ultimately show ?thesis using k'(2) by (auto simp: joined_def)
qed

section \<open>The switch\<close>

definition sched_queue :: "nat \<Rightarrow> nat \<Rightarrow> kernel \<Rightarrow> nat list" where
  "sched_queue c cur k = (if t_state (task_of k cur) = TASK_STATE_RUNNING \<and> cpu_idle (cpus k ! c) \<noteq> Some cur
     then cpu_run_queue (cpus k ! c) @ [cur] else cpu_run_queue (cpus k ! c))"

definition switched :: "nat \<Rightarrow> nat \<Rightarrow> nat \<Rightarrow> nat list \<Rightarrow> kernel \<Rightarrow> kernel \<Rightarrow> bool" where
  "switched c cur nx q k k' \<longleftrightarrow> tasks k' = tasks k \<and> sleep_queue k' = sleep_queue k
     \<and> init_reaper k' = init_reaper k \<and> wait_lock k' = wait_lock k
     \<and> length (cpus k') = length (cpus k) \<and> (\<forall>e. e \<noteq> c \<longrightarrow> cpus k' ! e = cpus k ! e)
     \<and> cpu_current (cpus k' ! c) = Some nx
     \<and> cpu_handoff (cpus k' ! c) = (if nx = cur then cpu_handoff (cpus k ! c) else Some cur)
     \<and> cpu_run_queue (cpus k' ! c) = q \<and> cpu_nr_running (cpus k' ! c) = length q
     \<and> cpu_idle (cpus k' ! c) = cpu_idle (cpus k ! c) \<and> cpu_online (cpus k' ! c) = cpu_online (cpus k ! c)
     \<and> (\<forall>t. t_state (task_of k' t) = t_state (task_of k t) \<and> t_cpu (task_of k' t) = t_cpu (task_of k t)
          \<and> t_is_init_task (task_of k' t) = t_is_init_task (task_of k t)
          \<and> t_oncpu (task_of k' t) = (if t = nx then int c else t_oncpu (task_of k t))
          \<and> sl_locked (t_lock (task_of k' t)) = (if t = nx then True else sl_locked (t_lock (task_of k t)))
          \<and> t_parent (task_of k' t) = t_parent (task_of k t) \<and> t_children (task_of k' t) = t_children (task_of k t))"

lemma switch_to_ok:
  assumes len: "length (cpus k) = MAX_CPUS" and c: "c < MAX_CPUS"
    and cur: "sl_locked (t_lock (task_of k cur))" "t_oncpu (task_of k cur) = int c"
    and nx: "nx \<noteq> cur \<Longrightarrow> \<not> sl_locked (t_lock (task_of k nx)) \<and> t_oncpu (task_of k nx) = - 1"
    and nr: "cpu_nr_running (cpus k ! c) = length (cpu_run_queue (cpus k ! c))"
  shows "\<exists>k'. switch_to c cur nx k = Some (nx \<noteq> cur, k') \<and> switched c cur nx (cpu_run_queue (cpus k ! c)) k k'"
proof -
  have l: "c < length (cpus k)" using len c by simp
  show ?thesis
  proof (cases "nx = cur")
    case True
    then show ?thesis using l cur by (auto simp: switch_to_def switched_def upd_task_def nr [symmetric])
  next
    case False
    with nx l show ?thesis
      by (auto simp: nr [symmetric] switch_to_def switched_def upd_task_def task_add_system_time_def task_trylock_def spin_trylock_def)
  qed
qed

lemma task_sched_ok:
  assumes len: "length (cpus k) = MAX_CPUS" and c: "c < MAX_CPUS" "cpu_current (cpus k ! c) = Some cur"
    and cur: "sl_locked (t_lock (task_of k cur))" "t_oncpu (task_of k cur) = int c" "t_cpu (task_of k cur) = int c"
      "t_state (task_of k cur) \<noteq> TASK_STATE_NEW"
    and idle: "cpu_idle (cpus k ! c) = Some i" and nr: "cpu_nr_running (cpus k ! c) = length (cpu_run_queue (cpus k ! c))"
    and rq: "\<And>t. t \<in> set (cpu_run_queue (cpus k ! c)) \<Longrightarrow> t_cpu (task_of k t) = int c"
    and nq: "t_state (task_of k cur) = TASK_STATE_RUNNING \<Longrightarrow> i \<noteq> cur \<Longrightarrow> \<not> queued k cur"
  defines "q \<equiv> sched_queue c cur k"
  defines "nx \<equiv> (case q of [] \<Rightarrow> i | t # _ \<Rightarrow> t)"
  assumes free: "nx \<noteq> cur \<Longrightarrow> \<not> sl_locked (t_lock (task_of k nx)) \<and> t_oncpu (task_of k nx) = - 1"
  shows "\<exists>k'. task_sched c k = Some (nx \<noteq> cur, k') \<and> switched c cur nx (tl q) k k'"
proof -
  have l: "c < length (cpus k)" using len c by simp
  define k0 where "k0 = k\<lparr>cpus := (cpus k)[c := (cpus k ! c)\<lparr>cpu_current := None\<rparr>]\<rparr>"
  have k0: "length (cpus k0) = MAX_CPUS" "task_of k0 = task_of k" "queued k0 t = queued k t" for t
    using len l by (auto simp: k0_def queued_iff rq_on_def nth_list_update split: if_splits)
  have "\<exists>k1. (case t_state (task_of k cur) of
         TASK_STATE_RUNNING \<Rightarrow> if cpu_idle (cpus k ! c) \<noteq> Some cur then task_join c cur k0 else Some k0
       | TASK_STATE_ZOMBIE \<Rightarrow> Some k0 | TASK_STATE_SLEEPING \<Rightarrow> Some k0 | TASK_STATE_NEW \<Rightarrow> None) = Some k1
     \<and> tasks k1 = tasks k \<and> sleep_queue k1 = sleep_queue k \<and> init_reaper k1 = init_reaper k \<and> wait_lock k1 = wait_lock k
     \<and> task_of k1 = task_of k
     \<and> cpus k1 = (cpus k)[c := (cpus k ! c)\<lparr>cpu_current := None, cpu_run_queue := q, cpu_nr_running := length q\<rparr>]"
  proof (cases "t_state (task_of k cur) = TASK_STATE_RUNNING \<and> i \<noteq> cur")
    case True
    from task_join_ok [of k0 cur c] True nq k0 cur c obtain k1 d where k1: "task_join c cur k0 = Some k1" "joined cur d k0 k1" "d = c"
      by (auto simp: MAX_CPUS_def)
    have "task_of k1 = task_of k" using k1(2,3) k0(2) cur(3) by (auto simp: joined_def fun_eq_iff)
    with k1 True idle l nr show ?thesis by (auto simp: joined_def k0_def q_def sched_queue_def)
  next
    case False
    then show ?thesis using cur(4) idle l
      by (cases "t_state (task_of k cur)") (auto simp: k0_def q_def sched_queue_def nr [symmetric])
  qed
  then obtain k1 where k1: "(case t_state (task_of k cur) of
         TASK_STATE_RUNNING \<Rightarrow> if cpu_idle (cpus k ! c) \<noteq> Some cur then task_join c cur k0 else Some k0
       | TASK_STATE_ZOMBIE \<Rightarrow> Some k0 | TASK_STATE_SLEEPING \<Rightarrow> Some k0 | TASK_STATE_NEW \<Rightarrow> None) = Some k1"
     "tasks k1 = tasks k" "sleep_queue k1 = sleep_queue k" "init_reaper k1 = init_reaper k" "wait_lock k1 = wait_lock k"
     "task_of k1 = task_of k"
     "cpus k1 = (cpus k)[c := (cpus k ! c)\<lparr>cpu_current := None, cpu_run_queue := q, cpu_nr_running := length q\<rparr>]" by blast
  define k2 where "k2 = k1\<lparr>cpus := (cpus k1)[c := (cpus k1 ! c)\<lparr>cpu_run_queue := tl q, cpu_nr_running := length (tl q)\<rparr>]\<rparr>"
  have qcpu: "t_cpu (task_of k t) = int c" if "t \<in> set q" for t
    using that rq cur(3) by (auto simp: q_def sched_queue_def split: if_splits)
  have k1eq: "q = [] \<Longrightarrow> k2 = k1" using l by (simp add: k2_def k1(7))
  have pick: "task_pick_next c k1 = Some (case q of [] \<Rightarrow> None | t # _ \<Rightarrow> Some t, k2)"
  proof (cases q)
    case Nil
    then show ?thesis using l k1eq by (simp add: task_pick_next_def nth_opt_in k1(7))
  next
    case (Cons t ts)
    then show ?thesis using l qcpu [of t] by (simp add: task_pick_next_def nth_opt_in k1(6,7) k2_def)
  qed
  have "(case (case q of [] \<Rightarrow> None | t # _ \<Rightarrow> Some t) of Some t \<Rightarrow> Some t | None \<Rightarrow> cpu_idle (cpus k ! c)) = Some nx"
    by (simp add: nx_def idle split: list.splits)
  then have ev: "task_sched c k = switch_to c cur nx k2"
    using l c(2) cur(1,2) k1(1) pick by (simp add: task_sched_def nth_opt_in k0_def [symmetric] k0(2))
  have k2: "task_of k2 = task_of k" "length (cpus k2) = MAX_CPUS" "cpu_run_queue (cpus k2 ! c) = tl q"
    "cpu_nr_running (cpus k2 ! c) = length (tl q)" using len l by (simp_all add: k2_def k1(6,7))
  from switch_to_ok [OF k2(2) c(1), of cur nx] cur(1,2) free k2 obtain k' where
    k': "switch_to c cur nx k2 = Some (nx \<noteq> cur, k')" "switched c cur nx (tl q) k2 k'" by auto
  then show ?thesis unfolding ev using l k1(2-7) by (auto simp: switched_def k2_def)
qed

lemma switched_on:
  assumes "switched c cur nx q k k'" "c < length (cpus k)"
  shows "cur_on k' t = (if t = nx then insert c (cur_on k t) else cur_on k t - {c})"
    "rq_on k' t = (if t \<in> set q then insert c (rq_on k t) else rq_on k t - {c})"
    "idle_on k' t = idle_on k t" "live k' t = live k t"
    "off_on k' t = (if nx = cur then off_on k t else if t = cur then insert c (off_on k t) else off_on k t - {c})"
proof -
  have c: "length (cpus k') = length (cpus k)" "e \<noteq> c \<Longrightarrow> cpus k' ! e = cpus k ! e" "cpu_current (cpus k' ! c) = Some nx"
    "cpu_handoff (cpus k' ! c) = (if nx = cur then cpu_handoff (cpus k ! c) else Some cur)"
    "cpu_run_queue (cpus k' ! c) = q" "cpu_idle (cpus k' ! c) = cpu_idle (cpus k ! c)" for e
    using assms(1) by (simp_all add: switched_def)
  have e: "e < length (cpus k') \<and> P (cpus k' ! e) \<longleftrightarrow> (if e = c then P (cpus k' ! c) else e < length (cpus k) \<and> P (cpus k ! e))" for e P
    using c(1) c(2) [of e] assms(2) by auto
  show "cur_on k' t = (if t = nx then insert c (cur_on k t) else cur_on k t - {c})"
    using e [of _ "\<lambda>x. cpu_current x = Some t"] c(3) by (auto simp: cur_on_def)
  show "rq_on k' t = (if t \<in> set q then insert c (rq_on k t) else rq_on k t - {c})"
    using e [of _ "\<lambda>x. t \<in> set (cpu_run_queue x)"] c(5) by (auto simp: rq_on_def)
  show "off_on k' t = (if nx = cur then off_on k t else if t = cur then insert c (off_on k t) else off_on k t - {c})"
    using e [of _ "\<lambda>x. cpu_handoff x = Some t"] c(4) assms(2) by (auto simp: off_on_def split: if_splits)
  show idle: "idle_on k' t = idle_on k t"
    using e [of _ "\<lambda>x. cpu_idle x = Some t"] c(6) assms(2) by (auto simp: idle_on_def split: if_splits)
  show "live k' t = live k t" unfolding live_idle idle using assms(1) by (simp add: switched_def)
qed

text \<open>The current task is about to leave: its lock is taken and its state may have changed.\<close>

definition departs :: "nat \<Rightarrow> task_state \<Rightarrow> kernel \<Rightarrow> kernel \<Rightarrow> bool" where
  "departs cur st k k1 \<longleftrightarrow> cpus k1 = cpus k \<and> tasks k1 = tasks k \<and> sleep_queue k1 = sleep_queue k
     \<and> (\<forall>t. t_oncpu (task_of k1 t) = t_oncpu (task_of k t) \<and> t_cpu (task_of k1 t) = t_cpu (task_of k t)
          \<and> t_is_init_task (task_of k1 t) = t_is_init_task (task_of k t)
          \<and> t_state (task_of k1 t) = (if t = cur then st else t_state (task_of k t))
          \<and> sl_locked (t_lock (task_of k1 t)) = (if t = cur then True else sl_locked (t_lock (task_of k t))))"

lemma departs_on:
  assumes "departs cur st k k1"
  shows "cur_on k1 = cur_on k" "off_on k1 = off_on k" "rq_on k1 = rq_on k" "idle_on k1 = idle_on k" "live k1 = live k"
    "t \<noteq> cur \<Longrightarrow> view k1 t = view k t"
proof -
  show on: "cur_on k1 = cur_on k" "off_on k1 = off_on k" "rq_on k1 = rq_on k" "idle_on k1 = idle_on k"
    using assms by (auto simp: departs_def on_defs fun_eq_iff)
  show "live k1 = live k" using assms by (auto simp: fun_eq_iff live_idle on) (simp_all add: departs_def)
  show "view k1 t = view k t" if "t \<noteq> cur" using that assms by (simp add: view_def on) (simp add: departs_def)
qed

text \<open>The next task is ready or idle and nobody holds its lock.\<close>

lemma next_free:
  assumes inv: "sched_inv s" and c: "c < MAX_CPUS" "cpu_current (cpus (kern s) ! c) = Some cur" "pc s c \<noteq> Switched"
    and t: "t \<in> set (cpu_run_queue (cpus (kern s) ! c)) \<or> cpu_idle (cpus (kern s) ! c) = Some t" "t \<noteq> cur"
  shows "\<exists>C I. view (kern s) t = (({}, {}, C, I, False), TASK_STATE_RUNNING, - 1, int c, False)
    \<and> C \<subseteq> {c} \<and> I \<subseteq> {c} \<and> (C, I) \<noteq> ({}, {})"
proof -
  have h: "cpu_handoff (cpus (kern s) ! c) = None" using sched_invD(4) [OF inv c(1)] c(3) by (simp add: cpu_ok_def)
  have "c \<notin> off_on (kern s) t" "c \<notin> cur_on (kern s) t" using h c(2) t(2) by (simp_all add: off_on_def cur_on_def)
  then have no: "off_on (kern s) t \<noteq> {c}" "cur_on (kern s) t \<noteq> {c}" by auto
  from t(1) show ?thesis
  proof
    assume "t \<in> set (cpu_run_queue (cpus (kern s) ! c))"
    from queue_place [OF inv c(1) this] no show ?thesis by (auto simp: view_eq)
  next
    assume "cpu_idle (cpus (kern s) ! c) = Some t"
    from idle_place [OF inv c(1) this] no show ?thesis by (auto simp: view_eq)
  qed
qed

text \<open>Where the departing task ends up.\<close>

lemma departed_place:
  assumes c: "c < MAX_CPUS" and I: "I \<subseteq> {c}" and st: "(st, b) \<in> {(TASK_STATE_RUNNING, False), (TASK_STATE_SLEEPING, True), (TASK_STATE_ZOMBIE, False)}"
    and ns: "st \<noteq> TASK_STATE_RUNNING \<Longrightarrow> I = {}"
  shows "place_ok ph (({}, {c}, if st = TASK_STATE_RUNNING \<and> I = {} then {c} else {}, I, b), st, int c, int c, True)"
proof -
  from I have "I = {} \<or> I = {c}" by auto
  with st ns c show ?thesis by (auto intro: place_ok.intros)
qed

lemma switched_inv:
  assumes inv: "sched_inv s" and c: "c < MAX_CPUS" "cpu_current (cpus (kern s) ! c) = Some cur" "pc s c \<noteq> Switched"
    and k1: "departs cur st (kern s) k1"
    and v: "view (kern s) cur = (({c}, {}, {}, I, b), st0, int c, int c, l)" and Ic: "I \<subseteq> {c}"
    and st: "(st, b) \<in> {(TASK_STATE_RUNNING, False), (TASK_STATE_SLEEPING, True), (TASK_STATE_ZOMBIE, False)}"
      "st \<noteq> TASK_STATE_RUNNING \<Longrightarrow> I = {}"
    and sw: "switched c cur nx r k1 k'"
    and r: "distinct r" "nx \<notin> set r" "\<And>t. t \<noteq> nx \<Longrightarrow> t \<noteq> cur \<Longrightarrow> t \<in> set r \<longleftrightarrow> t \<in> set (cpu_run_queue (cpus (kern s) ! c))"
    and nx: "nx = cur \<Longrightarrow> st = TASK_STATE_RUNNING"
      "nx \<noteq> cur \<Longrightarrow> (cur \<in> set r \<longleftrightarrow> st = TASK_STATE_RUNNING \<and> I = {})
        \<and> (\<exists>C I. view (kern s) nx = (({}, {}, C, I, False), TASK_STATE_RUNNING, - 1, int c, False)
    \<and> C \<subseteq> {c} \<and> I \<subseteq> {c} \<and> (C, I) \<noteq> ({}, {}))"
  shows "sched_inv (after_sched c (nx \<noteq> cur) k' s)"
proof -
  let ?k = "kern s" let ?s = "after_sched c (nx \<noteq> cur) k' s"
  note i = sched_invD [OF inv] and dp = departs_on [OF k1] and vc = v [unfolded view_eq]
  have k1': "cpus k1 = cpus ?k" "tasks k1 = tasks ?k" "sleep_queue k1 = sleep_queue ?k" using k1 by (simp_all add: departs_def)
  have l: "c < length (cpus k1)" using i(1) c(1) by (simp add: k1')
  note on = switched_on [OF sw l, unfolded dp]
  have s': "kern ?s = k'" "pc ?s = (pc s)(c := if nx \<noteq> cur then Switched else Waking None)" by (simp_all add: after_sched_def)
  have k': "tasks k' = tasks ?k" "sleep_queue k' = sleep_queue ?k" "length (cpus k') = MAX_CPUS"
    using sw i(1) by (simp_all add: switched_def k1')
  have cok: "cpu_ok (pc s c) (cpus ?k ! c)" by (rule i(4) [OF c(1)])
  then have h: "cpu_handoff (cpus ?k ! c) = None" "cpu_online (cpus ?k ! c)" using c(2,3) by (auto simp: cpu_ok_def split: if_splits)
  have noff: "c \<notin> off_on ?k t" for t using h by (simp add: off_on_def)
  have fld: "t_state (task_of k' t) = (if t = cur then st else t_state (task_of ?k t))" "t_cpu (task_of k' t) = t_cpu (task_of ?k t)"
    "t_oncpu (task_of k' t) = (if t = nx then int c else t_oncpu (task_of ?k t))"
    "sl_locked (t_lock (task_of k' t)) = (if t = nx \<or> t = cur then True else sl_locked (t_lock (task_of ?k t)))" for t
    using sw k1 by (auto simp: switched_def departs_def)
  show ?thesis
  proof (rule sched_inv_step [where T = "{cur, nx}", OF inv], unfold s')
    show "length (cpus k') = MAX_CPUS" "distinct (sleep_queue k')" "distinct (tasks k')" using k' i by simp_all
    show "cpu_ok (((pc s)(c := if nx \<noteq> cur then Switched else Waking None)) e) (cpus k' ! e)" if "e < MAX_CPUS" for e
      using i(4) [OF that] cok sw r(1) h by (cases "e = c") (auto simp: cpu_ok_def switched_def k1')
    fix t
    show "view k' t = view ?k t \<and> live k' t = live ?k t
        \<and> (\<forall>e \<in> cur_on ?k t. ((pc s)(c := if nx \<noteq> cur then Switched else Waking None)) e = pc s e)" if t: "t \<notin> {cur, nx}"
    proof -
      have "c \<notin> cur_on ?k t" using t c(2) by (simp add: cur_on_def)
      moreover have "rq_on k' t = rq_on ?k t" unfolding on(2) using t r(3) l by (auto simp: rq_on_def k1')
      ultimately show ?thesis using t noff by (simp add: view_def on fld k')
    qed
    show "task_ok ?s t" if "t \<in> {cur, nx}"
    proof (cases "nx = cur")
      case True
      then have t: "t = cur" "st = TASK_STATE_RUNNING" "b = False" using that nx(1) st by auto
      have "live ?k cur" using here_live [OF inv, of cur] v by simp
      moreover have "view k' cur = (({c}, {}, {}, I, False), TASK_STATE_RUNNING, int c, int c, True)"
        using True t vc r(2) by (simp add: view_eq on fld k')
      ultimately show ?thesis using t(1) True c(1) Ic place_ok.running [of c I "pc ?s"]
        by (simp add: task_ok_def after_sched_def on holds_lock_def)
    next
      case False
      from nx(2) [OF False] obtain C J where nv: "view ?k nx = (({}, {}, C, J, False), TASK_STATE_RUNNING, - 1, int c, False)"
        "C \<subseteq> {c}" "J \<subseteq> {c}" "(C, J) \<noteq> ({}, {})" and cr: "cur \<in> set r \<longleftrightarrow> st = TASK_STATE_RUNNING \<and> I = {}" by blast
      show ?thesis
      proof (cases "t = cur")
        case True
        have "view k' cur = (({}, {c}, if st = TASK_STATE_RUNNING \<and> I = {} then {c} else {}, I, b), st, int c, int c, True)"
          using False vc cr by (auto simp: view_eq on fld k')
        moreover have "live ?k cur" using here_live [OF inv, of cur] v by simp
        ultimately show ?thesis using True departed_place [OF c(1) Ic st] by (simp add: task_ok_def after_sched_def on)
      next
        case nc: False
        then have t: "t = nx" using that by simp
        have "view k' nx = (({c}, {}, {}, J, False), TASK_STATE_RUNNING, int c, int c, True)"
          using False nv r(2) noff by (auto simp: view_eq on fld k')
        moreover have "live ?k nx" using here_live [OF inv, of nx] nv(1,4) by simp
        ultimately show ?thesis using t False c(1) nv(3) place_ok.running [of c J "pc ?s"]
          by (simp add: task_ok_def after_sched_def on holds_lock_def)
      qed
    qed
  qed
qed

lemma task_sched_inv:
  assumes inv: "sched_inv s" and c: "c < MAX_CPUS" "cpu_current (cpus (kern s) ! c) = Some cur" "pc s c \<noteq> Switched"
    and k1: "departs cur st (kern s) k1"
    and v: "view (kern s) cur = (({c}, {}, {}, I, b), st0, int c, int c, l)"
    and st: "(st, b) \<in> {(TASK_STATE_RUNNING, False), (TASK_STATE_SLEEPING, True), (TASK_STATE_ZOMBIE, False)}"
      "st \<noteq> TASK_STATE_RUNNING \<Longrightarrow> I = {}"
  shows "\<exists>sw k'. task_sched c k1 = Some (sw, k') \<and> sched_inv (after_sched c sw k' s) \<and> (st \<noteq> TASK_STATE_RUNNING \<longrightarrow> sw)"
proof -
  let ?k = "kern s"
  note i = sched_invD [OF inv] and dp = departs_on [OF k1]
  note vc = v [unfolded view_eq]
  have k1': "cpus k1 = cpus ?k" "tasks k1 = tasks ?k" "sleep_queue k1 = sleep_queue ?k" using k1 by (simp_all add: departs_def)
  have cok: "cpu_ok (pc s c) (cpus ?k ! c)" by (rule i(4) [OF c(1)])
  then obtain ix where ix: "cpu_idle (cpus ?k ! c) = Some ix" using c(2) by (auto simp: cpu_ok_def split: if_splits)
  have Ic: "I \<subseteq> {c}" using current_place [OF inv c(1,2)] v by (auto split: if_splits)
  have Iix: "I = {} \<longleftrightarrow> ix \<noteq> cur"
    using vc Ic ix c(1) i(1) by (auto simp: idle_on_def)
  define q where "q = sched_queue c cur k1"
  define nx where "nx = (case q of [] \<Rightarrow> ix | t # _ \<Rightarrow> t)"
  have rq: "cur \<notin> set (cpu_run_queue (cpus ?k ! c))" using vc c(1) i(1) by (auto simp: rq_on_def)
  have qeq: "q = (if st = TASK_STATE_RUNNING \<and> I = {} then cpu_run_queue (cpus ?k ! c) @ [cur] else cpu_run_queue (cpus ?k ! c))"
    using k1 Iix ix by (simp add: q_def sched_queue_def departs_def)
  have nxin: "nx \<in> set (cpu_run_queue (cpus ?k ! c)) \<or> cpu_idle (cpus ?k ! c) = Some nx \<or> nx = cur"
    using ix by (auto simp: nx_def qeq split: list.splits if_splits)
  have nxv: "\<exists>C I. view ?k nx = (({}, {}, C, I, False), TASK_STATE_RUNNING, - 1, int c, False)
    \<and> C \<subseteq> {c} \<and> I \<subseteq> {c} \<and> (C, I) \<noteq> ({}, {})" if "nx \<noteq> cur"
    using next_free [OF inv c] nxin that by blast
  have cpuq: "t_cpu (task_of ?k t) = int c" if "t \<in> set (cpu_run_queue (cpus ?k ! c))" for t
    using queue_place [OF inv c(1) that] by (auto simp: view_eq)
  have "\<exists>k'. task_sched c k1 = Some (nx \<noteq> cur, k') \<and> switched c cur nx (tl q) k1 k'"
    unfolding nx_def q_def
  proof (rule task_sched_ok)
    show "length (cpus k1) = MAX_CPUS" "cpu_current (cpus k1 ! c) = Some cur" "cpu_idle (cpus k1 ! c) = Some ix"
      "cpu_nr_running (cpus k1 ! c) = length (cpu_run_queue (cpus k1 ! c))" "c < MAX_CPUS"
      using i(1) c ix cok by (simp_all add: k1' cpu_ok_def)
    show "sl_locked (t_lock (task_of k1 cur))" "t_oncpu (task_of k1 cur) = int c" "t_cpu (task_of k1 cur) = int c"
      "t_state (task_of k1 cur) \<noteq> TASK_STATE_NEW" using k1 vc st(1) by (auto simp: departs_def)
    show "t_cpu (task_of k1 t) = int c" if "t \<in> set (cpu_run_queue (cpus k1 ! c))" for t
      using that cpuq k1 by (simp add: k1') (simp add: departs_def)
    show "\<not> queued k1 cur" if "t_state (task_of k1 cur) = TASK_STATE_RUNNING" "ix \<noteq> cur"
      using that vc st(1) k1 by (auto simp: queued_iff dp k1' departs_def)
    show "\<not> sl_locked (t_lock (task_of k1 (case sched_queue c cur k1 of [] \<Rightarrow> ix | t # _ \<Rightarrow> t)))
        \<and> t_oncpu (task_of k1 (case sched_queue c cur k1 of [] \<Rightarrow> ix | t # _ \<Rightarrow> t)) = - 1"
      if "(case sched_queue c cur k1 of [] \<Rightarrow> ix | t # _ \<Rightarrow> t) \<noteq> cur"
      using that nxv k1 unfolding q_def [symmetric] nx_def [symmetric] by (auto simp: view_eq departs_def)
  qed
  then obtain k' where k': "task_sched c k1 = Some (nx \<noteq> cur, k')" "switched c cur nx (tl q) k1 k'" by blast
  have dq: "distinct q" using cok rq by (simp add: qeq cpu_ok_def)
  have tlq: "nx \<notin> set (tl q)" using dq by (cases q) (auto simp: nx_def)
  have "sched_inv (after_sched c (nx \<noteq> cur) k' s)"
  proof (rule switched_inv [OF inv c k1 v Ic st k'(2) distinct_tl [OF dq] tlq])
    have q1: "set q = set (tl q) \<union> (if q = [] then {} else {nx})" by (cases q) (auto simp: nx_def)
    have q2: "t \<in> set q \<longleftrightarrow> t \<in> set (cpu_run_queue (cpus ?k ! c)) \<or> t = cur \<and> st = TASK_STATE_RUNNING \<and> I = {}" for t
      by (auto simp: qeq)
    show "t \<in> set (tl q) \<longleftrightarrow> t \<in> set (cpu_run_queue (cpus ?k ! c))" if "t \<noteq> nx" "t \<noteq> cur" for t
      using q2 [of t] that unfolding q1 by (auto split: if_splits)
    show "st = TASK_STATE_RUNNING" if "nx = cur"
      using that rq Iix st(2) by (cases "st = TASK_STATE_RUNNING") (auto simp: nx_def qeq split: list.splits)
    show "(cur \<in> set (tl q) \<longleftrightarrow> st = TASK_STATE_RUNNING \<and> I = {}) \<and> (\<exists>C I. view ?k nx = (({}, {}, C, I, False), TASK_STATE_RUNNING, - 1, int c, False)
      \<and> C \<subseteq> {c} \<and> I \<subseteq> {c} \<and> (C, I) \<noteq> ({}, {}))" if "nx \<noteq> cur"
    proof
      show "cur \<in> set (tl q) \<longleftrightarrow> st = TASK_STATE_RUNNING \<and> I = {}"
        using q2 [of cur] that rq unfolding q1 by (auto split: if_splits)
    qed (rule nxv [OF that])
  qed
  moreover have "nx \<noteq> cur" if "st \<noteq> TASK_STATE_RUNNING"
    using that rq Iix st(2) by (auto simp: nx_def qeq split: list.splits)
  ultimately show ?thesis using k'(1) by blast
qed

section \<open>Single steps\<close>

lemma same_places_inv:
  assumes "sched_inv s" "same_places (kern s) k'"
  shows "sched_inv (s\<lparr>kern := k'\<rparr>)"
proof (rule sched_inv_step [where T = "{}", OF assms(1)])
  note i = sched_invD [OF assms(1)]
  show "length (cpus (kern (s\<lparr>kern := k'\<rparr>))) = MAX_CPUS" "distinct (sleep_queue (kern (s\<lparr>kern := k'\<rparr>)))"
    "distinct (tasks (kern (s\<lparr>kern := k'\<rparr>)))" using i assms(2) by (simp_all add: same_places_def)
  show "cpu_ok (pc (s\<lparr>kern := k'\<rparr>) c) (cpus (kern (s\<lparr>kern := k'\<rparr>)) ! c)" if "c < MAX_CPUS" for c
    using i(4) [OF that] assms(2) by (simp add: same_places_def)
qed (use same_places_view [OF assms(2)] in auto)

lemma goto_eq: "goto c ph k s = (s\<lparr>kern := k\<rparr>)\<lparr>pc := (pc s)(c := ph)\<rparr>"
  by (simp add: goto_def)

lemma phase_inv:
  assumes inv: "sched_inv s" and c: "c < MAX_CPUS" "cpu_current (cpus (kern s) ! c) = Some t"
    and ph: "ph \<noteq> Switched" "pc s c \<noteq> Switched" "ph \<noteq> Published" "pc s c \<noteq> Published" "holds_lock ph = holds_lock (pc s c)"
    and idle: "idle_on (kern s) t \<noteq> {} \<Longrightarrow> ph \<in> {Exec} \<union> range Waking"
  shows "sched_inv (s\<lparr>pc := (pc s)(c := ph)\<rparr>)"
proof (rule sched_inv_step [where T = "{t}", OF inv])
  note i = sched_invD [OF inv]
  let ?s = "s\<lparr>pc := (pc s)(c := ph)\<rparr>"
  show "length (cpus (kern ?s)) = MAX_CPUS" "distinct (sleep_queue (kern ?s))" "distinct (tasks (kern ?s))" using i by simp_all
  show "cpu_ok (pc ?s e) (cpus (kern ?s) ! e)" if "e < MAX_CPUS" for e
    using i(4) [OF that] c(2) ph(1,2) by (auto simp: cpu_ok_def split: if_splits)
  show "task_ok ?s u" if "u \<in> {t}" for u
  proof -
    from current_place [OF inv c] ph(4) obtain I where I: "I \<subseteq> {c}"
      "view (kern s) t = (({c}, {}, {}, I, False), TASK_STATE_RUNNING, int c, int c, holds_lock (pc s c))" by auto
    have "live (kern s) t" using here_live [OF inv, of t] I(2) by simp
    moreover have "idle_on (kern s) t = I" using I(2) by (simp add: view_eq)
    ultimately show ?thesis using that I c(1) ph idle place_ok.running [of c I "pc ?s"] by (auto simp: task_ok_def)
  qed
  show "view (kern ?s) u = view (kern s) u \<and> live (kern ?s) u = live (kern s) u \<and> (\<forall>e \<in> cur_on (kern s) u. pc ?s e = pc s e)"
    if "u \<notin> {t}" for u using that c(2) by (auto simp: cur_on_def)
qed

lemma current_unlocked:
  assumes inv: "sched_inv s" and c: "c < MAX_CPUS" "cpu_current (cpus (kern s) ! c) = Some t" "\<not> holds_lock (pc s c)"
  shows "\<exists>I \<subseteq> {c}. view (kern s) t = (({c}, {}, {}, I, False), TASK_STATE_RUNNING, int c, int c, False)"
  using current_place [OF inv c(1,2)] c(3) by (auto simp: holds_lock_def split: if_splits)

lemma task_trylock_free:
  "\<not> sl_locked (t_lock (task_of k t)) \<Longrightarrow>
    task_trylock c t k = Some (upd_task t (\<lambda>p. p\<lparr>t_lock := \<lparr>sl_locked = True, sl_cpuid = Some c\<rparr>\<rparr>) k)"
  by (simp add: task_trylock_def spin_trylock_def)

lemma task_yield_inv:
  assumes inv: "sched_inv s" and c: "c < MAX_CPUS" "cpu_current (cpus (kern s) ! c) = Some t" "pc s c = Exec"
  shows "\<exists>sw k'. task_yield_begin c (kern s) = Some (sw, k') \<and> sched_inv (after_sched c sw k' s)"
proof -
  let ?k1 = "upd_task t (\<lambda>p. p\<lparr>t_lock := \<lparr>sl_locked = True, sl_cpuid = Some c\<rparr>\<rparr>) (kern s)"
  from current_unlocked [OF inv c(1,2)] c(3) obtain I where I: "view (kern s) t = (({c}, {}, {}, I, False), TASK_STATE_RUNNING, int c, int c, False)"
    by (auto simp: holds_lock_def)
  then have "departs t TASK_STATE_RUNNING (kern s) ?k1" by (simp add: departs_def view_eq)
  from task_sched_inv [OF inv c(1,2) _ this I] c(3) obtain sw k' where "task_sched c ?k1 = Some (sw, k')" "sched_inv (after_sched c sw k' s)"
    by auto
  moreover have "task_trylock c t (kern s) = Some ?k1" using I by (intro task_trylock_free) (simp add: view_eq)
  ultimately show ?thesis using c(1,2) sched_invD(1) [OF inv] by (simp add: task_yield_begin_def nth_opt_in)
qed

lemma block_inv:
  assumes inv: "sched_inv s" and c: "c < MAX_CPUS" "pc s c = Published"
  shows "\<exists>k'. task_sched c (drop_wait_lock c (kern s)) = Some (True, k') \<and> sched_inv (after_sched c True k' s)"
proof -
  have "cpu_current (cpus (kern s) ! c) \<noteq> None" using sched_invD(4) [OF inv c(1)] c(2) by (auto simp: cpu_ok_def split: if_splits)
  then obtain t where t: "cpu_current (cpus (kern s) ! c) = Some t" by auto
  from current_place [OF inv c(1) t] c(2) have v: "view (kern s) t = (({c}, {}, {}, {}, True), TASK_STATE_SLEEPING, int c, int c, True)" by simp
  then have "departs t TASK_STATE_SLEEPING (kern s) (drop_wait_lock c (kern s))" by (simp add: departs_def view_eq drop_wait_lock_def)
  from task_sched_inv [OF inv c(1) t _ this v] c(2) show ?thesis by auto
qed

lemma exit_die_inv:
  assumes inv: "sched_inv s" and c: "c < MAX_CPUS" "pc s c = Exiting status r"
  shows "\<exists>k'. exit_die c status (kern s) = Some (True, k') \<and> sched_inv (after_sched c True k' s)"
proof -
  have "cpu_current (cpus (kern s) ! c) \<noteq> None" using sched_invD(4) [OF inv c(1)] c(2) by (auto simp: cpu_ok_def split: if_splits)
  then obtain t where t: "cpu_current (cpus (kern s) ! c) = Some t" by auto
  let ?k1 = "upd_task t (\<lambda>p. p\<lparr>t_lock := \<lparr>sl_locked = True, sl_cpuid = Some c\<rparr>\<rparr>) (kern s)"
  let ?k2 = "upd_task t (\<lambda>p. p\<lparr>t_state := TASK_STATE_ZOMBIE, t_exit_status := status\<rparr>) ?k1"
  from current_place [OF inv c(1) t] c(2) have v: "view (kern s) t = (({c}, {}, {}, {}, False), TASK_STATE_RUNNING, int c, int c, False)"
    by (auto simp: holds_lock_def)
  then have "departs t TASK_STATE_ZOMBIE (kern s) ?k2" by (simp add: departs_def view_eq)
  from task_sched_inv [OF inv c(1) t _ this v] c(2) obtain k' where k': "task_sched c ?k2 = Some (True, k')" "sched_inv (after_sched c True k' s)"
    by auto
  have "task_trylock c t (kern s) = Some ?k1" using v by (intro task_trylock_free) (simp add: view_eq)
  then show ?thesis using k' c(1) t sched_invD(1) [OF inv] by (simp add: exit_die_def nth_opt_in)
qed

end
