(* ===== verification/Signal.thy ===== *)
theory Signal
  imports Sched_Inv Refcnt
begin

text \<open>
  Signals (\<open>src/src/kern/signal.c\<close>). Signal sets are 64-bit words. The tables of signal actions
  live on a heap with reference counts; user memory is a map from word addresses to 64-bit words,
  since every access of this code is aligned. The trap frame is its 38 words. A task that is
  terminated by a signal does not come back from the delivery: the result is then its exit status.
  Faults on the user stack are not modelled; \<open>sys_pause\<close> only polls.
\<close>

section \<open>Constants and data\<close>

definition NSIG :: int where "NSIG = 32"
definition SIGKILL :: int where "SIGKILL = 9"
definition SIGCHLD :: int where "SIGCHLD = 17"
definition SIGCONT :: int where "SIGCONT = 18"
definition SIGSTOP :: int where "SIGSTOP = 19"
definition SIGURG :: int where "SIGURG = 23"
definition SIGWINCH :: int where "SIGWINCH = 28"
definition SIG_DFL :: u64 where "SIG_DFL = 0"
definition SIG_IGN :: u64 where "SIG_IGN = 1"
definition SIG_BLOCK :: int where "SIG_BLOCK = 0"
definition SIG_UNBLOCK :: int where "SIG_UNBLOCK = 1"
definition SIG_SETMASK :: int where "SIG_SETMASK = 2"
definition SA_NODEFER :: u64 where "SA_NODEFER = 0x40000000"
definition CAP_KILL :: int where "CAP_KILL = 5"
definition CAP_LAST_CAP :: int where "CAP_LAST_CAP = 31"
definition USER_SPACE_SIZE_MAX :: u64 where "USER_SPACE_SIZE_MAX = push_bit 38 1 - 4096"

lemmas signal_consts = NSIG_def SIGKILL_def SIGCHLD_def SIGCONT_def SIGSTOP_def SIGURG_def SIGWINCH_def SIG_DFL_def SIG_IGN_def
  SIG_BLOCK_def SIG_UNBLOCK_def SIG_SETMASK_def SA_NODEFER_def

record sigaction =
  sa_handler :: u64
  sa_mask :: u64
  sa_flags :: u64

record sigaction_table =
  actions :: "sigaction list"
  st_refcnt :: refcnt_t

record sigw =
  skern :: kernel
  tables :: "nat \<Rightarrow> sigaction_table option"
  umem :: "nat \<Rightarrow> u64"

text \<open>The set \<open>1ULL << sig\<close>, and whether it meets another one.\<close>

definition sigbit :: "int \<Rightarrow> u64" where
  "sigbit sig = push_bit (nat sig) 1"

definition in_sigset :: "int \<Rightarrow> u64 \<Rightarrow> bool" where
  "in_sigset sig m \<longleftrightarrow> m AND sigbit sig \<noteq> 0"

definition stask :: "nat \<Rightarrow> sigw \<Rightarrow> task" where
  "stask t w = task_of (skern w) t"

definition upd_stask :: "nat \<Rightarrow> (task \<Rightarrow> task) \<Rightarrow> sigw \<Rightarrow> sigw" where
  "upd_stask t f w = w\<lparr>skern := upd_task t f (skern w)\<rparr>"

definition table_of :: "nat \<Rightarrow> sigw \<Rightarrow> sigaction_table option" where
  "table_of t w = do { i \<leftarrow> t_sigactions (stask t w); tables w i }"

definition action_of :: "nat \<Rightarrow> int \<Rightarrow> sigw \<Rightarrow> sigaction option" where
  "action_of t sig w = do { tb \<leftarrow> table_of t w; nth_opt (actions tb) (nat sig) }"

definition set_table :: "nat \<Rightarrow> sigaction_table \<Rightarrow> sigw \<Rightarrow> sigw option" where
  "set_table t tb w = do { i \<leftarrow> t_sigactions (stask t w); Some (w\<lparr>tables := (tables w)(i := Some tb)\<rparr>) }"

section \<open>Predicates\<close>

definition sig_valid :: "int \<Rightarrow> bool" where
  "sig_valid sig \<longleftrightarrow> sig > 0 \<and> sig < NSIG"

definition capable :: "task \<Rightarrow> int \<Rightarrow> bool" where
  "capable cur cap \<longleftrightarrow> \<not> (cap < 0 \<or> cap > CAP_LAST_CAP) \<and> t_cap_effective cur AND push_bit (nat cap) 1 \<noteq> 0"

definition signal_may_send :: "task \<Rightarrow> task \<Rightarrow> bool" where
  "signal_may_send cur target \<longleftrightarrow> capable cur CAP_KILL \<or> t_euid target = t_euid cur"

definition sig_default_terminate :: "int \<Rightarrow> bool" where
  "sig_default_terminate sig \<longleftrightarrow> \<not> (sig = SIGCHLD \<or> sig = SIGURG \<or> sig = SIGWINCH \<or> sig = SIGCONT)"

text \<open>The sum wraps.\<close>

definition user_access_ok :: "u64 \<Rightarrow> u64 \<Rightarrow> bool" where
  "user_access_ok addr len \<longleftrightarrow> addr + len \<le> USER_SPACE_SIZE_MAX"

section \<open>Tables of actions\<close>

definition sigaction_table_reset_locked :: "sigaction_table \<Rightarrow> sigaction_table" where
  "sigaction_table_reset_locked tb =
     tb\<lparr>actions := replicate (nat NSIG) \<lparr>sa_handler = SIG_DFL, sa_mask = 0, sa_flags = 0\<rparr>\<rparr>"

definition sigaction_table_copy_locked :: "sigaction_table \<Rightarrow> sigaction_table \<Rightarrow> sigaction_table" where
  "sigaction_table_copy_locked dst src = dst\<lparr>actions := actions src\<rparr>"

text \<open>The argument is the address \<open>kzalloc\<close> returned, with the zeroed table behind it.\<close>

definition sigaction_table_alloc :: "nat option \<Rightarrow> sigw \<Rightarrow> nat option \<times> sigw" where
  "sigaction_table_alloc fresh w = (case fresh of
     None \<Rightarrow> (None, w)
   | Some i \<Rightarrow> (Some i, w\<lparr>tables := (tables w)(i := Some \<lparr>actions = replicate (nat NSIG) \<lparr>sa_handler = 0, sa_mask = 0, sa_flags = 0\<rparr>,
       st_refcnt = refcnt_init 1\<rparr>)\<rparr>))"

definition sigaction_table_put :: "nat \<Rightarrow> sigw \<Rightarrow> sigw option" where
  "sigaction_table_put i w = do {
     tb \<leftarrow> tables w i;
     let (n, rc) = refcnt_dec_fetch (st_refcnt tb) in
     Some (w\<lparr>tables := (tables w)(i := if n > 0 then Some (tb\<lparr>st_refcnt := rc\<rparr>) else None)\<rparr>) }"

definition sigaction_table_get :: "nat \<Rightarrow> sigw \<Rightarrow> sigw option" where
  "sigaction_table_get i w = do {
     tb \<leftarrow> tables w i;
     Some (w\<lparr>tables := (tables w)(i := Some (tb\<lparr>st_refcnt := refcnt_inc (st_refcnt tb)\<rparr>))\<rparr>) }"

definition sigaction_table_copy :: "nat \<Rightarrow> nat \<Rightarrow> sigw \<Rightarrow> sigw option" where
  "sigaction_table_copy dst src w = do {
     s \<leftarrow> tables w src;
     d \<leftarrow> tables w dst;
     Some (w\<lparr>tables := (tables w)(dst := Some (sigaction_table_copy_locked d s))\<rparr>) }"

section \<open>Pending signals\<close>

fun nodefer_set :: "task \<Rightarrow> sigaction list \<Rightarrow> int list \<Rightarrow> u64" where
  "nodefer_set p acts [] = 0"
| "nodefer_set p acts (sig # sigs) =
     (if in_sigset sig (t_pending p) \<and> sa_flags (acts ! nat sig) AND SA_NODEFER \<noteq> 0
      then sigbit sig OR nodefer_set p acts sigs else nodefer_set p acts sigs)"

definition deliverable :: "task \<Rightarrow> sigaction list \<Rightarrow> u64" where
  "deliverable p acts = (let deliver = t_pending p AND NOT (t_blocked p) in
     if t_in_handler p
     then (deliver AND sigbit SIGKILL) OR (nodefer_set p acts [1..31] AND NOT (t_blocked p))
     else deliver)"

definition get_next_signal_locked :: "nat \<Rightarrow> sigw \<Rightarrow> int option" where
  "get_next_signal_locked t w = do {
     tb \<leftarrow> table_of t w;
     _ \<leftarrow> assert_opt (length (actions tb) = nat NSIG);
     Some (case find (\<lambda>sig. in_sigset sig (deliverable (stask t w) (actions tb))) [1..31] of None \<Rightarrow> 0 | Some sig \<Rightarrow> sig) }"

definition signal_reset_signal_sets_locked :: "nat \<Rightarrow> sigw \<Rightarrow> sigw" where
  "signal_reset_signal_sets_locked t w =
     upd_stask t (\<lambda>p. p\<lparr>t_pending := 0, t_blocked := 0, t_in_handler := False, t_sigframe_sp := 0\<rparr>) w"

definition signal_reset :: "nat \<Rightarrow> sigw \<Rightarrow> sigw option" where
  "signal_reset t w = do {
     w \<leftarrow> Some (signal_reset_signal_sets_locked t w);
     tb \<leftarrow> table_of t w;
     set_table t (sigaction_table_reset_locked tb) w }"

definition clear_pending_locked :: "nat \<Rightarrow> int \<Rightarrow> sigw \<Rightarrow> sigw" where
  "clear_pending_locked t sig w = upd_stask t (\<lambda>p. p\<lparr>t_pending := t_pending p AND NOT (sigbit sig)\<rparr>) w"

definition signal_pending :: "nat \<Rightarrow> sigw \<Rightarrow> bool option" where
  "signal_pending t w = do { sig \<leftarrow> get_next_signal_locked t w; Some (sig \<noteq> 0) }"

section \<open>Sending\<close>

definition set_pending :: "nat \<Rightarrow> int \<Rightarrow> sigw \<Rightarrow> sigw" where
  "set_pending t sig w = upd_stask t (\<lambda>p. p\<lparr>t_pending := t_pending p OR sigbit sig\<rparr>) w"

definition signal_send :: "nat \<Rightarrow> nat \<Rightarrow> int \<Rightarrow> sigw \<Rightarrow> sigw option" where
  "signal_send c t sig w =
     (if \<not> sig_valid sig then Some w
      else if t_state (stask t w) = TASK_STATE_ZOMBIE then Some w
      else do {
        _ \<leftarrow> table_of t w;
        w \<leftarrow> Some (set_pending t sig w);
        k \<leftarrow> task_wake_spec c t (skern w);
        Some (w\<lparr>skern := k\<rparr>) })"

text \<open>The loop over the task list of \<open>kill(-1)\<close> and of a process group: found, sent and the state.\<close>

fun kill_each :: "nat \<Rightarrow> nat \<Rightarrow> (task \<Rightarrow> bool) \<Rightarrow> int \<Rightarrow> nat list \<Rightarrow> bool \<Rightarrow> bool \<Rightarrow> sigw \<Rightarrow> (bool \<times> bool \<times> sigw) option" where
  "kill_each c cur sel sig [] found sent w = Some (found, sent, w)"
| "kill_each c cur sel sig (p # ps) found sent w =
     (if \<not> sel (stask p w) \<or> t_pid (stask p w) \<noteq> t_tgid (stask p w) then kill_each c cur sel sig ps found sent w
      else if \<not> signal_may_send (stask cur w) (stask p w) then kill_each c cur sel sig ps True sent w
      else do {
        w \<leftarrow> (if sig \<noteq> 0 then signal_send c p sig w else Some w);
        kill_each c cur sel sig ps True True w })"

definition kill_many :: "nat \<Rightarrow> nat \<Rightarrow> (task \<Rightarrow> bool) \<Rightarrow> int \<Rightarrow> sigw \<Rightarrow> ((errno + unit) \<times> sigw) option" where
  "kill_many c cur sel sig w = do {
     (found, sent, w) \<leftarrow> kill_each c cur sel sig (tasks (skern w)) False False w;
     Some (if sent then Inr () else if found then Inl EPERM else Inl ESRCH, w) }"

definition signal_kill_pgrp :: "nat \<Rightarrow> nat \<Rightarrow> int \<Rightarrow> int \<Rightarrow> sigw \<Rightarrow> ((errno + unit) \<times> sigw) option" where
  "signal_kill_pgrp c cur pgrp sig w =
     (if pgrp \<le> 0 then Some (Inl ESRCH, w)
      else if sig \<noteq> 0 \<and> \<not> sig_valid sig then Some (Inl EINVAL, w)
      else kill_many c cur (\<lambda>p. t_pgid p = pgrp) sig w)"

definition signal_send_pgrp :: "nat \<Rightarrow> nat \<Rightarrow> int \<Rightarrow> int \<Rightarrow> sigw \<Rightarrow> sigw option" where
  "signal_send_pgrp c cur pgrp sig w = do { (_, w) \<leftarrow> signal_kill_pgrp c cur pgrp sig w; Some w }"

definition kill_one :: "nat \<Rightarrow> nat \<Rightarrow> int \<Rightarrow> int \<Rightarrow> sigw \<Rightarrow> ((errno + unit) \<times> sigw) option" where
  "kill_one c cur pid sig w = (case find (\<lambda>p. t_pid (stask p w) = pid) (tasks (skern w)) of
     None \<Rightarrow> Some (Inl ESRCH, w)
   | Some target \<Rightarrow>
       (if \<not> signal_may_send (stask cur w) (stask target w) then Some (Inl EPERM, w)
        else if t_state (stask target w) = TASK_STATE_ZOMBIE then Some (Inl ESRCH, w)
        else do {
          _ \<leftarrow> table_of target w;
          if sig = 0 then Some (Inr (), w)
          else do {
            w \<leftarrow> Some (set_pending target sig w);
            k \<leftarrow> task_wake_spec c target (skern w);
            Some (Inr (), w\<lparr>skern := k\<rparr>) } }))"

definition signal_do_kill :: "nat \<Rightarrow> nat \<Rightarrow> int \<Rightarrow> int \<Rightarrow> sigw \<Rightarrow> ((errno + unit) \<times> sigw) option" where
  "signal_do_kill c cur pid sig w =
     (if sig \<noteq> 0 \<and> \<not> sig_valid sig then Some (Inl EINVAL, w)
      else if pid \<le> 0 then
        (if pid = - 1 then kill_many c cur (\<lambda>_. True) sig w
         else signal_kill_pgrp c cur (if pid = 0 then t_pgid (stask cur w) else - pid) sig w)
      else kill_one c cur pid sig w)"

section \<open>Life of the signal state\<close>

definition signal_init :: "nat \<Rightarrow> nat option \<Rightarrow> u64 \<Rightarrow> nat option \<Rightarrow> sigw \<Rightarrow> ((errno + unit) \<times> sigw) option" where
  "signal_init t sigactions blocked fresh w = (case sigactions of
     None \<Rightarrow> (let (r, w) = sigaction_table_alloc fresh w; w = upd_stask t (\<lambda>p. p\<lparr>t_sigactions := r\<rparr>) w in
       if r = None then Some (Inl ENOMEM, w) else do { w \<leftarrow> signal_reset t w; Some (Inr (), w) })
   | Some i \<Rightarrow> do {
       w \<leftarrow> sigaction_table_get i w;
       w \<leftarrow> Some (upd_stask t (\<lambda>p. p\<lparr>t_sigactions := Some i\<rparr>) w);
       w \<leftarrow> Some (signal_reset_signal_sets_locked t w);
       Some (Inr (), upd_stask t (\<lambda>p. p\<lparr>t_blocked := blocked\<rparr>) w) })"

definition signal_deinit :: "nat \<Rightarrow> sigw \<Rightarrow> sigw option" where
  "signal_deinit t w = (case t_sigactions (stask t w) of None \<Rightarrow> Some w | Some i \<Rightarrow> sigaction_table_put i w)"

definition signal_copy :: "nat \<Rightarrow> nat \<Rightarrow> sigw \<Rightarrow> sigw option" where
  "signal_copy dst src w = do {
     s \<leftarrow> table_of src w;
     d \<leftarrow> table_of dst w;
     w \<leftarrow> Some (upd_stask dst (\<lambda>p. p\<lparr>t_pending := 0, t_blocked := t_blocked (stask src w), t_in_handler := False, t_sigframe_sp := 0\<rparr>) w);
     set_table dst (sigaction_table_copy_locked d s) w }"

end
