(* ===== verification/Signal_Deliver.thy ===== *)
theory Signal_Deliver
  imports Signal
begin

text \<open>
  Delivery of signals to user space and the return from a handler, the second half of
  \<open>src/src/kern/signal.c\<close>, with the properties of the component.
\<close>

section \<open>Model\<close>

text \<open>Words of \<open>struct trap_frame\<close>: its size, and the places of \<open>sp\<close>, \<open>a0\<close> and \<open>sepc\<close>.\<close>

definition TF_WORDS :: nat where "TF_WORDS = 38"
definition TF_SP :: nat where "TF_SP = 2"
definition TF_A0 :: nat where "TF_A0 = 10"
definition TF_SEPC :: nat where "TF_SEPC = 33"

text \<open>\<open>sizeof(struct user_sigframe)\<close>: the trap frame, the mask, the signal number and padding.\<close>

definition SIGFRAME_SIZE :: u64 where "SIGFRAME_SIZE = 320"

lemmas tf_consts = TF_WORDS_def TF_SP_def TF_A0_def TF_SEPC_def SIGFRAME_SIZE_def

definition sigframe_base :: "u64 \<Rightarrow> u64" where
  "sigframe_base sp = (sp - SIGFRAME_SIZE) AND NOT 15"

text \<open>Filling in the frame at \<open>sp\<close>: 38 words of registers, the mask, and the number in the low half of the last word.\<close>

definition store_sigframe :: "u64 \<Rightarrow> trap_frame \<Rightarrow> u64 \<Rightarrow> int \<Rightarrow> (nat \<Rightarrow> u64) \<Rightarrow> nat \<Rightarrow> u64" where
  "store_sigframe sp tf blocked sig m a = (let b = unat sp div 8 in
     if b \<le> a \<and> a < b + TF_WORDS then tf ! (a - b)
     else if a = b + TF_WORDS then blocked
     else if a = b + TF_WORDS + 1 then (m a AND NOT (mask 32)) OR word_of_int sig
     else m a)"

definition load_tf :: "u64 \<Rightarrow> (nat \<Rightarrow> u64) \<Rightarrow> trap_frame" where
  "load_tf sp m = map (\<lambda>i. m (unat sp div 8 + i)) [0..<TF_WORDS]"

definition load_blocked :: "u64 \<Rightarrow> (nat \<Rightarrow> u64) \<Rightarrow> u64" where
  "load_blocked sp m = m (unat sp div 8 + TF_WORDS)"

definition setup_signal_frame_locked :: "nat \<Rightarrow> int \<Rightarrow> u64 \<Rightarrow> sigw \<Rightarrow> (bool \<times> sigw) option" where
  "setup_signal_frame_locked t sig handler w = do {
     _ \<leftarrow> assert_opt (length (t_frame (stask t w)) = TF_WORDS);
     act \<leftarrow> action_of t sig w;
     let sp = sigframe_base (t_frame (stask t w) ! TF_SP) in
     if \<not> user_access_ok sp SIGFRAME_SIZE then Some (False, w)
     else do {
       w \<leftarrow> Some (w\<lparr>umem := store_sigframe sp (t_frame (stask t w)) (t_blocked (stask t w)) sig (umem w)\<rparr>);
       w \<leftarrow> Some (upd_stask t (\<lambda>p. p\<lparr>t_sigframe_sp := sp\<rparr>) w);
       w \<leftarrow> Some (if sa_flags act AND SA_NODEFER = 0 then upd_stask t (\<lambda>p. p\<lparr>t_blocked := t_blocked p OR sigbit sig\<rparr>) w else w);
       w \<leftarrow> Some (upd_stask t (\<lambda>p. p\<lparr>t_blocked := t_blocked p OR sa_mask act\<rparr>) w);
       w \<leftarrow> Some (clear_pending_locked t sig w);
       w \<leftarrow> Some (upd_stask t (\<lambda>p. p\<lparr>t_in_handler := True,
         t_frame := (t_frame p)[TF_SP := sp, TF_SEPC := handler, TF_A0 := word_of_int sig]\<rparr>) w);
       Some (True, w) } }"

definition signal_deliver_one :: "nat \<Rightarrow> int \<Rightarrow> sigw \<Rightarrow> (int + sigw) option" where
  "signal_deliver_one t sig w = do {
     act \<leftarrow> action_of t sig w;
     let handler = sa_handler act in
     if sig = SIGKILL \<or> (handler = SIG_DFL \<and> sig_default_terminate sig) then Some (Inl (exit_signal_status sig))
     else if handler = SIG_IGN then Some (Inr (clear_pending_locked t sig w))
     else if handler = SIG_DFL then Some (Inr (clear_pending_locked t sig w))
     else do {
       (ok, w) \<leftarrow> setup_signal_frame_locked t sig handler w;
       if \<not> ok then Some (Inl (exit_signal_status sig)) else Some (Inr w) } }"

lemma deliver_one_pending:
  assumes "signal_deliver_one t sig w = Some (Inr w')"
  shows "t_pending (stask t w') = t_pending (stask t w) AND NOT (sigbit sig)"
  using assms
  by (auto simp: signal_deliver_one_def setup_signal_frame_locked_def clear_pending_locked_def upd_stask_def stask_def
      Let_def bind_Some_conv split: if_splits)

lemma in_sigset_bit: "0 \<le> sig \<Longrightarrow> sig < 64 \<Longrightarrow> in_sigset sig m \<longleftrightarrow> bit m (nat sig)"
  by (simp add: in_sigset_def sigbit_def and_exp_eq_0_iff_not_bit push_bit_eq_mult)

lemma bit_sigbit: "bit (sigbit sig) n \<longleftrightarrow> n = nat sig \<and> nat sig < 64"
  by (auto simp: sigbit_def bit_simps)

lemma nodefer_bits:
  "\<forall>sig \<in> set sigs. 0 \<le> sig \<and> sig < 64 \<Longrightarrow> bit (nodefer_set p acts sigs) n \<Longrightarrow>
    bit (t_pending p) n \<and> (\<exists>sig \<in> set sigs. n = nat sig \<and> sa_flags (acts ! nat sig) AND SA_NODEFER \<noteq> 0)"
  by (induction p acts sigs rule: nodefer_set.induct) (auto simp: bit_simps bit_sigbit in_sigset_bit split: if_splits)

lemma deliverable_bits: "bit (deliverable p acts) n \<Longrightarrow> bit (t_pending p) n \<and> \<not> bit (t_blocked p) n"
  using nodefer_bits [of "[1..31]" p acts n] by (auto simp: deliverable_def Let_def bit_simps split: if_splits)

text \<open>What \<open>get_next_signal_locked\<close> finds: the lowest deliverable signal.\<close>

lemma next_signal_cases:
  assumes "get_next_signal_locked t w = Some sig"
  obtains (none) tb where "table_of t w = Some tb" "sig = 0"
      "\<forall>n \<in> {1..31}. \<not> bit (deliverable (stask t w) (actions tb)) n"
    | (some) tb where "table_of t w = Some tb" "1 \<le> sig" "sig \<le> 31" "bit (deliverable (stask t w) (actions tb)) (nat sig)"
      "\<forall>n \<in> {1..<nat sig}. \<not> bit (deliverable (stask t w) (actions tb)) n"
proof -
  from assms obtain tb where tb: "table_of t w = Some tb"
    "sig = (case find (\<lambda>sig. in_sigset sig (deliverable (stask t w) (actions tb))) [1..31] of None \<Rightarrow> 0 | Some sig \<Rightarrow> sig)"
    unfolding get_next_signal_locked_def bind_Some_conv by blast
  let ?d = "deliverable (stask t w) (actions tb)"
  show thesis
  proof (cases "find (\<lambda>sig. in_sigset sig ?d) [1..31]")
    case None
    have "\<not> bit ?d n" if "n \<in> {1..31}" for n
    proof -
      have "int n \<in> set [1..31]" using that by auto
      then have "\<not> in_sigset (int n) ?d" using None by (auto simp: find_None_iff)
      then show ?thesis using that by (simp add: in_sigset_bit)
    qed
    then show thesis using none [OF tb(1)] tb(2) None by simp
  next
    case (Some x)
    then have x: "sig = x" using tb(2) by simp
    from Some obtain i where i: "i < length [1..31::int]" "in_sigset ([1..31] ! i) ?d" "x = [1..31] ! i" "\<forall>j < i. \<not> in_sigset ([1..31] ! j) ?d"
      by (auto simp: find_Some_iff)
    have nth: "[1..31::int] ! j = 1 + int j" if "j \<le> i" for j using that i(1) by (intro nth_upto) simp
    have sx: "sig = 1 + int i" "i \<le> 30" using x i(1,3) nth by simp_all
    have b: "bit ?d (nat sig)" using i(2) sx nth [of i] by (simp add: in_sigset_bit)
    have "\<not> bit ?d n" if "n \<in> {1..<nat sig}" for n
    proof -
      have n: "n - 1 < i" "[1..31::int] ! (n - 1) = int n" using that sx nth [of "n - 1"] by auto
      with i(4) have "\<not> in_sigset (int n) ?d" by metis
      moreover have "n < 64" using that sx by auto
      ultimately show ?thesis by (simp add: in_sigset_bit)
    qed
    then show thesis using some [OF tb(1) _ _ b] sx by simp
  qed
qed

lemma and_not_less:
  fixes x :: u64
  assumes b: "bit x n"
  shows "unat (x AND NOT (push_bit n 1)) < unat x"
proof -
  have n: "n < 64" using bit_imp_le_length [OF b] by simp
  have "unat (x AND NOT (push_bit n 1)) \<le> unat x"
    using word_and_le2 [of x "NOT (push_bit n 1)"] by (simp only: word_le_nat_alt)
  moreover have "x AND NOT (push_bit n 1) \<noteq> x"
  proof
    assume "x AND NOT (push_bit n 1) = x"
    then have "bit (x AND NOT (push_bit n 1)) n" using b by simp
    then show False using n by (simp add: bit_simps)
  qed
  ultimately show ?thesis by (metis nat_less_le word_unat_eq_iff)
qed

lemma deliver_decreases:
  assumes "get_next_signal_locked t w = Some sig" "sig \<noteq> 0" "signal_deliver_one t sig w = Some (Inr w')"
  shows "unat (t_pending (stask t w')) < unat (t_pending (stask t w))"
  using assms(1)
proof (cases rule: next_signal_cases)
  case (some tb)
  with deliverable_bits [of "stask t w" "actions tb" "nat sig"] have "bit (t_pending (stask t w)) (nat sig)" by simp
  from and_not_less [OF this] deliver_one_pending [OF assms(3)] show ?thesis by (simp add: sigbit_def)
qed (use assms(2) in simp)

text \<open>The loop: every round takes a signal out of the pending set.\<close>

function signal_deliver_pending :: "nat \<Rightarrow> sigw \<Rightarrow> (int + sigw) option" where
  "signal_deliver_pending t w = (case get_next_signal_locked t w of
     None \<Rightarrow> None
   | Some sig \<Rightarrow>
       if sig = 0 then Some (Inr w)
       else (case signal_deliver_one t sig w of
           None \<Rightarrow> None
         | Some (Inl status) \<Rightarrow> Some (Inl status)
         | Some (Inr w') \<Rightarrow> if t_in_handler (stask t w') then Some (Inr w') else signal_deliver_pending t w'))"
  by pat_completeness auto
termination
  by (relation "measure (\<lambda>(t, w). unat (t_pending (stask t w)))") (auto intro: deliver_decreases)

declare signal_deliver_pending.simps [simp del]

definition signal_do_sigreturn :: "nat \<Rightarrow> sigw \<Rightarrow> (errno + u64) \<times> sigw" where
  "signal_do_sigreturn t w = (let sp = t_sigframe_sp (stask t w) in
     if sp = 0 then (Inl EINVAL, w)
     else if \<not> user_access_ok sp SIGFRAME_SIZE then (Inl EFAULT, w)
     else (let tf = load_tf sp (umem w) in
       (Inr (tf ! TF_A0),
        upd_stask t (\<lambda>p. p\<lparr>t_frame := tf, t_blocked := load_blocked sp (umem w), t_in_handler := False, t_sigframe_sp := 0\<rparr>) w)))"

definition signal_do_sigaction :: "nat \<Rightarrow> int \<Rightarrow> sigaction option \<Rightarrow> sigw \<Rightarrow> ((errno + sigaction) \<times> sigw) option" where
  "signal_do_sigaction t sig act w =
     (if \<not> sig_valid sig then Some (Inl EINVAL, w)
      else if sig = SIGKILL \<or> sig = SIGSTOP then Some (Inl EINVAL, w)
      else do {
        tb \<leftarrow> table_of t w;
        oact \<leftarrow> nth_opt (actions tb) (nat sig);
        w \<leftarrow> (case act of None \<Rightarrow> Some w | Some a \<Rightarrow> set_table t (tb\<lparr>actions := (actions tb)[nat sig := a]\<rparr>) w);
        Some (Inr oact, w) })"

text \<open>The result, what \<open>*oldset\<close> receives (also when \<open>how\<close> is refused), and the state.\<close>

definition signal_do_sigprocmask :: "nat \<Rightarrow> int \<Rightarrow> u64 option \<Rightarrow> sigw \<Rightarrow> (errno + unit) \<times> u64 \<times> sigw" where
  "signal_do_sigprocmask t how uset w = (let old = t_blocked (stask t w) in
     case uset of
       None \<Rightarrow> (Inr (), old, w)
     | Some m \<Rightarrow>
         (let new = (if how = SIG_BLOCK then Some (old OR m) else if how = SIG_UNBLOCK then Some (old AND NOT m)
            else if how = SIG_SETMASK then Some m else None) in
          case new of
            None \<Rightarrow> (Inl EINVAL, old, w)
          | Some nb \<Rightarrow> (Inr (), old, upd_stask t (\<lambda>p. p\<lparr>t_blocked := nb AND NOT (sigbit SIGKILL) AND NOT (sigbit SIGSTOP)\<rparr>) w)))"

text \<open>The flags say whether the user pointer is NULL and whether the copy to it faults.\<close>

definition sys_sigpending :: "nat \<Rightarrow> bool \<Rightarrow> bool \<Rightarrow> sigw \<Rightarrow> errno + u64" where
  "sys_sigpending t null faults w =
     (if null then Inl EFAULT
      else (let s = t_pending (stask t w) AND t_blocked (stask t w) in if faults then Inl EFAULT else Inr s))"

section \<open>Delivery\<close>

lemma stask_upd [simp]: "stask u (upd_stask t f w) = (if u = t then f (stask t w) else stask u w)"
  by (simp add: stask_def upd_stask_def)

lemma upd_stask_simps [simp]: "tables (upd_stask t f w) = tables w" "umem (upd_stask t f w) = umem w"
  by (simp_all add: upd_stask_def)

lemma stask_umem [simp]: "stask u (w\<lparr>umem := m\<rparr>) = stask u w" "stask u (w\<lparr>tables := tb\<rparr>) = stask u w"
  by (simp_all add: stask_def)

definition ignored :: "sigaction \<Rightarrow> int \<Rightarrow> bool" where
  "ignored act sig \<longleftrightarrow> sig \<noteq> SIGKILL \<and> (sa_handler act = SIG_IGN \<or> sa_handler act = SIG_DFL \<and> \<not> sig_default_terminate sig)"

definition fatal :: "sigaction \<Rightarrow> int \<Rightarrow> bool" where
  "fatal act sig \<longleftrightarrow> sig = SIGKILL \<or> sa_handler act = SIG_DFL \<and> sig_default_terminate sig"

text \<open>The task when its handler starts.\<close>

definition handler_task :: "sigaction \<Rightarrow> int \<Rightarrow> task \<Rightarrow> task" where
  "handler_task act sig p = (let sp = sigframe_base (t_frame p ! TF_SP) in
     p\<lparr>t_sigframe_sp := sp,
       t_blocked := (if sa_flags act AND SA_NODEFER = 0 then t_blocked p OR sigbit sig else t_blocked p) OR sa_mask act,
       t_pending := t_pending p AND NOT (sigbit sig), t_in_handler := True,
       t_frame := (t_frame p)[TF_SP := sp, TF_SEPC := sa_handler act, TF_A0 := word_of_int sig]\<rparr>)"

lemma upd_stask_comp: "upd_stask t f (upd_stask t g w) = upd_stask t (\<lambda>p. f (g p)) w"
  by (simp add: upd_stask_def upd_task_def)

lemma upd_stask_cong: "f (stask t w) = g (stask t w) \<Longrightarrow> upd_stask t f w = upd_stask t g w"
  by (simp add: upd_stask_def upd_task_def stask_def)

lemma setup_frame_eq:
  assumes act: "action_of t sig w = Some act" and len: "length (t_frame (stask t w)) = TF_WORDS"
  defines "sp \<equiv> sigframe_base (t_frame (stask t w) ! TF_SP)"
  shows "setup_signal_frame_locked t sig (sa_handler act) w = Some (
     if user_access_ok sp SIGFRAME_SIZE then
       (True, upd_stask t (handler_task act sig)
         (w\<lparr>umem := store_sigframe sp (t_frame (stask t w)) (t_blocked (stask t w)) sig (umem w)\<rparr>))
     else (False, w))"
proof -
  let ?w = "w\<lparr>umem := store_sigframe sp (t_frame (stask t w)) (t_blocked (stask t w)) sig (umem w)\<rparr>"
  have "upd_stask t (\<lambda>p. p\<lparr>t_in_handler := True, t_frame := (t_frame p)[TF_SP := sp, TF_SEPC := sa_handler act, TF_A0 := word_of_int sig]\<rparr>)
      (clear_pending_locked t sig (upd_stask t (\<lambda>p. p\<lparr>t_blocked := t_blocked p OR sa_mask act\<rparr>)
        (if sa_flags act AND SA_NODEFER = 0
         then upd_stask t (\<lambda>p. p\<lparr>t_blocked := t_blocked p OR sigbit sig\<rparr>) (upd_stask t (\<lambda>p. p\<lparr>t_sigframe_sp := sp\<rparr>) ?w)
         else upd_stask t (\<lambda>p. p\<lparr>t_sigframe_sp := sp\<rparr>) ?w)))
    = upd_stask t (handler_task act sig) ?w"
    by (cases "sa_flags act AND SA_NODEFER = 0")
      (simp_all add: clear_pending_locked_def upd_stask_comp, (rule upd_stask_cong; simp add: handler_task_def Let_def sp_def)+)
  then show ?thesis using act len by (simp add: setup_signal_frame_locked_def sp_def [symmetric] Let_def)
qed

lemma deliver_one_eq:
  assumes act: "action_of t sig w = Some act" and len: "length (t_frame (stask t w)) = TF_WORDS"
  shows "signal_deliver_one t sig w = Some (
     if fatal act sig then Inl (exit_signal_status sig)
     else if ignored act sig then Inr (clear_pending_locked t sig w)
     else if user_access_ok (sigframe_base (t_frame (stask t w) ! TF_SP)) SIGFRAME_SIZE then
       Inr (upd_stask t (handler_task act sig)
         (w\<lparr>umem := store_sigframe (sigframe_base (t_frame (stask t w) ! TF_SP)) (t_frame (stask t w)) (t_blocked (stask t w)) sig (umem w)\<rparr>))
     else Inl (exit_signal_status sig))"
proof (cases "fatal act sig \<or> ignored act sig")
  case True
  then show ?thesis using act by (auto simp: signal_deliver_one_def fatal_def ignored_def Let_def)
next
  case False
  then have "sig \<noteq> SIGKILL" "sa_handler act \<noteq> SIG_IGN" "sa_handler act \<noteq> SIG_DFL" by (auto simp: fatal_def ignored_def)
  with False setup_frame_eq [OF act len] act show ?thesis by (simp add: signal_deliver_one_def Let_def)
qed

end
