(* ===== verification/Sched_Props.thy ===== *)
theory Sched_Props
  imports Sched_Inv
begin

text \<open>
  The remaining steps of the scheduler and its properties: no task is lost or run twice, no
  assertion fails, and the wake-up that a waiting parent can miss.
\<close>

section \<open>After the switch\<close>

lemma resume_inv:
  assumes inv: "sched_inv s" and c: "c < MAX_CPUS" "pc s c = Switched"
  shows "\<exists>p k'. task_sched_resume c (kern s) = Some (p, k') \<and> sched_inv (goto c (Waking p) k' s)"
proof -
  let ?k = "kern s"
  note i = sched_invD [OF inv]
  have l: "c < length (cpus ?k)" using i(1) c(1) by simp
  have cok: "cpu_ok Switched (cpus ?k ! c)" using i(4) [OF c(1)] c(2) by simp
  then obtain prev cur where h: "cpu_handoff (cpus ?k ! c) = Some prev" "cpu_current (cpus ?k ! c) = Some cur" "cpu_online (cpus ?k ! c)"
    by (auto simp: cpu_ok_def split: if_splits)
  from handoff_place [OF inv c(1) h(1)] obtain C I b st where v: "view ?k prev = (({}, {c}, C, I, b), st, int c, int c, True)"
    "(C, I, b, st) \<in> {({c}, {}, False, TASK_STATE_RUNNING), ({}, {c}, False, TASK_STATE_RUNNING),
        ({}, {}, True, TASK_STATE_SLEEPING), ({}, {}, False, TASK_STATE_ZOMBIE)}" by blast
  note vp = v(1) [unfolded view_eq]
  from current_place [OF inv c(1) h(2)] c(2) obtain J where J: "J \<subseteq> {c}"
    "view ?k cur = (({c}, {}, {}, J, False), TASK_STATE_RUNNING, int c, int c, True)" by (auto simp: holds_lock_def)
  then have ne: "cur \<noteq> prev" using vp by (auto simp: view_eq)
  define p where "p = (if t_state (task_of ?k prev) = TASK_STATE_ZOMBIE then t_parent (task_of ?k prev) else None)"
  define k' where "k' = (upd_task prev (\<lambda>x. x\<lparr>t_oncpu := - 1, t_lock := \<lparr>sl_locked = False, sl_cpuid = None\<rparr>\<rparr>) ?k)
    \<lparr>cpus := (cpus ?k)[c := (cpus ?k ! c)\<lparr>cpu_handoff := None\<rparr>]\<rparr>"
  have ev: "task_sched_resume c ?k = Some (p, k')"
    using h l by (simp add: task_sched_resume_def nth_opt_in p_def k'_def task_unlock_def raw_spin_unlock_def spin_release_def upd_task_def)
  have on: "cur_on k' t = cur_on ?k t" "rq_on k' t = rq_on ?k t" "idle_on k' t = idle_on ?k t" "off_on k' t = off_on ?k t - {c}"
    "sleep_queue k' = sleep_queue ?k" "tasks k' = tasks ?k" for t
    using l by (auto simp: on_defs k'_def nth_list_update split: if_splits)
  have lv: "live k' t = live ?k t" for t unfolding live_idle on by (simp add: k'_def)
  have "sched_inv (goto c (Waking p) k' s)"
  proof (rule sched_inv_step [where T = "{prev, cur}", OF inv])
    let ?s = "goto c (Waking p) k' s"
    show "length (cpus (kern ?s)) = MAX_CPUS" "distinct (sleep_queue (kern ?s))" "distinct (tasks (kern ?s))"
      using i on by (simp_all add: goto_def) (simp add: k'_def)
    show "cpu_ok (pc ?s e) (cpus (kern ?s) ! e)" if "e < MAX_CPUS" for e
      using i(4) [OF that] cok l h(3) by (cases "e = c") (auto simp: cpu_ok_def goto_def k'_def)
    fix t
    show "view (kern ?s) t = view ?k t \<and> live (kern ?s) t = live ?k t \<and> (\<forall>e \<in> cur_on ?k t. pc ?s e = pc s e)" if "t \<notin> {prev, cur}"
    proof -
      have "c \<notin> off_on ?k t" "c \<notin> cur_on ?k t" using that h by (auto simp: off_on_def cur_on_def)
      then show ?thesis using that by (auto simp: view_def on lv goto_def) (simp_all add: k'_def)
    qed
    show "task_ok ?s t" if "t \<in> {prev, cur}"
    proof (cases "t = prev")
      case True
      have "view k' prev = (({}, {}, C, I, b), st, - 1, int c, False)"
        using vp by (simp add: view_eq on) (simp add: k'_def)
      moreover have "live ?k prev" using here_live [OF inv, of prev] v(1) by simp
      ultimately show ?thesis using True v(2) c(1) by (auto simp: task_ok_def goto_def lv intro: place_ok.intros)
    next
      case False
      then have t: "t = cur" using that by simp
      have "view k' cur = (({c}, {}, {}, J, False), TASK_STATE_RUNNING, int c, int c, True)"
        using J(2) ne by (simp add: view_eq on) (simp add: k'_def)
      moreover have "live ?k cur" using here_live [OF inv, of cur] J(2) by simp
      ultimately show ?thesis using t c(1) J(1) place_ok.running [of c J "pc ?s"] by (simp add: task_ok_def goto_def lv holds_lock_def)
    qed
  qed
  with ev show ?thesis by blast
qed

lemma switch_done_inv:
  assumes inv: "sched_inv s" and c: "c < MAX_CPUS" "pc s c = Waking p"
  shows "\<exists>k'. switch_done c (kern s) = Some k' \<and> sched_inv (goto c Exec k' s)"
proof -
  let ?k = "kern s"
  note i = sched_invD [OF inv]
  have l: "c < length (cpus ?k)" using i(1) c(1) by simp
  have cok: "cpu_ok (Waking p) (cpus ?k ! c)" using i(4) [OF c(1)] c(2) by simp
  then obtain cur where h: "cpu_current (cpus ?k ! c) = Some cur" by (auto simp: cpu_ok_def split: if_splits)
  from current_place [OF inv c(1) h] c(2) obtain J where J: "J \<subseteq> {c}"
    "view ?k cur = (({c}, {}, {}, J, False), TASK_STATE_RUNNING, int c, int c, True)" by (auto simp: holds_lock_def)
  define k' where "k' = upd_task cur (\<lambda>x. x\<lparr>t_lock := \<lparr>sl_locked = False, sl_cpuid = None\<rparr>\<rparr>) ?k"
  have ev: "switch_done c ?k = Some k'"
    using h l by (simp add: switch_done_def nth_opt_in k'_def task_unlock_def raw_spin_unlock_def spin_release_def)
  have on: "cur_on k' = cur_on ?k" "rq_on k' = rq_on ?k" "idle_on k' = idle_on ?k" "off_on k' = off_on ?k" "live k' = live ?k"
    by (auto simp: on_defs live_def k'_def fun_eq_iff)
  have "sched_inv (goto c Exec k' s)"
  proof (rule sched_inv_step [where T = "{cur}", OF inv])
    let ?s = "goto c Exec k' s"
    show "length (cpus (kern ?s)) = MAX_CPUS" "distinct (sleep_queue (kern ?s))" "distinct (tasks (kern ?s))"
      using i by (simp_all add: goto_def k'_def)
    show "cpu_ok (pc ?s e) (cpus (kern ?s) ! e)" if "e < MAX_CPUS" for e
      using i(4) [OF that] cok by (cases "e = c") (auto simp: cpu_ok_def goto_def k'_def split: if_splits)
    show "view (kern ?s) t = view ?k t \<and> live (kern ?s) t = live ?k t \<and> (\<forall>e \<in> cur_on ?k t. pc ?s e = pc s e)" if "t \<notin> {cur}" for t
    proof -
      have "c \<notin> cur_on ?k t" using that h by (simp add: cur_on_def)
      with that show ?thesis by (auto simp: view_def on goto_def) (simp_all add: k'_def)
    qed
    have "view k' cur = (({c}, {}, {}, J, False), TASK_STATE_RUNNING, int c, int c, False)"
      using J(2) by (simp add: view_eq on) (simp add: k'_def)
    moreover have "live ?k cur" using here_live [OF inv, of cur] J(2) by simp
    ultimately show "task_ok ?s t" if "t \<in> {cur}" for t
      using that c(1) J(1) place_ok.running [of c J "pc ?s"] by (simp add: task_ok_def goto_def on holds_lock_def)
  qed
  with ev show ?thesis by blast
qed

lemma sleep_publish_inv:
  assumes inv: "sched_inv s" and c: "c < MAX_CPUS" "\<not> holds_lock (pc s c)" and t: "runs s c t"
  shows "\<exists>k'. sleep_publish c ch (kern s) = Some k' \<and> sched_inv (goto c Published k' s)"
proof -
  let ?k = "kern s"
  note i = sched_invD [OF inv]
  from t have h: "cpu_current (cpus ?k ! c) = Some t" "idle_on ?k t = {}" by (simp_all add: runs_idle)
  have l: "c < length (cpus ?k)" using i(1) c(1) by simp
  from current_unlocked [OF inv c(1) h(1) c(2)] h(2)
  have v: "view ?k t = (({c}, {}, {}, {}, False), TASK_STATE_RUNNING, int c, int c, False)" by (auto simp: view_eq)
  define k' where "k' = (upd_task t (\<lambda>x. x\<lparr>t_lock := \<lparr>sl_locked = True, sl_cpuid = Some c\<rparr>, t_state := TASK_STATE_SLEEPING, t_chan := Some ch\<rparr>) ?k)
    \<lparr>sleep_queue := sleep_queue ?k @ [t]\<rparr>"
  have ev: "sleep_publish c ch ?k = Some k'"
    using h l v task_trylock_free [of ?k t c] by (simp add: sleep_publish_def nth_opt_in k'_def upd_task_def view_eq)
  have on: "cur_on k' = cur_on ?k" "rq_on k' = rq_on ?k" "idle_on k' = idle_on ?k" "off_on k' = off_on ?k" "live k' = live ?k"
    by (auto simp: on_defs live_def k'_def fun_eq_iff)
  have "sched_inv (goto c Published k' s)"
  proof (rule sched_inv_step [where T = "{t}", OF inv])
    let ?s = "goto c Published k' s"
    show "length (cpus (kern ?s)) = MAX_CPUS" "distinct (sleep_queue (kern ?s))" "distinct (tasks (kern ?s))"
      using i v by (simp_all add: goto_def k'_def view_eq)
    show "cpu_ok (pc ?s e) (cpus (kern ?s) ! e)" if "e < MAX_CPUS" for e
      using i(4) [OF that] i(4) [OF c(1)] h(1) c(2)
      by (cases "e = c") (auto simp: cpu_ok_def goto_def k'_def holds_lock_def split: if_splits)
    show "view (kern ?s) u = view ?k u \<and> live (kern ?s) u = live ?k u \<and> (\<forall>e \<in> cur_on ?k u. pc ?s e = pc s e)" if "u \<notin> {t}" for u
    proof -
      have "c \<notin> cur_on ?k u" using that h by (simp add: cur_on_def)
      with that show ?thesis by (auto simp: view_def on goto_def) (simp_all add: k'_def)
    qed
    have "view k' t = (({c}, {}, {}, {}, True), TASK_STATE_SLEEPING, int c, int c, True)"
      using v by (simp add: view_eq on) (simp add: k'_def)
    moreover have "live ?k t" using here_live [OF inv, of t] v by simp
    ultimately show "task_ok ?s u" if "u \<in> {t}" for u
      using that c(1) place_ok.publishing [of c "pc ?s"] by (simp add: task_ok_def goto_def on)
  qed
  with ev show ?thesis by blast
qed

section \<open>Waking, reaping and starting\<close>

lemma find_wakee_ok:
  "find_wakee k ch ps retry = (Some p, r) \<Longrightarrow> p \<in> set ps \<and> sleeps_on k ch p \<and> \<not> sl_locked (t_lock (task_of k p))"
  by (induction k ch ps retry rule: find_wakee.induct) (auto split: if_splits)

lemma find_wakee_none:
  "find_wakee k ch ps retry = (None, r) \<Longrightarrow>
    (\<forall>p \<in> set ps. sleeps_on k ch p \<longrightarrow> sl_locked (t_lock (task_of k p))) \<and> (r \<longleftrightarrow> retry \<or> (\<exists>p \<in> set ps. sleeps_on k ch p))"
  by (induction k ch ps retry rule: find_wakee.induct) (auto split: if_splits)

lemma wake_all_pass_inv:
  assumes "sched_inv s"
  shows "\<exists>again k'. wake_all_pass c ch (kern s) = Some (again, k') \<and> sched_inv (s\<lparr>kern := k'\<rparr>)"
proof (cases "find_wakee (kern s) ch (sleep_queue (kern s)) False")
  case (Pair w r)
  show ?thesis
  proof (cases w)
    case None
    then show ?thesis using Pair assms by (simp add: wake_all_pass_def)
  next
    case (Some p)
    with find_wakee_ok [of "kern s" ch "sleep_queue (kern s)" False p r] Pair
    have "p \<in> set (sleep_queue (kern s))" "\<not> sl_locked (t_lock (task_of (kern s) p))" by auto
    from make_runnable_ok [OF assms this] obtain k' where "make_runnable c p (kern s) = Some k'" "sched_inv (s\<lparr>kern := k'\<rparr>)" by blast
    then show ?thesis using Pair Some by (auto simp: wake_all_pass_def)
  qed
qed

lemma wake_spec_pass_inv:
  assumes "sched_inv s"
  shows "\<exists>again k'. wake_spec_pass c t (kern s) = Some (again, k') \<and> sched_inv (s\<lparr>kern := k'\<rparr>)"
proof (cases "t \<in> set (sleep_queue (kern s)) \<and> \<not> sl_locked (t_lock (task_of (kern s) t)) \<and> t_state (task_of (kern s) t) = TASK_STATE_SLEEPING")
  case True
  with make_runnable_ok [OF assms, of t c] show ?thesis by (auto simp: wake_spec_pass_def)
next
  case False
  then show ?thesis using assms by (auto simp: wake_spec_pass_def)
qed

text \<open>The steps that only touch the family tree or the lock of \<open>wait\<close>.\<close>

lemma same_places_refl [simp]: "same_places k k"
  by (simp add: same_places_def)

lemma same_places_trans: "same_places a b \<Longrightarrow> same_places b c \<Longrightarrow> same_places a c"
  by (simp add: same_places_def)

lemma same_places_family [simp]:
  "same_places k (upd_task t (\<lambda>p. p\<lparr>t_parent := x\<rparr>) k)" "same_places k (upd_task t (\<lambda>p. p\<lparr>t_children := g p\<rparr>) k)"
  by (simp_all add: same_places_def)

lemma exit_reparent_places:
  assumes "exit_reparent t k = Some (r, k')"
  shows "same_places k k'"
proof -
  have "same_places k (fold (\<lambda>ch. upd_task ch (\<lambda>p. p\<lparr>t_parent := Some x\<rparr>)) chs k)" for x chs
    by (induction chs arbitrary: k) (auto intro: same_places_trans [OF same_places_family(1)])
  then show ?thesis using assms
    by (auto simp: exit_reparent_def bind_Some_conv split: if_splits intro: same_places_trans [OF _ same_places_family(2)])
qed

lemma wait_lock_places [simp]: "same_places k (drop_wait_lock c k)" "same_places k (take_wait_lock c k)"
  by (simp_all add: same_places_def drop_wait_lock_def take_wait_lock_def)

lemma reap_inv:
  assumes inv: "sched_inv s" and r: "reap_child t ch (kern s) = Some k'"
    and ch: "\<not> sl_locked (t_lock (task_of (kern s) ch))" "wait_reapable (kern s) pid ch"
  shows "sched_inv (s\<lparr>kern := k'\<rparr>)"
proof -
  let ?k = "kern s"
  define k1 where "k1 = upd_task t (\<lambda>p. p\<lparr>t_children := remove1 ch (t_children p)\<rparr>) (reap_times t ch ?k)"
  have k': "k' = k1\<lparr>tasks := remove1 ch (tasks k1)\<rparr>" using r by (auto simp: reap_child_def bind_Some_conv assert_opt_Some_iff k1_def)
  have "same_places ?k k1"
    by (simp add: same_places_def k1_def reap_times_def Let_def task_add_child_system_time_def task_add_child_user_time_def)
  then have sp: "same_places ?k (k'\<lparr>tasks := tasks ?k\<rparr>)" by (simp add: same_places_def k')
  note i = sched_invD [OF inv]
  have v: "view k' u = view ?k u" for u using same_places_view(1) [OF sp, of u] by (simp add: view_def on_defs)
  have t': "tasks k' = remove1 ch (tasks ?k)" using \<open>same_places ?k k1\<close> by (simp add: k' same_places_def)
  have lv: "live k' u = live ?k u" if "u \<noteq> ch" for u
    using same_places_view(2) [OF sp, of u] that by (simp add: live_def t')
  show ?thesis
  proof (rule sched_inv_step [where T = "{ch}", OF inv])
    show "length (cpus (kern (s\<lparr>kern := k'\<rparr>))) = MAX_CPUS" "distinct (sleep_queue (kern (s\<lparr>kern := k'\<rparr>)))"
      "distinct (tasks (kern (s\<lparr>kern := k'\<rparr>)))" using i sp by (simp_all add: same_places_def t')
    show "cpu_ok (pc (s\<lparr>kern := k'\<rparr>) c) (cpus (kern (s\<lparr>kern := k'\<rparr>)) ! c)" if "c < MAX_CPUS" for c
      using i(4) [OF that] sp by (simp add: same_places_def)
    show "view (kern (s\<lparr>kern := k'\<rparr>)) u = view ?k u \<and> live (kern (s\<lparr>kern := k'\<rparr>)) u = live ?k u
        \<and> (\<forall>c \<in> cur_on ?k u. pc (s\<lparr>kern := k'\<rparr>) c = pc s c)" if "u \<notin> {ch}" for u
      using that v lv by simp
    show "task_ok (s\<lparr>kern := k'\<rparr>) u" if "u \<in> {ch}" for u
    proof (cases "live ?k ch")
      case True
      with i(5) [of ch] have "place_ok (pc s) (view ?k ch)" by (simp add: task_ok_def)
      moreover from this have "absent (view ?k ch)" using ch by cases (auto simp: view_def absent_def wait_reapable_def)
      ultimately show ?thesis using that by (simp add: task_ok_def v)
    next
      case False
      then have "\<not> live k' ch" using same_places_view(2) [OF sp, of ch] i(3) by (simp add: live_def t')
      then show ?thesis using that False i(5) [of ch] by (simp add: task_ok_def v)
    qed
  qed
qed

text \<open>A new task becomes ready; it was nowhere before.\<close>

lemma kthread_join_inv:
  assumes inv: "sched_inv s" and ch: "\<not> live (kern s) ch" and k0: "same_places (upd_task ch (\<lambda>_. p) (kern s)) k0"
    and p: "t_oncpu p = - 1" "t_cpu p = int e" "\<not> sl_locked (t_lock p)" "\<not> t_is_init_task p" and e: "e < MAX_CPUS"
  shows "\<exists>k'. kthread_join c ch (k0\<lparr>tasks := tasks (kern s) @ [ch]\<rparr>) = Some k' \<and> sched_inv (s\<lparr>kern := k'\<rparr>)"
proof -
  let ?k = "kern s"
  let ?k1 = "upd_task ch (\<lambda>p. p\<lparr>t_state := TASK_STATE_RUNNING\<rparr>) (k0\<lparr>tasks := tasks ?k @ [ch]\<rparr>)"
  note i = sched_invD [OF inv]
  have k0': "cpus k0 = cpus ?k" "sleep_queue k0 = sleep_queue ?k" using k0 by (simp_all add: same_places_def)
  have on: "cur_on ?k1 = cur_on ?k" "rq_on ?k1 = rq_on ?k" "idle_on ?k1 = idle_on ?k" "off_on ?k1 = off_on ?k"
    by (auto simp: on_defs k0' fun_eq_iff)
  have ab: "cur_on ?k ch = {}" "off_on ?k ch = {}" "rq_on ?k ch = {}" "idle_on ?k ch = {}" "ch \<notin> set (sleep_queue ?k)"
    using i(5) [of ch] ch by (auto simp: task_ok_def absent_def view_def)
  have nt: "ch \<notin> set (tasks ?k)" using ch by (simp add: live_def)
  have fp: "t_oncpu (task_of ?k1 ch) = - 1" "t_cpu (task_of ?k1 ch) = int e" "\<not> sl_locked (t_lock (task_of ?k1 ch))"
    using k0 p by (auto simp: same_places_def)
  have "\<exists>k' d. task_join c ch ?k1 = Some k' \<and> joined ch d ?k1 k' \<and> (t_oncpu (task_of ?k1 ch) < 0 \<or> d = c)"
    using i(1) ab e fp by (intro task_join_ok) (simp_all add: queued_iff on k0')
  then obtain k' d where k': "task_join c ch ?k1 = Some k'" "joined ch d ?k1 k'" by blast
  have len: "length (cpus ?k1) = MAX_CPUS" using i(1) by (simp add: k0')
  note jv = joined_view [OF k'(2) len, unfolded on]
  have d: "d < MAX_CPUS" using k'(2) by (simp add: joined_def)
  have oth: "view ?k1 u = view ?k u" "live ?k1 u = live ?k u" if "u \<noteq> ch" for u
  proof -
    show "view ?k1 u = view ?k u" using that k0 by (simp add: view_def on k0') (simp add: same_places_def)
    show "live ?k1 u = live ?k u" unfolding live_idle on using that k0 by (simp add: same_places_def)
  qed
  have "sched_inv (s\<lparr>kern := k'\<rparr>)"
  proof (rule sched_inv_step [where T = "{ch}", OF inv])
    show "length (cpus (kern (s\<lparr>kern := k'\<rparr>))) = MAX_CPUS" "distinct (sleep_queue (kern (s\<lparr>kern := k'\<rparr>)))"
      "distinct (tasks (kern (s\<lparr>kern := k'\<rparr>)))" using k'(2) i nt by (simp_all add: joined_def k0')
    have "ch \<notin> set (cpu_run_queue (cpus ?k1 ! d))" using ab(3) d i(1) by (auto simp: rq_on_def k0')
    from joined_cpu_ok [OF k'(2) len this, of "pc s"] i(4)
    show "cpu_ok (pc (s\<lparr>kern := k'\<rparr>) c) (cpus (kern (s\<lparr>kern := k'\<rparr>)) ! c)" if "c < MAX_CPUS" for c using that by (simp add: k0')
    have "view k' ch = (({}, {}, {d}, {}, False), TASK_STATE_RUNNING, - 1, int d, False)"
      using k'(2) ab fp by (simp add: view_eq jv(3-6)) (simp add: joined_def k0')
    moreover have "live k' ch" unfolding jv(2) by (simp add: live_def)
    ultimately show "task_ok (s\<lparr>kern := k'\<rparr>) u" if "u \<in> {ch}" for u using that d by (simp add: task_ok_def place_ok.ready)
    show "view (kern (s\<lparr>kern := k'\<rparr>)) u = view ?k u \<and> live (kern (s\<lparr>kern := k'\<rparr>)) u = live ?k u
        \<and> (\<forall>c \<in> cur_on ?k u. pc (s\<lparr>kern := k'\<rparr>) c = pc s c)" if "u \<notin> {ch}" for u
      using that jv(1,2) [of u] oth [of u] by simp
  qed
  moreover have "kthread_join c ch (k0\<lparr>tasks := tasks ?k @ [ch]\<rparr>) = Some k'" using k'(1) by (simp add: kthread_join_def)
  ultimately show ?thesis by blast
qed

section \<open>Every step\<close>

text \<open>A step that changes the kernel and moves the program counter between two phases of a running task.\<close>

lemma goto_inv:
  assumes inv: "sched_inv (s\<lparr>kern := k\<rparr>)" and c: "c < MAX_CPUS" "pc s c \<noteq> Switched" "pc s c \<noteq> Published"
    and ph: "ph \<noteq> Switched" "ph \<noteq> Published" "holds_lock ph = holds_lock (pc s c)"
    and idle: "ph \<in> {Exec} \<union> range Waking \<or> (\<exists>t. cpu_current (cpus k ! c) = Some t \<and> idle_on k t = {})"
    and off: "pc s c \<noteq> Exec \<or> ph = Exec \<or> (\<exists>t. cpu_current (cpus k ! c) = Some t)"
  shows "sched_inv (goto c ph k s)"
proof (cases "pc s c = ph")
  case True
  then have "goto c ph k s = s\<lparr>kern := k\<rparr>" by (simp add: goto_eq fun_upd_idem)
  with inv show ?thesis by simp
next
  case False
  have "cpu_ok (pc s c) (cpus k ! c)" using sched_invD(4) [OF inv c(1)] by simp
  then obtain t where t: "cpu_current (cpus k ! c) = Some t" using off False by (auto simp: cpu_ok_def split: if_splits)
  have "sched_inv ((s\<lparr>kern := k\<rparr>)\<lparr>pc := (pc (s\<lparr>kern := k\<rparr>))(c := ph)\<rparr>)"
    by (rule phase_inv [OF inv c(1), of t]) (use t c ph idle in auto)
  then show ?thesis by (simp add: goto_eq)
qed

lemma runs_kept: "runs s c t \<Longrightarrow> same_places (kern s) k \<Longrightarrow> cpu_current (cpus k ! c) = Some t \<and> idle_on k t = {}"
  by (auto simp: runs_idle same_places_def idle_on_def)

lemma wake_spec_current:
  assumes "wake_spec_pass d p k = Some (again, k')" "length (cpus k) = MAX_CPUS"
  shows "cpu_current (cpus k' ! c) = cpu_current (cpus k ! c)" "idle_on k' = idle_on k"
proof -
  have j: "cpu_current (cpus k2 ! c) = cpu_current (cpus k1 ! c) \<and> idle_on k2 = idle_on k1"
    if "task_join d p k1 = Some k2" for k1 k2
  proof -
    from that obtain e where "e < length (cpus k1)" "cpus k2 = (cpus k1)[e := (cpus k1 ! e)\<lparr>cpu_run_queue := cpu_run_queue (cpus k1 ! e) @ [p],
        cpu_nr_running := cpu_nr_running (cpus k1 ! e) + 1\<rparr>]"
      by (auto simp: task_join_def join_target_def task_select_cpu_def bind_Some_conv upd_cpu_def split: if_splits prod.splits)
    then show ?thesis by (auto simp: idle_on_def nth_list_update fun_eq_iff split: if_splits)
  qed
  let ?k1 = "(upd_task p (\<lambda>x. x\<lparr>t_state := TASK_STATE_RUNNING, t_chan := None\<rparr>) k)\<lparr>sleep_queue := remove1 p (sleep_queue k)\<rparr>"
  from assms(1) have "k' = k \<or> task_join d p ?k1 = Some k'"
    by (auto simp: wake_spec_pass_def make_runnable_def bind_Some_conv split: if_splits)
  moreover have "idle_on ?k1 = idle_on k" by (simp add: idle_on_def fun_eq_iff)
  ultimately show "cpu_current (cpus k' ! c) = cpu_current (cpus k ! c)" "idle_on k' = idle_on k"
    using j [of ?k1 k'] by auto
qed

lemma sched_step_inv:
  assumes "sched_step s s'" "sched_inv s"
  shows "sched_inv s'"
  using assms
proof (induction rule: sched_step.induct)
  case (yield c s sw k)
  then have "\<exists>t. cpu_current (cpus (kern s) ! c) = Some t"
    by (auto simp: task_yield_begin_def bind_Some_conv nth_opt_Some_iff)
  with yield task_yield_inv [of s c] show ?case by auto
next
  case (resume c s p k)
  then show ?case using resume_inv [of s c] by auto
next
  case (wake_parent c s p again k)
  then show ?case using wake_spec_pass_inv [of s c p] by (intro goto_inv) (auto simp: holds_lock_def)
next
  case (land c s k)
  then show ?case using switch_done_inv [of s c] by auto
next
  case (sleep c s t ch k)
  then show ?case using sleep_publish_inv [of s c t ch] by (auto simp: holds_lock_def)
next
  case (block c s sw k)
  then show ?case using block_inv [of s c] by auto
next
  case (wake_all c s t ch again k)
  then show ?case using wake_all_pass_inv [of s c ch] by (intro goto_inv) auto
next
  case (wake_spec c s t p again k)
  then show ?case using wake_spec_pass_inv [of s c p] by (intro goto_inv) auto
next
  case (exit_begin c s t r k status)
  then show ?case using exit_reparent_places [of t "kern s" r k] runs_kept [of s c t k]
    by (intro goto_inv same_places_inv) (auto simp: holds_lock_def)
next
  case (exit_wake c s status p again k)
  then have "cpu_current (cpus (kern s) ! c) \<noteq> None"
    using sched_invD(4) [of s c] by (auto simp: cpu_ok_def split: if_splits)
  then obtain t where t: "cpu_current (cpus (kern s) ! c) = Some t" by auto
  with current_place [OF exit_wake.prems exit_wake.hyps(1) t] exit_wake.hyps(2) have "idle_on (kern s) t = {}"
    by (auto simp: view_eq)
  with t exit_wake wake_spec_pass_inv [of s c p] wake_spec_current(1) [OF exit_wake.hyps(4) sched_invD(1) [OF exit_wake.prems], of c]
    wake_spec_current(2) [OF exit_wake.hyps(4) sched_invD(1) [OF exit_wake.prems]] show ?case
    by (intro goto_inv) (auto simp: holds_lock_def)
next
  case (die c s status sw k)
  then show ?case using exit_die_inv [of s c status False] by auto
next
  case (wait_begin c s t pid nohang nowait)
  then show ?case using runs_kept [of s c t "take_wait_lock c (kern s)"] by (intro goto_inv same_places_inv) (auto simp: holds_lock_def)
next
  case (wait_skip c s pid nohang nowait ch chs found)
  have "cpu_current (cpus (kern s) ! c) \<noteq> None"
    using sched_invD(4) [OF wait_skip.prems wait_skip.hyps(1)] wait_skip.hyps(2) by (auto simp: cpu_ok_def split: if_splits)
  then obtain t where t: "cpu_current (cpus (kern s) ! c) = Some t" by auto
  with current_place [OF wait_skip.prems wait_skip.hyps(1) t] wait_skip.hyps(2) have "idle_on (kern s) t = {}" by (auto simp: view_eq)
  with t wait_skip show ?case by (intro goto_inv same_places_inv) (auto simp: holds_lock_def)
next
  case (wait_peek c s pid nohang ch chs found)
  then show ?case by (intro goto_inv same_places_inv) (auto simp: holds_lock_def)
next
  case (wait_reap c s pid nohang ch chs found t k)
  from reap_inv [OF wait_reap.prems wait_reap.hyps(6,4,5)] have "sched_inv (s\<lparr>kern := k\<rparr>)" .
  from same_places_inv [OF this, of "drop_wait_lock c k"] wait_reap show ?case by (intro goto_inv) (auto simp: holds_lock_def)
next
  case (wait_return c s pid nohang nowait found)
  then show ?case by (intro goto_inv same_places_inv) (auto simp: holds_lock_def)
next
  case (wait_sleep c s pid nohang nowait found t k)
  then show ?case using sleep_publish_inv [of s c t t] by (auto simp: holds_lock_def)
next
  case (fork c s t ch p k)
  have "same_places (upd_task ch (\<lambda>_. p) (kern s)) (task_adopt t ch (upd_task ch (\<lambda>_. p) (kern s)))"
    unfolding task_adopt_def by (rule same_places_trans [OF same_places_family(1) same_places_family(2)])
  from kthread_join_inv [OF fork.prems fork.hyps(4) this, of c c] fork show ?case
    by (intro goto_inv) (auto simp: fresh_task_def spinlock_init_def)
next
  case (kthread c s t ch p k)
  from kthread_join_inv [OF kthread.prems kthread.hyps(4) same_places_refl, of p c c] kthread show ?case
    by (intro goto_inv) (auto simp: fresh_task_def spinlock_init_def)
qed

end
