(* ===== verification/Sched_Race.thy ===== *)
theory Sched_Race
  imports Sched_Props
begin

text \<open>
  Properties of the scheduler over all interleavings of the processors, and the run in which
  \<open>task_wait\<close> sleeps although its child can be reaped.
\<close>

section \<open>Machines that stay idle\<close>

definition quiet :: "sys \<Rightarrow> bool" where
  "quiet s \<longleftrightarrow> sched_inv s \<and> (\<forall>c < MAX_CPUS. cpu_run_queue (cpus (kern s) ! c) = [] \<and> pc s c \<in> {Exec, Waking None}
     \<and> cpu_current (cpus (kern s) ! c) = cpu_idle (cpus (kern s) ! c))"

lemma quiet_not_runs: "quiet s \<Longrightarrow> c < MAX_CPUS \<Longrightarrow> \<not> runs s c t"
  by (auto simp: quiet_def runs_def sched_inv_def)

lemma quiet_yield:
  assumes q: "quiet s" and c: "c < MAX_CPUS" "pc s c = Exec" and y: "task_yield_begin c (kern s) = Some (sw, k)"
  shows "quiet (after_sched c sw k s) \<and> (\<forall>t. t_state (task_of k t) = t_state (task_of (kern s) t))"
proof -
  let ?k = "kern s"
  have inv: "sched_inv s" and cq: "cpu_run_queue (cpus ?k ! c) = []" "cpu_current (cpus ?k ! c) = cpu_idle (cpus ?k ! c)"
    using q c by (auto simp: quiet_def)
  from y obtain t where t: "cpu_current (cpus ?k ! c) = Some t" by (auto simp: task_yield_begin_def bind_Some_conv nth_opt_Some_iff)
  from current_unlocked [OF inv c(1) t] c(2) obtain I where
    v: "view ?k t = (({c}, {}, {}, I, False), TASK_STATE_RUNNING, int c, int c, False)" by (auto simp: holds_lock_def)
  let ?k1 = "upd_task t (\<lambda>p. p\<lparr>t_lock := \<lparr>sl_locked = True, sl_cpuid = Some c\<rparr>\<rparr>) ?k"
  have ev: "task_sched c ?k1 = Some (sw, k)"
    using y t v task_trylock_free [of ?k t c] c sched_invD(1) [OF inv] by (simp add: task_yield_begin_def nth_opt_in view_eq)
  have sq: "sched_queue c t ?k1 = []" using cq t by (simp add: sched_queue_def)
  have "cpu_nr_running (cpus ?k ! c) = 0" using sched_invD(4) [OF inv c(1)] cq by (simp add: cpu_ok_def)
  with task_sched_ok [of ?k1 c t t] sq t v c cq sched_invD(1) [OF inv] obtain k' where
    "task_sched c ?k1 = Some (False, k')" "switched c t t [] ?k1 k'" by (auto simp: view_eq)
  then have sw: "sw = False" "switched c t t [] ?k1 k" using ev by auto
  have "sched_inv (after_sched c sw k s)" using task_yield_inv [OF inv c(1) t c(2)] y by auto
  moreover have "cpu_run_queue (cpus k ! e) = [] \<and> cpu_current (cpus k ! e) = cpu_idle (cpus k ! e)" if "e < MAX_CPUS" for e
    using sw(2) q that cq t by (cases "e = c") (auto simp: switched_def quiet_def)
  ultimately show ?thesis using q sw by (auto simp: quiet_def after_sched_def switched_def)
qed

lemma quiet_land:
  assumes q: "quiet s" and c: "c < MAX_CPUS" "pc s c = Waking None" and y: "switch_done c (kern s) = Some k"
  shows "quiet (goto c Exec k s) \<and> (\<forall>t. t_state (task_of k t) = t_state (task_of (kern s) t))"
proof -
  have "sched_inv (goto c Exec k s)" using switch_done_inv [of s c None] q c y by (auto simp: quiet_def)
  moreover from y obtain t l where "k = upd_task t (\<lambda>p. p\<lparr>t_lock := l\<rparr>) (kern s)"
    by (auto simp: switch_done_def task_unlock_def bind_Some_conv)
  ultimately show ?thesis using q by (auto simp: quiet_def goto_def)
qed

lemma quiet_step:
  assumes "sched_step s s'" "quiet s"
  shows "quiet s' \<and> (\<forall>t. t_state (task_of (kern s') t) = t_state (task_of (kern s) t))"
proof -
  have ph: "pc s c \<in> {Exec, Waking None}" if "c < MAX_CPUS" for c using assms(2) that by (simp add: quiet_def)
  from assms(1) show ?thesis
  proof cases
    case (yield c sw k)
    then show ?thesis using quiet_yield [OF assms(2) yield(2-4)] by (simp add: after_sched_def)
  next
    case (land c k)
    then show ?thesis using quiet_land [OF assms(2) land(2-4)] by (simp add: goto_def)
  qed (use ph quiet_not_runs [OF assms(2)] in fastforce)+
qed

lemma quiet_run:
  assumes "sched_step\<^sup>*\<^sup>* s s'" "quiet s"
  shows "t_state (task_of (kern s') t) = t_state (task_of (kern s) t)"
proof -
  from assms have "quiet s' \<and> (\<forall>t. t_state (task_of (kern s') t) = t_state (task_of (kern s) t))"
    by (induction rule: rtranclp_induct) (use quiet_step in auto)
  then show ?thesis by blast
qed

section \<open>Executable runs\<close>

datatype action = Yield nat | Resume nat | Wake_Parent nat | Land nat | Block nat | Exit_Begin nat int | Die nat
  | Wait_Begin nat int bool bool | Wait_Skip nat | Wait_Sleep nat

definition running_task :: "nat \<Rightarrow> sys \<Rightarrow> nat option" where
  "running_task c s = (case nth_opt (cpus (kern s)) c of None \<Rightarrow> None | Some cp \<Rightarrow> (case cpu_current cp of None \<Rightarrow> None
     | Some t \<Rightarrow> if list_ex (\<lambda>cp. cpu_idle cp = Some t) (cpus (kern s)) then None else Some t))"

fun perform :: "action \<Rightarrow> sys \<Rightarrow> sys option" where
  "perform (Yield c) s = (case pc s c of
     Exec \<Rightarrow> do { (sw, k) \<leftarrow> task_yield_begin c (kern s); Some (after_sched c sw k s) } | _ \<Rightarrow> None)"
| "perform (Resume c) s = (case pc s c of
     Switched \<Rightarrow> do { (p, k) \<leftarrow> task_sched_resume c (kern s); Some (goto c (Waking p) k s) } | _ \<Rightarrow> None)"
| "perform (Wake_Parent c) s = (case pc s c of
     Waking (Some p) \<Rightarrow> do { (again, k) \<leftarrow> wake_spec_pass c p (kern s); Some (goto c (Waking (if again then Some p else None)) k s) }
   | _ \<Rightarrow> None)"
| "perform (Land c) s = (case pc s c of
     Waking None \<Rightarrow> do { k \<leftarrow> switch_done c (kern s); Some (goto c Exec k s) } | _ \<Rightarrow> None)"
| "perform (Block c) s = (case pc s c of
     Published \<Rightarrow> do { (sw, k) \<leftarrow> task_sched c (drop_wait_lock c (kern s)); Some (after_sched c sw k s) } | _ \<Rightarrow> None)"
| "perform (Exit_Begin c status) s = do {
     t \<leftarrow> running_task c s;
     _ \<leftarrow> assert_opt (pc s c = Exec \<and> init_reaper (kern s) \<noteq> Some t \<and> \<not> sl_locked (wait_lock (kern s)));
     (r, k) \<leftarrow> exit_reparent t (kern s);
     Some (goto c (Exiting status r) k s) }"
| "perform (Die c) s = (case pc s c of
     Exiting status False \<Rightarrow> do { (sw, k) \<leftarrow> exit_die c status (kern s); Some (after_sched c sw k s) } | _ \<Rightarrow> None)"
| "perform (Wait_Begin c pid nohang nowait) s = do {
     t \<leftarrow> running_task c s;
     _ \<leftarrow> assert_opt (pc s c = Exec \<and> \<not> sl_locked (wait_lock (kern s)) \<and> t_children (task_of (kern s) t) \<noteq> []);
     Some (goto c (Scanning pid nohang nowait (t_children (task_of (kern s) t)) False) (take_wait_lock c (kern s)) s) }"
| "perform (Wait_Skip c) s = (case pc s c of
     Scanning pid nohang nowait (ch # chs) found \<Rightarrow>
       (if \<not> sl_locked (t_lock (task_of (kern s) ch)) \<and> \<not> wait_reapable (kern s) pid ch
        then Some (goto c (Scanning pid nohang nowait chs (found \<or> wait_match (kern s) pid ch)) (kern s) s) else None)
   | _ \<Rightarrow> None)"
| "perform (Wait_Sleep c) s = (case pc s c of
     Scanning pid nohang nowait [] found \<Rightarrow> do {
       t \<leftarrow> running_task c s;
       _ \<leftarrow> assert_opt (\<not> ((pid > 0 \<and> \<not> found) \<or> nohang));
       k \<leftarrow> sleep_publish c t (kern s);
       Some (goto c Published k s) }
   | _ \<Rightarrow> None)"

fun cpu_of :: "action \<Rightarrow> nat" where
  "cpu_of (Yield c) = c" | "cpu_of (Resume c) = c" | "cpu_of (Wake_Parent c) = c" | "cpu_of (Land c) = c" | "cpu_of (Block c) = c"
| "cpu_of (Exit_Begin c _) = c" | "cpu_of (Die c) = c" | "cpu_of (Wait_Begin c _ _ _) = c" | "cpu_of (Wait_Skip c) = c"
| "cpu_of (Wait_Sleep c) = c"

primrec perform_all :: "action list \<Rightarrow> sys \<Rightarrow> sys option" where
  "perform_all [] s = Some s"
| "perform_all (a # as) s = do { s \<leftarrow> perform a s; perform_all as s }"

lemma running_task_runs: "running_task c s = Some t \<longleftrightarrow> runs s c t"
  by (auto simp: running_task_def runs_def nth_opt_def list_ex_iff split: option.splits if_splits)

lemma perform_step:
  assumes "perform a s = Some s'" "cpu_of a < MAX_CPUS"
  shows "sched_step s s'"
proof (cases a)
  case (Wake_Parent c)
  with assms show ?thesis
    by (auto simp: bind_Some_conv split: phase.splits option.splits simp del: if_split intro: sched_step.wake_parent)
qed (use assms in \<open>auto simp: bind_Some_conv assert_opt_Some_iff running_task_runs
    split: phase.splits option.splits bool.splits list.splits if_splits intro: sched_step.intros\<close>)

lemma perform_all_run:
  "perform_all as s = Some s' \<Longrightarrow> list_all (\<lambda>a. cpu_of a < MAX_CPUS) as \<Longrightarrow> sched_step\<^sup>*\<^sup>* s s'"
proof (induction as arbitrary: s)
  case (Cons a as)
  from Cons.prems obtain s1 where "perform a s = Some s1" "perform_all as s1 = Some s'" by (auto simp: bind_Some_conv)
  with Cons perform_step [of a s s1] show ?case by (auto intro: converse_rtranclp_into_rtranclp)
qed simp

section \<open>Two processors\<close>

definition boot_task :: "nat \<Rightarrow> task" where
  "boot_task c = \<lparr>t_parent = None, t_children = [], t_lock = spinlock_init, t_chan = None, t_state = TASK_STATE_RUNNING, t_exit_status = 0,
     t_tgid = 0, t_pid = 0, t_pgid = 0, t_sid = 0, t_uid = 0, t_euid = 0, t_cap_effective = 0, t_sigactions = None,
     t_pending = 0, t_blocked = 0, t_sigframe_sp = 0, t_in_handler = False, t_mm = None, t_rsrc_usage = None, t_frame = [],
     t_oncpu = - 1, t_cpu = int c, t_ktime = 0, t_time_slice = 5, t_newly_forked = False, t_is_init_task = False\<rparr>"

text \<open>Task 0, the reaper, runs on processor 0 and its child, task 1, on processor 1; tasks 2 and 3 are the idle tasks.\<close>

definition two_cpus :: sys where
  "two_cpus = \<lparr>kern = \<lparr>
     task_of = (\<lambda>t. boot_task 0)(0 := (boot_task 0)\<lparr>t_children := [1], t_oncpu := 0\<rparr>,
       1 := (boot_task 1)\<lparr>t_parent := Some 0, t_oncpu := 1\<rparr>, 3 := boot_task 1),
     tasks = [0, 1],
     cpus = [\<lparr>cpu_handoff = None, cpu_current = Some 0, cpu_idle = Some 2, cpu_online = True, cpu_run_queue = [], cpu_nr_running = 0\<rparr>,
       \<lparr>cpu_handoff = None, cpu_current = Some 1, cpu_idle = Some 3, cpu_online = True, cpu_run_queue = [], cpu_nr_running = 0\<rparr>]
       @ replicate 6 \<lparr>cpu_handoff = None, cpu_current = None, cpu_idle = None, cpu_online = False, cpu_run_queue = [], cpu_nr_running = 0\<rparr>,
     sleep_queue = [], next_cpu_hint = 0, init_reaper = Some 0, wait_lock = spinlock_init, jiffies = 0\<rparr>,
   pc = (\<lambda>_. Exec)\<rparr>"

definition race :: "action list" where
  "race = [Exit_Begin 1 0, Wait_Begin 0 (- 1) False False, Wait_Skip 0, Die 1, Resume 1, Wake_Parent 1, Wait_Sleep 0,
     Block 0, Resume 0, Land 0, Land 1]"

definition stranded :: "sys \<Rightarrow> bool" where
  "stranded s \<longleftrightarrow> t_state (task_of (kern s) 0) = TASK_STATE_SLEEPING \<and> t_children (task_of (kern s) 0) = [1]
     \<and> \<not> sl_locked (t_lock (task_of (kern s) 1)) \<and> wait_reapable (kern s) (- 1) 1
     \<and> list_all (\<lambda>c. cpu_run_queue (cpus (kern s) ! c) = [] \<and> pc s c = Exec
          \<and> cpu_current (cpus (kern s) ! c) = cpu_idle (cpus (kern s) ! c)) [0..<MAX_CPUS]"

lemma race_strands: "map_option stranded (perform_all race two_cpus) = Some True"
  by code_simp

lemma two_cpus_cpu:
  assumes "c < MAX_CPUS"
  shows "cpus (kern two_cpus) ! c = \<lparr>cpu_handoff = None, cpu_current = (if c < 2 then Some c else None),
     cpu_idle = (if c < 2 then Some (c + 2) else None), cpu_online = (c < 2), cpu_run_queue = [], cpu_nr_running = 0\<rparr>"
proof -
  consider "c = 0" | "c = 1" | "2 \<le> c" by linarith
  then show ?thesis using assms by cases (simp_all add: two_cpus_def nth_append MAX_CPUS_def nth_Cons')
qed

lemma two_cpus_on:
  "cur_on (kern two_cpus) t = (if t < 2 then {t} else {})" "off_on (kern two_cpus) t = {}" "rq_on (kern two_cpus) t = {}"
  "idle_on (kern two_cpus) 2 = {0}" "idle_on (kern two_cpus) 3 = {1}"
  "t < 2 \<Longrightarrow> idle_on (kern two_cpus) t = {}" "4 \<le> t \<Longrightarrow> idle_on (kern two_cpus) t = {}"
proof -
  have len: "length (cpus (kern two_cpus)) = MAX_CPUS" by (simp add: two_cpus_def MAX_CPUS_def)
  have two: "c < 2 \<Longrightarrow> c < MAX_CPUS" for c by (simp add: MAX_CPUS_def)
  show "cur_on (kern two_cpus) t = (if t < 2 then {t} else {})"
    by (auto simp: cur_on_def len two_cpus_cpu two split: if_splits)
  show "off_on (kern two_cpus) t = {}" "rq_on (kern two_cpus) t = {}" by (auto simp: off_on_def rq_on_def len two_cpus_cpu)
  have "c \<in> idle_on (kern two_cpus) t \<longleftrightarrow> c < 2 \<and> c + 2 = t" for c t
  proof (cases "c < MAX_CPUS")
    case True
    then show ?thesis by (simp add: idle_on_def len two_cpus_cpu)
  next
    case False
    then show ?thesis by (simp add: idle_on_def len MAX_CPUS_def)
  qed
  then have i: "idle_on (kern two_cpus) t = {c. c < 2 \<and> c + 2 = t}" for t by blast
  show "idle_on (kern two_cpus) 2 = {0}" "idle_on (kern two_cpus) 3 = {1}"
    "t < 2 \<Longrightarrow> idle_on (kern two_cpus) t = {}" "4 \<le> t \<Longrightarrow> idle_on (kern two_cpus) t = {}"
    unfolding i by auto
qed

lemma two_cpus_inv: "sched_inv two_cpus"
proof -
  let ?k = "kern two_cpus"
  have "length (cpus ?k) = MAX_CPUS" "distinct (sleep_queue ?k)" "distinct (tasks ?k)" by (simp_all add: two_cpus_def MAX_CPUS_def)
  moreover have pcs: "pc two_cpus c = Exec" for c by (simp add: two_cpus_def)
  then have "cpu_ok (pc two_cpus c) (cpus ?k ! c)" if "c < MAX_CPUS" for c
    by (simp add: two_cpus_cpu [OF that] cpu_ok_def)
  moreover have "task_ok two_cpus t" for t
  proof -
    have tk: "tasks ?k = [0, 1]" "\<not> t_is_init_task (task_of ?k t)" by (simp_all add: two_cpus_def boot_task_def)
    have v: "t_state (task_of ?k t) = TASK_STATE_RUNNING" "t \<notin> set (sleep_queue ?k)" "\<not> sl_locked (t_lock (task_of ?k t))"
      by (simp_all add: two_cpus_def boot_task_def spinlock_init_def)
    consider "t = 0" | "t = 1" | "t = 2" | "t = 3" | "4 \<le> t" by linarith
    then show ?thesis
    proof cases
      case 1
      have "place_ok (pc two_cpus) (({0}, {}, {}, {}, False), TASK_STATE_RUNNING, int 0, int 0, holds_lock (pc two_cpus 0))"
        by (rule place_ok.running) (simp_all add: pcs MAX_CPUS_def)
      then show ?thesis using 1 tk v by (simp add: task_ok_def live_idle view_def two_cpus_on pcs holds_lock_def) (simp add: two_cpus_def boot_task_def)
    next
      case 2
      have "place_ok (pc two_cpus) (({1}, {}, {}, {}, False), TASK_STATE_RUNNING, int 1, int 1, holds_lock (pc two_cpus 1))"
        by (rule place_ok.running) (simp_all add: pcs MAX_CPUS_def)
      then show ?thesis using 2 tk v by (simp add: task_ok_def live_idle view_def two_cpus_on pcs holds_lock_def) (simp add: two_cpus_def boot_task_def)
    next
      case 3
      have "place_ok (pc two_cpus) (({}, {}, {}, {0}, False), TASK_STATE_RUNNING, - 1, int 0, False)"
        by (rule place_ok.idling) (simp add: MAX_CPUS_def)
      then show ?thesis using 3 tk v by (simp add: task_ok_def live_idle view_def two_cpus_on) (simp add: two_cpus_def boot_task_def)
    next
      case 4
      have "place_ok (pc two_cpus) (({}, {}, {}, {1}, False), TASK_STATE_RUNNING, - 1, int 1, False)"
        by (rule place_ok.idling) (simp add: MAX_CPUS_def)
      then show ?thesis using 4 tk v by (simp add: task_ok_def live_idle view_def two_cpus_on) (simp add: two_cpus_def boot_task_def)
    next
      case 5
      then show ?thesis using tk v by (simp add: task_ok_def live_idle absent_def view_def two_cpus_on)
    qed
  qed
  ultimately show ?thesis by (simp add: sched_inv_def)
qed

lemma sched_run_inv: "sched_step\<^sup>*\<^sup>* s0 s \<Longrightarrow> sched_inv s0 \<Longrightarrow> sched_inv s"
  by (induction rule: rtranclp_induct) (auto intro: sched_step_inv)

section \<open>Properties\<close>

lemma one_place:
  assumes inv: "sched_inv s"
  shows "card (cur_on (kern s) t \<union> off_on (kern s) t) \<le> 1" "card (rq_on (kern s) t) \<le> 1"
    "t \<in> set (sleep_queue (kern s)) \<Longrightarrow> rq_on (kern s) t = {}"
    "live (kern s) t \<Longrightarrow> (case t_state (task_of (kern s) t) of
        TASK_STATE_RUNNING \<Rightarrow> cur_on (kern s) t \<union> rq_on (kern s) t \<union> idle_on (kern s) t \<noteq> {}
      | TASK_STATE_SLEEPING \<Rightarrow> t \<in> set (sleep_queue (kern s))
      | TASK_STATE_ZOMBIE \<Rightarrow> \<not> queued (kern s) t \<and> cur_on (kern s) t = {}
      | TASK_STATE_NEW \<Rightarrow> False)"
proof -
  have p: "place_ok (pc s) (view (kern s) t) \<or> absent (view (kern s) t)"
    using sched_invD(5) [OF inv, of t] by (auto simp: task_ok_def split: if_splits)
  then show "card (cur_on (kern s) t \<union> off_on (kern s) t) \<le> 1" "card (rq_on (kern s) t) \<le> 1"
    "t \<in> set (sleep_queue (kern s)) \<Longrightarrow> rq_on (kern s) t = {}"
    by (auto simp: view_def absent_def elim!: place_ok.cases)
  assume "live (kern s) t"
  then have "place_ok (pc s) (view (kern s) t)" using sched_invD(5) [OF inv, of t] by (simp add: task_ok_def)
  then show "case t_state (task_of (kern s) t) of
        TASK_STATE_RUNNING \<Rightarrow> cur_on (kern s) t \<union> rq_on (kern s) t \<union> idle_on (kern s) t \<noteq> {}
      | TASK_STATE_SLEEPING \<Rightarrow> t \<in> set (sleep_queue (kern s))
      | TASK_STATE_ZOMBIE \<Rightarrow> \<not> queued (kern s) t \<and> cur_on (kern s) t = {}
      | TASK_STATE_NEW \<Rightarrow> False"
    by cases (auto simp: view_def queued_iff)
qed

text \<open>
  C31: Over every interleaving of the processors that starts in a well-formed state, every task
  is in one place: it is on at most one processor, counting one that is about to leave it, on at
  most one run queue, and never on a run queue and the sleep queue at once. No task is lost: a
  runnable task is on a processor or a run queue, or is an idle task; a sleeping one is on the
  sleep queue; a zombie is on no queue and not current anywhere.
\<close>

theorem sched_tasks_in_place:
  assumes "sched_inv s0" "sched_step\<^sup>*\<^sup>* s0 s"
  shows "(\<forall>t. card (cur_on (kern s) t \<union> off_on (kern s) t) \<le> 1 \<and> card (rq_on (kern s) t) \<le> 1
       \<and> (t \<in> set (sleep_queue (kern s)) \<longrightarrow> rq_on (kern s) t = {}))
    \<and> distinct (sleep_queue (kern s)) \<and> (\<forall>c < MAX_CPUS. distinct (cpu_run_queue (cpus (kern s) ! c)))
    \<and> (\<forall>t. live (kern s) t \<longrightarrow> (case t_state (task_of (kern s) t) of
        TASK_STATE_RUNNING \<Rightarrow> cur_on (kern s) t \<union> rq_on (kern s) t \<union> idle_on (kern s) t \<noteq> {}
      | TASK_STATE_SLEEPING \<Rightarrow> t \<in> set (sleep_queue (kern s))
      | TASK_STATE_ZOMBIE \<Rightarrow> \<not> queued (kern s) t \<and> cur_on (kern s) t = {}
      | TASK_STATE_NEW \<Rightarrow> False))"
proof -
  note inv = sched_run_inv [OF assms(2,1)]
  have "distinct (cpu_run_queue (cpus (kern s) ! c))" if "c < MAX_CPUS" for c
    using sched_invD(4) [OF inv that] by (simp add: cpu_ok_def)
  then show ?thesis using one_place [OF inv] sched_invD(2) [OF inv] by blast
qed

theorem sched_tasks_in_place_witness:
  "sched_inv two_cpus \<and> card (cur_on (kern two_cpus) 0 \<union> off_on (kern two_cpus) 0) \<le> 1"
  using sched_tasks_in_place [OF two_cpus_inv rtranclp.rtrancl_refl] two_cpus_inv by blast



text \<open>
  C33: A child that \<open>task_wait\<close> finds ready to be reaped is out of the scheduler: no processor
  runs it or is still leaving it, no queue holds it and its lock is free, so that destroying it
  takes nothing away from under another processor.
\<close>

theorem reaped_task_is_gone:
  assumes "sched_inv s0" "sched_step\<^sup>*\<^sup>* s0 s" "live (kern s) ch" "wait_reapable (kern s) pid ch"
  shows "cur_on (kern s) ch = {} \<and> off_on (kern s) ch = {} \<and> \<not> queued (kern s) ch \<and> \<not> sl_locked (t_lock (task_of (kern s) ch))"
proof -
  note inv = sched_run_inv [OF assms(2,1)]
  have "place_ok (pc s) (view (kern s) ch)" using sched_invD(5) [OF inv, of ch] assms(3) by (simp add: task_ok_def)
  then show ?thesis using assms(4) by cases (auto simp: view_def queued_iff wait_reapable_def)
qed

theorem reaped_task_is_gone_witness:
  "\<exists>s. perform_all race two_cpus = Some s \<and> wait_reapable (kern s) (- 1) 1 \<and> off_on (kern s) 1 = {}"
proof -
  from race_strands obtain s where s: "perform_all race two_cpus = Some s" "stranded s" by (cases "perform_all race two_cpus") auto
  have run: "sched_step\<^sup>*\<^sup>* two_cpus s" by (rule perform_all_run [OF s(1)]) (simp add: race_def MAX_CPUS_def)
  have "map_option (\<lambda>s. 1 \<in> set (tasks (kern s))) (perform_all race two_cpus) = Some True" by code_simp
  then have "live (kern s) 1" using s(1) by (simp add: live_def)
  with reaped_task_is_gone [OF two_cpus_inv run this, of "- 1"] s show ?thesis by (auto simp: stranded_def)
qed

text \<open>
  C34: A parent in \<open>task_wait\<close> can sleep forever next to a child it could reap. The child's last
  processor wakes the parent with \<open>task_wake_spec\<close>, which does not take \<open>wait_lock\<close>; when that
  happens after the parent looked at the child and before it is on the sleep queue, the wake-up
  finds nobody. The run below ends with the parent asleep, its only child ready to be reaped and
  both processors idle, and no further step of the machine changes that.
\<close>

theorem wait_misses_wakeup:
  "\<exists>s. sched_step\<^sup>*\<^sup>* two_cpus s \<and> t_children (task_of (kern s) 0) = [1] \<and> wait_reapable (kern s) (- 1) 1
     \<and> \<not> (\<exists>s'. sched_step\<^sup>*\<^sup>* s s' \<and> t_state (task_of (kern s') 0) \<noteq> TASK_STATE_SLEEPING)"
proof -
  from race_strands obtain s where s: "perform_all race two_cpus = Some s" "stranded s" by (cases "perform_all race two_cpus") auto
  have run: "sched_step\<^sup>*\<^sup>* two_cpus s" by (rule perform_all_run [OF s(1)]) (simp add: race_def MAX_CPUS_def)
  have q: "quiet s" using sched_run_inv [OF run two_cpus_inv] s(2) by (auto simp: quiet_def stranded_def list_all_iff)
  have st: "t_state (task_of (kern s) 0) = TASK_STATE_SLEEPING" "t_children (task_of (kern s) 0) = [1]" "wait_reapable (kern s) (- 1) 1"
    using s(2) by (simp_all add: stranded_def)
  have "t_state (task_of (kern s') 0) = TASK_STATE_SLEEPING" if "sched_step\<^sup>*\<^sup>* s s'" for s'
    using quiet_run [OF that q, of 0] st(1) by simp
  with run st(2,3) show ?thesis by blast
qed

end
