(* ===== verification/Signal_Kill.thy ===== *)
theory Signal_Kill
  imports Signal_Deliver Sched_Race
begin

text \<open>
  Sending signals: which tasks \<open>kill\<close> reaches and what it returns, over the scheduler invariant, since
  every task a signal reaches is also woken.
\<close>

section \<open>Waking leaves the signal state alone\<close>

lemma join_target_effect: "join_target c t k = Some (d, k') \<Longrightarrow> tasks k' = tasks k \<and> sleep_queue k' = sleep_queue k \<and> task_of k' = task_of k"
  by (auto simp: join_target_def task_select_cpu_def Let_def bind_Some_conv split: if_splits)

lemma task_join_effect:
  assumes "task_join c t k = Some k'"
  shows "\<exists>d. tasks k' = tasks k \<and> sleep_queue k' = sleep_queue k \<and> task_of k' = (task_of k)(t := (task_of k t)\<lparr>t_cpu := d\<rparr>)"
proof -
  from assms obtain d k1 where "join_target c t k = Some (d, k1)"
    "upd_cpu (nat d) (\<lambda>cp. cp\<lparr>cpu_run_queue := cpu_run_queue cp @ [t], cpu_nr_running := cpu_nr_running cp + 1\<rparr>) (upd_task t (\<lambda>p. p\<lparr>t_cpu := d\<rparr>) k1) = Some k'"
    by (auto simp: task_join_def bind_Some_conv)
  with join_target_effect [OF this(1)] show ?thesis by (auto simp: upd_cpu_def upd_task_def split: if_splits)
qed

lemma make_runnable_effect:
  assumes "make_runnable c t k = Some k'"
  shows "\<exists>d. tasks k' = tasks k \<and> sleep_queue k' = remove1 t (sleep_queue k)
    \<and> task_of k' = (task_of k)(t := (task_of k t)\<lparr>t_state := TASK_STATE_RUNNING, t_chan := None, t_cpu := d\<rparr>)"
  using assms task_join_effect [of c t _ k'] by (fastforce simp: make_runnable_def upd_task_def)

text \<open>
  No sleeping task is locked, so that a wake-up does not have to wait for another processor. The
  tables of actions of all tasks exist.
\<close>

definition calm :: "(nat \<Rightarrow> phase) \<Rightarrow> sigw \<Rightarrow> bool" where
  "calm ph w \<longleftrightarrow> sched_inv \<lparr>kern = skern w, pc = ph\<rparr>
     \<and> (\<forall>u \<in> set (sleep_queue (skern w)). \<not> sl_locked (t_lock (stask u w)))
     \<and> (\<forall>u \<in> set (tasks (skern w)). table_of u w \<noteq> None)"

text \<open>A task that got the signal: it is pending, the task does not sleep any more, and nothing else of it is changed.\<close>

definition signalled :: "int \<Rightarrow> task \<Rightarrow> task \<Rightarrow> bool" where
  "signalled sig p q \<longleftrightarrow> t_state q \<noteq> TASK_STATE_SLEEPING
     \<and> (\<exists>st ch d. q = p\<lparr>t_state := st, t_chan := ch, t_cpu := d, t_pending := t_pending p OR sigbit sig\<rparr>
          \<and> (st = t_state p \<or> t_state p = TASK_STATE_SLEEPING))"

text \<open>Exactly the tasks of \<open>T\<close> got it.\<close>

definition sent_to :: "nat set \<Rightarrow> int \<Rightarrow> sigw \<Rightarrow> sigw \<Rightarrow> bool" where
  "sent_to T sig w w' \<longleftrightarrow> tables w' = tables w \<and> umem w' = umem w \<and> tasks (skern w') = tasks (skern w)
     \<and> (\<forall>u. if u \<in> T then signalled sig (stask u w) (stask u w') else stask u w' = stask u w)"

lemma sent_to_none [simp]: "sent_to {} sig w w"
  by (simp add: sent_to_def)

lemma sent_to_trans:
  assumes "sent_to S sig w w1" "sent_to T sig w1 w2" "S \<inter> T = {}"
  shows "sent_to (S \<union> T) sig w w2"
proof -
  have "if u \<in> S \<union> T then signalled sig (stask u w) (stask u w2) else stask u w2 = stask u w" for u
    using assms unfolding sent_to_def by (metis UnE UnI1 UnI2 disjoint_iff)
  then show ?thesis using assms by (simp add: sent_to_def)
qed

text \<open>The fields that decide who gets a signal.\<close>

lemma signalled_keeps:
  "signalled sig p q \<Longrightarrow> t_pid q = t_pid p \<and> t_tgid q = t_tgid p \<and> t_pgid q = t_pgid p \<and> t_euid q = t_euid p
     \<and> t_cap_effective q = t_cap_effective p \<and> t_sigactions q = t_sigactions p"
  by (auto simp: signalled_def)

lemma sent_to_keeps:
  assumes "sent_to T sig w w'"
  shows "t_pid (stask u w') = t_pid (stask u w)" "t_tgid (stask u w') = t_tgid (stask u w)" "t_pgid (stask u w') = t_pgid (stask u w)"
    "t_euid (stask u w') = t_euid (stask u w)" "t_cap_effective (stask u w') = t_cap_effective (stask u w)"
    "table_of u w' = table_of u w"
proof -
  have u: "if u \<in> T then signalled sig (stask u w) (stask u w') else stask u w' = stask u w" "tables w' = tables w"
    using assms by (simp_all add: sent_to_def)
  then show "t_pid (stask u w') = t_pid (stask u w)" "t_tgid (stask u w') = t_tgid (stask u w)" "t_pgid (stask u w') = t_pgid (stask u w)"
    "t_euid (stask u w') = t_euid (stask u w)" "t_cap_effective (stask u w') = t_cap_effective (stask u w)"
    "table_of u w' = table_of u w"
    using signalled_keeps [of sig "stask u w" "stask u w'"] by (auto simp: table_of_def split: if_splits)
qed

lemma may_send_kept: "sent_to T sig w w' \<Longrightarrow> signal_may_send (stask cur w') (stask u w') = signal_may_send (stask cur w) (stask u w)"
  by (simp add: signal_may_send_def capable_def sent_to_keeps)

text \<open>Setting the bit and waking the task, the common end of \<open>kill\<close> and \<open>signal_send\<close>.\<close>

lemma wake_target:
  assumes calm: "calm ph w" and t: "t \<in> set (tasks (skern w))"
  shows "\<exists>k. task_wake_spec c t (skern (set_pending t sig w)) = Some k
    \<and> calm ph ((set_pending t sig w)\<lparr>skern := k\<rparr>) \<and> sent_to {t} sig w ((set_pending t sig w)\<lparr>skern := k\<rparr>)"
proof -
  let ?w = "set_pending t sig w" and ?s = "\<lparr>kern = skern w, pc = ph\<rparr>"
  have inv: "sched_inv ?s" using calm by (simp add: calm_def)
  have "same_places (kern ?s) (skern ?w)" by (simp add: same_places_def set_pending_def upd_stask_def)
  from same_places_inv [OF inv this] have inv': "sched_inv \<lparr>kern = skern ?w, pc = ph\<rparr>" by simp
  have st: "stask u ?w = (if u = t then (stask t w)\<lparr>t_pending := t_pending (stask t w) OR sigbit sig\<rparr> else stask u w)" for u
    by (simp add: set_pending_def)
  have sq: "sleep_queue (skern ?w) = sleep_queue (skern w)" "tasks (skern ?w) = tasks (skern w)" "tables ?w = tables w" "umem ?w = umem w"
    by (simp_all add: set_pending_def upd_stask_def)
  have live: "live (skern w) t" using t by (simp add: live_def)
  show ?thesis
  proof (cases "t \<in> set (sleep_queue (skern w))")
    case True
    have unl: "\<not> sl_locked (t_lock (task_of (skern ?w) t))" using calm True st [of t] by (simp add: calm_def stask_def)
    from make_runnable_ok [OF inv', of t c] True unl sq obtain k where k: "make_runnable c t (skern ?w) = Some k"
      "sched_inv \<lparr>kern = k, pc = ph\<rparr>" by auto
    from make_runnable_effect [OF k(1)] obtain d where d: "tasks k = tasks (skern w)" "sleep_queue k = remove1 t (sleep_queue (skern w))"
      "task_of k = (task_of (skern ?w))(t := (task_of (skern ?w) t)\<lparr>t_state := TASK_STATE_RUNNING, t_chan := None, t_cpu := d\<rparr>)"
      using sq by auto
    from sleep_place [OF inv', of t] True unl sq have "t_state (task_of (skern ?w) t) = TASK_STATE_SLEEPING" by (auto simp: view_def)
    then have wk: "task_wake_spec c t (skern ?w) = Some k" using True unl k(1) sq by (simp add: task_wake_spec_def wake_spec_pass_def)
    let ?w' = "?w\<lparr>skern := k\<rparr>"
    have st': "stask u ?w' = (if u = t then (stask t w)\<lparr>t_state := TASK_STATE_RUNNING, t_chan := None, t_cpu := d,
        t_pending := t_pending (stask t w) OR sigbit sig\<rparr> else stask u w)" for u
      using d(3) st [of u] st [of t] by (auto simp: stask_def)
    have "t_state (stask t w) = TASK_STATE_SLEEPING" using \<open>t_state (task_of (skern ?w) t) = TASK_STATE_SLEEPING\<close> st [of t] by (simp add: stask_def)
    then have "sent_to {t} sig w ?w'" using d sq by (auto simp: sent_to_def st' signalled_def)
    moreover have "calm ph ?w'" using calm k(2) d sq sent_to_keeps(6) [OF calculation]
      by (auto simp: calm_def st' dest: notin_set_remove1 [rotated] set_remove1_subset [THEN subsetD] split: if_splits)
    ultimately show ?thesis using wk by blast
  next
    case False
    then have wk: "task_wake_spec c t (skern ?w) = Some (skern ?w)" using sq by (simp add: task_wake_spec_def wake_spec_pass_def)
    have "t_state (stask t w) \<noteq> TASK_STATE_SLEEPING"
      using sched_invD(5) [OF inv, of t] live False by (auto simp: task_ok_def view_def stask_def elim: place_ok.cases)
    then have "sent_to {t} sig w ?w" using sq st
      by (auto simp: sent_to_def signalled_def intro!: exI [of _ "t_state (stask t w)"] exI [of _ "t_chan (stask t w)"] exI [of _ "t_cpu (stask t w)"])
    moreover have "calm ph ?w" using calm inv' sq sent_to_keeps(6) [OF calculation] by (auto simp: calm_def st)
    ultimately show ?thesis using wk by auto
  qed
qed

lemma signal_send_ok:
  assumes "calm ph w" "t \<in> set (tasks (skern w))" "sig_valid sig"
  shows "\<exists>w'. signal_send c t sig w = Some w' \<and> calm ph w'
    \<and> sent_to (if t_state (stask t w) = TASK_STATE_ZOMBIE then {} else {t}) sig w w'"
proof -
  have "table_of t w \<noteq> None" using assms by (simp add: calm_def)
  then show ?thesis using wake_target [OF assms(1,2), of c sig] assms by (auto simp: signal_send_def)
qed

section \<open>Groups of tasks\<close>

definition chosen :: "(task \<Rightarrow> bool) \<Rightarrow> sigw \<Rightarrow> nat \<Rightarrow> bool" where
  "chosen sel w p \<longleftrightarrow> sel (stask p w) \<and> t_pid (stask p w) = t_tgid (stask p w)"

definition gets :: "nat \<Rightarrow> (task \<Rightarrow> bool) \<Rightarrow> int \<Rightarrow> sigw \<Rightarrow> nat \<Rightarrow> bool" where
  "gets cur sel sig w p \<longleftrightarrow> sig \<noteq> 0 \<and> chosen sel w p \<and> signal_may_send (stask cur w) (stask p w) \<and> t_state (stask p w) \<noteq> TASK_STATE_ZOMBIE"

lemma kill_each_ok:
  assumes "calm ph w" "set ps \<subseteq> set (tasks (skern w))" "distinct ps" "sig = 0 \<or> sig_valid sig"
    and sel: "\<And>p q. t_pgid p = t_pgid q \<Longrightarrow> sel p = sel q"
  shows "\<exists>w'. kill_each c cur sel sig ps found sent w = Some (found \<or> (\<exists>p \<in> set ps. chosen sel w p),
      sent \<or> (\<exists>p \<in> set ps. chosen sel w p \<and> signal_may_send (stask cur w) (stask p w)), w')
    \<and> calm ph w' \<and> sent_to {p \<in> set ps. gets cur sel sig w p} sig w w'"
  using assms(1-3)
proof (induction ps arbitrary: found sent w)
  case Nil
  then show ?case by simp
next
  case (Cons p ps)
  have step: "kill_each c cur sel sig (p # ps) found sent w =
     (if \<not> chosen sel w p then kill_each c cur sel sig ps found sent w
      else if \<not> signal_may_send (stask cur w) (stask p w) then kill_each c cur sel sig ps True sent w
      else do { w \<leftarrow> (if sig \<noteq> 0 then signal_send c p sig w else Some w); kill_each c cur sel sig ps True True w })"
    by (simp add: chosen_def)
  consider (skip) "\<not> chosen sel w p" | (denied) "chosen sel w p" "\<not> signal_may_send (stask cur w) (stask p w)"
    | (sent) "chosen sel w p" "signal_may_send (stask cur w) (stask p w)" by blast
  then show ?case
  proof cases
    case skip
    then have "{q \<in> set (p # ps). gets cur sel sig w q} = {q \<in> set ps. gets cur sel sig w q}" by (auto simp: gets_def)
    with skip Cons.IH [of w found sent] Cons.prems show ?thesis unfolding step by simp
  next
    case denied
    then have "{q \<in> set (p # ps). gets cur sel sig w q} = {q \<in> set ps. gets cur sel sig w q}" by (auto simp: gets_def)
    with denied Cons.IH [of w True sent] Cons.prems show ?thesis unfolding step by simp
  next
    case sent
    let ?S = "if gets cur sel sig w p then {p} else {}"
    have "\<exists>w1. (if sig \<noteq> 0 then signal_send c p sig w else Some w) = Some w1 \<and> calm ph w1 \<and> sent_to ?S sig w w1"
      using signal_send_ok [OF Cons.prems(1), of p sig c] Cons.prems(1,2) assms(4) sent by (auto simp: gets_def)
    then obtain w1 where w1: "(if sig \<noteq> 0 then signal_send c p sig w else Some w) = Some w1" "calm ph w1" "sent_to ?S sig w w1" by blast
    have ps: "set ps \<subseteq> set (tasks (skern w1))" "distinct ps" using Cons.prems w1(3) by (auto simp: sent_to_def)
    have ch: "chosen sel w1 q = chosen sel w q" for q
      using sent_to_keeps [OF w1(3), of q] sel [of "stask q w1" "stask q w"] by (simp add: chosen_def)
    have "stask q w1 = stask q w" if "q \<in> set ps" for q
      using w1(3) that Cons.prems(3) unfolding sent_to_def by (auto split: if_splits)
    then have "{q \<in> set ps. gets cur sel sig w1 q} = {q \<in> set ps. gets cur sel sig w q}"
      using may_send_kept [OF w1(3)] by (auto simp: gets_def ch)
    with Cons.IH [OF w1(2) ps, of True True] ch may_send_kept [OF w1(3)] obtain w' where w':
      "kill_each c cur sel sig ps True True w1 = Some (True, True, w')" "calm ph w'"
      "sent_to {q \<in> set ps. gets cur sel sig w q} sig w1 w'" by auto
    have "?S \<inter> {q \<in> set ps. gets cur sel sig w q} = {}" using Cons.prems(3) by auto
    from sent_to_trans [OF w1(3) w'(3) this]
    have "sent_to {q \<in> set (p # ps). gets cur sel sig w q} sig w w'" by (rule back_subst [where P = "\<lambda>S. sent_to S sig w w'"]) auto
    then show ?thesis unfolding step using sent w1(1) w'(1,2) by simp
  qed
qed

lemma kill_many_ok:
  assumes "calm ph w" "sig = 0 \<or> sig_valid sig" "\<And>p q. t_pgid p = t_pgid q \<Longrightarrow> sel p = sel q"
  shows "\<exists>w'. kill_many c cur sel sig w = Some (
      if \<exists>p \<in> set (tasks (skern w)). chosen sel w p \<and> signal_may_send (stask cur w) (stask p w) then Inr ()
      else if \<exists>p \<in> set (tasks (skern w)). chosen sel w p then Inl EPERM else Inl ESRCH, w')
    \<and> calm ph w' \<and> sent_to {p \<in> set (tasks (skern w)). gets cur sel sig w p} sig w w'"
proof -
  have "distinct (tasks (skern w))" using assms(1) by (auto simp: calm_def sched_inv_def)
  from kill_each_ok [where sel = sel and c = c and cur = cur and found = False and sent = False, OF assms(1) subset_refl this assms(2,3)]
  show ?thesis by (auto simp: kill_many_def)
qed

section \<open>What \<open>kill\<close> does\<close>

text \<open>The tasks a pid stands for: one task, every process, or a process group.\<close>

definition kill_targets :: "nat \<Rightarrow> int \<Rightarrow> sigw \<Rightarrow> nat set" where
  "kill_targets cur pid w =
     (if pid > 0 then set_option (find (\<lambda>p. t_pid (stask p w) = pid) (tasks (skern w)))
      else {p \<in> set (tasks (skern w)). t_pid (stask p w) = t_tgid (stask p w)
        \<and> (pid = - 1 \<or> (let g = if pid = 0 then t_pgid (stask cur w) else - pid in g > 0 \<and> t_pgid (stask p w) = g))})"

lemma kill_one_ok:
  assumes "calm ph w" "sig = 0 \<or> sig_valid sig" "find (\<lambda>p. t_pid (stask p w) = pid) (tasks (skern w)) = Some p"
    "signal_may_send (stask cur w) (stask p w)" "t_state (stask p w) \<noteq> TASK_STATE_ZOMBIE"
  shows "\<exists>w'. kill_one c cur pid sig w = Some (Inr (), w') \<and> calm ph w' \<and> sent_to (if sig = 0 then {} else {p}) sig w w'"
proof -
  have "p \<in> set (tasks (skern w))" using assms(3) by (auto simp: find_Some_iff)
  moreover from this have "table_of p w \<noteq> None" using assms(1) by (simp add: calm_def)
  ultimately show ?thesis using wake_target [OF assms(1), of p c sig] assms by (auto simp: kill_one_def)
qed

text \<open>The calls that address a process group, or everybody.\<close>

lemma kill_group_exact:
  assumes "calm ph w" "\<not> pid > 0" and sig: "sig = 0 \<or> sig_valid sig"
  shows "let T = kill_targets cur pid w; A = {p \<in> T. signal_may_send (stask cur w) (stask p w)};
      L = {p \<in> A. t_state (stask p w) \<noteq> TASK_STATE_ZOMBIE} in
    \<exists>w'. signal_do_kill c cur pid sig w = Some (
        if T = {} then Inl ESRCH else if A = {} then Inl EPERM else if pid > 0 \<and> L = {} then Inl ESRCH else Inr (), w')
      \<and> calm ph w' \<and> sent_to (if sig = 0 then {} else L) sig w w'"
proof -
  define g where "g = (if pid = 0 then t_pgid (stask cur w) else - pid)"
  have ok: "\<not> (sig \<noteq> 0 \<and> \<not> sig_valid sig)" using sig by blast
  show ?thesis
  proof (cases "pid \<noteq> - 1 \<and> g \<le> 0")
    case True
    then show ?thesis using ok assms(1,2) by (auto simp: signal_do_kill_def signal_kill_pgrp_def kill_targets_def g_def)
  next
    case nz: False
    define sel where "sel = (\<lambda>p :: task. pid = - 1 \<or> t_pgid p = g)"
    have K: "signal_do_kill c cur pid sig w = kill_many c cur sel sig w"
      using nz ok assms(2) by (cases "pid = - 1") (auto simp: signal_do_kill_def signal_kill_pgrp_def sel_def g_def)
    have T: "kill_targets cur pid w = {p \<in> set (tasks (skern w)). chosen sel w p}"
      using nz assms(2) by (auto simp: kill_targets_def chosen_def sel_def g_def Let_def)
    have G: "{p \<in> set (tasks (skern w)). gets cur sel sig w p} = (if sig = 0 then {} else
        {p \<in> {p \<in> kill_targets cur pid w. signal_may_send (stask cur w) (stask p w)}. t_state (stask p w) \<noteq> TASK_STATE_ZOMBIE})"
      by (auto simp: T gets_def)
    have "sel p = sel q" if "t_pgid p = t_pgid q" for p q using that by (simp add: sel_def)
    from kill_many_ok [where sel = sel and c = c and cur = cur, OF assms(1) sig this] ok assms(2) show ?thesis
      unfolding K G Let_def by (auto simp: T)
  qed
qed

text \<open>
  C37: \<open>kill\<close> reaches exactly whom it should. With an invalid signal it fails with \<open>EINVAL\<close>.
  Otherwise the targets of a positive pid are the task with that pid, those of \<open>- 1\<close> all processes,
  and those of zero and of other negative numbers the processes of a group. The call fails with
  \<open>ESRCH\<close> when there is no target, with \<open>EPERM\<close> when the caller may signal none of them, and with
  \<open>ESRCH\<close> when the single target is a zombie; it succeeds otherwise. The signal becomes pending for
  exactly the targets that the caller may signal and that are no zombies, each of which is awake
  afterwards; signal 0 only checks. Nothing else of any task changes but where a woken one runs.
\<close>

theorem signal_do_kill_exact:
  assumes "calm ph w"
  shows "if sig \<noteq> 0 \<and> \<not> sig_valid sig then signal_do_kill c cur pid sig w = Some (Inl EINVAL, w)
    else (let T = kill_targets cur pid w; A = {p \<in> T. signal_may_send (stask cur w) (stask p w)};
        L = {p \<in> A. t_state (stask p w) \<noteq> TASK_STATE_ZOMBIE} in
      \<exists>w'. signal_do_kill c cur pid sig w = Some (
          if T = {} then Inl ESRCH else if A = {} then Inl EPERM else if pid > 0 \<and> L = {} then Inl ESRCH else Inr (), w')
        \<and> calm ph w' \<and> sent_to (if sig = 0 then {} else L) sig w w')"
proof (cases "sig \<noteq> 0 \<and> \<not> sig_valid sig")
  case True
  then show ?thesis by (simp add: signal_do_kill_def)
next
  case ok: False
  then have sig: "sig = 0 \<or> sig_valid sig" by blast
  show ?thesis
  proof (cases "pid > 0")
    case True
    show ?thesis
    proof (cases "find (\<lambda>p. t_pid (stask p w) = pid) (tasks (skern w))")
      case None
      then show ?thesis using ok True assms by (simp add: signal_do_kill_def kill_targets_def kill_one_def)
    next
      case (Some p)
      let ?may = "signal_may_send (stask cur w) (stask p w)" and ?dead = "t_state (stask p w) = TASK_STATE_ZOMBIE"
      have T: "kill_targets cur pid w = {p}" "{q \<in> {p}. signal_may_send (stask cur w) (stask q w)} = (if ?may then {p} else {})"
        "{q \<in> if ?may then {p} else {}. t_state (stask q w) \<noteq> TASK_STATE_ZOMBIE} = (if ?may \<and> \<not> ?dead then {p} else {})"
        using Some True by (auto simp: kill_targets_def)
      have "signal_do_kill c cur pid sig w = kill_one c cur pid sig w" using True ok by (auto simp: signal_do_kill_def)
      then show ?thesis using ok True assms kill_one_ok [OF assms sig Some, of cur c] Some unfolding T Let_def
        by (cases "?may \<and> \<not> ?dead") (auto simp: kill_one_def)
    qed
  next
    case False
    show ?thesis unfolding if_not_P [OF ok] by (rule kill_group_exact [OF assms False sig])
  qed
qed

text \<open>
  An example for this and the following properties: the two processors of the scheduler examples,
  with a process 2 that has a handler for signal 10 whose mask holds back signal 9, runs with its stack at
  \<open>0x10000\<close> and has signals 10 and 17 pending.
\<close>

definition sig_world :: sigw where
  "sig_world = \<lparr>
     skern = upd_task 1 (\<lambda>p. p\<lparr>t_pid := 2, t_tgid := 2, t_pgid := 2, t_sigactions := Some 1,
         t_frame := (replicate TF_WORDS 7)[TF_SP := 0x10000], t_pending := sigbit 10 OR sigbit 17\<rparr>)
       (upd_task 0 (\<lambda>p. p\<lparr>t_pid := 1, t_tgid := 1, t_pgid := 1, t_sigactions := Some 0\<rparr>) (kern two_cpus)),
     tables = (\<lambda>i. Some (sigaction_table_reset_locked \<lparr>actions = [], st_refcnt = refcnt_init 1\<rparr>))
       (1 := Some \<lparr>actions = (replicate 32 \<lparr>sa_handler = SIG_DFL, sa_mask = 0, sa_flags = 0\<rparr>)
           [10 := \<lparr>sa_handler = 0x5000, sa_mask = sigbit 9, sa_flags = 0\<rparr>], st_refcnt = refcnt_init 1\<rparr>),
     umem = (\<lambda>_. 0)\<rparr>"

lemma sig_world_calm: "calm (pc two_cpus) sig_world"
proof -
  have "same_places (kern two_cpus) (skern sig_world)" by (simp add: same_places_def sig_world_def)
  from same_places_inv [OF two_cpus_inv this] have "sched_inv \<lparr>kern = skern sig_world, pc = pc two_cpus\<rparr>"
    by (simp add: two_cpus_def)
  moreover have "tasks (skern sig_world) = [0, 1]" "sleep_queue (skern sig_world) = []" by (simp_all add: sig_world_def two_cpus_def)
  moreover have "table_of 0 sig_world \<noteq> None" "table_of 1 sig_world \<noteq> None" by (simp_all add: sig_world_def table_of_def stask_def)
  ultimately show ?thesis by (simp add: calm_def)
qed

theorem signal_do_kill_exact_witness:
  "calm (pc two_cpus) sig_world
    \<and> (\<exists>w'. signal_do_kill 0 0 2 SIGKILL sig_world = Some (Inr (), w') \<and> sent_to {1} SIGKILL sig_world w')"
proof -
  have T: "kill_targets 0 2 sig_world = {1}" by (simp add: kill_targets_def sig_world_def two_cpus_def stask_def)
  have A: "{p \<in> {1}. signal_may_send (stask 0 sig_world) (stask p sig_world)} = {1}"
    by (auto simp: signal_may_send_def sig_world_def two_cpus_def stask_def boot_task_def)
  have L: "{p \<in> {1}. t_state (stask p sig_world) \<noteq> TASK_STATE_ZOMBIE} = {1}"
    by (auto simp: sig_world_def two_cpus_def stask_def boot_task_def)
  have "\<exists>w'. signal_do_kill 0 0 2 SIGKILL sig_world = Some (Inr (), w') \<and> calm (pc two_cpus) w' \<and> sent_to {1} SIGKILL sig_world w'"
    using signal_do_kill_exact [OF sig_world_calm, of SIGKILL 0 0 2] unfolding Let_def T A L
    by (simp add: SIGKILL_def sig_valid_def NSIG_def)
  then show ?thesis using sig_world_calm by blast
qed

end
