(* ===== verification/Signal_Props.thy ===== *)
theory Signal_Props
  imports Signal_Kill
begin

text \<open>
  What the delivery of signals guarantees to a program: the registers and the mask come back after
  a handler, the loop over the pending signals ends and drops nothing but what it handled, and which
  signals can be held back.
\<close>

section \<open>The frame on the user stack\<close>

lemma sigframe_words:
  assumes "length tf = TF_WORDS" "\<And>a. unat sp div 8 \<le> a \<Longrightarrow> a \<le> unat sp div 8 + TF_WORDS \<Longrightarrow> m a = store_sigframe sp tf b sig m0 a"
  shows "load_tf sp m = tf" "load_blocked sp m = b"
  using assms by (auto simp: load_tf_def load_blocked_def store_sigframe_def Let_def intro: nth_equalityI)

lemma sigframe_aligned: "unat (sigframe_base sp) mod 16 = 0"
proof -
  have m: "mask 4 = (15 :: u64)" by (simp add: mask_eq_exp_minus_1)
  have "take_bit 4 (sigframe_base sp) = 0"
    unfolding sigframe_base_def m [symmetric] take_bit_eq_mask by (simp add: ac_simps)
  then have "take_bit 4 (unat (sigframe_base sp)) = 0" by (metis unat_0 unsigned_take_bit_eq)
  then show ?thesis by (simp add: take_bit_eq_mod)
qed

lemma handler_task_simps [simp]:
  "t_sigframe_sp (handler_task act sig p) = sigframe_base (t_frame p ! TF_SP)"
  "t_in_handler (handler_task act sig p)"
  "t_pending (handler_task act sig p) = t_pending p AND NOT (sigbit sig)"
  "t_frame (handler_task act sig p) =
     (t_frame p)[TF_SP := sigframe_base (t_frame p ! TF_SP), TF_SEPC := sa_handler act, TF_A0 := word_of_int sig]"
  "t_blocked (handler_task act sig p) =
     (if sa_flags act AND SA_NODEFER = 0 then t_blocked p OR sigbit sig else t_blocked p) OR sa_mask act"
  by (simp_all add: handler_task_def Let_def)

text \<open>
  C35: A signal handler is transparent to the code it interrupts. When a signal with a handler is
  delivered, the handler starts with its signal number as argument on a 16-byte aligned stack
  pointer; when it returns through \<open>sigreturn\<close>, having done what it likes to its registers and to
  memory outside the frame, all registers and the set of blocked signals are those from before the
  delivery, the call returns the interrupted \<open>a0\<close>, and the task is out of the handler.
\<close>

theorem sigreturn_restores:
  assumes "action_of t sig w = Some act" "\<not> fatal act sig" "\<not> ignored act sig"
    and "length (t_frame (stask t w)) = TF_WORDS"
    and "sp = sigframe_base (t_frame (stask t w) ! TF_SP)" "sp \<noteq> 0" "user_access_ok sp SIGFRAME_SIZE"
    and "signal_deliver_one t sig w = Some (Inr w1)"
    and "t_sigframe_sp (stask t w2) = t_sigframe_sp (stask t w1)"
    and "\<And>a. unat sp div 8 \<le> a \<Longrightarrow> a \<le> unat sp div 8 + TF_WORDS \<Longrightarrow> umem w2 a = umem w1 a"
    and "signal_do_sigreturn t w2 = (r, w3)"
  shows "t_in_handler (stask t w1) \<and> t_frame (stask t w1) ! TF_A0 = word_of_int sig \<and> t_frame (stask t w1) ! TF_SEPC = sa_handler act
      \<and> t_frame (stask t w1) ! TF_SP = sp \<and> unat sp mod 16 = 0
    \<and> r = Inr (t_frame (stask t w) ! TF_A0) \<and> t_frame (stask t w3) = t_frame (stask t w)
    \<and> t_blocked (stask t w3) = t_blocked (stask t w) \<and> \<not> t_in_handler (stask t w3) \<and> t_sigframe_sp (stask t w3) = 0
    \<and> t_pending (stask t w3) = t_pending (stask t w2) \<and> (\<forall>u. u \<noteq> t \<longrightarrow> stask u w3 = stask u w2) \<and> umem w3 = umem w2"
proof -
  have w1: "w1 = upd_stask t (handler_task act sig)
      (w\<lparr>umem := store_sigframe sp (t_frame (stask t w)) (t_blocked (stask t w)) sig (umem w)\<rparr>)"
    using deliver_one_eq [OF assms(1,4)] assms(2,3,5,7,8) by simp
  have "umem w2 a = store_sigframe sp (t_frame (stask t w)) (t_blocked (stask t w)) sig (umem w) a"
    if "unat sp div 8 \<le> a" "a \<le> unat sp div 8 + TF_WORDS" for a
    using assms(10) [OF that] by (simp add: w1)
  note saved = sigframe_words [OF assms(4) this]
  have sp2: "t_sigframe_sp (stask t w2) = sp" using assms(5,9) by (simp add: w1)
  have w3: "r = Inr (t_frame (stask t w) ! TF_A0)"
    "w3 = upd_stask t (\<lambda>p. p\<lparr>t_frame := t_frame (stask t w), t_blocked := t_blocked (stask t w), t_in_handler := False, t_sigframe_sp := 0\<rparr>) w2"
    using assms(6,7,11) saved by (simp_all add: signal_do_sigreturn_def sp2 Let_def)
  have "unat sp mod 16 = 0" using sigframe_aligned assms(5) by simp
  then show ?thesis using assms(4,5) w3 by (simp add: w1 tf_consts)
qed

lemma sig_world_one:
  "action_of 1 10 sig_world = Some \<lparr>sa_handler = 0x5000, sa_mask = sigbit 9, sa_flags = 0\<rparr>"
  "stask 1 sig_world = (boot_task 1)\<lparr>t_parent := Some 0, t_oncpu := 1, t_pid := 2, t_tgid := 2, t_pgid := 2, t_sigactions := Some 1,
     t_frame := (replicate TF_WORDS 7)[TF_SP := 0x10000], t_pending := sigbit 10 OR sigbit 17\<rparr>"
  "sigframe_base 0x10000 = 0xFEC0" "user_access_ok 0xFEC0 SIGFRAME_SIZE"
  "\<not> fatal \<lparr>sa_handler = 0x5000, sa_mask = m, sa_flags = 0\<rparr> 10" "\<not> ignored \<lparr>sa_handler = 0x5000, sa_mask = m, sa_flags = 0\<rparr> 10"
  by (simp_all add: action_of_def table_of_def stask_def sig_world_def two_cpus_def nth_opt_def sigframe_base_def user_access_ok_def
      USER_SPACE_SIZE_MAX_def SIGFRAME_SIZE_def fatal_def ignored_def signal_consts push_bit_eq_mult)

theorem sigreturn_restores_witness:
  "\<exists>w1. signal_deliver_one 1 10 sig_world = Some (Inr w1)
    \<and> fst (signal_do_sigreturn 1 w1) = Inr 7 \<and> t_blocked (stask 1 (snd (signal_do_sigreturn 1 w1))) = 0"
proof -
  let ?sp = "sigframe_base (t_frame (stask 1 sig_world) ! TF_SP)"
  have len: "length (t_frame (stask 1 sig_world)) = TF_WORDS" and sp: "?sp = 0xFEC0"
    using sig_world_one(3) by (simp_all add: sig_world_one(2) tf_consts del: One_nat_def)
  obtain w1 where w1: "signal_deliver_one 1 10 sig_world = Some (Inr w1)"
    using deliver_one_eq [OF sig_world_one(1) len] sp sig_world_one(4-6) by simp
  obtain r w3 where r: "signal_do_sigreturn 1 w1 = (r, w3)" by fastforce
  have "t_frame (stask 1 sig_world) ! TF_A0 = 7" "t_blocked (stask 1 sig_world) = 0" by (simp_all add: sig_world_one(2) tf_consts boot_task_def del: One_nat_def)
  then show ?thesis
    using sigreturn_restores [OF sig_world_one(1) sig_world_one(5,6) len refl _ _ w1 refl refl r] sp sig_world_one(4) w1 r by simp
qed

section \<open>The loop over the pending signals\<close>

lemma table_of_upd [simp]: "t_sigactions (f (stask t w)) = t_sigactions (stask t w) \<Longrightarrow> table_of t (upd_stask t f w) = table_of t w"
  by (simp add: table_of_def)

lemma table_of_umem [simp]: "table_of t (w\<lparr>umem := m\<rparr>) = table_of t w"
  by (simp add: table_of_def)

lemma handler_task_sigactions [simp]: "t_sigactions (handler_task act sig p) = t_sigactions p"
  by (simp add: handler_task_def Let_def)

text \<open>What a call of the loop may leave behind, for a task whose table of actions is \<open>acts\<close>.\<close>

definition may_kill :: "sigaction list \<Rightarrow> task \<Rightarrow> int \<Rightarrow> bool" where
  "may_kill acts p status \<longleftrightarrow> (\<exists>n \<in> {1..31}. status = int n \<and> bit (t_pending p) n \<and> \<not> bit (t_blocked p) n
     \<and> (fatal (acts ! n) (int n) \<or> \<not> ignored (acts ! n) (int n) \<and> \<not> user_access_ok (sigframe_base (t_frame p ! TF_SP)) SIGFRAME_SIZE))"

definition dropped_ok :: "sigaction list \<Rightarrow> task \<Rightarrow> task \<Rightarrow> nat \<Rightarrow> bool" where
  "dropped_ok acts p q n \<longleftrightarrow> 1 \<le> n \<and> n \<le> 31 \<and> \<not> bit (t_blocked p) n
     \<and> (ignored (acts ! n) (int n) \<or> (\<exists>m. q = handler_task (acts ! n) (int n) (p\<lparr>t_pending := m\<rparr>)))"

definition deliver_post :: "sigaction list \<Rightarrow> nat \<Rightarrow> sigw \<Rightarrow> int + sigw \<Rightarrow> bool" where
  "deliver_post acts t w r = (case r of
     Inl status \<Rightarrow> may_kill acts (stask t w) status
   | Inr w' \<Rightarrow> (\<forall>n. bit (t_pending (stask t w')) n \<longrightarrow> bit (t_pending (stask t w)) n)
       \<and> (\<forall>n. bit (t_pending (stask t w)) n \<and> \<not> bit (t_pending (stask t w')) n \<longrightarrow> dropped_ok acts (stask t w) (stask t w') n)
       \<and> (\<exists>m. stask t w' = (stask t w)\<lparr>t_pending := m\<rparr> \<or> (\<exists>n \<in> {1..31}. stask t w' = handler_task (acts ! n) (int n) ((stask t w)\<lparr>t_pending := m\<rparr>)))
       \<and> (t_in_handler (stask t w') \<or> get_next_signal_locked t w' = Some 0)
       \<and> tables w' = tables w \<and> (\<forall>u. u \<noteq> t \<longrightarrow> stask u w' = stask u w))"

lemma exit_signal_status_small: "0 \<le> sig \<Longrightarrow> sig \<le> 31 \<Longrightarrow> exit_signal_status sig = sig"
proof -
  assume a: "0 \<le> sig" "sig \<le> 31"
  have "sig AND 127 = take_bit 7 sig" by (simp add: take_bit_eq_mask mask_eq_exp_minus_1)
  with a show ?thesis by (simp add: exit_signal_status_def take_bit_eq_mod)
qed

lemma bit_and_not_sigbit: "bit (x AND NOT (sigbit sig)) n \<longleftrightarrow> bit x n \<and> \<not> (n = nat sig \<and> nat sig < 64)"
  using bit_imp_le_length [of x n] by (auto simp: bit_simps bit_sigbit)

lemma clear_pending_task [simp]:
  "stask u (clear_pending_locked t sig w) =
     (if u = t then (stask t w)\<lparr>t_pending := t_pending (stask t w) AND NOT (sigbit sig)\<rparr> else stask u w)"
  "tables (clear_pending_locked t sig w) = tables w" "table_of t (clear_pending_locked t sig w) = table_of t w"
  by (simp_all add: clear_pending_locked_def)

text \<open>Dropping an ignored signal first changes nothing in what the rest of the loop achieves.\<close>

lemma deliver_post_ignored:
  assumes post: "deliver_post acts t (clear_pending_locked t sig w) r"
    and sig: "1 \<le> sig" "sig \<le> 31" "ignored (acts ! nat sig) sig" "\<not> bit (t_blocked (stask t w)) (nat sig)"
  shows "deliver_post acts t w r"
proof (cases r)
  case (Inl status)
  then show ?thesis using post by (auto simp: deliver_post_def may_kill_def bit_and_not_sigbit)
next
  case (Inr w')
  let ?p = "stask t w" and ?c = "stask t (clear_pending_locked t sig w)"
  have less: "\<forall>n. bit (t_pending (stask t w')) n \<longrightarrow> bit (t_pending ?c) n" using post Inr by (simp add: deliver_post_def)
  have drop: "dropped_ok acts ?p (stask t w') n" if "bit (t_pending ?p) n" "\<not> bit (t_pending (stask t w')) n" for n
  proof (cases "n = nat sig")
    case True
    then show ?thesis using sig by (auto simp: dropped_ok_def)
  next
    case False
    with that post Inr have "dropped_ok acts ?c (stask t w') n" by (simp add: deliver_post_def bit_and_not_sigbit)
    then show ?thesis by (simp add: dropped_ok_def)
  qed
  show ?thesis using post Inr less drop by (auto simp: deliver_post_def bit_and_not_sigbit)
qed

lemma deliver_post_handler:
  assumes "1 \<le> sig" "sig \<le> 31" "act = acts ! nat sig" "\<not> bit (t_blocked (stask t w)) (nat sig)"
  shows "deliver_post acts t w (Inr (upd_stask t (handler_task act sig) (w\<lparr>umem := m\<rparr>)))"
proof -
  have e: "(stask t w)\<lparr>t_pending := t_pending (stask t w)\<rparr> = stask t w" by simp
  have "dropped_ok acts (stask t w) (handler_task act sig (stask t w)) n" if "n = nat sig" for n
    using assms that e by (auto simp: dropped_ok_def intro!: exI [of _ "t_pending (stask t w)"])
  moreover have "\<exists>m. \<exists>n \<in> {1..31}. handler_task act sig (stask t w) = handler_task (acts ! n) (int n) ((stask t w)\<lparr>t_pending := m\<rparr>)"
    using assms e by (intro exI [of _ "t_pending (stask t w)"] bexI [of _ "nat sig"]) auto
  ultimately show ?thesis by (auto simp: deliver_post_def bit_and_not_sigbit)
qed

lemma deliver_pending_post:
  assumes "table_of t w = Some tb" "length (actions tb) = nat NSIG" "length (t_frame (stask t w)) = TF_WORDS"
  shows "\<exists>r. signal_deliver_pending t w = Some r \<and> deliver_post (actions tb) t w r"
  using assms
proof (induction t w rule: signal_deliver_pending.induct)
  case (1 t w)
  obtain sig where sig: "get_next_signal_locked t w = Some sig" using "1.prems" by (simp add: get_next_signal_locked_def)
  show ?case
  proof (cases "sig = 0")
    case True
    have "deliver_post (actions tb) t w (Inr w)"
      using sig True by (auto simp: deliver_post_def intro!: exI [of _ "t_pending (stask t w)"])
    then show ?thesis using sig True by (subst signal_deliver_pending.simps) simp
  next
    case False
    from sig have s: "1 \<le> sig" "sig \<le> 31" "bit (t_pending (stask t w)) (nat sig)" "\<not> bit (t_blocked (stask t w)) (nat sig)"
      using "1.prems" deliverable_bits False by (cases rule: next_signal_cases; auto)+
    define act where "act = actions tb ! nat sig"
    have act: "action_of t sig w = Some act"
      using "1.prems" s by (simp add: action_of_def act_def nth_opt_def NSIG_def)
    note loop = signal_deliver_pending.simps [of t w] and one = deliver_one_eq [OF act "1.prems"(3)]
    consider (dies) "fatal act sig \<or> \<not> ignored act sig \<and> \<not> user_access_ok (sigframe_base (t_frame (stask t w) ! TF_SP)) SIGFRAME_SIZE"
      | (drops) "\<not> fatal act sig" "ignored act sig"
      | (handles) "\<not> fatal act sig" "\<not> ignored act sig" "user_access_ok (sigframe_base (t_frame (stask t w) ! TF_SP)) SIGFRAME_SIZE" by blast
    then show ?thesis
    proof cases
      case dies
      then have "signal_deliver_one t sig w = Some (Inl sig)" using one s by (auto simp: exit_signal_status_small ignored_def fatal_def)
      moreover have "may_kill (actions tb) (stask t w) sig"
        unfolding may_kill_def using dies s by (intro bexI [of _ "nat sig"]) (auto simp: act_def)
      ultimately show ?thesis using loop sig False by (simp add: deliver_post_def)
    next
      case drops
      let ?w = "clear_pending_locked t sig w"
      have one': "signal_deliver_one t sig w = Some (Inr ?w)" using one drops by simp
      have ign: "ignored (actions tb ! nat sig) sig" using drops act_def by simp
      have "\<exists>r. signal_deliver_pending t w = Some r \<and> deliver_post (actions tb) t ?w r"
      proof (cases "t_in_handler (stask t ?w)")
        case True
        then have "deliver_post (actions tb) t ?w (Inr ?w)"
          by (auto simp: deliver_post_def intro!: exI [of _ "t_pending (stask t ?w)"])
        then show ?thesis using loop sig False one' True by simp
      next
        case nh: False
        show ?thesis using "1.IH" [OF sig False one' refl nh] "1.prems" loop sig False one' nh by simp
      qed
      then show ?thesis using deliver_post_ignored [OF _ s(1,2) ign s(4)] by blast
    next
      case handles
      then show ?thesis using one loop sig False deliver_post_handler [OF s(1,2) act_def s(4)] by simp
    qed
  qed
qed

text \<open>
  C36: The delivery of pending signals on the way back to user space always ends and loses nothing.
  Either the task is terminated, and then by a signal that was pending and not blocked and whose
  action is to terminate, or which has a handler but no room for its frame on the stack. Or the task
  goes on: no signal has been added; every signal taken out of the pending set was not blocked and is
  either ignored or the one whose handler now runs; apart from that handler's start nothing of the
  task has changed; and either a handler runs or there is nothing more to deliver.
\<close>

theorem deliver_pending_exact:
  assumes "table_of t w = Some tb" "length (actions tb) = nat NSIG" "length (t_frame (stask t w)) = TF_WORDS"
  shows "\<exists>r. signal_deliver_pending t w = Some r \<and> (case r of
     Inl status \<Rightarrow> \<exists>n \<in> {1..31}. status = int n \<and> bit (t_pending (stask t w)) n \<and> \<not> bit (t_blocked (stask t w)) n
       \<and> (fatal (actions tb ! n) (int n) \<or> \<not> ignored (actions tb ! n) (int n)
            \<and> \<not> user_access_ok (sigframe_base (t_frame (stask t w) ! TF_SP)) SIGFRAME_SIZE)
   | Inr w' \<Rightarrow> (\<forall>n. bit (t_pending (stask t w')) n \<longrightarrow> bit (t_pending (stask t w)) n)
       \<and> (\<forall>n. bit (t_pending (stask t w)) n \<and> \<not> bit (t_pending (stask t w')) n \<longrightarrow> 1 \<le> n \<and> n \<le> 31 \<and> \<not> bit (t_blocked (stask t w)) n
            \<and> (ignored (actions tb ! n) (int n) \<or> (\<exists>m. stask t w' = handler_task (actions tb ! n) (int n) ((stask t w)\<lparr>t_pending := m\<rparr>))))
       \<and> (\<exists>m. stask t w' = (stask t w)\<lparr>t_pending := m\<rparr>
            \<or> (\<exists>n \<in> {1..31}. stask t w' = handler_task (actions tb ! n) (int n) ((stask t w)\<lparr>t_pending := m\<rparr>)))
       \<and> (t_in_handler (stask t w') \<or> get_next_signal_locked t w' = Some 0)
       \<and> tables w' = tables w \<and> (\<forall>u. u \<noteq> t \<longrightarrow> stask u w' = stask u w))"
  using deliver_pending_post [OF assms] unfolding deliver_post_def may_kill_def dropped_ok_def .

theorem deliver_pending_exact_witness:
  "\<exists>r. signal_deliver_pending 1 sig_world = Some r \<and> (case r of Inl status \<Rightarrow> status \<in> {1..31} | Inr w' \<Rightarrow> tables w' = tables sig_world)"
proof -
  let ?tb = "\<lparr>actions = (replicate 32 \<lparr>sa_handler = SIG_DFL, sa_mask = 0, sa_flags = 0\<rparr>)
    [10 := \<lparr>sa_handler = 0x5000, sa_mask = sigbit 9, sa_flags = 0\<rparr>], st_refcnt = refcnt_init 1\<rparr>"
  have "table_of 1 sig_world = Some ?tb" by (simp add: table_of_def stask_def sig_world_def)
  moreover have "length (t_frame (stask 1 sig_world)) = TF_WORDS" by (simp add: sig_world_one(2) del: One_nat_def)
  ultimately obtain r where r: "signal_deliver_pending 1 sig_world = Some r" "case r of
     Inl status \<Rightarrow> \<exists>n \<in> {1..31}. status = int n | Inr w' \<Rightarrow> tables w' = tables sig_world"
    using deliver_pending_exact [of 1 sig_world ?tb] by (fastforce simp: NSIG_def split: sum.splits)
  then show ?thesis by (intro exI [of _ r]) (auto split: sum.splits)
qed

section \<open>Signals that cannot be blocked\<close>

text \<open>
  C38: Only one of the two ways to block signals spares \<open>SIGKILL\<close>. \<open>sigprocmask\<close> never leaves it
  in the mask. But the mask that \<open>sigaction\<close> stores with a handler is added to the blocked signals as it
  is: when it holds \<open>SIGKILL\<close>, then after the delivery of a signal to this handler a \<open>SIGKILL\<close> that
  arrives is not taken as long as the mask stays.
\<close>

theorem sigkill_blocked_by_action:
  assumes "signal_do_sigaction t sig (Some act) w = Some (Inr old, w1)" "in_sigset SIGKILL (sa_mask act)"
    and "\<not> fatal act sig" "\<not> ignored act sig" "length (t_frame (stask t w1)) = TF_WORDS"
    and "signal_deliver_one t sig w1 = Some (Inr w2)"
    and "t_blocked (stask t w3) = t_blocked (stask t w2)"
  shows "get_next_signal_locked t w3 \<noteq> Some SIGKILL
    \<and> (\<forall>how m v ob v'. signal_do_sigprocmask t how (Some m) v = (Inr (), ob, v') \<longrightarrow> \<not> in_sigset SIGKILL (t_blocked (stask t v')))"
proof -
  have k: "in_sigset SIGKILL x \<longleftrightarrow> bit x 9" for x using in_sigset_bit [of SIGKILL x] by (simp add: SIGKILL_def)
  from assms(1) obtain tb i where tb: "table_of t w = Some tb" "nat sig < length (actions tb)" "t_sigactions (stask t w) = Some i"
    "w1 = w\<lparr>tables := (tables w)(i := Some (tb\<lparr>actions := (actions tb)[nat sig := act]\<rparr>))\<rparr>"
    by (auto simp: signal_do_sigaction_def set_table_def bind_Some_conv nth_opt_Some_iff split: if_splits)
  then have "action_of t sig w1 = Some act" by (simp add: action_of_def table_of_def nth_opt_def)
  from deliver_one_eq [OF this assms(5)] assms(3,4,6) have "t_blocked (stask t w2) = t_blocked (handler_task act sig (stask t w1))"
    by (auto split: if_splits)
  then have b: "bit (t_blocked (stask t w3)) 9" using assms(2,7) by (simp add: k bit_simps)
  have "get_next_signal_locked t w3 \<noteq> Some SIGKILL"
  proof
    assume "get_next_signal_locked t w3 = Some SIGKILL"
    then show False
    proof (cases rule: next_signal_cases)
      case (some tb)
      then show False using deliverable_bits [of "stask t w3" "actions tb" 9] b by (simp add: SIGKILL_def)
    qed (simp add: SIGKILL_def)
  qed
  moreover have "\<not> bit (x AND NOT (sigbit SIGKILL) AND NOT (sigbit SIGSTOP)) 9" for x
    by (simp add: bit_simps bit_sigbit SIGKILL_def)
  then have "\<not> in_sigset SIGKILL (t_blocked (stask t v'))" if "signal_do_sigprocmask t how (Some m) v = (Inr (), ob, v')" for how m v ob v'
    using that by (auto simp: k signal_do_sigprocmask_def Let_def split: option.splits if_splits)
  ultimately show ?thesis by blast
qed

theorem sigkill_blocked_by_action_witness:
  "\<exists>old w1 w2. signal_do_sigaction 1 10 (Some \<lparr>sa_handler = 0x5000, sa_mask = sigbit 9, sa_flags = 0\<rparr>) sig_world = Some (Inr old, w1)
    \<and> signal_deliver_one 1 10 w1 = Some (Inr w2) \<and> get_next_signal_locked 1 (set_pending 1 SIGKILL w2) \<noteq> Some SIGKILL"
proof -
  let ?act = "\<lparr>sa_handler = 0x5000, sa_mask = sigbit 9, sa_flags = 0\<rparr>"
  have "\<exists>tb. table_of 1 sig_world = Some tb \<and> length (actions tb) = 32 \<and> t_sigactions (stask 1 sig_world) = Some 1"
    by (simp add: table_of_def stask_def sig_world_def)
  then obtain tb where tb: "table_of 1 sig_world = Some tb" "length (actions tb) = 32" "t_sigactions (stask 1 sig_world) = Some 1" by blast
  define w1 where "w1 = sig_world\<lparr>tables := (tables sig_world)(1 := Some (tb\<lparr>actions := (actions tb)[10 := ?act]\<rparr>))\<rparr>"
  have w1: "signal_do_sigaction 1 10 (Some ?act) sig_world = Some (Inr (actions tb ! 10), w1)" "stask 1 w1 = stask 1 sig_world"
    "action_of 1 10 w1 = Some ?act"
    using tb by (simp_all add: signal_do_sigaction_def sig_valid_def signal_consts nth_opt_def set_table_def w1_def action_of_def table_of_def)
  have len: "length (t_frame (stask 1 w1)) = TF_WORDS" and sp: "t_frame (stask 1 w1) ! TF_SP = 0x10000"
    by (simp_all add: w1(2) sig_world_one(2) tf_consts del: One_nat_def)
  obtain w2 where w2: "signal_deliver_one 1 10 w1 = Some (Inr w2)"
    using deliver_one_eq [OF w1(3) len] sp sig_world_one(3-6) by auto
  have "in_sigset SIGKILL (sa_mask ?act)" using in_sigset_bit [of SIGKILL "sigbit 9"] by (simp add: SIGKILL_def bit_sigbit)
  from sigkill_blocked_by_action [OF w1(1) this sig_world_one(5,6) len w2, of "set_pending 1 SIGKILL w2"]
  have "get_next_signal_locked 1 (set_pending 1 SIGKILL w2) \<noteq> Some SIGKILL" by (simp add: set_pending_def)
  then show ?thesis using w1(1) w2 by blast
qed

end
