(* ===== verification/Files.thy ===== *)
theory Files
  imports Refcnt
begin

text \<open>
  Open files (\<open>src/src/fs/file.c\<close>). An open file is an object of the file slab cache with a
  reference count; the store maps the identity of every live object to its fields, and a freed
  object is absent, so that a call on a freed file has no result. The functions behind
  \<open>file->ops\<close> and the path references belong to other parts of the kernel: they are the fields
  of a record \<open>vfs\<close> that the operations take as an argument, and they act on the rest of the
  kernel's state, of any type \<open>'d\<close>.
\<close>

section \<open>Model\<close>

type_synonym fid = nat

record fs_path =
  mnt :: "nat option"
  dentry :: "nat option"

record fs_file =
  f_count :: refcnt_t
  f_path :: fs_path
  f_inode :: "nat option"
  f_ops :: nat
  f_mode :: u32
  f_anon :: bool
  f_pos :: int
  f_private_data :: "nat option"
  f_dev_private :: "nat option"

definition FMODE_READ :: u32 where "FMODE_READ = 1"
definition FMODE_WRITE :: u32 where "FMODE_WRITE = 2"
definition FMODE_DIR :: u32 where "FMODE_DIR = 4"

definition POLLIN :: u32 where "POLLIN = 0x0001"
definition POLLOUT :: u32 where "POLLOUT = 0x0004"
definition POLLERR :: u32 where "POLLERR = 0x0008"
definition POLLHUP :: u32 where "POLLHUP = 0x0010"
definition POLLNVAL :: u32 where "POLLNVAL = 0x0020"
definition POLLRDNORM :: u32 where "POLLRDNORM = 0x0040"
definition POLLWRNORM :: u32 where "POLLWRNORM = 0x0100"

text \<open>
  The operations table of a file: \<open>open\<close> may refuse, and may set the driver's fields of the
  file; \<open>read\<close> and \<open>write\<close> return the bytes or an error with the new position.
\<close>

record 'd fs_file_ops =
  fop_open :: "fs_file \<Rightarrow> 'd \<Rightarrow> ((errno + fs_file) \<times> 'd) option"
  fop_release :: "(fs_file \<Rightarrow> 'd \<Rightarrow> 'd option) option"
  fop_read :: "fs_file \<Rightarrow> nat \<Rightarrow> int \<Rightarrow> 'd \<Rightarrow> ((errno + u8 list) \<times> int \<times> 'd) option"
  fop_write :: "fs_file \<Rightarrow> u8 list \<Rightarrow> int \<Rightarrow> 'd \<Rightarrow> ((errno + nat) \<times> int \<times> 'd) option"
  fop_llseek :: "fs_file \<Rightarrow> int \<Rightarrow> int \<Rightarrow> 'd \<Rightarrow> (errno + int)"
  fop_poll :: "(fs_file \<Rightarrow> u32 \<Rightarrow> 'd \<Rightarrow> u32) option"
  fop_ioctl :: "(fs_file \<Rightarrow> u32 \<Rightarrow> u64 \<Rightarrow> 'd \<Rightarrow> ((errno + int) \<times> 'd) option) option"

record 'd vfs =
  ops_of :: "nat \<Rightarrow> 'd fs_file_ops"
  inode_fops :: "nat \<Rightarrow> 'd \<Rightarrow> nat"
  dentry_inode :: "nat option \<Rightarrow> 'd \<Rightarrow> nat option"
  path_get :: "fs_path \<Rightarrow> 'd \<Rightarrow> 'd option"
  path_put :: "fs_path \<Rightarrow> 'd \<Rightarrow> 'd option"
  remove_privs :: "fs_file \<Rightarrow> 'd \<Rightarrow> 'd option"

record 'd file_world =
  files :: "fid \<Rightarrow> fs_file option"
  rest :: 'd

text \<open>
  \<open>slab_alloc\<close> is the argument \<open>obj\<close>: the object it returns, or \<open>None\<close> when it fails.
\<close>

definition fs_file_alloc :: "'d vfs \<Rightarrow> fid option \<Rightarrow> fs_path \<Rightarrow> u32 \<Rightarrow> 'd file_world
    \<Rightarrow> ((errno + fid) \<times> 'd file_world) option" where
  "fs_file_alloc v obj p m w = (case dentry_inode v (dentry p) (rest w) of
     None \<Rightarrow> Some (Inl ENOENT, w)
   | Some ino \<Rightarrow> (case obj of
       None \<Rightarrow> Some (Inl ENOMEM, w)
     | Some f \<Rightarrow> do {
         d \<leftarrow> path_get v p (rest w);
         let file = \<lparr>f_count = refcnt_init 1, f_path = p, f_inode = Some ino, f_ops = inode_fops v ino d,
                     f_mode = m, f_anon = False, f_pos = 0, f_private_data = None, f_dev_private = None\<rparr>;
         (r, d) \<leftarrow> fop_open (ops_of v (f_ops file)) file d;
         (case r of
            Inl err \<Rightarrow> do { d \<leftarrow> path_put v p d; Some (Inl err, w\<lparr>rest := d\<rparr>) }
          | Inr file \<Rightarrow> Some (Inr f, w\<lparr>files := (files w)(f \<mapsto> file), rest := d\<rparr>)) }))"

definition fs_file_get :: "fid \<Rightarrow> 'd file_world \<Rightarrow> 'd file_world option" where
  "fs_file_get f w = do {
     file \<leftarrow> files w f;
     Some (w\<lparr>files := (files w)(f \<mapsto> file\<lparr>f_count := refcnt_inc (f_count file)\<rparr>)\<rparr>) }"

definition fs_file_alloc_anon :: "nat option \<Rightarrow> nat option \<Rightarrow> fid option \<Rightarrow> 'd file_world
    \<Rightarrow> (errno + fid) \<times> 'd file_world" where
  "fs_file_alloc_anon fops priv obj w = (case fops of
     None \<Rightarrow> (Inl EINVAL, w)
   | Some op \<Rightarrow> (case obj of
       None \<Rightarrow> (Inl ENOMEM, w)
     | Some f \<Rightarrow> (Inr f, w\<lparr>files := (files w)(f \<mapsto>
         \<lparr>f_count = refcnt_init 1, f_path = \<lparr>mnt = None, dentry = None\<rparr>, f_inode = None, f_ops = op,
          f_mode = FMODE_READ OR FMODE_WRITE, f_anon = True, f_pos = 0, f_private_data = priv,
          f_dev_private = None\<rparr>)\<rparr>)))"

definition fs_file_put :: "'d vfs \<Rightarrow> fid \<Rightarrow> 'd file_world \<Rightarrow> 'd file_world option" where
  "fs_file_put v f w = do {
     file \<leftarrow> files w f;
     let (n, c) = refcnt_dec_fetch (f_count file);
     let file = file\<lparr>f_count := c\<rparr>;
     (if n > 0 then Some (w\<lparr>files := (files w)(f \<mapsto> file)\<rparr>)
      else do {
        d \<leftarrow> (case fop_release (ops_of v (f_ops file)) of
               None \<Rightarrow> Some (rest w)
             | Some release \<Rightarrow> release file (rest w));
        d \<leftarrow> (if \<not> f_anon file then path_put v (f_path file) d else Some d);
        Some (w\<lparr>files := (files w)(f := None), rest := d\<rparr>) }) }"

definition fs_file_lseek :: "'d vfs \<Rightarrow> fid \<Rightarrow> int \<Rightarrow> int \<Rightarrow> 'd file_world
    \<Rightarrow> ((errno + int) \<times> 'd file_world) option" where
  "fs_file_lseek v f len whence w = do {
     file \<leftarrow> files w f;
     (case fop_llseek (ops_of v (f_ops file)) file len whence (rest w) of
        Inl err \<Rightarrow> Some (Inl err, w)
      | Inr r \<Rightarrow> Some (Inr r, if r \<ge> 0 then w\<lparr>files := (files w)(f \<mapsto> file\<lparr>f_pos := r\<rparr>)\<rparr> else w)) }"

definition fs_file_read :: "'d vfs \<Rightarrow> fid \<Rightarrow> nat \<Rightarrow> 'd file_world
    \<Rightarrow> ((errno + u8 list) \<times> 'd file_world) option" where
  "fs_file_read v f n w = do {
     file \<leftarrow> files w f;
     (r, p, d) \<leftarrow> fop_read (ops_of v (f_ops file)) file n (f_pos file) (rest w);
     Some (r, w\<lparr>files := (files w)(f \<mapsto> file\<lparr>f_pos := p\<rparr>), rest := d\<rparr>) }"

definition fs_file_write :: "'d vfs \<Rightarrow> fid \<Rightarrow> u8 list \<Rightarrow> 'd file_world
    \<Rightarrow> ((errno + nat) \<times> 'd file_world) option" where
  "fs_file_write v f buf w = do {
     file \<leftarrow> files w f;
     d \<leftarrow> (if f_anon file \<or> f_inode file = None then Some (rest w) else remove_privs v file (rest w));
     (r, p, d) \<leftarrow> fop_write (ops_of v (f_ops file)) file buf (f_pos file) d;
     Some (r, w\<lparr>files := (files w)(f \<mapsto> file\<lparr>f_pos := p\<rparr>), rest := d\<rparr>) }"

definition fs_file_ioctl :: "'d vfs \<Rightarrow> fid \<Rightarrow> u32 \<Rightarrow> u64 \<Rightarrow> 'd file_world
    \<Rightarrow> ((errno + int) \<times> 'd file_world) option" where
  "fs_file_ioctl v f cmd arg w = do {
     file \<leftarrow> files w f;
     (case fop_ioctl (ops_of v (f_ops file)) of
        None \<Rightarrow> Some (Inl ENOTTY, w)
      | Some ioctl \<Rightarrow> do { (r, d) \<leftarrow> ioctl file cmd arg (rest w); Some (r, w\<lparr>rest := d\<rparr>) }) }"

definition fs_file_poll :: "'d vfs \<Rightarrow> fid option \<Rightarrow> u32 \<Rightarrow> 'd file_world \<Rightarrow> u32 option" where
  "fs_file_poll v fo events w = (case fo of
     None \<Rightarrow> Some POLLNVAL
   | Some f \<Rightarrow> do {
       file \<leftarrow> files w f;
       (case fop_poll (ops_of v (f_ops file)) of
          Some poll \<Rightarrow> Some (poll file events (rest w))
        | None \<Rightarrow> Some ((POLLIN OR POLLOUT) AND (events OR POLLERR OR POLLHUP))) })"

section \<open>Counting references to files\<close>

text \<open>The references a live file has; a freed file has none.\<close>

definition file_refs :: "'d file_world \<Rightarrow> fid \<Rightarrow> nat" where
  "file_refs w f = (case files w f of None \<Rightarrow> 0 | Some file \<Rightarrow> unat (counter (f_count file)))"

text \<open>
  A live file has a reference, so that it is freed with its last one, and it is a file its driver
  can release.
\<close>

definition live_counted :: "(fs_file \<Rightarrow> bool) \<Rightarrow> 'd file_world \<Rightarrow> bool" where
  "live_counted good w \<longleftrightarrow>
     (\<forall>f file. files w f = Some file \<longrightarrow> 0 < unat (counter (f_count file)) \<and> good file)"

lemma refs_live: "0 < file_refs w f \<Longrightarrow> \<exists>file. files w f = Some file"
  by (auto simp: file_refs_def split: option.splits)

lemma live_iff_refs: "live_counted good w \<Longrightarrow> files w f \<noteq> None \<longleftrightarrow> 0 < file_refs w f"
  by (auto simp: file_refs_def live_counted_def split: option.splits)

text \<open>
  What the file layer needs of the parts behind it: releasing a file of the driver's kind and
  dropping a path reference come back, and the kind does not depend on the reference count.
\<close>

locale file_drivers =
  fixes v :: "'d vfs" and good :: "fs_file \<Rightarrow> bool"
  assumes release_returns:
      "good fl \<Longrightarrow> fop_release (ops_of v (f_ops fl)) = Some rel \<Longrightarrow> \<exists>d'. rel fl d = Some d'"
    and path_put_returns: "\<exists>d'. path_put v p d = Some d'"
    and good_count: "good (fl\<lparr>f_count := c\<rparr>) = good fl"
begin

lemma fs_file_get_refs:
  fixes w :: "'d file_world"
  assumes "live_counted good w" "0 < file_refs w f" "file_refs w f + 1 < 2 ^ 32"
  shows "\<exists>w'. fs_file_get f w = Some w' \<and> live_counted good w' \<and> rest w' = rest w
    \<and> file_refs w' = (file_refs w)(f := file_refs w f + 1)"
proof -
  obtain fl where f: "files w f = Some fl" using refs_live assms(2) by blast
  with assms(3) have "unat (counter (refcnt_inc (f_count fl))) = unat (counter (f_count fl)) + 1"
    by (intro unat_inc) (simp add: file_refs_def)
  with f assms(1) show ?thesis
    by (auto simp: fs_file_get_def live_counted_def file_refs_def fun_eq_iff good_count)
qed

lemma fs_file_put_refs:
  assumes "live_counted good w" "0 < file_refs w f"
  shows "\<exists>w'. fs_file_put v f w = Some w' \<and> live_counted good w'
    \<and> file_refs w' = (file_refs w)(f := file_refs w f - 1)
    \<and> (1 < file_refs w f \<longrightarrow> rest w' = rest w) \<and> (file_refs w f = 1 \<longrightarrow> files w' f = None)"
proof -
  obtain fl where f: "files w f = Some fl" using refs_live assms(2) by blast
  obtain n c where nc: "refcnt_dec_fetch (f_count fl) = (n, c)" by fastforce
  have n: "unat n = file_refs w f - 1" "unat (counter c) = file_refs w f - 1"
    using unat_dec_fetch [of "f_count fl"] nc f by (simp_all add: file_refs_def)
  show ?thesis
  proof (cases "0 < n")
    case True
    then have "0 < unat n" by (simp add: word_less_nat_alt)
    with True f nc n assms(1) show ?thesis
      by (auto simp: fs_file_put_def live_counted_def file_refs_def fun_eq_iff good_count)
  next
    case False
    then have one: "file_refs w f = 1" using n(1) assms(2) by (simp add: word_less_nat_alt)
    let ?fl = "fl\<lparr>f_count := c\<rparr>"
    obtain d1 where d1: "(case fop_release (ops_of v (f_ops fl)) of None \<Rightarrow> Some (rest w)
        | Some release \<Rightarrow> release ?fl (rest w)) = Some d1"
      using release_returns [of ?fl _ "rest w"] f assms(1)
      by (cases "fop_release (ops_of v (f_ops fl))") (auto simp: good_count live_counted_def)
    obtain d2 where d2: "(if \<not> f_anon fl then path_put v (f_path fl) d1 else Some d1) = Some d2"
      using path_put_returns [of "f_path fl" d1] by (cases "f_anon fl") auto
    have "fs_file_put v f w = Some (w\<lparr>files := (files w)(f := None), rest := d2\<rparr>)"
      using f nc False d1 d2 by (cases "f_anon fl") (simp_all add: fs_file_put_def)
    with one assms(1) show ?thesis
      by (auto simp: live_counted_def file_refs_def fun_eq_iff)
  qed
qed

end

end
