(* ===== verification/Fdtable.thy ===== *)
theory Fdtable
  imports Files Slots "HOL-Library.Multiset"
begin

text \<open>
  File descriptor tables (\<open>src/src/fs/fdtable.c\<close>). A table is an array of \<open>OPEN_MAX\<close>
  slots, each empty or holding one reference to an open file. Every operation is one function on
  the table and the store of open files; the table's spinlock makes the part under it one step,
  and the references dropped after unlocking are dropped at the end of the step. A descriptor
  argument is an \<open>int\<close>, as in the code, because user space passes it.
\<close>

section \<open>Model\<close>

definition OPEN_MAX :: nat where "OPEN_MAX = 64"

record file_desc_table =
  slots :: "fid option list"
  tref :: refcnt_t

definition fd_valid :: "int \<Rightarrow> bool" where
  "fd_valid fd \<longleftrightarrow> \<not> (fd < 0 \<or> fd \<ge> int OPEN_MAX)"

text \<open>\<open>fdtable_alloc\<close>: a zeroed table; the argument is whether \<open>kzalloc\<close> succeeded.\<close>

definition fdtable_alloc :: "bool \<Rightarrow> file_desc_table option" where
  "fdtable_alloc mem =
     (if mem then Some \<lparr>slots = replicate OPEN_MAX None, tref = refcnt_init 1\<rparr> else None)"

definition fdtable_get :: "file_desc_table \<Rightarrow> file_desc_table" where
  "fdtable_get t = t\<lparr>tref := refcnt_inc (tref t)\<rparr>"

definition put_slot :: "'d vfs \<Rightarrow> fid option \<Rightarrow> 'd file_world \<Rightarrow> 'd file_world option" where
  "put_slot v x w = (case x of None \<Rightarrow> Some w | Some f \<Rightarrow> fs_file_put v f w)"

definition get_slot :: "fid option \<Rightarrow> 'd file_world \<Rightarrow> 'd file_world option" where
  "get_slot x w = (case x of None \<Rightarrow> Some w | Some f \<Rightarrow> fs_file_get f w)"

text \<open>The draining loop of \<open>fdtable_close_all\<close> and of the last \<open>fdtable_put\<close>, from slot \<open>i\<close> on.\<close>

function drain_from :: "'d vfs \<Rightarrow> nat \<Rightarrow> file_desc_table \<Rightarrow> 'd file_world
    \<Rightarrow> (file_desc_table \<times> 'd file_world) option" where
  "drain_from v i t w =
     (if i \<ge> OPEN_MAX then Some (t, w)
      else do {
        x \<leftarrow> nth_opt (slots t) i;
        w \<leftarrow> put_slot v x w;
        drain_from v (Suc i) (t\<lparr>slots := (slots t)[i := None]\<rparr>) w })"
  by pat_completeness auto
termination
  by (relation "measure (\<lambda>(v, i, t, w). OPEN_MAX - i)") auto

declare drain_from.simps [simp del]

definition fdtable_close_all :: "'d vfs \<Rightarrow> file_desc_table \<Rightarrow> 'd file_world
    \<Rightarrow> (file_desc_table \<times> 'd file_world) option" where
  "fdtable_close_all v t w = drain_from v 0 t w"

text \<open>The result is \<open>None\<close> once the table has been freed.\<close>

definition fdtable_put :: "'d vfs \<Rightarrow> file_desc_table \<Rightarrow> 'd file_world
    \<Rightarrow> (file_desc_table option \<times> 'd file_world) option" where
  "fdtable_put v t w =
     (let (n, c) = refcnt_dec_fetch (tref t); t = t\<lparr>tref := c\<rparr> in
      if n > 0 then Some (Some t, w)
      else do { (t, w) \<leftarrow> drain_from v 0 t w; Some (None, w) })"

function copy_from :: "'d vfs \<Rightarrow> nat \<Rightarrow> file_desc_table \<Rightarrow> file_desc_table \<Rightarrow> 'd file_world
    \<Rightarrow> (file_desc_table \<times> 'd file_world) option" where
  "copy_from v i dst src w =
     (if i \<ge> OPEN_MAX then Some (dst, w)
      else do {
        x \<leftarrow> nth_opt (slots src) i;
        w \<leftarrow> get_slot x w;
        old \<leftarrow> nth_opt (slots dst) i;
        w \<leftarrow> put_slot v old w;
        copy_from v (Suc i) (dst\<lparr>slots := (slots dst)[i := x]\<rparr>) src w })"
  by pat_completeness auto
termination
  by (relation "measure (\<lambda>(v, i, dst, src, w). OPEN_MAX - i)") auto

declare copy_from.simps [simp del]

definition fdtable_copy :: "'d vfs \<Rightarrow> file_desc_table \<Rightarrow> file_desc_table \<Rightarrow> 'd file_world
    \<Rightarrow> (file_desc_table \<times> 'd file_world) option" where
  "fdtable_copy v dst src w = copy_from v 0 dst src w"

text \<open>The loop that looks for the first empty slot.\<close>

fun free_slot :: "nat \<Rightarrow> fid option list \<Rightarrow> nat option" where
  "free_slot i [] = None"
| "free_slot i (x # xs) = (if x = None then Some i else free_slot (Suc i) xs)"

definition fdtable_alloc_fd :: "file_desc_table \<Rightarrow> fid \<Rightarrow> (errno + nat) \<times> file_desc_table" where
  "fdtable_alloc_fd t f = (case free_slot 0 (slots t) of
     None \<Rightarrow> (Inl EMFILE, t)
   | Some i \<Rightarrow> (Inr i, t\<lparr>slots := (slots t)[i := Some f]\<rparr>))"

definition fdtable_close_fd :: "'d vfs \<Rightarrow> file_desc_table \<Rightarrow> int \<Rightarrow> 'd file_world
    \<Rightarrow> ((errno + unit) \<times> file_desc_table \<times> 'd file_world) option" where
  "fdtable_close_fd v t fd w =
     (if \<not> fd_valid fd then Some (Inl EBADF, t, w)
      else do {
        x \<leftarrow> nth_opt (slots t) (nat fd);
        (case x of
           None \<Rightarrow> Some (Inl EBADF, t, w)
         | Some f \<Rightarrow> do {
             w \<leftarrow> fs_file_put v f w;
             Some (Inr (), t\<lparr>slots := (slots t)[nat fd := None]\<rparr>, w) }) })"

definition fdtable_get_file :: "file_desc_table \<Rightarrow> int \<Rightarrow> 'd file_world
    \<Rightarrow> ((errno + fid) \<times> 'd file_world) option" where
  "fdtable_get_file t fd w =
     (if \<not> fd_valid fd then Some (Inl EBADF, w)
      else do {
        x \<leftarrow> nth_opt (slots t) (nat fd);
        (case x of
           None \<Rightarrow> Some (Inl EBADF, w)
         | Some f \<Rightarrow> do { w \<leftarrow> fs_file_get f w; Some (Inr f, w) }) })"

definition fdtable_dup_fd :: "file_desc_table \<Rightarrow> int \<Rightarrow> 'd file_world
    \<Rightarrow> ((errno + nat) \<times> file_desc_table \<times> 'd file_world) option" where
  "fdtable_dup_fd t fd w =
     (if \<not> fd_valid fd then Some (Inl EBADF, t, w)
      else do {
        x \<leftarrow> nth_opt (slots t) (nat fd);
        (case x of
           None \<Rightarrow> Some (Inl EBADF, t, w)
         | Some f \<Rightarrow> (case free_slot 0 (slots t) of
             None \<Rightarrow> Some (Inl EMFILE, t, w)
           | Some newfd \<Rightarrow> do {
               w \<leftarrow> fs_file_get f w;
               Some (Inr newfd, t\<lparr>slots := (slots t)[newfd := Some f]\<rparr>, w) })) })"

definition fdtable_dup_fd2 :: "'d vfs \<Rightarrow> file_desc_table \<Rightarrow> int \<Rightarrow> int \<Rightarrow> 'd file_world
    \<Rightarrow> ((errno + unit) \<times> file_desc_table \<times> 'd file_world) option" where
  "fdtable_dup_fd2 v t oldfd newfd w =
     (if \<not> fd_valid oldfd \<or> \<not> fd_valid newfd then Some (Inl EBADF, t, w)
      else do {
        x \<leftarrow> nth_opt (slots t) (nat oldfd);
        y \<leftarrow> nth_opt (slots t) (nat newfd);
        (case x of
           None \<Rightarrow> Some (Inl EBADF, t, w)
         | Some f \<Rightarrow>
             (if y = Some f then Some (Inr (), t, w)
              else do {
                w \<leftarrow> fs_file_get f w;
                w \<leftarrow> put_slot v y w;
                Some (Inr (), t\<lparr>slots := (slots t)[nat newfd := Some f]\<rparr>, w) })) })"

section \<open>Descriptors\<close>

definition table_ok :: "file_desc_table \<Rightarrow> bool" where
  "table_ok t \<longleftrightarrow> length (slots t) = OPEN_MAX"

definition used_fds :: "file_desc_table \<Rightarrow> nat set" where
  "used_fds t = {i. i < OPEN_MAX \<and> slots t ! i \<noteq> None}"

lemma free_slot_None: "free_slot k xs = None \<longleftrightarrow> None \<notin> set xs"
  by (induction k xs rule: free_slot.induct) auto

lemma free_slot_Some:
  "free_slot k xs = Some i \<Longrightarrow> k \<le> i \<and> i - k < length xs \<and> xs ! (i - k) = None \<and> (\<forall>j < i - k. xs ! j \<noteq> None)"
proof (induction k xs rule: free_slot.induct)
  case (2 k x xs)
  show ?case
  proof (cases "x = None")
    case False
    with 2 have "Suc k \<le> i \<and> i - Suc k < length xs \<and> xs ! (i - Suc k) = None
      \<and> (\<forall>j < i - Suc k. xs ! j \<noteq> None)" by simp
    moreover from this have "i - k = Suc (i - Suc k)" by linarith
    ultimately show ?thesis using False by (auto simp: nth_Cons split: nat.splits)
  qed (use 2 in simp)
qed simp

lemma free_slot_0:
  assumes "table_ok t" "free_slot 0 (slots t) = Some i"
  shows "i < OPEN_MAX" "slots t ! i = None" "{0..<i} \<subseteq> used_fds t" "i \<notin> used_fds t"
  using free_slot_Some [OF assms(2)] assms(1) by (auto simp: table_ok_def used_fds_def)

lemma used_fds_upd:
  "table_ok t \<Longrightarrow> i < OPEN_MAX \<Longrightarrow>
   used_fds (t\<lparr>slots := (slots t)[i := x]\<rparr>) = (if x = None then used_fds t - {i} else insert i (used_fds t))"
  by (auto simp: used_fds_def table_ok_def nth_list_update)

lemma table_ok_upd [simp]: "table_ok (t\<lparr>slots := (slots t)[i := x]\<rparr>) = table_ok t"
  by (simp add: table_ok_def)

text \<open>
  The descriptor side of the table is a lowest-first slot allocator: \<open>fdtable_alloc_fd\<close> on some
  file takes a slot, closing a descriptor gives it back.
\<close>

definition take_fd :: "fid \<Rightarrow> file_desc_table \<Rightarrow> (nat option \<times> file_desc_table) option" where
  "take_fd f t = (case fdtable_alloc_fd t f of
     (Inl e, t) \<Rightarrow> Some (None, t) | (Inr i, t) \<Rightarrow> Some (Some i, t))"

definition drop_fd :: "file_desc_table \<Rightarrow> nat \<Rightarrow> file_desc_table option" where
  "drop_fd t i = do { ys \<leftarrow> upd_opt (slots t) i None; Some (t\<lparr>slots := ys\<rparr>) }"

interpretation fds: slot_allocator "take_fd f" drop_fd used_fds OPEN_MAX table_ok for f
proof unfold_locales
  fix t assume t: "table_ok t" "{0..<OPEN_MAX} \<subseteq> used_fds t"
  then have "free_slot 0 (slots t) = None"
    by (auto simp: free_slot_None used_fds_def table_ok_def in_set_conv_nth)
  then show "take_fd f t = Some (None, t)" by (simp add: take_fd_def fdtable_alloc_fd_def)
next
  fix t assume t: "table_ok t" "\<not> {0..<OPEN_MAX} \<subseteq> used_fds t"
  then have "free_slot 0 (slots t) \<noteq> None"
    by (auto simp: free_slot_None used_fds_def table_ok_def in_set_conv_nth)
  then obtain i where i: "free_slot 0 (slots t) = Some i" by blast
  with free_slot_0 [OF t(1) i] t(1)
  show "\<exists>b s'. take_fd f t = Some (Some b, s') \<and> table_ok s' \<and> b < OPEN_MAX \<and> b \<notin> used_fds t
      \<and> {0..<b} \<subseteq> used_fds t \<and> used_fds s' = insert b (used_fds t)"
    by (simp add: take_fd_def fdtable_alloc_fd_def used_fds_upd)
next
  fix t b assume "table_ok t" "b < OPEN_MAX" "b \<in> used_fds t"
  then show "\<exists>s'. drop_fd t b = Some s' \<and> table_ok s' \<and> used_fds s' = used_fds t - {b}"
    by (simp add: drop_fd_def upd_opt_def used_fds_upd) (simp add: table_ok_def)
qed

section \<open>References\<close>

definition slot_refs :: "file_desc_table \<Rightarrow> fid \<Rightarrow> nat" where
  "slot_refs t f = count (mset (slots t)) (Some f)"

text \<open>
  The reference counts are exact: every file has one reference for each slot it is in and for
  each reference \<open>h\<close> says is held elsewhere (by other tables and by running system calls).
\<close>

definition counted :: "(fs_file \<Rightarrow> bool) \<Rightarrow> file_desc_table \<Rightarrow> (fid \<Rightarrow> nat) \<Rightarrow> 'd file_world \<Rightarrow> bool" where
  "counted good t h w \<longleftrightarrow> table_ok t \<and> live_counted good w \<and> (\<forall>f. file_refs w f = slot_refs t f + h f)"

lemma slot_refs_upd:
  assumes "table_ok t" "i < OPEN_MAX"
  shows "slot_refs (t\<lparr>slots := (slots t)[i := x]\<rparr>) f + (if slots t ! i = Some f then 1 else 0)
    = slot_refs t f + (if x = Some f then 1 else 0)"
proof -
  have i: "i < length (slots t)" using assms by (simp add: table_ok_def)
  then have "slots t ! i \<in># mset (slots t)" by simp
  then have "slots t ! i = Some f \<Longrightarrow> 0 < count (mset (slots t)) (Some f)" by auto
  with i show ?thesis by (auto simp: slot_refs_def mset_update)
qed

lemma slot_refs_pos: "table_ok t \<Longrightarrow> i < OPEN_MAX \<Longrightarrow> slots t ! i = Some f \<Longrightarrow> 0 < slot_refs t f"
  by (simp add: slot_refs_def table_ok_def) (metis nth_mem)

lemma slot_refs_le: "table_ok t \<Longrightarrow> slot_refs t f \<le> OPEN_MAX"
  by (simp add: slot_refs_def table_ok_def count_mset) (metis count_le_length)

lemma counted_fill:
  assumes "counted good t h w" "i < OPEN_MAX" "slots t ! i = None" "0 < h f"
  shows "counted good (t\<lparr>slots := (slots t)[i := Some f]\<rparr>) (h(f := h f - 1)) w"
  using assms slot_refs_upd [of t i "Some f"] by (auto simp: counted_def)

lemma counted_clear:
  assumes "counted good t h w" "i < OPEN_MAX" "slots t ! i = Some f"
  shows "counted good (t\<lparr>slots := (slots t)[i := None]\<rparr>) (h(f := h f + 1)) w"
proof -
  have t: "table_ok t" using assms(1) by (simp add: counted_def)
  have "slot_refs t g + h g = slot_refs (t\<lparr>slots := (slots t)[i := None]\<rparr>) g + (h(f := h f + 1)) g" for g
    using slot_refs_upd [OF t assms(2), of None g] assms(3) by (cases "g = f") auto
  with assms(1) show ?thesis by (simp add: counted_def)
qed

text \<open>The callers of a table, one call after another, with the references they hold.\<close>

datatype fd_op = AllocFd fid | CloseFd int | GetFile int | PutFile fid | DupFd int | Dup2 int int | CloseAll

type_synonym 'd fd_state = "file_desc_table \<times> fid multiset \<times> 'd file_world"

text \<open>A caller passes a file only when it holds a reference to it; otherwise the call is not made.\<close>

fun fd_step :: "'d vfs \<Rightarrow> fd_op \<Rightarrow> 'd fd_state \<Rightarrow> 'd fd_state option" where
  "fd_step v (AllocFd f) (t, held, w) =
     (if f \<in># held then (case fdtable_alloc_fd t f of
        (Inl e, t) \<Rightarrow> Some (t, held, w) | (Inr i, t) \<Rightarrow> Some (t, held - {#f#}, w))
      else Some (t, held, w))"
| "fd_step v (CloseFd fd) (t, held, w) = do { (r, t, w) \<leftarrow> fdtable_close_fd v t fd w; Some (t, held, w) }"
| "fd_step v (GetFile fd) (t, held, w) = do {
     (r, w) \<leftarrow> fdtable_get_file t fd w;
     Some (t, (case r of Inl e \<Rightarrow> held | Inr f \<Rightarrow> add_mset f held), w) }"
| "fd_step v (PutFile f) (t, held, w) =
     (if f \<in># held then do { w \<leftarrow> fs_file_put v f w; Some (t, held - {#f#}, w) } else Some (t, held, w))"
| "fd_step v (DupFd fd) (t, held, w) = do { (r, t, w) \<leftarrow> fdtable_dup_fd t fd w; Some (t, held, w) }"
| "fd_step v (Dup2 fd fd') (t, held, w) = do { (r, t, w) \<leftarrow> fdtable_dup_fd2 v t fd fd' w; Some (t, held, w) }"
| "fd_step v CloseAll (t, held, w) = do { (t, w) \<leftarrow> fdtable_close_all v t w; Some (t, held, w) }"

fun fd_run :: "'d vfs \<Rightarrow> fd_op list \<Rightarrow> 'd fd_state \<Rightarrow> 'd fd_state option" where
  "fd_run v [] s = Some s"
| "fd_run v (op # ops) s = do { s \<leftarrow> fd_step v op s; fd_run v ops s }"

context file_drivers
begin

lemma counted_get:
  fixes w :: "'d file_world"
  assumes "counted good t h w" "0 < slot_refs t f + h f" "h f + OPEN_MAX + 1 < 2 ^ 32"
  shows "\<exists>w'. fs_file_get f w = Some w' \<and> counted good t (h(f := h f + 1)) w'"
proof -
  have "slot_refs t f \<le> OPEN_MAX" using slot_refs_le assms(1) by (simp add: counted_def)
  with assms fs_file_get_refs [of w f] show ?thesis by (auto simp: counted_def)
qed

lemma counted_put:
  assumes "counted good t h w" "0 < h f"
  shows "\<exists>w'. fs_file_put v f w = Some w' \<and> counted good t (h(f := h f - 1)) w'"
  using assms fs_file_put_refs [of w f] by (auto simp: counted_def)

lemma counted_close:
  assumes "counted good t h w"
  shows "\<exists>r t' w'. fdtable_close_fd v t fd w = Some (r, t', w') \<and> counted good t' h w'"
proof (cases "fd_valid fd \<and> slots t ! nat fd \<noteq> None")
  case True
  then obtain f where f: "slots t ! nat fd = Some f" "nat fd < OPEN_MAX" by (auto simp: fd_valid_def)
  from counted_put [OF counted_clear [OF assms f(2,1)], of f] obtain w' where
    "fs_file_put v f w = Some w'" "counted good (t\<lparr>slots := (slots t)[nat fd := None]\<rparr>) h w'" by auto
  with True f assms show ?thesis by (auto simp: fdtable_close_fd_def nth_opt_def counted_def table_ok_def)
next
  case False
  with assms show ?thesis by (auto simp: fdtable_close_fd_def nth_opt_def counted_def table_ok_def fd_valid_def)
qed

lemma counted_put_slot:
  assumes "counted good t h w" "i < OPEN_MAX"
  shows "\<exists>w'. put_slot v (slots t ! i) w = Some w' \<and> counted good (t\<lparr>slots := (slots t)[i := None]\<rparr>) h w'"
proof (cases "slots t ! i")
  case None
  then have "(slots t)[i := None] = slots t" by (metis list_update_id)
  with None assms show ?thesis by (simp add: put_slot_def)
next
  case (Some f)
  from counted_put [OF counted_clear [OF assms Some], of f] Some show ?thesis
    by (auto simp: put_slot_def)
qed

lemma counted_drain:
  assumes "counted good t h w"
  shows "\<exists>t' w'. drain_from v i t w = Some (t', w') \<and> counted good t' h w'
    \<and> (\<forall>j < OPEN_MAX. slots t' ! j = (if i \<le> j then None else slots t ! j))"
  using assms
proof (induction "OPEN_MAX - i" arbitrary: i t w)
  case 0
  then show ?case by (subst drain_from.simps) auto
next
  case (Suc n)
  then have i: "i < OPEN_MAX" by simp
  then have l: "i < length (slots t)" using Suc.prems by (simp add: counted_def table_ok_def)
  from counted_put_slot [OF Suc.prems i] obtain w1 where
    w1: "put_slot v (slots t ! i) w = Some w1" "counted good (t\<lparr>slots := (slots t)[i := None]\<rparr>) h w1" by blast
  have "n = OPEN_MAX - Suc i" using Suc(2) by simp
  from Suc(1) [OF this w1(2)] obtain t' w' where
    "drain_from v (Suc i) (t\<lparr>slots := (slots t)[i := None]\<rparr>) w1 = Some (t', w')" "counted good t' h w'"
    "\<forall>j < OPEN_MAX. slots t' ! j = (if Suc i \<le> j then None else (slots t)[i := None] ! j)" by auto
  with i l w1(1) show ?case
    by (subst drain_from.simps) (auto simp: nth_opt_def nth_list_update not_less_eq_eq)
qed

lemma counted_dup2:
  assumes "counted good t h w" "h f + OPEN_MAX + 1 < 2 ^ 32"
    "i < OPEN_MAX" "j < OPEN_MAX" "slots t ! i = Some f" "slots t ! j \<noteq> Some f"
  shows "\<exists>w1 w2. fs_file_get f w = Some w1 \<and> put_slot v (slots t ! j) w1 = Some w2
    \<and> counted good (t\<lparr>slots := (slots t)[j := Some f]\<rparr>) h w2"
proof -
  have t: "table_ok t" using assms(1) by (simp add: counted_def)
  then have l: "j < length (slots t)" using assms(4) by (simp add: table_ok_def)
  have "0 < slot_refs t f + h f" using slot_refs_pos [OF t assms(3,5)] by simp
  from counted_get [OF assms(1) this assms(2)] obtain w1 where
    w1: "fs_file_get f w = Some w1" "counted good t (h(f := h f + 1)) w1" by blast
  from counted_put_slot [OF w1(2) assms(4)] obtain w2 where
    w2: "put_slot v (slots t ! j) w1 = Some w2"
      "counted good (t\<lparr>slots := (slots t)[j := None]\<rparr>) (h(f := h f + 1)) w2" by blast
  from counted_fill [OF w2(2) assms(4), of f] l have
    "counted good (t\<lparr>slots := (slots t)[j := Some f]\<rparr>) h w2" by simp
  with w1(1) w2(1) show ?thesis by blast
qed

lemma count_remove1: "(count M)(f := count M f - Suc 0) = count (M - {#f#})"
  by (rule ext) auto

lemma count_add1: "(count M)(f := count M f + 1) = count (add_mset f M)"
  by (rule ext) auto

lemma counted_get_file:
  fixes w :: "'d file_world"
  assumes c: "counted good t h w" and small: "\<And>f. h f + OPEN_MAX + 1 < 2 ^ 32"
  shows "\<exists>r w'. fdtable_get_file t fd w = Some (r, w')
    \<and> counted good t (case r of Inl e \<Rightarrow> h | Inr f \<Rightarrow> h(f := h f + 1)) w'"
proof (cases "fd_valid fd \<and> slots t ! nat fd \<noteq> None")
  case True
  have t: "table_ok t" using c by (simp add: counted_def)
  from True obtain f where f: "slots t ! nat fd = Some f" "nat fd < OPEN_MAX" by (auto simp: fd_valid_def)
  from counted_get [OF c _ small, of f] slot_refs_pos [OF t f(2,1)] obtain w' where
    "fs_file_get f w = Some w'" "counted good t (h(f := h f + 1)) w'" by auto
  with True f t show ?thesis by (simp add: fdtable_get_file_def nth_opt_def table_ok_def)
qed (use c in \<open>auto simp: fdtable_get_file_def nth_opt_def fd_valid_def counted_def table_ok_def\<close>)

lemma counted_dup:
  fixes w :: "'d file_world"
  assumes c: "counted good t h w" and small: "\<And>f. h f + OPEN_MAX + 1 < 2 ^ 32"
  shows "\<exists>r t' w'. fdtable_dup_fd t fd w = Some (r, t', w') \<and> counted good t' h w'"
proof (cases "fd_valid fd \<and> slots t ! nat fd \<noteq> None \<and> free_slot 0 (slots t) \<noteq> None")
  case True
  have t: "table_ok t" using c by (simp add: counted_def)
  from True obtain f j where f: "slots t ! nat fd = Some f" "nat fd < OPEN_MAX" "free_slot 0 (slots t) = Some j"
    by (auto simp: fd_valid_def)
  note j = free_slot_0(1,2) [OF t f(3)]
  from counted_dup2 [of t h w f, OF c small f(2) j(1) f(1)] j(2) obtain w' where
    "fs_file_get f w = Some w'" "counted good (t\<lparr>slots := (slots t)[j := Some f]\<rparr>) h w'"
    by (auto simp: put_slot_def)
  with True f t show ?thesis by (simp add: fdtable_dup_fd_def nth_opt_def table_ok_def)
qed (use c in \<open>auto simp: fdtable_dup_fd_def nth_opt_def fd_valid_def counted_def table_ok_def split: option.splits\<close>)

lemma counted_dup_fd2:
  assumes c: "counted good t h w" and small: "\<And>f. h f + OPEN_MAX + 1 < 2 ^ 32"
  shows "\<exists>r t' w'. fdtable_dup_fd2 v t fd fd' w = Some (r, t', w') \<and> counted good t' h w'
    \<and> r = (if fd_valid fd \<and> fd_valid fd' \<and> slots t ! nat fd \<noteq> None then Inr () else Inl EBADF)
    \<and> slots t' = (if r = Inr () then (slots t)[nat fd' := slots t ! nat fd] else slots t)"
proof (cases "fd_valid fd \<and> fd_valid fd' \<and> slots t ! nat fd \<noteq> None")
  case True
  have t: "table_ok t" using c by (simp add: counted_def)
  from True obtain f where f: "slots t ! nat fd = Some f" "nat fd < OPEN_MAX" "nat fd' < OPEN_MAX"
    by (auto simp: fd_valid_def)
  show ?thesis
  proof (cases "slots t ! nat fd' = Some f")
    case same: True
    then have "(slots t)[nat fd' := Some f] = slots t" by (metis list_update_id)
    with True same f t c show ?thesis by (simp add: fdtable_dup_fd2_def nth_opt_def table_ok_def)
  next
    case False
    from counted_dup2 [of t h w f, OF c small f(2,3,1) False] obtain w1 w2 where "fs_file_get f w = Some w1"
      "put_slot v (slots t ! nat fd') w1 = Some w2"
      "counted good (t\<lparr>slots := (slots t)[nat fd' := Some f]\<rparr>) h w2" by blast
    with True False f t show ?thesis by (simp add: fdtable_dup_fd2_def nth_opt_def table_ok_def)
  qed
qed (use c in \<open>auto simp: fdtable_dup_fd2_def nth_opt_def fd_valid_def counted_def table_ok_def split: option.splits\<close>)

lemma fd_step_counted:
  assumes c: "counted good t (count held) w" and b: "size held + OPEN_MAX + 1 < 2 ^ 32"
  shows "\<exists>t' held' w'. fd_step v op (t, held, w) = Some (t', held', w') \<and> counted good t' (count held') w'
    \<and> size held' \<le> size held + 1"
proof -
  have t: "table_ok t" using c by (simp add: counted_def)
  have small: "count held f + OPEN_MAX + 1 < 2 ^ 32" for f
    using b count_le_size [of held f] by linarith
  show ?thesis
  proof (cases op)
    case (AllocFd f)
    show ?thesis
    proof (cases "free_slot 0 (slots t)")
      case (Some i)
      from counted_fill [OF c free_slot_0(1,2) [OF t Some], of f] AllocFd Some c show ?thesis
        by (auto simp: fdtable_alloc_fd_def count_remove1 size_Diff_singleton_if)
    qed (use AllocFd c in \<open>simp add: fdtable_alloc_fd_def\<close>)
  next
    case (GetFile fd)
    from counted_get_file [OF c small, of fd] obtain r w' where r: "fdtable_get_file t fd w = Some (r, w')"
      "counted good t (case r of Inl e \<Rightarrow> count held | Inr f \<Rightarrow> count (add_mset f held)) w'"
      unfolding count_add1 by blast
    with GetFile show ?thesis by (cases r) auto
  next
    case (PutFile f)
    with counted_put [OF c, of f] c show ?thesis by (auto simp: count_remove1 size_Diff_singleton_if)
  next
    case (DupFd fd)
    with counted_dup [OF c small, of fd] show ?thesis by auto
  next
    case (Dup2 fd fd')
    with counted_dup_fd2 [OF c small, of fd fd'] show ?thesis by auto
  next
    case CloseAll
    with counted_drain [OF c, of 0] show ?thesis by (auto simp: fdtable_close_all_def)
  next
    case (CloseFd fd)
    with counted_close [OF c, of fd] show ?thesis by auto
  qed
qed

lemma fd_run_counted:
  "counted good t (count held) w \<Longrightarrow> size held + length opl + OPEN_MAX + 1 < 2 ^ 32 \<Longrightarrow>
   \<exists>t' held' w'. fd_run v opl (t, held, w) = Some (t', held', w') \<and> counted good t' (count held') w'"
proof (induction opl arbitrary: t held w)
  case (Cons op opl)
  from Cons.prems(2) have "size held + OPEN_MAX + 1 < 2 ^ 32" by simp
  from fd_step_counted [OF Cons.prems(1) this, of op] obtain t1 h1 w1 where
    s: "fd_step v op (t, held, w) = Some (t1, h1, w1)" "counted good t1 (count h1) w1" "size h1 \<le> size held + 1" by blast
  with Cons.prems(2) have "size h1 + length opl + OPEN_MAX + 1 < 2 ^ 32" by simp
  from Cons.IH [OF s(2) this] s(1) show ?case by simp
qed simp

text \<open>
  \<open>fork\<close> copies the parent's table into the child's: the source table's references are part of
  what is held elsewhere.
\<close>

lemma counted_copy_from:
  assumes "counted good dst h w" "table_ok src" "\<And>f. Some f \<in> set (slots src) \<Longrightarrow> 0 < h f"
    "\<And>f. h f + OPEN_MAX + 1 < 2 ^ 32"
  shows "\<exists>dst' w'. copy_from v i dst src w = Some (dst', w') \<and> counted good dst' h w'
    \<and> (\<forall>j < OPEN_MAX. slots dst' ! j = (if i \<le> j then slots src ! j else slots dst ! j))"
  using assms(1)
proof (induction "OPEN_MAX - i" arbitrary: i dst w)
  case 0
  then show ?case by (subst copy_from.simps) auto
next
  case (Suc n)
  then have i: "i < OPEN_MAX" by simp
  then have l: "i < length (slots dst)" "i < length (slots src)"
    using Suc.prems assms(2) by (simp_all add: counted_def table_ok_def)
  let ?x = "slots src ! i"
  have "\<exists>w1 w2. get_slot ?x w = Some w1 \<and> put_slot v (slots dst ! i) w1 = Some w2
    \<and> counted good (dst\<lparr>slots := (slots dst)[i := ?x]\<rparr>) h w2"
  proof (cases ?x)
    case None
    with counted_put_slot [OF Suc.prems i] show ?thesis by (simp add: get_slot_def)
  next
    case (Some f)
    then have f: "0 < h f" using l(2) assms(3) by (metis nth_mem)
    from counted_get [of dst h w f, OF Suc.prems _ assms(4)] f obtain w1 where
      w1: "fs_file_get f w = Some w1" "counted good dst (h(f := h f + 1)) w1" by auto
    from counted_put_slot [OF w1(2) i] obtain w2 where w2: "put_slot v (slots dst ! i) w1 = Some w2"
      "counted good (dst\<lparr>slots := (slots dst)[i := None]\<rparr>) (h(f := h f + 1)) w2" by blast
    from counted_fill [OF w2(2) i, of f] l w1(1) w2(1) Some show ?thesis by (simp add: get_slot_def)
  qed
  then obtain w1 w2 where w: "get_slot ?x w = Some w1" "put_slot v (slots dst ! i) w1 = Some w2"
    "counted good (dst\<lparr>slots := (slots dst)[i := ?x]\<rparr>) h w2" by blast
  have "n = OPEN_MAX - Suc i" using Suc(2) by simp
  from Suc(1) [OF this w(3)] i l w(1,2) show ?case
    by (subst copy_from.simps) (auto simp: nth_opt_def nth_list_update not_less_eq_eq)
qed

end

section \<open>Properties\<close>

text \<open>
  C12: Over any sequence of descriptor-table calls the reference counts of the open files stay
  exact. Starting from a table and a store in which every file has one reference per slot and one
  per reference the callers hold, any sequence of allocating, closing, duplicating, looking up and
  dropping calls (each caller passing only files it holds) runs to the end without touching a
  freed file, and afterwards the counts are exact again: a file is live if and only if some
  descriptor or some caller refers to it.
\<close>

theorem fdtable_refs_exact:
  assumes "file_drivers v good" "counted good t (count held) w" "size held + length opl + OPEN_MAX + 1 < 2 ^ 32"
  shows "\<exists>t' held' w'. fd_run v opl (t, held, w) = Some (t', held', w') \<and> table_ok t'
    \<and> (\<forall>f. file_refs w' f = slot_refs t' f + count held' f)
    \<and> (\<forall>f. files w' f \<noteq> None \<longleftrightarrow> Some f \<in> set (slots t') \<or> f \<in># held')"
proof -
  from file_drivers.fd_run_counted [OF assms] obtain t' held' w' where
    r: "fd_run v opl (t, held, w) = Some (t', held', w')" and c: "counted good t' (count held') w'" by blast
  have "files w' f \<noteq> None \<longleftrightarrow> Some f \<in> set (slots t') \<or> f \<in># held'" for f
    using c live_iff_refs [of good w' f] by (simp add: counted_def slot_refs_def count_greater_zero_iff)
  with r c show ?thesis by (auto simp: counted_def)
qed

text \<open>A driver without a release function and without path references, and one open file.\<close>

definition plain_vfs :: "unit vfs" where
  "plain_vfs = \<lparr>ops_of = (\<lambda>_. \<lparr>fop_open = \<lambda>f d. Some (Inr f, d), fop_release = None,
     fop_read = \<lambda>f n p d. Some (Inr [], p, d), fop_write = \<lambda>f b p d. Some (Inr (length b), p, d),
     fop_llseek = \<lambda>f l wh d. Inl ESPIPE, fop_poll = None, fop_ioctl = None\<rparr>),
     inode_fops = \<lambda>i d. 0, dentry_inode = \<lambda>de d. None, path_get = \<lambda>p d. Some d,
     path_put = \<lambda>p d. Some d, remove_privs = \<lambda>f d. Some d\<rparr>"

definition one_file :: "unit file_world" where
  "one_file = snd (fs_file_alloc_anon (Some 0) None (Some 7) \<lparr>files = \<lambda>_. None, rest = ()\<rparr>)"

lemma plain_drivers: "file_drivers plain_vfs (\<lambda>_. True)"
  by unfold_locales (simp_all add: plain_vfs_def)

lemma empty_table_counted:
  "counted (\<lambda>_. True) (the (fdtable_alloc True)) (count {#7#}) one_file"
  by (auto simp: counted_def table_ok_def live_counted_def one_file_def fs_file_alloc_anon_def
      fdtable_alloc_def file_refs_def slot_refs_def refcnt_defs)

theorem fdtable_refs_exact_witness:
  "\<exists>t' held' w'. fd_run plain_vfs [AllocFd 7, DupFd 0, Dup2 1 5, CloseFd 0, CloseAll]
     (the (fdtable_alloc True), {#7#}, one_file) = Some (t', held', w')
   \<and> (\<forall>f. files w' f \<noteq> None \<longleftrightarrow> Some f \<in> set (slots t') \<or> f \<in># held')"
  using fdtable_refs_exact [OF plain_drivers empty_table_counted,
      of "[AllocFd 7, DupFd 0, Dup2 1 5, CloseFd 0, CloseAll]"]
  by (auto simp: OPEN_MAX_def)

text \<open>
  C13: Copying a descriptor table at \<open>fork\<close> gives the child exactly the parent's descriptors.
  Whatever the destination held is dropped, every file the parent has open gains one reference,
  and the counts are exact afterwards, with the parent's table unchanged.
\<close>

theorem fdtable_copy_exact:
  assumes "file_drivers v good" "table_ok src" "counted good dst (\<lambda>f. slot_refs src f + h f) w"
    "\<forall>f. slot_refs src f + h f + OPEN_MAX + 1 < 2 ^ 32"
  shows "\<exists>dst' w'. fdtable_copy v dst src w = Some (dst', w') \<and> slots dst' = slots src
    \<and> (\<forall>f. file_refs w' f = slot_refs dst' f + slot_refs src f + h f)"
proof -
  have "0 < slot_refs src f + h f" if "Some f \<in> set (slots src)" for f
    using that by (simp add: slot_refs_def count_greater_zero_iff)
  from file_drivers.counted_copy_from [OF assms(1,3,2) this, of 0] assms(4) obtain dst' w' where
    c: "copy_from v 0 dst src w = Some (dst', w')" "counted good dst' (\<lambda>f. slot_refs src f + h f) w'"
      "\<forall>j < OPEN_MAX. slots dst' ! j = slots src ! j" by auto
  have "slots dst' = slots src"
    using c(2,3) assms(2) by (intro nth_equalityI) (auto simp: counted_def table_ok_def)
  with c(1,2) show ?thesis by (simp add: fdtable_copy_def counted_def add.assoc)
qed

definition child_table :: file_desc_table where
  "child_table = the (fdtable_alloc True)"

theorem fdtable_copy_exact_witness:
  "\<exists>dst' w'. fdtable_copy plain_vfs child_table (child_table\<lparr>slots := (slots child_table)[3 := Some 7]\<rparr>) one_file
     = Some (dst', w') \<and> file_refs w' 7 = 2"
proof -
  let ?src = "child_table\<lparr>slots := (slots child_table)[3 := Some 7]\<rparr>"
  have len: "length (slots child_table) = 64" and none: "set (slots child_table) = {None}"
    by (simp_all add: child_table_def fdtable_alloc_def OPEN_MAX_def)
  have ok: "table_ok child_table" by (simp add: len table_ok_def OPEN_MAX_def)
  have src: "slot_refs ?src f = (if f = 7 then 1 else 0)" for f
    using slot_refs_upd [OF ok, of 3 "Some 7" f]
    by (auto simp: child_table_def fdtable_alloc_def OPEN_MAX_def slot_refs_def)
  have "counted (\<lambda>_. True) child_table (\<lambda>f. slot_refs ?src f + 0) one_file"
    using empty_table_counted unfolding src by (auto simp: counted_def child_table_def)
  moreover have "table_ok ?src" using ok by simp
  moreover have "\<forall>f. slot_refs ?src f + 0 + OPEN_MAX + 1 < 2 ^ 32" by (simp add: src OPEN_MAX_def)
  ultimately obtain dst' w' where
    "fdtable_copy plain_vfs child_table ?src one_file = Some (dst', w')" "slots dst' = slots ?src"
    "file_refs w' 7 = slot_refs dst' 7 + slot_refs ?src 7"
    using fdtable_copy_exact [OF plain_drivers, of ?src child_table "\<lambda>_. 0" one_file] by auto
  moreover from this have "slot_refs dst' 7 = slot_refs ?src 7" by (simp add: slot_refs_def)
  ultimately show ?thesis unfolding src by auto
qed

end
