(* ===== verification/Bytes.thy ===== *)
theory Bytes
  imports Prelude
begin

text \<open>
  Byte buffers. A C buffer of known size is a list of bytes; copying out of it and into it has a
  result only inside the bounds of the buffer.
\<close>

definition buf_read :: "'a list \<Rightarrow> nat \<Rightarrow> nat \<Rightarrow> 'a list option" where
  "buf_read b off n = (if off + n \<le> length b then Some (take n (drop off b)) else None)"

definition buf_write :: "'a list \<Rightarrow> nat \<Rightarrow> 'a list \<Rightarrow> 'a list option" where
  "buf_write b off xs =
     (if off + length xs \<le> length b then Some (take off b @ xs @ drop (off + length xs) b) else None)"

lemma buf_read_in [call_simps]: "off + n \<le> length b \<Longrightarrow> buf_read b off n = Some (take n (drop off b))"
  by (simp add: buf_read_def)

lemma buf_write_in [call_simps]:
  "off + length xs \<le> length b \<Longrightarrow> buf_write b off xs = Some (take off b @ xs @ drop (off + length xs) b)"
  by (simp add: buf_write_def)

lemma buf_write_Some_iff:
  "buf_write b off xs = Some c \<longleftrightarrow>
   off + length xs \<le> length b \<and> c = take off b @ xs @ drop (off + length xs) b"
  by (auto simp: buf_write_def)

lemma buf_write_length: "buf_write b off xs = Some c \<Longrightarrow> length c = length b"
  by (auto simp: buf_write_def split: if_splits)

lemma nth_blit:
  assumes "off + length xs \<le> length b" "i < length b"
  shows "(take off b @ xs @ drop (off + length xs) b) ! i
    = (if off \<le> i \<and> i < off + length xs then xs ! (i - off) else b ! i)"
  using assms by (auto simp: nth_append min_def)

lemma buf_write_nth:
  "buf_write b off xs = Some c \<Longrightarrow> i < length b \<Longrightarrow>
   c ! i = (if off \<le> i \<and> i < off + length xs then xs ! (i - off) else b ! i)"
  by (auto simp: buf_write_Some_iff nth_blit)

lemma buf_read_write: "buf_write b off xs = Some c \<Longrightarrow> buf_read c off (length xs) = Some xs"
  by (auto simp: buf_write_Some_iff buf_read_def)

lemma buf_read_nth: "buf_read b off n = Some xs \<Longrightarrow> i < n \<Longrightarrow> xs ! i = b ! (off + i)"
  by (auto simp: buf_read_def split: if_splits)

end
