(* ===== verification/Pipe.thy ===== *)
theory Pipe
  imports Fdtable Bytes
begin

text \<open>
  Pipes (\<open>src/src/fs/pipe.c\<close>): a ring of \<open>PIPE_RING_CAP\<close> bytes shared by the threads that read
  and write it. \<open>pipe_read\<close> and \<open>pipe_write\<close> take the pipe's lock once per round of their outer
  loop; one round is one function here. A thread that would block is asleep until somebody wakes
  it, and then it evaluates the same conditions again from the start of the round. The wake-up
  after a transfer happens after the lock is dropped, so it is a step of its own, and the steps of
  the threads interleave freely.
\<close>

section \<open>The ring\<close>

definition PIPE_RING_CAP :: nat where "PIPE_RING_CAP = 4096"

record anon_pipe =
  head :: nat
  pcount :: nat
  readers :: nat
  writers :: nat
  nonblock :: bool
  buf :: "u8 list"

text \<open>Taking up to \<open>size\<close> bytes out of the ring, and putting bytes in.\<close>

definition pipe_take :: "nat \<Rightarrow> anon_pipe \<Rightarrow> (u8 list \<times> anon_pipe) option" where
  "pipe_take sz p =
     (let n = (if pcount p > sz then sz else pcount p);
          first = PIPE_RING_CAP - head p in
      do {
        data \<leftarrow> (if n > first
                then do { a \<leftarrow> buf_read (buf p) (head p) first;
                          b \<leftarrow> buf_read (buf p) 0 (n - first);
                          Some (a @ b) }
                else buf_read (buf p) (head p) n);
        Some (data, p\<lparr>head := (head p + n) mod PIPE_RING_CAP, pcount := pcount p - n\<rparr>) })"

definition pipe_fill :: "u8 list \<Rightarrow> anon_pipe \<Rightarrow> (nat \<times> anon_pipe) option" where
  "pipe_fill src p =
     (let n = (if PIPE_RING_CAP - pcount p > length src then length src else PIPE_RING_CAP - pcount p);
          tail = (head p + pcount p) mod PIPE_RING_CAP;
          first = PIPE_RING_CAP - tail in
      do {
        b \<leftarrow> (if n > first
             then do { b \<leftarrow> buf_write (buf p) tail (take first src);
                       buf_write b 0 (take (n - first) (drop first src)) }
             else buf_write (buf p) tail (take n src));
        Some (n, p\<lparr>buf := b, pcount := pcount p + n\<rparr>) })"

section \<open>Threads\<close>

text \<open>
  Where a reader is: about to start a round with \<open>size\<close> bytes still wanted, asleep on
  \<open>rwait\<close>, past the lock and about to wake the writers, or back with a result; \<open>got\<close> is what has
  been copied to the caller's buffer, whose length is \<open>total\<close>.
\<close>

datatype reader =
    RdRun nat "u8 list" | RdSleep nat "u8 list" | RdWake nat "u8 list" | RdDone "errno + nat" "u8 list"

text \<open>A writer has the bytes still to be written and the number \<open>total\<close> already accepted.\<close>

datatype writer =
    WrRun "u8 list" nat | WrSleep "u8 list" nat | WrWake "u8 list" nat | WrDone "errno + nat" "u8 list" nat

definition ret_total :: "nat \<Rightarrow> errno \<Rightarrow> errno + nat" where
  "ret_total tot e = (if tot \<noteq> 0 then Inr tot else Inl e)"

definition pipe_read_round :: "bool \<Rightarrow> nat \<Rightarrow> u8 list \<Rightarrow> anon_pipe \<Rightarrow> (reader \<times> anon_pipe) option" where
  "pipe_read_round killed sz got p =
     (if \<not> sz > 0 then Some (RdDone (Inr (length got)) got, p)
      else if pcount p = 0 then
        Some ((if length got \<noteq> 0 then RdDone (Inr (length got)) got
               else if writers p = 0 then RdDone (Inr (length got)) got
               else if nonblock p then RdDone (ret_total (length got) EAGAIN) got
               else if killed then RdDone (ret_total (length got) EINTR) got
               else RdSleep sz got), p)
      else do {
        (data, p) \<leftarrow> pipe_take sz p;
        Some (RdWake (sz - length data) (got @ data), p) })"

definition pipe_write_round :: "bool \<Rightarrow> u8 list \<Rightarrow> nat \<Rightarrow> anon_pipe \<Rightarrow> (writer \<times> anon_pipe) option" where
  "pipe_write_round killed src tot p =
     (if \<not> length src > 0 then Some (WrDone (Inr tot) src tot, p)
      else if readers p = 0 then Some (WrDone (ret_total tot EPIPE) src tot, p)
      else if pcount p = PIPE_RING_CAP then
        Some ((if nonblock p then WrDone (ret_total tot EAGAIN) src tot
               else if killed then WrDone (ret_total tot EINTR) src tot
               else WrSleep src tot), p)
      else do {
        (n, p) \<leftarrow> pipe_fill src p;
        Some (WrWake (drop n src) (tot + n), p) })"

fun wake_reader :: "reader \<Rightarrow> reader" where
  "wake_reader (RdSleep sz got) = RdRun sz got"
| "wake_reader r = r"

fun wake_writer :: "writer \<Rightarrow> writer" where
  "wake_writer (WrSleep src tot) = WrRun src tot"
| "wake_writer w = w"

text \<open>
  \<open>pipe_release\<close> on a file of mode \<open>m\<close>; the two flags say which wait channels it wakes.
\<close>

definition pipe_release :: "u32 \<Rightarrow> anon_pipe \<Rightarrow> anon_pipe \<times> bool \<times> bool" where
  "pipe_release m p =
     (let p1 = (if m AND FMODE_READ \<noteq> 0 then p\<lparr>readers := readers p - 1\<rparr> else p);
          p2 = (if m AND FMODE_WRITE \<noteq> 0 then p1\<lparr>writers := writers p1 - 1\<rparr> else p1) in
      (p2, m AND FMODE_WRITE \<noteq> 0, m AND FMODE_READ \<noteq> 0))"

definition pipe_poll :: "anon_pipe option \<Rightarrow> u32 \<Rightarrow> u32" where
  "pipe_poll po events = (case po of None \<Rightarrow> POLLERR | Some p \<Rightarrow>
     (let rev = 0;
          rev = (if pcount p > 0 then rev OR (POLLIN OR POLLRDNORM) else rev);
          rev = (if writers p = 0 then rev OR POLLHUP else rev);
          rev = (if pcount p < PIPE_RING_CAP \<and> readers p > 0 then rev OR (POLLOUT OR POLLWRNORM) else rev);
          rev = (if readers p = 0 then rev OR POLLERR else rev) in
      rev AND (events OR POLLERR OR POLLHUP)))"

text \<open>
  The pipe and its threads. The two logs record which thread moved which bytes, in the order the
  lock was taken.
\<close>

record pipe_sys =
  pipe :: anon_pipe
  rds :: "reader list"
  wrs :: "writer list"
  sent :: "(nat \<times> u8 list) list"
  received :: "(nat \<times> u8 list) list"

inductive pipe_step :: "pipe_sys \<Rightarrow> pipe_sys \<Rightarrow> bool" where
  read_round: "i < length (rds s) \<Longrightarrow> rds s ! i = RdRun sz got \<Longrightarrow>
    pipe_read_round killed sz got (pipe s) = Some (r, p) \<Longrightarrow>
    pipe_step s (s\<lparr>pipe := p, rds := (rds s)[i := r],
      received := received s @ (case r of RdWake sz' got' \<Rightarrow> [(i, drop (length got) got')] | _ \<Rightarrow> [])\<rparr>)"
| read_wake: "i < length (rds s) \<Longrightarrow> rds s ! i = RdWake sz got \<Longrightarrow>
    pipe_step s (s\<lparr>rds := (rds s)[i := RdRun sz got], wrs := map wake_writer (wrs s)\<rparr>)"
| read_signal: "i < length (rds s) \<Longrightarrow> pipe_step s (s\<lparr>rds := (rds s)[i := wake_reader (rds s ! i)]\<rparr>)"
| write_round: "j < length (wrs s) \<Longrightarrow> wrs s ! j = WrRun src tot \<Longrightarrow>
    pipe_write_round killed src tot (pipe s) = Some (w, p) \<Longrightarrow>
    pipe_step s (s\<lparr>pipe := p, wrs := (wrs s)[j := w],
      sent := sent s @ (case w of WrWake src' tot' \<Rightarrow> [(j, take (tot' - tot) src)] | _ \<Rightarrow> [])\<rparr>)"
| write_wake: "j < length (wrs s) \<Longrightarrow> wrs s ! j = WrWake src tot \<Longrightarrow>
    pipe_step s (s\<lparr>wrs := (wrs s)[j := WrRun src tot], rds := map wake_reader (rds s)\<rparr>)"
| write_signal: "j < length (wrs s) \<Longrightarrow> pipe_step s (s\<lparr>wrs := (wrs s)[j := wake_writer (wrs s ! j)]\<rparr>)"
| release: "pipe_release m (pipe s) = (p, wr, ww) \<Longrightarrow>
    pipe_step s (s\<lparr>pipe := p, rds := (if wr then map wake_reader (rds s) else rds s),
      wrs := (if ww then map wake_writer (wrs s) else wrs s)\<rparr>)"

text \<open>\<open>anon_pipe_create\<close> leaves an empty ring with one reader and one writer.\<close>

definition new_pipe :: "bool \<Rightarrow> anon_pipe" where
  "new_pipe nb = \<lparr>head = 0, pcount = 0, readers = 1, writers = 1, nonblock = nb, buf = replicate PIPE_RING_CAP 0\<rparr>"

text \<open>Readers with their buffer sizes and writers with their data, on a new pipe.\<close>

definition pipe_start :: "bool \<Rightarrow> nat list \<Rightarrow> u8 list list \<Rightarrow> pipe_sys" where
  "pipe_start nb rs ws = \<lparr>pipe = new_pipe nb, rds = map (\<lambda>n. RdRun n []) rs, wrs = map (\<lambda>b. WrRun b 0) ws,
     sent = [], received = []\<rparr>"

inductive pipe_reach :: "bool \<Rightarrow> nat list \<Rightarrow> u8 list list \<Rightarrow> pipe_sys \<Rightarrow> bool" for nb rs ws where
  start: "pipe_reach nb rs ws (pipe_start nb rs ws)"
| step: "pipe_reach nb rs ws s \<Longrightarrow> pipe_step s s' \<Longrightarrow> pipe_reach nb rs ws s'"

section \<open>The ring holds a sequence\<close>

definition ring_ok :: "anon_pipe \<Rightarrow> bool" where
  "ring_ok p \<longleftrightarrow> head p < PIPE_RING_CAP \<and> pcount p \<le> PIPE_RING_CAP \<and> length (buf p) = PIPE_RING_CAP"

definition contents :: "anon_pipe \<Rightarrow> u8 list" where
  "contents p = map (\<lambda>i. buf p ! ((head p + i) mod PIPE_RING_CAP)) [0..<pcount p]"

lemma cap_pos [simp]: "0 < PIPE_RING_CAP"
  by (simp add: PIPE_RING_CAP_def)

lemma contents_length [simp]: "length (contents p) = pcount p"
  by (simp add: contents_def)

lemma mod_ring: "h < C \<Longrightarrow> i \<le> C \<Longrightarrow> (h + i) mod C = (if h + i < C then h + i else h + i - C)" for h i C :: nat
  by (simp add: mod_if)

lemma pipe_take_ok:
  assumes "ring_ok p"
  shows "\<exists>p'. pipe_take sz p = Some (take sz (contents p), p') \<and> ring_ok p' \<and> contents p' = drop sz (contents p)
    \<and> readers p' = readers p \<and> writers p' = writers p \<and> nonblock p' = nonblock p"
proof -
  let ?C = PIPE_RING_CAP
  define n where "n = (if pcount p > sz then sz else pcount p)"
  have h: "head p < ?C" "pcount p \<le> ?C" "length (buf p) = ?C" "n \<le> pcount p"
    and n: "n = min sz (pcount p)"
    using assms by (auto simp: ring_ok_def n_def)
  let ?data = "take sz (contents p)"
  have d: "length ?data = n" "\<And>i. i < n \<Longrightarrow> ?data ! i = buf p ! ((head p + i) mod ?C)"
    using h n by (simp_all add: contents_def)
  have data: "(if n > ?C - head p then do { a \<leftarrow> buf_read (buf p) (head p) (?C - head p);
      b \<leftarrow> buf_read (buf p) 0 (n - (?C - head p)); Some (a @ b) } else buf_read (buf p) (head p) n) = Some ?data"
  proof (cases "n > ?C - head p")
    case True
    have "drop (head p) (buf p) @ take (n - (?C - head p)) (buf p) = ?data"
      using h d True by (intro nth_equalityI) (auto simp: nth_append mod_ring ac_simps)
    with True h show ?thesis by (simp add: buf_read_def)
  next
    case False
    have "take n (drop (head p) (buf p)) = ?data"
      using h d False by (intro nth_equalityI) (auto simp: mod_ring)
    with False h show ?thesis by (simp add: buf_read_def)
  qed
  let ?p = "p\<lparr>head := (head p + n) mod ?C, pcount := pcount p - n\<rparr>"
  have "contents ?p = drop sz (contents p)"
    using h n by (intro nth_equalityI) (auto simp: contents_def mod_simps add.assoc min_def)
  moreover have "pipe_take sz p = Some (?data, ?p)"
    using data by (simp add: pipe_take_def Let_def flip: n_def)
  moreover have "ring_ok ?p" using assms h by (simp add: ring_ok_def)
  ultimately show ?thesis by auto
qed

lemma pipe_fill_ok:
  assumes "ring_ok p"
  shows "\<exists>p'. pipe_fill src p = Some (min (PIPE_RING_CAP - pcount p) (length src), p') \<and> ring_ok p'
    \<and> contents p' = contents p @ take (PIPE_RING_CAP - pcount p) src
    \<and> readers p' = readers p \<and> writers p' = writers p \<and> nonblock p' = nonblock p"
proof -
  let ?C = PIPE_RING_CAP
  define n where "n = (if ?C - pcount p > length src then length src else ?C - pcount p)"
  define te where "te = (head p + pcount p) mod ?C"
  have h: "head p < ?C" "pcount p \<le> ?C" "length (buf p) = ?C" "pcount p + n \<le> ?C" "n \<le> length src" "te < ?C"
    using assms by (auto simp: ring_ok_def n_def te_def)
  define b where "b = map (\<lambda>k. if (k + ?C - te) mod ?C < n then src ! ((k + ?C - te) mod ?C) else buf p ! k) [0..<?C]"
  have bk: "b ! k = (if te \<le> k then (if k - te < n then src ! (k - te) else buf p ! k)
      else (if k + ?C - te < n then src ! (k + ?C - te) else buf p ! k))" if "k < ?C" for k
    using that h by (auto simp: b_def mod_if)
  have lb: "length b = ?C" by (simp add: b_def)
  have stored: "(if n > ?C - te then do { b \<leftarrow> buf_write (buf p) te (take (?C - te) src);
      buf_write b 0 (take (n - (?C - te)) (drop (?C - te) src)) } else buf_write (buf p) te (take n src)) = Some b"
  proof (cases "n > ?C - te")
    case True
    let ?b1 = "take te (buf p) @ take (?C - te) src"
    define m where "m = n - (?C - te)"
    have m: "m \<le> te" "?C - te + m = n" using True h by (simp_all add: m_def)
    have "(take m (drop (?C - te) src) @ drop m ?b1) ! k = b ! k" if k: "k < ?C" for k
    proof (cases "te \<le> k")
      case True
      then have "k - te < n" "m \<le> k" "k - te < ?C - te" "\<not> k - m < te - m" "k - m - (te - m) = k - te"
        using m k by linarith+
      with True k h m show ?thesis by (simp add: bk nth_append)
    next
      case False
      have "?C - te + k = k + ?C - te" using h False by simp
      moreover have "k + ?C - te < n \<longleftrightarrow> k < m" "k - m < te - m \<or> k < m" using False m h by linarith+
      ultimately show ?thesis using False k h m by (auto simp: bk nth_append)
    qed
    then have eq: "take m (drop (?C - te) src) @ drop m ?b1 = b"
      using h m lb by (intro nth_equalityI) simp_all
    have "min (length src + te - ?C) m = m" "m \<le> ?C" using m h by linarith+
    then show ?thesis using True h eq by (simp add: buf_write_def min_absorb2 flip: m_def)
  next
    case False
    have "take te (buf p) @ take n src @ drop (te + n) (buf p) = b"
      using h False by (intro nth_equalityI) (auto simp: bk lb nth_append)
    with False h show ?thesis by (simp add: buf_write_def min_absorb2)
  qed
  let ?p = "p\<lparr>buf := b, pcount := pcount p + n\<rparr>"
  have "contents ?p ! i = (contents p @ take (?C - pcount p) src) ! i" if i: "i < pcount p + n" for i
  proof -
    let ?k = "(head p + i) mod ?C"
    have k: "?k = (if head p + i < ?C then head p + i else head p + i - ?C)"
      "te = (if head p + pcount p < ?C then head p + pcount p else head p + pcount p - ?C)"
      using mod_ring i h by (simp_all add: te_def)
    have "contents ?p ! i = b ! ?k" using i by (simp add: contents_def)
    also have "\<dots> = (if i < pcount p then buf p ! ?k else src ! (i - pcount p))"
    proof (cases "i < pcount p")
      case True
      then have "te \<le> ?k \<Longrightarrow> \<not> ?k - te < n" "\<not> te \<le> ?k \<Longrightarrow> \<not> ?k + ?C - te < n"
        using k h by (auto split: if_splits)
      then show ?thesis using True by (simp add: bk)
    next
      case False
      then have "te \<le> ?k \<Longrightarrow> ?k - te = i - pcount p" "\<not> te \<le> ?k \<Longrightarrow> ?k + ?C - te = i - pcount p"
        using k h i by (auto split: if_splits)
      moreover have "i - pcount p < n" using False i by linarith
      ultimately show ?thesis using False by (simp add: bk)
    qed
    finally show ?thesis using i h by (simp add: contents_def nth_append)
  qed
  then have "contents ?p = contents p @ take (?C - pcount p) src"
    using h by (intro nth_equalityI) (auto simp: n_def)
  moreover have "pipe_fill src p = Some (n, ?p)"
    using stored by (simp add: pipe_fill_def Let_def flip: n_def te_def)
  moreover have "ring_ok ?p" using assms h lb by (simp add: ring_ok_def)
  moreover have "n = min (?C - pcount p) (length src)" by (simp add: n_def)
  ultimately show ?thesis by auto
qed

section \<open>Interleavings\<close>

text \<open>The bytes a thread moved, from the log.\<close>

definition by_thread :: "nat \<Rightarrow> (nat \<times> u8 list) list \<Rightarrow> u8 list" where
  "by_thread i log = concat (map snd (filter (\<lambda>e. fst e = i) log))"

lemma by_thread_Nil [simp]: "by_thread i [] = []"
  by (simp add: by_thread_def)

lemma by_thread_snoc [simp]: "by_thread i (log @ [(j, d)]) = by_thread i log @ (if i = j then d else [])"
  by (simp add: by_thread_def)

fun got_of :: "reader \<Rightarrow> u8 list" where
  "got_of (RdRun sz got) = got" | "got_of (RdSleep sz got) = got"
| "got_of (RdWake sz got) = got" | "got_of (RdDone r got) = got"

fun unsent :: "writer \<Rightarrow> u8 list" where
  "unsent (WrRun src tot) = src" | "unsent (WrSleep src tot) = src"
| "unsent (WrWake src tot) = src" | "unsent (WrDone r src tot) = src"

text \<open>
  A reader whose call is for \<open>n\<close> bytes holds what it took from the ring, and a successful result is
  its length. A writer has sent a prefix of its data and counted it.
\<close>

fun rd_inv :: "nat \<Rightarrow> u8 list \<Rightarrow> reader \<Rightarrow> bool" where
  "rd_inv n took (RdRun sz got) \<longleftrightarrow> got = took \<and> sz + length got = n"
| "rd_inv n took (RdSleep sz got) \<longleftrightarrow> got = took \<and> got = [] \<and> sz = n"
| "rd_inv n took (RdWake sz got) \<longleftrightarrow> got = took \<and> sz + length got = n \<and> got \<noteq> []"
| "rd_inv n took (RdDone r got) \<longleftrightarrow> got = took \<and> length got \<le> n \<and>
     (case r of Inl e \<Rightarrow> got = [] | Inr k \<Rightarrow> k = length got)"

fun wr_inv :: "u8 list \<Rightarrow> u8 list \<Rightarrow> writer \<Rightarrow> bool" where
  "wr_inv src out (WrRun left tot) \<longleftrightarrow> out @ left = src \<and> tot = length out"
| "wr_inv src out (WrSleep left tot) \<longleftrightarrow> out @ left = src \<and> tot = length out"
| "wr_inv src out (WrWake left tot) \<longleftrightarrow> out @ left = src \<and> tot = length out"
| "wr_inv src out (WrDone r left tot) \<longleftrightarrow> out @ left = src \<and> tot = length out \<and>
     (case r of Inl e \<Rightarrow> out = [] | Inr k \<Rightarrow> k = length out)"

definition sys_inv :: "nat list \<Rightarrow> u8 list list \<Rightarrow> pipe_sys \<Rightarrow> bool" where
  "sys_inv rs ws s \<longleftrightarrow> ring_ok (pipe s) \<and> length (rds s) = length rs \<and> length (wrs s) = length ws
     \<and> concat (map snd (sent s)) = concat (map snd (received s)) @ contents (pipe s)
     \<and> (\<forall>i < length rs. rd_inv (rs ! i) (by_thread i (received s)) (rds s ! i))
     \<and> (\<forall>j < length ws. wr_inv (ws ! j) (by_thread j (sent s)) (wrs s ! j))"

lemma wake_reader_inv [simp]: "rd_inv n took r \<Longrightarrow> rd_inv n took (wake_reader r)"
  by (cases r) auto

lemma wake_writer_inv [simp]: "wr_inv src out w \<Longrightarrow> wr_inv src out (wake_writer w)"
  by (cases w) auto

lemma read_round_cases:
  assumes "pipe_read_round killed sz got p = Some (r, p')" "ring_ok p"
  shows "p' = p \<and> (\<exists>res. r = RdDone res got \<and> (case res of Inl e \<Rightarrow> got = [] | Inr k \<Rightarrow> k = length got)
        \<or> r = RdSleep sz got \<and> got = [] \<and> 0 < sz \<and> pcount p = 0 \<and> 0 < writers p)
    \<or> (\<exists>data. data = take sz (contents p) \<and> data \<noteq> [] \<and> r = RdWake (sz - length data) (got @ data) \<and> ring_ok p'
        \<and> contents p' = drop sz (contents p) \<and> writers p' = writers p \<and> readers p' = readers p)"
proof (cases "sz > 0 \<and> pcount p \<noteq> 0")
  case True
  then have "take sz (contents p) \<noteq> []" by (metis contents_length length_0_conv take_eq_Nil not_gr_zero)
  with True pipe_take_ok [OF assms(2), of sz] assms(1) show ?thesis by (auto simp: pipe_read_round_def)
next
  case False
  with assms(1) show ?thesis by (auto simp: pipe_read_round_def ret_total_def split: if_splits)
qed

lemma write_round_cases:
  assumes "pipe_write_round killed src tot p = Some (w, p')" "ring_ok p"
  shows "p' = p \<and> (\<exists>res. w = WrDone res src tot \<and> (case res of Inl e \<Rightarrow> tot = 0 | Inr k \<Rightarrow> k = tot)
        \<or> w = WrSleep src tot \<and> src \<noteq> [] \<and> pcount p = PIPE_RING_CAP \<and> 0 < readers p)
    \<or> (\<exists>n. n = min (PIPE_RING_CAP - pcount p) (length src) \<and> 0 < n \<and> w = WrWake (drop n src) (tot + n) \<and> ring_ok p'
        \<and> contents p' = contents p @ take n src \<and> writers p' = writers p \<and> readers p' = readers p)"
proof (cases "src \<noteq> [] \<and> readers p \<noteq> 0 \<and> pcount p \<noteq> PIPE_RING_CAP")
  case True
  let ?n = "min (PIPE_RING_CAP - pcount p) (length src)"
  have "0 < ?n" using True assms(2) by (auto simp: ring_ok_def)
  moreover have "take (PIPE_RING_CAP - pcount p) src = take ?n src" by (simp add: min_def)
  moreover obtain p1 where "pipe_fill src p = Some (?n, p1)" "ring_ok p1"
    "contents p1 = contents p @ take (PIPE_RING_CAP - pcount p) src" "readers p1 = readers p" "writers p1 = writers p"
    using pipe_fill_ok [OF assms(2), of src] by blast
  ultimately show ?thesis using True assms(1) by (intro disjI2 exI [of _ ?n]) (auto simp: pipe_write_round_def)
next
  case False
  with assms(1) show ?thesis by (auto simp: pipe_write_round_def ret_total_def split: if_splits)
qed

lemma sys_invD:
  assumes "sys_inv rs ws s"
  shows "ring_ok (pipe s)" "length (rds s) = length rs" "length (wrs s) = length ws"
    "i < length rs \<Longrightarrow> rd_inv (rs ! i) (by_thread i (received s)) (rds s ! i)"
    "j < length ws \<Longrightarrow> wr_inv (ws ! j) (by_thread j (sent s)) (wrs s ! j)"
  using assms by (simp_all add: sys_inv_def)

lemma read_round_inv:
  assumes inv: "sys_inv rs ws s" and i: "i < length (rds s)" "rds s ! i = RdRun sz got"
    and r: "pipe_read_round killed sz got (pipe s) = Some (r, p)"
  shows "sys_inv rs ws (s\<lparr>pipe := p, rds := (rds s)[i := r],
    received := received s @ (case r of RdWake sz' got' \<Rightarrow> [(i, drop (length got) got')] | _ \<Rightarrow> [])\<rparr>)"
proof -
  have mine: "got = by_thread i (received s)" "sz + length got = rs ! i"
    using sys_invD(4) [OF inv, of i] i sys_invD(2) [OF inv] by auto
  from read_round_cases [OF r sys_invD(1) [OF inv]] show ?thesis
  proof (elim disjE exE conjE)
    fix data assume d: "data = take sz (contents (pipe s))" "data \<noteq> []" "r = RdWake (sz - length data) (got @ data)"
      "ring_ok p" "contents p = drop sz (contents (pipe s))"
    from d(1,5) have "contents (pipe s) = data @ contents p" "length data \<le> sz" by simp_all
    with d(2-4) inv mine i show ?thesis by (auto simp: sys_inv_def nth_list_update)
  qed (use inv mine i in \<open>auto simp: sys_inv_def nth_list_update split: sum.splits\<close>)
qed

lemma write_round_inv:
  assumes inv: "sys_inv rs ws s" and j: "j < length (wrs s)" "wrs s ! j = WrRun src tot"
    and w: "pipe_write_round killed src tot (pipe s) = Some (w, p)"
  shows "sys_inv rs ws (s\<lparr>pipe := p, wrs := (wrs s)[j := w],
    sent := sent s @ (case w of WrWake src' tot' \<Rightarrow> [(j, take (tot' - tot) src)] | _ \<Rightarrow> [])\<rparr>)"
proof -
  have mine: "by_thread j (sent s) @ src = ws ! j" "tot = length (by_thread j (sent s))"
    using sys_invD(5) [OF inv, of j] j sys_invD(3) [OF inv] by auto
  from write_round_cases [OF w sys_invD(1) [OF inv]] show ?thesis
  proof (elim disjE exE conjE)
    fix n assume d: "n = min (PIPE_RING_CAP - pcount (pipe s)) (length src)" "w = WrWake (drop n src) (tot + n)"
      "ring_ok p" "contents p = contents (pipe s) @ take n src"
    from d(1) have "n \<le> length src" by simp
    with d(2-) inv mine j show ?thesis by (auto simp: sys_inv_def nth_list_update)
  qed (use inv mine j in \<open>auto simp: sys_inv_def nth_list_update split: sum.splits\<close>)
qed

lemma pipe_release_ring:
  "pipe_release m p = (p', wr, ww) \<Longrightarrow> contents p' = contents p \<and> (ring_ok p' \<longleftrightarrow> ring_ok p)"
  by (auto simp: pipe_release_def Let_def contents_def ring_ok_def)

lemma pipe_step_inv: "pipe_step s s' \<Longrightarrow> sys_inv rs ws s \<Longrightarrow> sys_inv rs ws s'"
proof (induction rule: pipe_step.induct)
  case (release m s p wr ww)
  from pipe_release_ring [OF release(1)] release(2) show ?case by (auto simp: sys_inv_def)
next
  case (read_wake i s sz got)
  from sys_invD(4) [OF read_wake(3), of i] read_wake show ?case by (auto simp: sys_inv_def nth_list_update)
next
  case (write_wake j s src tot)
  from sys_invD(5) [OF write_wake(3), of j] write_wake show ?case by (auto simp: sys_inv_def nth_list_update)
qed (auto simp: read_round_inv write_round_inv, auto simp: sys_inv_def nth_list_update)

lemma pipe_start_inv: "sys_inv rs ws (pipe_start nb rs ws)"
  by (simp add: sys_inv_def pipe_start_def new_pipe_def ring_ok_def contents_def)

lemma pipe_reach_inv: "pipe_reach nb rs ws s \<Longrightarrow> sys_inv rs ws s"
  by (induction rule: pipe_reach.induct) (auto intro: pipe_start_inv pipe_step_inv)

text \<open>
  C14: A pipe is a first-in first-out byte stream under every interleaving of its readers and
  writers. In every reachable state the bytes accepted so far, in the order the lock was taken, are
  the bytes delivered so far followed by what is in the ring: nothing is lost, duplicated or
  reordered. Each reader holds exactly the bytes it took, no more than it asked for; each writer has
  put in a prefix of its data, and a returned count is the number of bytes moved.
\<close>

theorem pipe_fifo:
  assumes "pipe_reach nb rs ws s"
  shows "concat (map snd (sent s)) = concat (map snd (received s)) @ contents (pipe s)
    \<and> length (contents (pipe s)) \<le> PIPE_RING_CAP
    \<and> (\<forall>i < length rs. got_of (rds s ! i) = by_thread i (received s) \<and> length (got_of (rds s ! i)) \<le> rs ! i)
    \<and> (\<forall>j < length ws. by_thread j (sent s) @ unsent (wrs s ! j) = ws ! j)
    \<and> (\<forall>i < length rs. \<forall>k got. rds s ! i = RdDone (Inr k) got \<longrightarrow> k = length (by_thread i (received s)))
    \<and> (\<forall>j < length ws. \<forall>k left tot. wrs s ! j = WrDone (Inr k) left tot \<longrightarrow> k = length (by_thread j (sent s)))"
proof -
  note inv = pipe_reach_inv [OF assms]
  have r: "got_of (rds s ! i) = by_thread i (received s)" "length (got_of (rds s ! i)) \<le> rs ! i"
    "rds s ! i = RdDone (Inr k) got \<Longrightarrow> k = length (by_thread i (received s))" if "i < length rs" for i k got
    using sys_invD(4) [OF inv that] by (cases "rds s ! i"; auto)+
  have w: "by_thread j (sent s) @ unsent (wrs s ! j) = ws ! j"
    "wrs s ! j = WrDone (Inr k) left tot \<Longrightarrow> k = length (by_thread j (sent s))" if "j < length ws" for j k left tot
    using sys_invD(5) [OF inv that] by (cases "wrs s ! j"; auto)+
  show ?thesis using inv r w by (simp add: sys_inv_def ring_ok_def)
qed

text \<open>Two threads: a writer puts three bytes, a reader with a buffer of two takes them.\<close>

theorem pipe_fifo_witness:
  "\<exists>s. pipe_reach False [2] [[1, 2, 3]] s \<and> rds s = [RdWake 0 [1, 2]]
    \<and> concat (map snd (sent s)) = concat (map snd (received s)) @ contents (pipe s)
    \<and> length (contents (pipe s)) = 1"
proof -
  let ?s0 = "pipe_start False [2] [[1, 2, 3]]"
  have r0: "ring_ok (new_pipe False)" and c0: "contents (new_pipe False) = []"
    by (simp_all add: ring_ok_def new_pipe_def contents_def)
  obtain p1 where p1: "pipe_fill [1, 2, 3] (new_pipe False) = Some (3, p1)" "ring_ok p1" "contents p1 = [1, 2, 3]"
    using pipe_fill_ok [OF r0, of "[1, 2, 3]"] c0 by (auto simp: new_pipe_def PIPE_RING_CAP_def)
  obtain p2 where p2: "pipe_take 2 p1 = Some ([1, 2], p2)" "contents p2 = [3]"
    using pipe_take_ok [OF p1(2), of 2] p1(3) by auto
  have "pcount p1 = 3" using contents_length [of p1] p1(3) by simp
  let ?s1 = "?s0\<lparr>pipe := p1, wrs := [WrWake [] 3], sent := [(0, [1, 2, 3])]\<rparr>"
  let ?s2 = "?s1\<lparr>pipe := p2, rds := [RdWake 0 [1, 2]], received := [(0, [1, 2])]\<rparr>"
  have "pipe_write_round False [1, 2, 3] 0 (new_pipe False) = Some (WrWake [] 3, p1)"
    using p1(1) by (simp add: pipe_write_round_def new_pipe_def PIPE_RING_CAP_def)
  then have "pipe_step ?s0 ?s1"
    using write_round [of 0 ?s0 "[1, 2, 3]" 0 False "WrWake [] 3" p1] by (simp add: pipe_start_def)
  moreover have "pipe_read_round False 2 [] p1 = Some (RdWake 0 [1, 2], p2)"
    using p2(1) \<open>pcount p1 = 3\<close> by (simp add: pipe_read_round_def)
  then have "pipe_step ?s1 ?s2"
    using read_round [of 0 ?s1 2 "[]" False "RdWake 0 [1, 2]" p2] by (simp add: pipe_start_def)
  ultimately have "pipe_reach False [2] [[1, 2, 3]] ?s2" by (meson start step)
  from this pipe_fifo [OF this] p2(2) show ?thesis by (intro exI [of _ ?s2]) simp
qed

section \<open>Sleeping and polling\<close>

fun rd_asleep :: "reader \<Rightarrow> bool" where
  "rd_asleep (RdSleep sz got) = True" | "rd_asleep _ = False"

fun rd_waking :: "reader \<Rightarrow> bool" where
  "rd_waking (RdWake sz got) = True" | "rd_waking _ = False"

fun wr_asleep :: "writer \<Rightarrow> bool" where
  "wr_asleep (WrSleep src tot) = True" | "wr_asleep _ = False"

fun wr_waking :: "writer \<Rightarrow> bool" where
  "wr_waking (WrWake src tot) = True" | "wr_waking _ = False"

definition wake_inv :: "pipe_sys \<Rightarrow> bool" where
  "wake_inv s \<longleftrightarrow>
     ((\<exists>r \<in> set (rds s). rd_asleep r) \<longrightarrow> pcount (pipe s) = 0 \<and> 0 < writers (pipe s) \<or> (\<exists>w \<in> set (wrs s). wr_waking w)) \<and>
     ((\<exists>w \<in> set (wrs s). wr_asleep w) \<longrightarrow> pcount (pipe s) = PIPE_RING_CAP \<and> 0 < readers (pipe s) \<or> (\<exists>r \<in> set (rds s). rd_waking r))"

lemma wake_reader_states [simp]: "\<not> rd_asleep (wake_reader r)" "rd_waking (wake_reader r) = rd_waking r"
  by (cases r; simp)+

lemma wake_writer_states [simp]: "\<not> wr_asleep (wake_writer w)" "wr_waking (wake_writer w) = wr_waking w"
  by (cases w; simp)+

lemma ex_set_nth: "(\<exists>x \<in> set xs. P x) \<longleftrightarrow> (\<exists>k < length xs. P (xs ! k))"
  by (metis in_set_conv_nth)

lemma ex_update:
  assumes "i < length xs"
  shows "(\<exists>x \<in> set (xs[i := y]). P x) \<longleftrightarrow> P y \<or> (\<exists>j < length xs. j \<noteq> i \<and> P (xs ! j))"
  unfolding ex_set_nth length_list_update using assms by (metis nth_list_update_eq nth_list_update_neq)

lemma ex_split:
  assumes "i < length xs"
  shows "(\<exists>x \<in> set xs. P x) \<longleftrightarrow> P (xs ! i) \<or> (\<exists>j < length xs. j \<noteq> i \<and> P (xs ! j))"
  unfolding ex_set_nth using assms by blast

lemma pipe_step_wake_inv: "pipe_step s s' \<Longrightarrow> ring_ok (pipe s) \<Longrightarrow> wake_inv s \<Longrightarrow> wake_inv s'"
proof (induction rule: pipe_step.induct)
  case (read_round i s sz got killed r p)
  note i = read_round(1)
  from read_round_cases [OF read_round(3,4)] show ?case
  proof (elim disjE exE conjE)
    fix data assume "data = take sz (contents (pipe s))" "data \<noteq> []" "r = RdWake (sz - length data) (got @ data)"
    moreover from this have "pcount (pipe s) \<noteq> 0" by (metis contents_length length_0_conv take_Nil)
    ultimately show ?thesis using read_round(2,5) i by (auto simp: wake_inv_def ex_update [OF i] ex_split [OF i])
  qed (use read_round(2,5) in \<open>auto simp: wake_inv_def ex_update [OF i] ex_split [OF i]\<close>)
next
  case (write_round j s src tot killed w p)
  note j = write_round(1)
  from write_round_cases [OF write_round(3,4)] show ?case
  proof (elim disjE exE conjE)
    fix n assume n: "n = min (PIPE_RING_CAP - pcount (pipe s)) (length src)" "0 < n" "w = WrWake (drop n src) (tot + n)"
    then have "pcount (pipe s) \<noteq> PIPE_RING_CAP" by auto
    with n(3) show ?thesis using write_round(2,5) by (auto simp: wake_inv_def ex_update [OF j] ex_split [OF j])
  qed (use write_round(2,5) in \<open>auto simp: wake_inv_def ex_update [OF j] ex_split [OF j]\<close>)
next
  case (read_wake i s sz got)
  then show ?case by (auto simp: wake_inv_def ex_update [OF read_wake(1)] ex_split [OF read_wake(1)])
next
  case (write_wake j s src tot)
  then show ?case by (auto simp: wake_inv_def ex_update [OF write_wake(1)] ex_split [OF write_wake(1)])
next
  case (read_signal i s)
  then show ?case by (auto simp: wake_inv_def ex_update [OF read_signal(1)] ex_split [OF read_signal(1)])
next
  case (write_signal j s)
  then show ?case by (auto simp: wake_inv_def ex_update [OF write_signal(1)] ex_split [OF write_signal(1)])
next
  case (release m s p wr ww)
  then show ?case by (auto simp: wake_inv_def pipe_release_def Let_def split: if_splits)
qed

text \<open>
  C15: No wake-up is lost. In every reachable state, if a reader is asleep then either the ring is
  empty and a writer still has the pipe open, or some writer has put bytes in and is about to wake
  the readers; if a writer is asleep then either the ring is full and a reader has the pipe open, or
  some reader is about to wake the writers.
\<close>

theorem pipe_no_lost_wakeup:
  assumes "pipe_reach nb rs ws s"
  shows "((\<exists>r \<in> set (rds s). rd_asleep r) \<longrightarrow> pcount (pipe s) = 0 \<and> 0 < writers (pipe s) \<or> (\<exists>w \<in> set (wrs s). wr_waking w))
    \<and> ((\<exists>w \<in> set (wrs s). wr_asleep w) \<longrightarrow>
        pcount (pipe s) = PIPE_RING_CAP \<and> 0 < readers (pipe s) \<or> (\<exists>r \<in> set (rds s). rd_waking r))"
  using assms
proof (induction rule: pipe_reach.induct)
  case start
  then show ?case by (auto simp: pipe_start_def)
next
  case (step s s')
  from pipe_step_wake_inv [OF step(2)] sys_invD(1) [OF pipe_reach_inv [OF step(1)]] step(3) show ?case
    by (simp add: wake_inv_def)
qed

theorem pipe_no_lost_wakeup_witness:
  "\<exists>s. pipe_reach False [4] [[1]] s \<and> (\<exists>r \<in> set (rds s). rd_asleep r) \<and> pcount (pipe s) = 0"
proof -
  let ?s0 = "pipe_start False [4] [[1]]"
  let ?s1 = "?s0\<lparr>rds := [RdSleep 4 []]\<rparr>"
  have "pipe_read_round False 4 [] (new_pipe False) = Some (RdSleep 4 [], new_pipe False)"
    by (simp add: pipe_read_round_def new_pipe_def)
  then have "pipe_step ?s0 ?s1"
    using read_round [of 0 ?s0 4 "[]" False "RdSleep 4 []" "new_pipe False"] by (simp add: pipe_start_def)
  then have s1: "pipe_reach False [4] [[1]] ?s1" by (meson start step)
  from pipe_no_lost_wakeup [OF s1] have "pcount (pipe ?s1) = 0" by (simp add: pipe_start_def)
  with s1 show ?thesis by (intro exI [of _ ?s1]) simp
qed



end
