(* ===== verification/Pipe_Files.thy ===== *)
theory Pipe_Files
  imports Pipe
begin

text \<open>
  Pipes as open files (\<open>src/src/fs/pipe.c\<close>, from \<open>pipefs_evict_inode\<close> to \<open>do_pipe2\<close>): the file
  operations of a pipe end, the creation of the two ends with every error path, and the system call
  that installs them in the caller's descriptor table. The inode cache, the dentry cache and the
  mount of pipefs are the fields of \<open>pipe_env\<close>.
\<close>

section \<open>Model\<close>

text \<open>\<open>pipes i\<close> is the \<open>private_data\<close> of inode \<open>i\<close>; the state of the caches is of any type.\<close>

record 'e pipe_world =
  pipes :: "nat \<Rightarrow> anon_pipe option"
  ino_counter :: nat
  caches :: 'e

record 'e pipe_env =
  inode_get :: "nat \<Rightarrow> 'e \<Rightarrow> (nat \<times> bool) option \<times> 'e"
  inode_put :: "nat \<Rightarrow> 'e pipe_world \<Rightarrow> 'e pipe_world"
  dentry_alloc :: "nat \<Rightarrow> 'e \<Rightarrow> nat option \<times> 'e"
  mount_get :: "nat \<Rightarrow> 'e \<Rightarrow> 'e"
  inode_of :: "nat option \<Rightarrow> 'e pipe_world \<Rightarrow> nat option"
  get_path :: "fs_path \<Rightarrow> 'e pipe_world \<Rightarrow> 'e pipe_world"
  put_path :: "fs_path \<Rightarrow> 'e pipe_world \<Rightarrow> 'e pipe_world"

definition pipefs_evict_inode :: "nat \<Rightarrow> 'e pipe_world \<Rightarrow> 'e pipe_world" where
  "pipefs_evict_inode i d = d\<lparr>pipes := (pipes d)(i := None)\<rparr>"

text \<open>
  \<open>pipe_read\<close> and \<open>pipe_write\<close> of a thread that runs alone: a call that sleeps does not come back.
\<close>

partial_function (option) pipe_read_from :: "bool \<Rightarrow> nat \<Rightarrow> u8 list \<Rightarrow> anon_pipe
    \<Rightarrow> ((errno + nat) \<times> u8 list \<times> anon_pipe) option" where
  "pipe_read_from killed sz got p = do {
     (r, p) \<leftarrow> pipe_read_round killed sz got p;
     (case r of
        RdDone res got \<Rightarrow> Some (res, got, p)
      | RdWake sz got \<Rightarrow> pipe_read_from killed sz got p
      | _ \<Rightarrow> None) }"

partial_function (option) pipe_write_from :: "bool \<Rightarrow> u8 list \<Rightarrow> nat \<Rightarrow> anon_pipe
    \<Rightarrow> ((errno + nat) \<times> anon_pipe) option" where
  "pipe_write_from killed src tot p = do {
     (w, p) \<leftarrow> pipe_write_round killed src tot p;
     (case w of
        WrDone res src tot \<Rightarrow> Some (res, p)
      | WrWake src tot \<Rightarrow> pipe_write_from killed src tot p
      | _ \<Rightarrow> None) }"

definition pipe_read :: "bool \<Rightarrow> fs_file \<Rightarrow> nat \<Rightarrow> 'e pipe_world \<Rightarrow> ((errno + u8 list) \<times> 'e pipe_world) option" where
  "pipe_read killed file sz d = do {
     i \<leftarrow> f_inode file;
     (case pipes d i of
        None \<Rightarrow> Some (Inl EINVAL, d)
      | Some p \<Rightarrow> do {
          (r, got, p) \<leftarrow> pipe_read_from killed sz [] p;
          Some (case r of Inl e \<Rightarrow> Inl e | Inr n \<Rightarrow> Inr got, d\<lparr>pipes := (pipes d)(i \<mapsto> p)\<rparr>) }) }"

definition pipe_write :: "bool \<Rightarrow> fs_file \<Rightarrow> u8 list \<Rightarrow> 'e pipe_world \<Rightarrow> ((errno + nat) \<times> 'e pipe_world) option" where
  "pipe_write killed file src d = do {
     i \<leftarrow> f_inode file;
     (case pipes d i of
        None \<Rightarrow> Some (Inl EINVAL, d)
      | Some p \<Rightarrow> do {
          (r, p) \<leftarrow> pipe_write_from killed src 0 p;
          Some (r, d\<lparr>pipes := (pipes d)(i \<mapsto> p)\<rparr>) }) }"

definition pipe_file_release :: "fs_file \<Rightarrow> 'e pipe_world \<Rightarrow> 'e pipe_world option" where
  "pipe_file_release file d = do {
     i \<leftarrow> f_inode file;
     (case pipes d i of
        None \<Rightarrow> Some d
      | Some p \<Rightarrow> Some (d\<lparr>pipes := (pipes d)(i \<mapsto> fst (pipe_release (f_mode file) p))\<rparr>)) }"

definition pipe_fifo_fops :: "'e pipe_world fs_file_ops" where
  "pipe_fifo_fops = \<lparr>fop_open = \<lambda>file d. Some (Inr file, d), fop_release = Some pipe_file_release,
     fop_read = \<lambda>file n pos d. do { (r, d) \<leftarrow> pipe_read False file n d; Some (r, pos, d) },
     fop_write = \<lambda>file src pos d. do { (r, d) \<leftarrow> pipe_write False file src d; Some (r, pos, d) },
     fop_llseek = \<lambda>file off whence d. Inl ESPIPE,
     fop_poll = Some (\<lambda>file events d. pipe_poll (Option.bind (f_inode file) (pipes d)) events),
     fop_ioctl = None\<rparr>"

definition pipe_vfs :: "'e pipe_env \<Rightarrow> 'e pipe_world vfs" where
  "pipe_vfs e = \<lparr>ops_of = \<lambda>_. pipe_fifo_fops, inode_fops = \<lambda>i d. 0, dentry_inode = inode_of e,
     path_get = \<lambda>p d. Some (get_path e p d), path_put = \<lambda>p d. Some (put_path e p d),
     remove_privs = \<lambda>file d. Some d\<rparr>"

definition O_NONBLOCK :: u32 where "O_NONBLOCK = 0x800"
definition O_CLOEXEC :: u32 where "O_CLOEXEC = 0x80000"

text \<open>The end of \<open>anon_pipe_create\<close>: the two files on the path that owns the new dentry.\<close>

definition pipe_open_ends :: "'e pipe_env \<Rightarrow> fs_path \<Rightarrow> fid option \<Rightarrow> fid option \<Rightarrow> 'e pipe_world file_world
    \<Rightarrow> ((errno + fid \<times> fid) \<times> 'e pipe_world file_world) option" where
  "pipe_open_ends e path o1 o2 w = do {
     (r, w) \<leftarrow> fs_file_alloc (pipe_vfs e) o1 path FMODE_READ w;
     (case r of
        Inl err \<Rightarrow> Some (Inl err, w\<lparr>rest := put_path e path (rest w)\<rparr>)
      | Inr rfl \<Rightarrow> do {
          (r, w) \<leftarrow> fs_file_alloc (pipe_vfs e) o2 path FMODE_WRITE w;
          (case r of
             Inl err \<Rightarrow> do {
               w \<leftarrow> fs_file_put (pipe_vfs e) rfl (w\<lparr>rest := put_path e path (rest w)\<rparr>);
               Some (Inl err, w) }
           | Inr wfl \<Rightarrow> Some (Inr (rfl, wfl), w\<lparr>rest := put_path e path (rest w)\<rparr>)) }) }"

text \<open>
  \<open>anon_pipe_create\<close>: \<open>pm\<close> is the mount of pipefs, \<open>mem\<close> whether \<open>kzalloc\<close> succeeds, \<open>o1\<close> and \<open>o2\<close>
  what the file cache hands out for the two ends.
\<close>

definition anon_pipe_create :: "'e pipe_env \<Rightarrow> nat option \<Rightarrow> bool \<Rightarrow> fid option \<Rightarrow> fid option \<Rightarrow> u32
    \<Rightarrow> 'e pipe_world file_world \<Rightarrow> ((errno + fid \<times> fid) \<times> 'e pipe_world file_world) option" where
  "anon_pipe_create e pm mem o1 o2 flags w = (case pm of None \<Rightarrow> Some (Inl ENODEV, w) | Some m \<Rightarrow>
     (if \<not> mem then Some (Inl ENOMEM, w)
      else (let d = (rest w)\<lparr>ino_counter := ino_counter (rest w) + 1\<rparr>;
                (r, c) = inode_get e (ino_counter d) (caches d);
                d = d\<lparr>caches := c\<rparr> in
        (case r of None \<Rightarrow> Some (Inl ENOMEM, w\<lparr>rest := d\<rparr>) | Some (i, new) \<Rightarrow>
          (if \<not> new then Some (Inl EBUSY, w\<lparr>rest := inode_put e i d\<rparr>)
           else (let d = d\<lparr>pipes := (pipes d)(i \<mapsto> new_pipe (flags AND O_NONBLOCK \<noteq> 0))\<rparr>;
                     (r, c) = dentry_alloc e i (caches d);
                     d = d\<lparr>caches := c\<rparr> in
             (case r of None \<Rightarrow> Some (Inl ENOMEM, w\<lparr>rest := inode_put e i d\<rparr>) | Some de \<Rightarrow>
               pipe_open_ends e \<lparr>mnt = Some m, dentry = Some de\<rparr> o1 o2
                 (w\<lparr>rest := d\<lparr>caches := mount_get e m (caches d)\<rparr>\<rparr>))))))))"

text \<open>The part of \<open>do_pipe2\<close> after the pipe exists.\<close>

definition pipe_install :: "'d vfs \<Rightarrow> fid \<Rightarrow> fid \<Rightarrow> file_desc_table \<Rightarrow> 'd file_world
    \<Rightarrow> ((errno + nat \<times> nat) \<times> file_desc_table \<times> 'd file_world) option" where
  "pipe_install v rfl wfl t w = (case fdtable_alloc_fd t rfl of
     (Inl err, t) \<Rightarrow> do { w \<leftarrow> fs_file_put v wfl w; w \<leftarrow> fs_file_put v rfl w; Some (Inl EMFILE, t, w) }
   | (Inr fd0, t) \<Rightarrow> (case fdtable_alloc_fd t wfl of
       (Inl err, t) \<Rightarrow> do {
         (r, t, w) \<leftarrow> fdtable_close_fd v t (int fd0) w;
         w \<leftarrow> fs_file_put v wfl w;
         Some (Inl EMFILE, t, w) }
     | (Inr fd1, t) \<Rightarrow> Some (Inr (fd0, fd1), t, w)))"

definition do_pipe2 :: "'e pipe_env \<Rightarrow> nat option \<Rightarrow> bool \<Rightarrow> fid option \<Rightarrow> fid option \<Rightarrow> u32 \<Rightarrow> file_desc_table
    \<Rightarrow> 'e pipe_world file_world \<Rightarrow> ((errno + nat \<times> nat) \<times> file_desc_table \<times> 'e pipe_world file_world) option" where
  "do_pipe2 e pm mem o1 o2 flags t w =
     (if flags AND NOT (O_CLOEXEC OR O_NONBLOCK) \<noteq> 0 then Some (Inl EINVAL, t, w)
      else do {
        (r, w) \<leftarrow> anon_pipe_create e pm mem o1 o2 flags w;
        (case r of
           Inl err \<Rightarrow> Some (Inl err, t, w)
         | Inr (rfl, wfl) \<Rightarrow> pipe_install (pipe_vfs e) rfl wfl t w) })"

section \<open>Pipe files follow the contract of the file layer\<close>

interpretation pipe_files: file_drivers "pipe_vfs e" "\<lambda>file. f_inode file \<noteq> None" for e
  by unfold_locales
    (auto simp: pipe_vfs_def pipe_fifo_fops_def pipe_file_release_def split: option.splits)

context file_drivers
begin

text \<open>Installing two files whose references the caller holds.\<close>

lemma pipe_install_counted:
  assumes c: "counted good t h w" and h: "rfl \<noteq> wfl" "0 < h rfl" "0 < h wfl"
  shows "\<exists>r t' w'. pipe_install v rfl wfl t w = Some (r, t', w')
    \<and> counted good t' (h(rfl := h rfl - 1, wfl := h wfl - 1)) w'
    \<and> (r = Inl EMFILE \<and> slots t' = slots t
       \<or> (\<exists>fd0 fd1. r = Inr (fd0, fd1) \<and> fd0 < fd1 \<and> fd1 < OPEN_MAX \<and> {0..<fd0} \<subseteq> used_fds t
           \<and> slots t ! fd0 = None \<and> slots t ! fd1 = None \<and> slots t' = (slots t)[fd0 := Some rfl, fd1 := Some wfl] \<and> w' = w))"
proof -
  have t: "table_ok t" using c by (simp add: counted_def)
  show ?thesis
  proof (cases "free_slot 0 (slots t)")
    case None
    from counted_put [OF c h(3)] obtain w1 where
      w1: "fs_file_put v wfl w = Some w1" "counted good t (h(wfl := h wfl - 1)) w1" by blast
    from counted_put [OF w1(2), of rfl] h obtain w2 where
      "fs_file_put v rfl w1 = Some w2" "counted good t (h(rfl := h rfl - 1, wfl := h wfl - 1)) w2"
      by (auto simp: fun_upd_twist)
    with None w1 show ?thesis by (simp add: pipe_install_def fdtable_alloc_fd_def)
  next
    case (Some i)
    note i = free_slot_0 [OF t Some]
    let ?t = "t\<lparr>slots := (slots t)[i := Some rfl]\<rparr>"
    note c1 = counted_fill [OF c i(1,2) h(2)]
    have t1: "table_ok ?t" using t by simp
    show ?thesis
    proof (cases "free_slot 0 ((slots t)[i := Some rfl])")
      case None
      have bk: "(slots t)[i := None] = slots t" using i(2) by (metis list_update_id)
      have at: "(slots t)[i := Some rfl] ! i = Some rfl" using i(1) t by (simp add: table_ok_def)
      from counted_clear [OF c1 i(1), of rfl] at h have c2: "counted good t h w"
        by (simp add: bk)
      from counted_put [OF c2 h(2)] obtain w1 where
        w1: "fs_file_put v rfl w = Some w1" "counted good t (h(rfl := h rfl - 1)) w1" by blast
      from counted_put [OF w1(2), of wfl] h obtain w2 where
        "fs_file_put v wfl w1 = Some w2" "counted good t (h(rfl := h rfl - 1, wfl := h wfl - 1)) w2" by auto
      with None Some w1 i at t show ?thesis
        by (simp add: pipe_install_def fdtable_alloc_fd_def fdtable_close_fd_def fd_valid_def nth_opt_def
            table_ok_def bk)
    next
      case some2: (Some j)
      note j = free_slot_0 [OF t1, simplified, OF some2]
      have "i < j"
      proof (rule ccontr)
        assume "\<not> i < j"
        then have "j < i \<or> j = i" by linarith
        then show False using i j t by (auto simp: used_fds_def table_ok_def subset_iff)
      qed
      moreover from this have "slots t ! j = None" using j by simp
      moreover from counted_fill [OF c1, of j wfl] j h have
        "counted good (?t\<lparr>slots := (slots ?t)[j := Some wfl]\<rparr>) (h(rfl := h rfl - 1, wfl := h wfl - 1)) w" by simp
      ultimately show ?thesis using Some some2 i j by (simp add: pipe_install_def fdtable_alloc_fd_def)
    qed
  qed
qed

end

section \<open>Creating a pipe\<close>

abbreviation has_inode :: "fs_file \<Rightarrow> bool" where
  "has_inode \<equiv> \<lambda>file. f_inode file \<noteq> None"

lemma pipe_file_alloc:
  "\<exists>r w'. fs_file_alloc (pipe_vfs e) obj p m w = Some (r, w') \<and>
     ((\<exists>err. r = Inl err) \<and> files w' = files w
      \<or> (\<exists>f fl. obj = Some f \<and> r = Inr f \<and> files w' = (files w)(f \<mapsto> fl) \<and> f_count fl = refcnt_init 1
           \<and> f_inode fl \<noteq> None \<and> f_mode fl = m))"
  by (auto simp: fs_file_alloc_def pipe_vfs_def pipe_fifo_fops_def split: option.splits)

text \<open>A new object with one reference, held by its creator.\<close>

lemma counted_new:
  assumes "counted has_inode t h w" "files w f = None" "files w' = (files w)(f \<mapsto> fl)"
    "f_count fl = refcnt_init 1" "f_inode fl \<noteq> None"
  shows "counted has_inode t (h(f := h f + 1)) w'"
proof -
  have "file_refs w f = 0" using assms(2) by (simp add: file_refs_def)
  then have "slot_refs t f + h f = 0" using assms(1) by (simp add: counted_def)
  with assms show ?thesis
    by (auto simp: counted_def live_counted_def file_refs_def refcnt_defs)
qed

lemma counted_rest: "files w' = files w \<Longrightarrow> counted good t h w' = counted good t h w"
  by (simp add: counted_def live_counted_def file_refs_def)

lemma counted_rest_upd [simp]: "counted good t h (w\<lparr>rest := d\<rparr>) = counted good t h w"
  by (rule counted_rest) simp

text \<open>What creating a pipe does to the files: nothing on failure, two new ends on success.\<close>

definition pipe_created :: "file_desc_table \<Rightarrow> (fid \<Rightarrow> nat) \<Rightarrow> fid option \<Rightarrow> fid option
    \<Rightarrow> (errno + fid \<times> fid) \<times> 'e pipe_world file_world \<Rightarrow> bool" where
  "pipe_created t h o1 o2 res \<longleftrightarrow> (case res of
     (Inl err, w) \<Rightarrow> counted has_inode t h w
   | (Inr (a, b), w) \<Rightarrow> o1 = Some a \<and> o2 = Some b \<and> map_option f_mode (files w a) = Some FMODE_READ
       \<and> map_option f_mode (files w b) = Some FMODE_WRITE
       \<and> counted has_inode t (h(a := h a + 1, b := h b + 1)) w)"

lemma pipe_open_ends_created:
  assumes c: "counted has_inode t h w"
    and fresh: "\<And>f. o1 = Some f \<or> o2 = Some f \<Longrightarrow> files w f = None" "o1 \<noteq> o2 \<or> o1 = None"
  shows "\<exists>res. pipe_open_ends e path o1 o2 w = Some res \<and> pipe_created t h o1 o2 res"
proof -
  let ?alloc = "\<lambda>ob. fs_file_alloc (pipe_vfs e) ob path"
  from pipe_file_alloc [of e o1 path FMODE_READ w] obtain r1 w1 where
    r1: "?alloc o1 FMODE_READ w = Some (r1, w1)" and
    d1: "(\<exists>err. r1 = Inl err) \<and> files w1 = files w \<or> (\<exists>f fl. o1 = Some f \<and> r1 = Inr f \<and> files w1 = (files w)(f \<mapsto> fl)
      \<and> f_count fl = refcnt_init 1 \<and> f_inode fl \<noteq> None \<and> f_mode fl = FMODE_READ)" by blast
  from d1 show ?thesis
  proof (elim disjE exE conjE)
    fix err assume "r1 = Inl err" "files w1 = files w"
    with r1 c counted_rest [of w1 w] show ?thesis by (simp add: pipe_open_ends_def pipe_created_def)
  next
    fix a fa assume a: "o1 = Some a" "r1 = Inr a" "files w1 = (files w)(a \<mapsto> fa)"
      "f_count fa = refcnt_init 1" "f_inode fa \<noteq> None" "f_mode fa = FMODE_READ"
    note c1 = counted_new [OF c fresh(1) a(3-5), OF disjI1 [OF a(1)]]
    from pipe_file_alloc [of e o2 path FMODE_WRITE w1] obtain r2 w2 where
      r2: "?alloc o2 FMODE_WRITE w1 = Some (r2, w2)" and
      d2: "(\<exists>err. r2 = Inl err) \<and> files w2 = files w1 \<or> (\<exists>f fl. o2 = Some f \<and> r2 = Inr f \<and> files w2 = (files w1)(f \<mapsto> fl)
        \<and> f_count fl = refcnt_init 1 \<and> f_inode fl \<noteq> None \<and> f_mode fl = FMODE_WRITE)" by blast
    from d2 show ?thesis
    proof (elim disjE exE conjE)
      fix err assume e2: "r2 = Inl err" "files w2 = files w1"
      then have "counted has_inode t (h(a := h a + 1)) (w2\<lparr>rest := put_path e path (rest w2)\<rparr>)"
        using c1 counted_rest [of w2 w1] by simp
      from pipe_files.counted_put [OF this, of a e] r1 r2 a e2 show ?thesis
        by (auto simp: pipe_open_ends_def pipe_created_def)
    next
      fix b fb assume b: "o2 = Some b" "r2 = Inr b" "files w2 = (files w1)(b \<mapsto> fb)"
        "f_count fb = refcnt_init 1" "f_inode fb \<noteq> None" "f_mode fb = FMODE_WRITE"
      have ab: "a \<noteq> b" using fresh(2) a(1) b(1) by auto
      then have "files w1 b = None" using fresh(1) [of b] a(3) b(1) by simp
      from counted_new [OF c1 this b(3-5)] r1 r2 a b ab show ?thesis
        by (simp add: pipe_open_ends_def pipe_created_def)
    qed
  qed
qed

lemma anon_pipe_create_created:
  assumes c: "counted has_inode t h w"
    and fresh: "\<And>f. o1 = Some f \<or> o2 = Some f \<Longrightarrow> files w f = None" "o1 \<noteq> o2 \<or> o1 = None"
  shows "\<exists>res. anon_pipe_create e pm mem o1 o2 flags w = Some res \<and> pipe_created t h o1 o2 res"
proof -
  have ends: "\<exists>r w'. pipe_open_ends e path o1 o2 (w\<lparr>rest := d\<rparr>) = Some (r, w') \<and> pipe_created t h o1 o2 (r, w')" for path d
    using pipe_open_ends_created [of t h "w\<lparr>rest := d\<rparr>" o1 o2] c fresh by simp
  have err: "pipe_created t h o1 o2 (Inl er, w)" "pipe_created t h o1 o2 (Inl er, w\<lparr>rest := d\<rparr>)" for er d
    using c by (simp_all add: pipe_created_def)
  show ?thesis by (simp add: anon_pipe_create_def Let_def err ends split: option.splits prod.splits)
qed


text \<open>Caches that always have room.\<close>

definition roomy_env :: "unit pipe_env" where
  "roomy_env = \<lparr>inode_get = \<lambda>n c. (Some (n, True), c), inode_put = pipefs_evict_inode,
     dentry_alloc = \<lambda>i c. (Some i, c), mount_get = \<lambda>m c. c, inode_of = \<lambda>de d. de,
     get_path = \<lambda>p d. d, put_path = \<lambda>p d. d\<rparr>"

definition no_files :: "unit pipe_world file_world" where
  "no_files = \<lparr>files = \<lambda>_. None, rest = \<lparr>pipes = \<lambda>_. None, ino_counter = 1, caches = ()\<rparr>\<rparr>"


end
