(* ===== verification/Kstring.thy ===== *)
theory Kstring
  imports Bytes
begin

text \<open>
  The memory and string routines of \<open>src/src/lib/string.c\<close>. Memory is one list of bytes and a
  pointer is an index into it, so that source and destination of a copy may overlap; reading or
  writing past the end of memory has no result. Every loop of the code is one function here, with
  the loop's variables as arguments; a routine that returns a pointer returns the index.
\<close>

type_synonym mem = "u8 list"

section \<open>Memory\<close>

function memcpy_loop :: "nat \<Rightarrow> nat \<Rightarrow> nat \<Rightarrow> nat \<Rightarrow> mem \<Rightarrow> mem option" where
  "memcpy_loop d s n i m =
     (if i < n then do { b \<leftarrow> nth_opt m (s + i); m \<leftarrow> upd_opt m (d + i) b; memcpy_loop d s n (Suc i) m }
      else Some m)"
  by pat_completeness auto
termination by (relation "measure (\<lambda>(d, s, n, i, m). n - i)") auto

definition memcpy :: "nat \<Rightarrow> nat \<Rightarrow> nat \<Rightarrow> mem \<Rightarrow> mem option" where
  "memcpy d s n m = memcpy_loop d s n 0 m"

fun memmove_down :: "nat \<Rightarrow> nat \<Rightarrow> nat \<Rightarrow> mem \<Rightarrow> mem option" where
  "memmove_down d s 0 m = Some m"
| "memmove_down d s (Suc i) m = do {
     b \<leftarrow> nth_opt m (s + i); m \<leftarrow> upd_opt m (d + i) b; memmove_down d s i m }"

definition memmove :: "nat \<Rightarrow> nat \<Rightarrow> nat \<Rightarrow> mem \<Rightarrow> mem option" where
  "memmove d s n m =
     (if d < s then memcpy_loop d s n 0 m
      else if d > s then memmove_down d s n m
      else Some m)"

function memset_loop :: "nat \<Rightarrow> u8 \<Rightarrow> nat \<Rightarrow> nat \<Rightarrow> mem \<Rightarrow> mem option" where
  "memset_loop s c n i m =
     (if i < n then do { m \<leftarrow> upd_opt m (s + i) c; memset_loop s c n (Suc i) m } else Some m)"
  by pat_completeness auto
termination by (relation "measure (\<lambda>(s, c, n, i, m). n - i)") auto

definition memset :: "nat \<Rightarrow> int \<Rightarrow> nat \<Rightarrow> mem \<Rightarrow> mem option" where
  "memset s c n m = memset_loop s (word_of_int c) n 0 m"

function memchr_loop :: "nat \<Rightarrow> u8 \<Rightarrow> nat \<Rightarrow> nat \<Rightarrow> mem \<Rightarrow> nat option option" where
  "memchr_loop s c n i m =
     (if i < n then do { b \<leftarrow> nth_opt m (s + i); (if b = c then Some (Some (s + i)) else memchr_loop s c n (Suc i) m) }
      else Some None)"
  by pat_completeness auto
termination by (relation "measure (\<lambda>(s, c, n, i, m). n - i)") auto

definition memchr :: "nat \<Rightarrow> int \<Rightarrow> nat \<Rightarrow> mem \<Rightarrow> nat option option" where
  "memchr s c n m = memchr_loop s (word_of_int c) n 0 m"

fun memrchr_loop :: "nat \<Rightarrow> u8 \<Rightarrow> nat \<Rightarrow> mem \<Rightarrow> nat option option" where
  "memrchr_loop s c 0 m = Some None"
| "memrchr_loop s c (Suc i) m = do {
     b \<leftarrow> nth_opt m (s + i); (if b = c then Some (Some (s + i)) else memrchr_loop s c i m) }"

definition memrchr :: "nat \<Rightarrow> int \<Rightarrow> nat \<Rightarrow> mem \<Rightarrow> nat option option" where
  "memrchr s c n m = memrchr_loop s (word_of_int c) n m"

function memcmp_loop :: "nat \<Rightarrow> nat \<Rightarrow> nat \<Rightarrow> nat \<Rightarrow> mem \<Rightarrow> int option" where
  "memcmp_loop p1 p2 n i m =
     (if i < n then do {
        a \<leftarrow> nth_opt m (p1 + i); b \<leftarrow> nth_opt m (p2 + i);
        (if a \<noteq> b then Some (if a > b then 1 else -1) else memcmp_loop p1 p2 n (Suc i) m) }
      else Some 0)"
  by pat_completeness auto
termination by (relation "measure (\<lambda>(p1, p2, n, i, m). n - i)") auto

definition memcmp :: "nat \<Rightarrow> nat \<Rightarrow> nat \<Rightarrow> mem \<Rightarrow> int option" where
  "memcmp p1 p2 n m = memcmp_loop p1 p2 n 0 m"

function memswap_loop :: "nat \<Rightarrow> nat \<Rightarrow> nat \<Rightarrow> nat \<Rightarrow> mem \<Rightarrow> mem option" where
  "memswap_loop p1 p2 n i m =
     (if i < n then do {
        t \<leftarrow> nth_opt m (p1 + i); b \<leftarrow> nth_opt m (p2 + i);
        m \<leftarrow> upd_opt m (p1 + i) b; m \<leftarrow> upd_opt m (p2 + i) t;
        memswap_loop p1 p2 n (Suc i) m }
      else Some m)"
  by pat_completeness auto
termination by (relation "measure (\<lambda>(p1, p2, n, i, m). n - i)") auto

definition memswap :: "nat \<Rightarrow> nat \<Rightarrow> nat \<Rightarrow> mem \<Rightarrow> mem option" where
  "memswap p1 p2 n m = memswap_loop p1 p2 n 0 m"

section \<open>Strings\<close>

text \<open>Where the scanning loop of \<open>strlen\<close> stops.\<close>

function scan_nul :: "nat \<Rightarrow> mem \<Rightarrow> nat option" where
  "scan_nul p m = do { c \<leftarrow> nth_opt m p; (if c \<noteq> 0 then scan_nul (Suc p) m else Some p) }"
  by pat_completeness auto
termination by (relation "measure (\<lambda>(p, m). length m - p)") (auto simp: nth_opt_Some_iff)

definition strlen :: "nat \<Rightarrow> mem \<Rightarrow> nat option" where
  "strlen s m = do { p \<leftarrow> scan_nul s m; Some (p - s) }"

fun scan_nul_upto :: "nat \<Rightarrow> nat \<Rightarrow> mem \<Rightarrow> nat option" where
  "scan_nul_upto p 0 m = Some p"
| "scan_nul_upto p (Suc n) m = do { c \<leftarrow> nth_opt m p; (if c \<noteq> 0 then scan_nul_upto (Suc p) n m else Some p) }"

definition strnlen :: "nat \<Rightarrow> nat \<Rightarrow> mem \<Rightarrow> nat option" where
  "strnlen s n m = do { p \<leftarrow> scan_nul_upto s n m; Some (p - s) }"

function strcmp :: "nat \<Rightarrow> nat \<Rightarrow> mem \<Rightarrow> int option" where
  "strcmp s1 s2 m = do {
     a \<leftarrow> nth_opt m s1; b \<leftarrow> nth_opt m s2;
     (if a \<noteq> 0 \<and> a = b then strcmp (Suc s1) (Suc s2) m else Some (uint a - uint b)) }"
  by pat_completeness auto
termination by (relation "measure (\<lambda>(s1, s2, m). length m - s1)") (auto simp: nth_opt_Some_iff)

text \<open>The counter of \<open>strncmp\<close> has wrapped to \<open>(size_t)-1\<close> exactly when it was 0 at the test.\<close>

fun strncmp :: "nat \<Rightarrow> nat \<Rightarrow> nat \<Rightarrow> mem \<Rightarrow> int option" where
  "strncmp s1 s2 0 m = Some 0"
| "strncmp s1 s2 (Suc n) m = do {
     a \<leftarrow> nth_opt m s1; b \<leftarrow> nth_opt m s2;
     (if a \<noteq> 0 \<and> a = b then strncmp (Suc s1) (Suc s2) n m else Some (uint a - uint b)) }"

function strcpy :: "nat \<Rightarrow> nat \<Rightarrow> mem \<Rightarrow> mem option" where
  "strcpy d s m = do {
     c \<leftarrow> nth_opt m s; m' \<leftarrow> upd_opt m d c;
     (if c \<noteq> 0 then strcpy (Suc d) (Suc s) m' else Some m') }"
  by pat_completeness auto
termination by (relation "measure (\<lambda>(d, s, m). length m - s)") (auto simp: nth_opt_Some_iff upd_opt_Some_iff)

function strncpy_copy :: "nat \<Rightarrow> nat \<Rightarrow> nat \<Rightarrow> nat \<Rightarrow> mem \<Rightarrow> (nat \<times> mem) option" where
  "strncpy_copy d s n i m =
     (if i < n then do {
        c \<leftarrow> nth_opt m (s + i);
        (if c \<noteq> 0 then do { m \<leftarrow> upd_opt m (d + i) c; strncpy_copy d s n (Suc i) m } else Some (i, m)) }
      else Some (i, m))"
  by pat_completeness auto
termination by (relation "measure (\<lambda>(d, s, n, i, m). n - i)") auto

definition strncpy :: "nat \<Rightarrow> nat \<Rightarrow> nat \<Rightarrow> mem \<Rightarrow> mem option" where
  "strncpy d s n m = do { (i, m) \<leftarrow> strncpy_copy d s n 0 m; memset_loop d 0 n i m }"

text \<open>The loop \<open>while (size && *src)\<close> of \<open>strlcpy\<close> and \<open>strncat\<close>: the end pointers and the memory.\<close>

fun copy_upto :: "nat \<Rightarrow> nat \<Rightarrow> nat \<Rightarrow> mem \<Rightarrow> (nat \<times> nat \<times> mem) option" where
  "copy_upto d s 0 m = Some (d, s, m)"
| "copy_upto d s (Suc n) m = do {
     c \<leftarrow> nth_opt m s;
     (if c \<noteq> 0 then do { m \<leftarrow> upd_opt m d c; copy_upto (Suc d) (Suc s) n m } else Some (d, s, m)) }"

definition strlcpy :: "nat \<Rightarrow> nat \<Rightarrow> nat \<Rightarrow> mem \<Rightarrow> (nat \<times> mem) option" where
  "strlcpy d s sz m =
     (if sz = 0 then do { l \<leftarrow> strlen s m; Some (l, m) }
      else do {
        (dst, src, m) \<leftarrow> copy_upto d s (sz - 1) m;
        m \<leftarrow> upd_opt m dst 0;
        l \<leftarrow> strlen src m;
        Some (dst - d + l, m) })"

definition strcat :: "nat \<Rightarrow> nat \<Rightarrow> mem \<Rightarrow> mem option" where
  "strcat d s m = do { l \<leftarrow> strlen d m; strcpy (d + l) s m }"

definition strncat :: "nat \<Rightarrow> nat \<Rightarrow> nat \<Rightarrow> mem \<Rightarrow> mem option" where
  "strncat d s n m = do {
     l \<leftarrow> strlen d m;
     (dst, src, m) \<leftarrow> copy_upto (d + l) s n m;
     upd_opt m dst 0 }"

definition strlcat :: "nat \<Rightarrow> nat \<Rightarrow> nat \<Rightarrow> mem \<Rightarrow> (nat \<times> mem) option" where
  "strlcat d s sz m = do {
     len \<leftarrow> strnlen d sz m;
     (if len = sz then do { l \<leftarrow> strlen s m; Some (sz + l, m) }
      else do { (r, m) \<leftarrow> strlcpy (d + len) s (sz - len) m; Some (len + r, m) }) }"

function strchr_loop :: "nat \<Rightarrow> u8 \<Rightarrow> mem \<Rightarrow> nat option option" where
  "strchr_loop s c m = do {
     b \<leftarrow> nth_opt m s;
     (if b \<noteq> 0 then (if b = c then Some (Some s) else strchr_loop (Suc s) c m)
      else Some (if c = 0 then Some s else None)) }"
  by pat_completeness auto
termination by (relation "measure (\<lambda>(s, c, m). length m - s)") (auto simp: nth_opt_Some_iff)

definition strchr :: "nat \<Rightarrow> int \<Rightarrow> mem \<Rightarrow> nat option option" where
  "strchr s c m = strchr_loop s (word_of_int c) m"

function strrchr_loop :: "nat \<Rightarrow> u8 \<Rightarrow> nat option \<Rightarrow> mem \<Rightarrow> nat option option" where
  "strrchr_loop s c lst m = do {
     b \<leftarrow> nth_opt m s;
     (let lst = (if b = c then Some s else lst) in
      if b \<noteq> 0 then strrchr_loop (Suc s) c lst m else Some lst) }"
  by pat_completeness auto
termination by (relation "measure (\<lambda>(s, c, l, m). length m - s)") (auto simp: nth_opt_Some_iff)

definition strrchr :: "nat \<Rightarrow> int \<Rightarrow> mem \<Rightarrow> nat option option" where
  "strrchr s c m = strrchr_loop s (word_of_int c) None m"

function strstr_loop :: "nat \<Rightarrow> nat \<Rightarrow> nat \<Rightarrow> nat \<Rightarrow> mem \<Rightarrow> nat option option" where
  "strstr_loop p ep needle nl m =
     (if p < ep then do {
        r \<leftarrow> memcmp p needle nl m;
        (if r = 0 then Some (Some p) else strstr_loop (Suc p) ep needle nl m) }
      else Some None)"
  by pat_completeness auto
termination by (relation "measure (\<lambda>(p, ep, needle, nl, m). ep - p)") auto

definition strstr :: "nat \<Rightarrow> nat \<Rightarrow> mem \<Rightarrow> nat option option" where
  "strstr haystack needle m = do {
     c \<leftarrow> nth_opt m needle;
     (if c = 0 then Some (Some haystack)
      else do {
        nl \<leftarrow> strlen needle m;
        hl \<leftarrow> strlen haystack m;
        (if nl > hl then Some None
         else strstr_loop haystack (haystack + hl - nl + 1) needle nl m) }) }"

text \<open>The set of bytes of a string, which \<open>strspn\<close> and \<open>strcspn\<close> keep in a table of 256 flags.\<close>

function char_map :: "nat \<Rightarrow> bool list \<Rightarrow> mem \<Rightarrow> bool list option" where
  "char_map a tab m = do {
     c \<leftarrow> nth_opt m a;
     (if c \<noteq> 0 then do { tab' \<leftarrow> upd_opt tab (unat c) True; char_map (Suc a) tab' m } else Some tab) }"
  by pat_completeness auto
termination by (relation "measure (\<lambda>(a, tab, m). length m - a)") (auto simp: nth_opt_Some_iff)

text \<open>The counting loop, which runs while the flag of the next byte is \<open>v\<close>.\<close>

function span_while :: "bool \<Rightarrow> bool list \<Rightarrow> nat \<Rightarrow> nat \<Rightarrow> mem \<Rightarrow> nat option" where
  "span_while v tab s cnt m = do {
     c \<leftarrow> nth_opt m (s + cnt);
     b \<leftarrow> nth_opt tab (unat c);
     (if b = v then span_while v tab s (Suc cnt) m else Some cnt) }"
  by pat_completeness auto
termination by (relation "measure (\<lambda>(v, tab, s, cnt, m). length m - (s + cnt))") (auto simp: nth_opt_Some_iff)

definition strspn :: "nat \<Rightarrow> nat \<Rightarrow> mem \<Rightarrow> nat option" where
  "strspn s accept m = do { tab \<leftarrow> char_map accept (replicate 256 False) m; span_while True tab s 0 m }"

definition strcspn :: "nat \<Rightarrow> nat \<Rightarrow> mem \<Rightarrow> nat option" where
  "strcspn s reject m = do { tab \<leftarrow> char_map reject (replicate 256 False) m; span_while False tab s 0 m }"

text \<open>The inner loop of \<open>strtok\<close>: is \<open>c\<close> one of the delimiters?\<close>

function is_delim :: "u8 \<Rightarrow> nat \<Rightarrow> mem \<Rightarrow> bool option" where
  "is_delim c d m = do {
     x \<leftarrow> nth_opt m d;
     (if x \<noteq> 0 then (if c = x then Some True else is_delim c (Suc d) m) else Some False) }"
  by pat_completeness auto
termination by (relation "measure (\<lambda>(c, d, m). length m - d)") (auto simp: nth_opt_Some_iff)

text \<open>The two scanning loops: run over bytes whose being a delimiter is \<open>v\<close>, up to the NUL.\<close>

function tok_scan :: "bool \<Rightarrow> nat \<Rightarrow> nat \<Rightarrow> mem \<Rightarrow> nat option" where
  "tok_scan v p delim m = do {
     c \<leftarrow> nth_opt m p;
     (if c \<noteq> 0 then do {
        b \<leftarrow> is_delim c delim m;
        (if b = v then tok_scan v (Suc p) delim m else Some p) }
      else Some p) }"
  by pat_completeness auto
termination by (relation "measure (\<lambda>(v, p, d, m). length m - p)") (auto simp: nth_opt_Some_iff)

text \<open>The static \<open>saved_ptr\<close> is passed in and out.\<close>

definition strtok :: "nat option \<Rightarrow> nat \<Rightarrow> nat option \<Rightarrow> mem \<Rightarrow> (nat option \<times> nat option \<times> mem) option" where
  "strtok str delim saved m =
     (case (case str of Some s \<Rightarrow> Some s | None \<Rightarrow> saved) of
        None \<Rightarrow> Some (None, None, m)
      | Some p \<Rightarrow> do {
          start \<leftarrow> tok_scan True p delim m;
          c \<leftarrow> nth_opt m start;
          (if c = 0 then Some (None, None, m)
           else do {
             ep \<leftarrow> tok_scan False start delim m;
             e \<leftarrow> nth_opt m ep;
             (if e \<noteq> 0 then do { m \<leftarrow> upd_opt m ep 0; Some (Some start, Some (Suc ep), m) }
              else Some (Some start, None, m)) }) })"

section \<open>Error messages\<close>

text \<open>The cases of the switch in \<open>strerror\<close>, by the numbers of \<open>src/src/include/uapi/errno.h\<close>.\<close>

definition strerror_cases :: "(int \<times> string) list" where
  "strerror_cases = [
    (0, ''Success''), (84, ''Illegal byte sequence''), (33, ''Domain error''),
    (34, ''Result not representable''), (25, ''Not a tty''), (13, ''Permission denied''),
    (1, ''Operation not permitted''), (2, ''No such file or directory''), (3, ''No such process''),
    (17, ''File exists''), (75, ''Value too large for data type''), (28, ''No space left on device''),
    (12, ''Out of memory''), (16, ''Resource busy''), (4, ''Interrupted system call''),
    (11, ''Resource temporarily unavailable''), (29, ''Invalid seek''), (18, ''Cross-device link''),
    (30, ''Read-only file system''), (39, ''Directory not empty''), (104, ''Connection reset by peer''),
    (110, ''Operation timed out''), (111, ''Connection refused''), (112, ''Host is down''),
    (113, ''Host is unreachable''), (98, ''Address in use''), (32, ''Broken pipe''), (5, ''I/O error''),
    (6, ''No such device or address''), (15, ''Block device required''), (19, ''No such device''),
    (20, ''Not a directory''), (21, ''Is a directory''), (26, ''Text file busy''),
    (8, ''Exec format error''), (22, ''Invalid argument''), (7, ''Argument list too long''),
    (40, ''Symbolic link loop''), (36, ''Filename too long''), (23, ''Too many open files in system''),
    (24, ''No file descriptors available''), (9, ''Bad file descriptor''), (10, ''No child process''),
    (14, ''Bad address''), (27, ''File too large''), (31, ''Too many links''),
    (37, ''No locks available''), (35, ''Resource deadlock would occur''),
    (131, ''State not recoverable''), (130, ''Previous owner died''), (125, ''Operation canceled''),
    (38, ''Function not implemented''), (42, ''No message of desired type''),
    (43, ''Identifier removed''), (60, ''Device not a stream''), (61, ''No data available''),
    (62, ''Device timeout''), (63, ''Out of streams resources''), (67, ''Link has been severed''),
    (71, ''Protocol error''), (74, ''Bad message''), (77, ''File descriptor in bad state''),
    (88, ''Not a socket''), (89, ''Destination address required''), (90, ''Message too large''),
    (91, ''Protocol wrong type for socket''), (92, ''Protocol not available''),
    (93, ''Protocol not supported''), (94, ''Socket type not supported''),
    (95, ''Operation not supported on transport endpoint''), (96, ''Protocol family not supported''),
    (97, ''Address family not supported by protocol''), (99, ''Address not available''),
    (100, ''Network is down''), (101, ''Network unreachable''), (102, ''Connection reset by network''),
    (103, ''Connection aborted''), (105, ''No buffer space available''), (106, ''Socket is connected''),
    (107, ''Socket not connected''), (108, ''Cannot send after socket shutdown''),
    (114, ''Operation already in progress''), (115, ''Operation in progress''),
    (116, ''Stale file handle''), (117, ''Data consistency error''), (119, ''Resource not available''),
    (121, ''Remote I/O error''), (122, ''Quota exceeded''), (123, ''No medium found''),
    (124, ''Wrong medium type''), (72, ''Multihop attempted''), (126, ''Required key not available''),
    (127, ''Key has expired''), (128, ''Key has been revoked''),
    (129, ''Key was rejected by service'')]"

definition strerror :: "int \<Rightarrow> string" where
  "strerror errnum =
     (let errnum = (if errnum < 0 then - errnum else errnum) in
      case map_of strerror_cases errnum of None \<Rightarrow> ''Unknown error'' | Some msg \<Rightarrow> msg)"

declare memcpy_loop.simps [simp del] memset_loop.simps [simp del] memchr_loop.simps [simp del]
  memcmp_loop.simps [simp del] memswap_loop.simps [simp del] scan_nul.simps [simp del]
  strcmp.simps [simp del] strcpy.simps [simp del] strncpy_copy.simps [simp del]
  strchr_loop.simps [simp del] strrchr_loop.simps [simp del] strstr_loop.simps [simp del]
  char_map.simps [simp del] span_while.simps [simp del] is_delim.simps [simp del] tok_scan.simps [simp del]

end
