(* ===== verification/Kstring_Props.thy ===== *)
theory Kstring_Props
  imports Kstring
begin

text \<open>
  What the routines of \<open>Kstring\<close> compute: block copies against a copy of the old contents, the
  string functions against functions on the byte sequences that NUL-terminated strings denote.
\<close>

section \<open>Block copies\<close>

lemma memcpy_loop_copies:
  assumes "d + n \<le> length m" "s + n \<le> length m" "d \<le> s \<or> s + n \<le> d" "i \<le> n"
  shows "\<exists>m'. memcpy_loop d s n i m = Some m' \<and> length m' = length m
    \<and> (\<forall>k < length m. m' ! k = (if d + i \<le> k \<and> k < d + n then m ! (s + (k - d)) else m ! k))"
  using assms
proof (induction "n - i" arbitrary: i m)
  case 0
  then show ?case by (subst memcpy_loop.simps) auto
next
  case (Suc r)
  then have i: "i < n" "s + i < length m" "d + i < length m" by auto
  let ?m1 = "m[d + i := m ! (s + i)]"
  have "r = n - Suc i" using Suc.hyps(2) by simp
  from Suc.hyps(1) [OF this, of ?m1] Suc.prems i(1) obtain m' where m': "memcpy_loop d s n (Suc i) ?m1 = Some m'"
    "length m' = length m"
    "\<forall>k < length m. m' ! k = (if d + Suc i \<le> k \<and> k < d + n then ?m1 ! (s + (k - d)) else ?m1 ! k)" by auto
  have "m' ! k = (if d + i \<le> k \<and> k < d + n then m ! (s + (k - d)) else m ! k)" if k: "k < length m" for k
  proof (cases "d + Suc i \<le> k \<and> k < d + n")
    case True
    then have "s + (k - d) \<noteq> d + i" using Suc.prems(3) by linarith
    with True m'(3) k show ?thesis by simp
  next
    case False
    then show ?thesis using m'(3) k i by (cases "k = d + i") auto
  qed
  with m'(1,2) i show ?case by (subst memcpy_loop.simps) (simp add: call_simps)
qed

lemma memmove_down_copies:
  assumes "d + n \<le> length m" "s + n \<le> length m" "s < d"
  shows "\<exists>m'. memmove_down d s n m = Some m' \<and> length m' = length m
    \<and> (\<forall>k < length m. m' ! k = (if d \<le> k \<and> k < d + n then m ! (s + (k - d)) else m ! k))"
  using assms
proof (induction n arbitrary: m)
  case (Suc n)
  let ?m1 = "m[d + n := m ! (s + n)]"
  from Suc.IH [of ?m1] Suc.prems obtain m' where m': "memmove_down d s n ?m1 = Some m'" "length m' = length m"
    "\<forall>k < length m. m' ! k = (if d \<le> k \<and> k < d + n then ?m1 ! (s + (k - d)) else ?m1 ! k)" by auto
  have "m' ! k = (if d \<le> k \<and> k < d + Suc n then m ! (s + (k - d)) else m ! k)" if k: "k < length m" for k
  proof (cases "d \<le> k \<and> k < d + n")
    case True
    then have "s + (k - d) \<noteq> d + n" using Suc.prems(3) by linarith
    with True m'(3) k show ?thesis by simp
  next
    case False
    then show ?thesis using m'(3) k Suc.prems by (cases "k = d + n") auto
  qed
  with m'(1,2) Suc.prems show ?case by (simp add: call_simps)
qed auto

lemma copied_blit:
  assumes "d + n \<le> length m" "s + n \<le> length m" "length m' = length m"
    "\<forall>k < length m. m' ! k = (if d \<le> k \<and> k < d + n then m ! (s + (k - d)) else m ! k)"
  shows "m' = take d m @ take n (drop s m) @ drop (d + n) m"
proof (rule nth_equalityI)
  show "length m' = length (take d m @ take n (drop s m) @ drop (d + n) m)" using assms(1-3) by simp
  fix k assume "k < length m'"
  then show "m' ! k = (take d m @ take n (drop s m) @ drop (d + n) m) ! k"
    using assms nth_blit [of d "take n (drop s m)" m k] by auto
qed

text \<open>
  C18: \<open>memmove\<close> is a copy through a temporary buffer. For every overlap of source and destination
  inside memory, the destination ends up with the bytes the source held before the call and every
  other byte is unchanged. \<open>memcpy\<close> does the same when the destination does not lie inside the
  source range after its start.
\<close>

theorem memmove_copies:
  assumes "d + n \<le> length m" "s + n \<le> length m"
  shows "memmove d s n m = buf_write m d (take n (drop s m))
    \<and> (d \<le> s \<or> s + n \<le> d \<longrightarrow> memcpy d s n m = memmove d s n m)"
proof -
  have up: "memcpy_loop d s n 0 m = Some (take d m @ take n (drop s m) @ drop (d + n) m)" if "d \<le> s \<or> s + n \<le> d"
    using memcpy_loop_copies [OF assms that, of 0] copied_blit [OF assms] by auto
  have down: "memmove_down d s n m = Some (take d m @ take n (drop s m) @ drop (d + n) m)" if "s < d"
    using memmove_down_copies [OF assms that] copied_blit [OF assms] by auto
  have same: "take d m @ take n (drop d m) @ drop (d + n) m = m"
    by (metis append_take_drop_id drop_drop add.commute)
  have wr: "buf_write m d (take n (drop s m)) = Some (take d m @ take n (drop s m) @ drop (d + n) m)"
    using assms by (simp add: buf_write_def)
  have mv: "memmove d s n m = Some (take d m @ take n (drop s m) @ drop (d + n) m)"
    using up down same by (auto simp: memmove_def not_less_iff_gr_or_eq)
  with wr up show ?thesis by (simp add: memcpy_def)
qed

theorem memmove_copies_witness:
  "memmove 1 0 3 [1, 2, 3, 4, 5] = Some [1, 1, 2, 3, 5]"
  using memmove_copies [of 1 3 "[1, 2, 3, 4, 5]" 0] by (simp add: buf_write_def)

section \<open>NUL-terminated strings\<close>

fun cstr :: "mem \<Rightarrow> nat \<Rightarrow> u8 list \<Rightarrow> bool" where
  "cstr m a [] \<longleftrightarrow> nth_opt m a = Some 0"
| "cstr m a (c # s) \<longleftrightarrow> nth_opt m a = Some c \<and> c \<noteq> 0 \<and> cstr m (Suc a) s"

lemma cstr_in: "cstr m a s \<Longrightarrow> a + length s < length m"
  by (induction s arbitrary: a) (auto simp: nth_opt_Some_iff dest!: meta_spec [of _ "Suc _"])

lemma cstr_nonzero: "cstr m a s \<Longrightarrow> c \<in> set s \<Longrightarrow> c \<noteq> 0"
  by (induction s arbitrary: a) auto

lemma cstr_nth: "cstr m a s \<Longrightarrow> k < length s \<Longrightarrow> m ! (a + k) = s ! k"
proof (induction s arbitrary: a k)
  case (Cons c s)
  show ?case
  proof (cases k)
    case (Suc j)
    with Cons.IH [of "Suc a" j] Cons.prems show ?thesis by simp
  qed (use Cons.prems in \<open>simp add: nth_opt_Some_iff\<close>)
qed simp

lemma cstr_drop: "cstr m a s \<Longrightarrow> k \<le> length s \<Longrightarrow> cstr m (a + k) (drop k s)"
proof (induction s arbitrary: a k)
  case (Cons c s)
  show ?case
  proof (cases k)
    case (Suc j)
    with Cons.IH [of "Suc a" j] Cons.prems show ?thesis by simp
  qed (use Cons.prems in simp)
qed simp

lemma cstr_cong:
  "(\<And>k. a \<le> k \<Longrightarrow> k \<le> a + length s \<Longrightarrow> nth_opt m' k = nth_opt m k) \<Longrightarrow> cstr m' a s = cstr m a s"
  by (induction s arbitrary: a) auto

lemma cstr_unique: "cstr m a s \<Longrightarrow> cstr m a t \<Longrightarrow> s = t"
proof (induction s arbitrary: a t)
  case Nil
  then show ?case by (cases t) auto
next
  case (Cons c s)
  then show ?case by (cases t) auto
qed

lemma scan_nul_cstr: "cstr m a s \<Longrightarrow> scan_nul a m = Some (a + length s)"
proof (induction s arbitrary: a)
  case (Cons c s)
  from Cons.IH [of "Suc a"] Cons.prems show ?case by (subst scan_nul.simps) simp
qed (subst scan_nul.simps, simp)

lemma strlen_cstr: "cstr m a s \<Longrightarrow> strlen a m = Some (length s)"
  by (simp add: strlen_def scan_nul_cstr)

lemma strnlen_cstr: "cstr m a s \<Longrightarrow> strnlen a n m = Some (min n (length s))"
proof -
  have "cstr m a s \<Longrightarrow> scan_nul_upto a n m = Some (a + min n (length s))"
  proof (induction n arbitrary: a s)
    case (Suc n)
    then show ?case by (cases s) auto
  qed simp
  then show "cstr m a s \<Longrightarrow> strnlen a n m = Some (min n (length s))" by (simp add: strnlen_def)
qed

section \<open>Comparison\<close>

text \<open>Byte sequences in dictionary order; the value is the difference of the first bytes that differ.\<close>

fun bytes_cmp :: "u8 list \<Rightarrow> u8 list \<Rightarrow> int" where
  "bytes_cmp [] [] = 0"
| "bytes_cmp [] (y # ys) = - uint y"
| "bytes_cmp (x # xs) [] = uint x"
| "bytes_cmp (x # xs) (y # ys) = (if x = y then bytes_cmp xs ys else uint x - uint y)"

lemma strcmp_cstr: "cstr m p a \<Longrightarrow> cstr m q b \<Longrightarrow> strcmp p q m = Some (bytes_cmp a b)"
proof (induction a arbitrary: p q b)
  case Nil
  then show ?case by (cases b) (subst strcmp.simps, simp)+
next
  case (Cons x a)
  then show ?case by (cases b) (subst strcmp.simps, auto)+
qed

lemma strncmp_cstr:
  "cstr m p a \<Longrightarrow> cstr m q b \<Longrightarrow> strncmp p q n m = Some (bytes_cmp (take n a) (take n b))"
proof (induction n arbitrary: p q a b)
  case (Suc n)
  then show ?case by (cases a; cases b) auto
qed simp

lemma uint_pos: "x \<noteq> 0 \<Longrightarrow> 0 < uint x" for x :: u8
  by (metis uint_0_iff uint_ge_0 order_less_le)

lemma bytes_cmp_zero: "0 \<notin> set a \<Longrightarrow> 0 \<notin> set b \<Longrightarrow> bytes_cmp a b = 0 \<longleftrightarrow> a = b"
proof (induction a b rule: bytes_cmp.induct)
  case (4 x xs y ys)
  then show ?case by (auto simp: word_uint_eq_iff)
qed (use uint_pos in \<open>force simp: uint_0_iff\<close>)+

lemma bytes_cmp_neg:
  "0 \<notin> set a \<Longrightarrow> 0 \<notin> set b \<Longrightarrow> bytes_cmp a b < 0 \<longleftrightarrow> (a, b) \<in> lexord {(x, y). x < y}"
proof (induction a b rule: bytes_cmp.induct)
  case (4 x xs y ys)
  then show ?case by (auto simp: word_less_def)
next
  case (2 y ys)
  then show ?case using uint_pos [of y] by auto
qed auto

text \<open>
  C19: \<open>strcmp\<close> and \<open>strncmp\<close> decide the dictionary order of byte strings. On two strings in memory
  \<open>strcmp\<close> returns, its result is 0 exactly when the strings are equal and negative exactly when the
  first comes before the second in the order of unsigned bytes; \<open>strncmp\<close> does the same for the
  first \<open>n\<close> bytes.
\<close>

theorem strcmp_dictionary_order:
  assumes "cstr m p a" "cstr m q b"
  shows "\<exists>r r'. strcmp p q m = Some r \<and> strncmp p q n m = Some r'
    \<and> (r = 0 \<longleftrightarrow> a = b) \<and> (r < 0 \<longleftrightarrow> (a, b) \<in> lexord {(x, y). x < y})
    \<and> (r' = 0 \<longleftrightarrow> take n a = take n b) \<and> (r' < 0 \<longleftrightarrow> (take n a, take n b) \<in> lexord {(x, y). x < y})"
proof -
  have "0 \<notin> set a" "0 \<notin> set b" "0 \<notin> set (take n a)" "0 \<notin> set (take n b)"
    using cstr_nonzero [OF assms(1)] cstr_nonzero [OF assms(2)] by (auto dest: in_set_takeD)
  then show ?thesis using strcmp_cstr [OF assms] strncmp_cstr [OF assms]
    by (simp add: bytes_cmp_zero bytes_cmp_neg)
qed

theorem strcmp_dictionary_order_witness:
  "\<exists>r. strcmp 0 3 [0x61, 0x62, 0, 0x61, 0x63, 0] = Some r \<and> r < 0"
proof -
  have "cstr [0x61, 0x62, 0, 0x61, 0x63, 0] 0 [0x61, 0x62]" "cstr [0x61, 0x62, 0, 0x61, 0x63, 0] 3 [0x61, 0x63]"
    by (simp_all add: nth_opt_def)
  from strcmp_dictionary_order [OF this, of 0] show ?thesis by auto
qed

section \<open>Bounded copies\<close>

lemma cstr_upd:
  "\<not> (s \<le> k \<and> k \<le> s + length str) \<Longrightarrow> cstr (m[k := c]) s str = cstr m s str"
  by (rule cstr_cong) (auto simp: nth_opt_def)

lemma copy_upto_cstr:
  assumes "cstr m s str" "d + min n (length str) \<le> length m" "d + min n (length str) \<le> s \<or> s + length str < d"
  shows "copy_upto d s n m = Some (d + min n (length str), s + min n (length str),
    take d m @ take n str @ drop (d + min n (length str)) m)"
  using assms
proof (induction n arbitrary: d s str m)
  case (Suc n)
  show ?case
  proof (cases str)
    case (Cons c t)
    let ?k = "min n (length t)"
    have d: "d < length m" using Suc.prems(2) Cons by simp
    have c: "cstr (m[d := c]) (Suc s) t"
      using Suc.prems Cons by (subst cstr_upd) auto
    have side: "Suc d + ?k \<le> length (m[d := c])" "Suc d + ?k \<le> Suc s \<or> Suc s + length t < Suc d"
      using Suc.prems(2,3) Cons by auto
    have "take (Suc d) (m[d := c]) = take d m @ [c]" using d by (simp add: take_Suc_conv_app_nth)
    with Suc.IH [OF c side] Suc.prems(1) Cons d show ?thesis by (simp add: call_simps)
  qed (use Suc.prems in simp)
qed simp

text \<open>Memory with the string \<open>t\<close> and its NUL stored at \<open>d\<close>.\<close>

definition put_str :: "nat \<Rightarrow> u8 list \<Rightarrow> mem \<Rightarrow> mem" where
  "put_str d t m = take d m @ t @ 0 # drop (d + length t + 1) m"

lemma put_str_length: "d + length t < length m \<Longrightarrow> length (put_str d t m) = length m"
  by (simp add: put_str_def)

lemma put_str_cstr:
  assumes "d + length t < length m" "0 \<notin> set t"
  shows "cstr (put_str d t m) d t"
proof -
  have "cstr (pre @ t @ 0 # suf) (length pre) t" if "0 \<notin> set t" for pre t suf
    using that
  proof (induction t arbitrary: pre)
    case (Cons c t)
    from Cons.IH [of "pre @ [c]"] Cons.prems show ?case by (auto simp: nth_opt_def nth_append)
  qed (simp add: nth_opt_def)
  from this [OF assms(2), of "take d m"] assms(1) show ?thesis by (simp add: put_str_def)
qed

lemma put_str_frame:
  assumes "d + length t < length m" "i < d \<or> d + length t < i"
  shows "nth_opt (put_str d t m) i = nth_opt m i"
proof -
  have eq: "put_str d t m = take d m @ (t @ [0]) @ drop (d + length (t @ [0])) m" by (simp add: put_str_def)
  have "put_str d t m ! i = m ! i" if "i < length m"
    unfolding eq using assms that by (subst nth_blit) auto
  with put_str_length [OF assms(1)] show ?thesis by (simp add: nth_opt_def)
qed

lemma strlcpy_eq:
  assumes src: "cstr m s str" and sz: "0 < sz" and t: "t = take (sz - 1) str"
    and fits: "d + length t < length m" "d + length t < s \<or> s + length str < d"
  shows "strlcpy d s sz m = Some (length str, put_str d t m)"
proof -
  let ?k = "length t"
  have k: "?k = min (sz - 1) (length str)" "?k \<le> length str" using t by auto
  let ?m1 = "take d m @ t @ drop (d + ?k) m"
  have "copy_upto d s (sz - 1) m = Some (d + ?k, s + ?k, ?m1)"
    using copy_upto_cstr [OF src, of d "sz - 1"] fits unfolding k(1) [symmetric] t [symmetric] by auto
  moreover have "?m1[d + ?k := 0] = put_str d t m"
  proof -
    have "drop (d + ?k) m = m ! (d + ?k) # drop (d + ?k + 1) m" using fits(1) by (simp add: Cons_nth_drop_Suc)
    moreover have "length (take d m @ t) = d + ?k" using fits(1) by simp
    ultimately show ?thesis unfolding put_str_def by (metis append_assoc list_update_length)
  qed
  moreover have "cstr (put_str d t m) (s + ?k) (drop ?k str)"
  proof (subst cstr_cong [where m = m])
    show "cstr m (s + ?k) (drop ?k str)" using cstr_drop [OF src k(2)] .
    fix i assume "s + ?k \<le> i" "i \<le> s + ?k + length (drop ?k str)"
    then have "i < d \<or> d + ?k < i" using fits(2) k(2) by auto
    then show "nth_opt (put_str d t m) i = nth_opt m i" by (rule put_str_frame [OF fits(1)])
  qed
  then have "strlen (s + ?k) (put_str d t m) = Some (length str - ?k)"
    using strlen_cstr by fastforce
  moreover have "d + ?k < length ?m1" using fits(1) by simp
  ultimately show ?thesis using sz k(2) by (simp add: strlcpy_def upd_opt_def)
qed

text \<open>
  C20: \<open>strlcpy\<close> never writes past the size it is given and always terminates the result. For a
  source string and any disjoint destination of \<open>sz\<close> bytes, whatever it holds, the call returns
  the length of the source and changes nothing outside of the destination; with \<open>sz\<close> zero it
  writes nothing at all, and otherwise the destination holds the first \<open>sz - 1\<close> bytes of the
  source followed by a NUL. \<open>strlcat\<close> to a destination that holds a string shorter than \<open>sz\<close>
  returns the length of the untruncated result, keeps that string and appends what fits with its
  NUL; when the first \<open>sz\<close> bytes hold no NUL it writes nothing and returns \<open>sz\<close> plus the length
  of the source.
\<close>

theorem strlcpy_bounded:
  assumes src: "cstr m s str" and dst: "d + sz \<le> length m" and apart: "d + sz \<le> s \<or> s + length str < d"
  shows "(\<exists>m'. strlcpy d s sz m = Some (length str, m') \<and> length m' = length m
      \<and> (if sz = 0 then m' = m else cstr m' d (take (sz - 1) str))
      \<and> (\<forall>k < length m. k < d \<or> d + sz \<le> k \<longrightarrow> m' ! k = m ! k))
    \<and> (\<forall>old. cstr m d old \<and> length old < sz \<longrightarrow>
      (\<exists>m'. strlcat d s sz m = Some (length old + length str, m') \<and> length m' = length m
        \<and> cstr m' (d + length old) (take (sz - length old - 1) str)
        \<and> (\<forall>k < length m. k < d + length old \<or> d + sz \<le> k \<longrightarrow> m' ! k = m ! k)))
    \<and> (strnlen d sz m = Some sz \<longrightarrow> strlcat d s sz m = Some (sz + length str, m))"
proof -
  have copy: "\<exists>m'. strlcpy a s n m = Some (length str, m') \<and> length m' = length m \<and> cstr m' a (take (n - 1) str)
      \<and> (\<forall>k < length m. k < a \<or> a + n \<le> k \<longrightarrow> m' ! k = m ! k)"
    if n: "0 < n" "d \<le> a" "a + n = d + sz" for a n
  proof -
    let ?t = "take (n - 1) str"
    have nz: "0 \<notin> set ?t" using cstr_nonzero [OF src] by (auto dest: in_set_takeD)
    have lt: "length ?t < n" using n(1) by simp
    have a: "a + length ?t < length m" "a + length ?t < s \<or> s + length str < a"
      using n lt dst apart by linarith+
    let ?m = "put_str a ?t m"
    have len: "length ?m = length m" using put_str_length [OF a(1)] .
    have "?m ! k = m ! k" if "k < length m" "k < a \<or> a + n \<le> k" for k
    proof -
      have "k < a \<or> a + length ?t < k" using that(2) lt by linarith
      from put_str_frame [OF a(1) this] that(1) len show ?thesis by (simp add: nth_opt_def)
    qed
    with strlcpy_eq [OF src n(1) refl a] put_str_cstr [OF a(1) nz] len show ?thesis by blast
  qed
  have cpy: "\<exists>m'. strlcpy d s sz m = Some (length str, m') \<and> length m' = length m
      \<and> (if sz = 0 then m' = m else cstr m' d (take (sz - 1) str))
      \<and> (\<forall>k < length m. k < d \<or> d + sz \<le> k \<longrightarrow> m' ! k = m ! k)"
    using copy [of sz d] strlen_cstr [OF src] by (cases "sz = 0") (simp_all add: strlcpy_def)
  have cat: "\<exists>m'. strlcat d s sz m = Some (length old + length str, m') \<and> length m' = length m
        \<and> cstr m' (d + length old) (take (sz - length old - 1) str)
        \<and> (\<forall>k < length m. k < d + length old \<or> d + sz \<le> k \<longrightarrow> m' ! k = m ! k)"
    if old: "cstr m d old" "length old < sz" for old
  proof -
    have "strnlen d sz m = Some (length old)" using strnlen_cstr [OF old(1), of sz] old(2) by simp
    with copy [of "sz - length old" "d + length old"] old(2) show ?thesis by (auto simp: strlcat_def)
  qed
  have "strlcat d s sz m = Some (sz + length str, m)" if "strnlen d sz m = Some sz"
    using that strlen_cstr [OF src] by (simp add: strlcat_def)
  with cpy cat show ?thesis by blast
qed

text \<open>A buffer of four bytes that holds no string, before a string of five.\<close>

theorem strlcpy_bounded_witness:
  "\<exists>m'. strlcpy 0 4 4 [9, 9, 9, 9, 1, 2, 3, 4, 5, 0] = Some (5, m') \<and> cstr m' 0 [1, 2, 3]"
proof -
  let ?m = "[9, 9, 9, 9, 1, 2, 3, 4, 5, 0] :: mem"
  have "cstr ?m 4 [1, 2, 3, 4, 5]" by (simp add: nth_opt_def)
  from strlcpy_bounded [OF this, of 0 4] show ?thesis by auto
qed

end
