(* ===== verification/Kstring_Search.thy ===== *)
theory Kstring_Search
  imports Kstring_Props
begin

text \<open>
  The searching routines of \<open>src/src/lib/string.c\<close>: \<open>strspn\<close> and \<open>strcspn\<close> with their table of
  flags, \<open>strstr\<close>, and \<open>strtok\<close>, whose successive calls split a string into its tokens.
\<close>

section \<open>Spans\<close>

lemma unat_byte: "unat c < 256" for c :: u8
proof -
  have "unat c < 2 ^ LENGTH(8)" by (rule unsigned_less)
  then show ?thesis by simp
qed

lemma char_map_cstr:
  "cstr m a acc \<Longrightarrow> length tab = 256 \<Longrightarrow>
   \<exists>tab'. char_map a tab m = Some tab' \<and> length tab' = 256 \<and> (\<forall>c :: u8. tab' ! unat c \<longleftrightarrow> tab ! unat c \<or> c \<in> set acc)"
proof (induction acc arbitrary: a tab)
  case Nil
  then show ?case by (subst char_map.simps) simp
next
  case (Cons x acc)
  note lt = unat_byte
  let ?tab = "tab[unat x := True]"
  from Cons.IH [of "Suc a" ?tab] Cons.prems obtain tab' where t: "char_map (Suc a) ?tab m = Some tab'"
    "length tab' = 256" "\<forall>c :: u8. tab' ! unat c \<longleftrightarrow> ?tab ! unat c \<or> c \<in> set acc" by auto
  have "tab' ! unat c \<longleftrightarrow> tab ! unat c \<or> c \<in> set (x # acc)" for c :: u8
    using t(3) Cons.prems(2) lt by (cases "unat c = unat x") (auto simp: word_unat_eq_iff)
  with t(1,2) Cons.prems lt [of x] show ?case by (subst char_map.simps) (simp add: call_simps)
qed

lemma char_map_new:
  assumes "cstr m a acc"
  shows "\<exists>tab. char_map a (replicate 256 False) m = Some tab \<and> length tab = 256
    \<and> (\<forall>c :: u8. tab ! unat c \<longleftrightarrow> c \<in> set acc)"
  using char_map_cstr [OF assms, of "replicate 256 False"] by (simp add: unat_byte)

lemma span_while_step:
  assumes "length tab = 256" "nth_opt m (s + cnt) = Some c"
  shows "span_while v tab s cnt m = (if tab ! unat c = v then span_while v tab s (Suc cnt) m else Some cnt)"
  using assms unat_byte [of c] by (subst span_while.simps) (simp add: nth_opt_def)

lemma span_while_prefix:
  assumes "length tab = 256"
  shows "cstr m (s + cnt) str \<Longrightarrow> (\<forall>c \<in> set str. tab ! unat c = v) \<Longrightarrow>
    span_while v tab s cnt m = span_while v tab s (cnt + length str) m"
  by (induction str arbitrary: cnt) (auto simp: span_while_step [OF assms])

lemma span_while_cstr:
  assumes "length tab = 256" "\<forall>c :: u8. tab ! unat c \<longleftrightarrow> c \<in> A"
  shows "cstr m (s + cnt) str \<Longrightarrow> (0 \<in> A) \<noteq> v \<or> (\<exists>c \<in> set str. (c \<in> A) \<noteq> v) \<Longrightarrow>
    span_while v tab s cnt m = Some (cnt + length (takeWhile (\<lambda>c. (c \<in> A) = v) str))"
proof (induction str arbitrary: cnt)
  case Nil
  have "tab ! unat (0 :: u8) \<noteq> v" using Nil.prems(2) assms(2)[rule_format, of 0] by simp
  with Nil.prems show ?case using span_while_step [OF assms(1), of m s cnt 0 v] by simp
next
  case (Cons x str)
  have "tab ! unat x \<longleftrightarrow> x \<in> A" using assms(2) by simp
  with Cons.prems Cons.IH [of "Suc cnt"] show ?case
    using span_while_step [OF assms(1), of m s cnt x v] by (cases "(x \<in> A) = v") auto
qed

lemma strspn_cstr:
  assumes "cstr m s str" "cstr m a acc"
  shows "strspn s a m = Some (length (takeWhile (\<lambda>c. c \<in> set acc) str))"
proof -
  from char_map_new [OF assms(2)] obtain tab where t: "char_map a (replicate 256 False) m = Some tab"
    "length tab = 256" "\<forall>c :: u8. tab ! unat c \<longleftrightarrow> c \<in> set acc" by blast
  have "0 \<notin> set acc" using cstr_nonzero [OF assms(2)] by blast
  with span_while_cstr [OF t(2,3), of m s 0 str True] assms(1) t(1) show ?thesis by (simp add: strspn_def)
qed

lemma span_while_bounds:
  "span_while v tab s cnt m = Some k \<Longrightarrow> cnt \<le> k \<and> s + k < length m"
proof (induction v tab s cnt m rule: span_while.induct)
  case (1 v tab s cnt m)
  from "1.prems" obtain c b where c: "nth_opt m (s + cnt) = Some c" "nth_opt tab (unat c) = Some b"
    "(if b = v then span_while v tab s (Suc cnt) m else Some cnt) = Some k"
    by (subst (asm) span_while.simps) (auto simp: bind_Some_conv)
  show ?case
  proof (cases "b = v")
    case True
    with "1.IH" [OF c(1,2) True] c(3) show ?thesis by simp
  next
    case False
    with c show ?thesis by (simp add: nth_opt_Some_iff)
  qed
qed

text \<open>
  C21: \<open>strspn\<close> measures the longest prefix made of accepted bytes; \<open>strcspn\<close> measures the prefix
  before the first rejected byte only when the string has one. On a string without a rejected
  byte the loop of \<open>strcspn\<close> does not stop at the terminating NUL: it either leaves memory or
  returns a length beyond the end of the string.
\<close>

theorem strcspn_runs_past_nul:
  assumes "cstr m s str" "cstr m a set_str"
  shows "strspn s a m = Some (length (takeWhile (\<lambda>c. c \<in> set set_str) str))
    \<and> ((\<exists>c \<in> set str. c \<in> set set_str) \<longrightarrow> strcspn s a m = Some (length (takeWhile (\<lambda>c. c \<notin> set set_str) str)))
    \<and> (\<not> (\<exists>c \<in> set str. c \<in> set set_str) \<longrightarrow>
        strcspn s a m = None \<or> (\<exists>k. strcspn s a m = Some k \<and> length str < k))"
proof -
  from char_map_new [OF assms(2)] obtain tab where t: "char_map a (replicate 256 False) m = Some tab"
    "length tab = 256" "\<forall>c :: u8. tab ! unat c \<longleftrightarrow> c \<in> set set_str" by blast
  have z: "0 \<notin> set set_str" using cstr_nonzero [OF assms(2)] by blast
  have found: "strcspn s a m = Some (length (takeWhile (\<lambda>c. c \<notin> set set_str) str))" if "\<exists>c \<in> set str. c \<in> set set_str"
    using span_while_cstr [OF t(2,3), of m s 0 str False] assms(1) t(1) that by (simp add: strcspn_def)
  have "strcspn s a m = None \<or> (\<exists>k. strcspn s a m = Some k \<and> length str < k)" if no: "\<not> (\<exists>c \<in> set str. c \<in> set set_str)"
  proof -
    have "nth_opt m (s + length str) = Some 0" using cstr_drop [OF assms(1), of "length str"] by simp
    then have "span_while False tab s (length str) m = span_while False tab s (Suc (length str)) m"
      using span_while_step [OF t(2)] t(3) z by auto
    moreover have "span_while False tab s 0 m = span_while False tab s (length str) m"
      using span_while_prefix [OF t(2), of m s 0 str False] assms(1) t(3) no by simp
    ultimately have "strcspn s a m = span_while False tab s (Suc (length str)) m" using t(1) by (simp add: strcspn_def)
    then show ?thesis using span_while_bounds [of False tab s "Suc (length str)" m]
      by (cases "span_while False tab s (Suc (length str)) m") auto
  qed
  with found strspn_cstr [OF assms] show ?thesis by blast
qed

text \<open>The string \<open>"ab"\<close> at the end of memory and the reject set \<open>"x"\<close>: the scan leaves memory.\<close>

theorem strcspn_runs_past_nul_witness:
  "strcspn 2 0 [0x78, 0, 0x61, 0x62, 0] \<noteq> Some 2"
proof -
  have "cstr [0x78, 0, 0x61, 0x62, 0] 2 [0x61, 0x62]" "cstr [0x78, 0, 0x61, 0x62, 0] 0 [0x78]"
    by (simp_all add: nth_opt_def)
  from strcspn_runs_past_nul [OF this] show ?thesis by auto
qed

section \<open>Substrings\<close>

lemma memcmp_loop_zero:
  assumes "p1 + n \<le> length m" "p2 + n \<le> length m"
  shows "\<exists>r. memcmp_loop p1 p2 n i m = Some r \<and> (r = 0 \<longleftrightarrow> (\<forall>k. i \<le> k \<and> k < n \<longrightarrow> m ! (p1 + k) = m ! (p2 + k)))"
proof (induction "n - i" arbitrary: i)
  case 0
  then show ?case by (subst memcmp_loop.simps) auto
next
  case (Suc d)
  then have i: "i < n" and d: "d = n - Suc i" by auto
  from Suc.hyps(1) [OF d] obtain r where r: "memcmp_loop p1 p2 n (Suc i) m = Some r"
    "r = 0 \<longleftrightarrow> (\<forall>k. Suc i \<le> k \<and> k < n \<longrightarrow> m ! (p1 + k) = m ! (p2 + k))" by blast
  have "(\<forall>k. i \<le> k \<and> k < n \<longrightarrow> m ! (p1 + k) = m ! (p2 + k)) \<longleftrightarrow>
    m ! (p1 + i) = m ! (p2 + i) \<and> (\<forall>k. Suc i \<le> k \<and> k < n \<longrightarrow> m ! (p1 + k) = m ! (p2 + k))"
    using i by (metis Suc_leI le_eq_less_or_eq Suc_le_lessD)
  with r i assms show ?case by (subst memcmp_loop.simps) (auto simp: nth_opt_def)
qed

lemma memcmp_zero:
  assumes "p1 + n \<le> length m" "p2 + n \<le> length m"
  shows "\<exists>r. memcmp p1 p2 n m = Some r \<and> (r = 0 \<longleftrightarrow> take n (drop p1 m) = take n (drop p2 m))"
proof -
  have "(\<forall>k < n. m ! (p1 + k) = m ! (p2 + k)) \<longleftrightarrow> take n (drop p1 m) = take n (drop p2 m)"
    using assms by (auto simp: list_eq_iff_nth_eq)
  then show ?thesis using memcmp_loop_zero [OF assms, of 0] by (simp add: memcmp_def)
qed

lemma cstr_take_drop: "cstr m a s \<Longrightarrow> k + n \<le> length s \<Longrightarrow> take n (drop (a + k) m) = take n (drop k s)"
  using cstr_in [of m a s] by (auto simp: list_eq_iff_nth_eq cstr_nth add.assoc)

text \<open>Where \<open>y\<close> occurs in \<open>x\<close>.\<close>

definition occurs_at :: "u8 list \<Rightarrow> u8 list \<Rightarrow> nat \<Rightarrow> bool" where
  "occurs_at x y i \<longleftrightarrow> i + length y \<le> length x \<and> take (length y) (drop i x) = y"

lemma strstr_loop_first:
  assumes h: "cstr m p hay" and n: "cstr m q ned" and le: "length ned \<le> length hay" and "i \<le> length hay - length ned + 1"
  shows "\<exists>r. strstr_loop (p + i) (p + length hay - length ned + 1) q (length ned) m = Some r \<and>
    (case r of None \<Rightarrow> \<forall>k \<ge> i. \<not> occurs_at hay ned k
     | Some a \<Rightarrow> \<exists>j \<ge> i. a = p + j \<and> occurs_at hay ned j \<and> (\<forall>k. i \<le> k \<and> k < j \<longrightarrow> \<not> occurs_at hay ned k))"
  using assms(4)
proof (induction "length hay - length ned + 1 - i" arbitrary: i)
  case 0
  then have "i = length hay - length ned + 1" by simp
  then show ?case using le by (subst strstr_loop.simps) (auto simp: occurs_at_def)
next
  case (Suc d)
  then have i: "i + length ned \<le> length hay" "d = length hay - length ned + 1 - Suc i" using le by auto
  have "Suc i \<le> length hay - length ned + 1" using i(1) by linarith
  from Suc.hyps(1) [OF i(2) this] obtain r where r:
    "strstr_loop (p + Suc i) (p + length hay - length ned + 1) q (length ned) m = Some r"
    "case r of None \<Rightarrow> \<forall>k \<ge> Suc i. \<not> occurs_at hay ned k
     | Some a \<Rightarrow> \<exists>j \<ge> Suc i. a = p + j \<and> occurs_at hay ned j \<and> (\<forall>k. Suc i \<le> k \<and> k < j \<longrightarrow> \<not> occurs_at hay ned k)"
    by blast
  have sides: "p + i + length ned \<le> length m" "q + length ned \<le> length m" "p + i < p + length hay - length ned + 1"
    using cstr_in [OF h] cstr_in [OF n] i(1) by linarith+
  have "take (length ned) (drop (p + i) m) = take (length ned) (drop i hay)" using cstr_take_drop [OF h i(1)] .
  moreover have "take (length ned) (drop q m) = ned" using cstr_take_drop [OF n, of 0 "length ned"] by simp
  ultimately obtain c where c: "memcmp (p + i) q (length ned) m = Some c" "c = 0 \<longleftrightarrow> occurs_at hay ned i"
    using memcmp_zero [OF sides(1,2)] i(1) by (auto simp: occurs_at_def)
  show ?case
  proof (cases "c = 0")
    case True
    with c sides(3) show ?thesis by (subst strstr_loop.simps) auto
  next
    case False
    then have no: "\<not> occurs_at hay ned i" using c(2) by simp
    have "strstr_loop (p + i) (p + length hay - length ned + 1) q (length ned) m = Some r"
      using c(1) False sides(3) r(1) by (subst strstr_loop.simps) simp
    moreover have "case r of None \<Rightarrow> \<forall>k \<ge> i. \<not> occurs_at hay ned k
      | Some a \<Rightarrow> \<exists>j \<ge> i. a = p + j \<and> occurs_at hay ned j \<and> (\<forall>k. i \<le> k \<and> k < j \<longrightarrow> \<not> occurs_at hay ned k)"
    proof (cases r)
      case None
      with r(2) have "\<forall>k \<ge> Suc i. \<not> occurs_at hay ned k" by simp
      with no have "\<forall>k \<ge> i. \<not> occurs_at hay ned k" by (metis le_antisym not_less_eq_eq)
      with None show ?thesis by simp
    next
      case (Some a)
      with r(2) obtain j where j: "Suc i \<le> j" "a = p + j" "occurs_at hay ned j"
        "\<forall>k. Suc i \<le> k \<and> k < j \<longrightarrow> \<not> occurs_at hay ned k" by auto
      have "\<not> occurs_at hay ned k" if "i \<le> k" "k < j" for k
        using that j(4) no by (cases "k = i") auto
      with Some j show ?thesis by (auto intro!: exI [of _ j])
    qed
    ultimately show ?thesis by blast
  qed
qed

lemma strstr_first:
  assumes "cstr m p hay" "cstr m q ned"
  shows "\<exists>r. strstr p q m = Some r \<and> (case r of None \<Rightarrow> \<forall>k. \<not> occurs_at hay ned k
     | Some a \<Rightarrow> \<exists>j. a = p + j \<and> occurs_at hay ned j \<and> (\<forall>k < j. \<not> occurs_at hay ned k))"
proof (cases ned)
  case Nil
  with assms show ?thesis by (auto simp: strstr_def occurs_at_def intro!: exI [of _ 0])
next
  case (Cons c t)
  have c: "nth_opt m q = Some c" "c \<noteq> 0" using assms(2) Cons by auto
  show ?thesis
  proof (cases "length hay < length ned")
    case True
    with c show ?thesis
      by (auto simp: strstr_def strlen_cstr [OF assms(1)] strlen_cstr [OF assms(2)] occurs_at_def)
  next
    case False
    with c strstr_loop_first [OF assms, of 0] show ?thesis
      by (auto simp: strstr_def strlen_cstr [OF assms(1)] strlen_cstr [OF assms(2)] split: option.splits)
  qed
qed

section \<open>Tokens\<close>

lemma is_delim_cstr: "cstr m q ds \<Longrightarrow> is_delim c q m = Some (c \<in> set ds)"
proof (induction ds arbitrary: q)
  case (Cons d ds)
  from Cons.IH [of "Suc q"] Cons.prems show ?case by (subst is_delim.simps) auto
qed (subst is_delim.simps, simp)

lemma tok_scan_cstr:
  "cstr m q ds \<Longrightarrow> cstr m p str \<Longrightarrow>
   tok_scan v p q m = Some (p + length (takeWhile (\<lambda>c. (c \<in> set ds) = v) str))"
proof (induction str arbitrary: p)
  case (Cons c str)
  from Cons.IH [of "Suc p"] Cons.prems show ?case
    by (subst tok_scan.simps) (simp add: is_delim_cstr)
qed (subst tok_scan.simps, simp)

text \<open>The tokens of a string: its maximal runs of bytes that are not delimiters.\<close>

function tokens :: "u8 set \<Rightarrow> u8 list \<Rightarrow> u8 list list" where
  "tokens D str = (let s = dropWhile (\<lambda>c. c \<in> D) str in
     if s = [] then [] else takeWhile (\<lambda>c. c \<notin> D) s # tokens D (dropWhile (\<lambda>c. c \<notin> D) s))"
  by pat_completeness auto
termination
proof (relation "measure (\<lambda>(D, str). length str)", goal_cases)
  case (2 D str s)
  then have "hd s \<notin> D" using hd_dropWhile [of "\<lambda>c. c \<in> D" str] by simp
  then have "length (dropWhile (\<lambda>c. c \<notin> D) s) < length s"
    using 2(2) length_dropWhile_le [of "\<lambda>c. c \<notin> D" "tl s"] by (cases s) auto
  also have "\<dots> \<le> length str" using 2(1) by (simp add: length_dropWhile_le)
  finally show ?case by simp
qed simp

declare tokens.simps [simp del]

lemma tokens_Nil [simp]: "tokens D [] = []"
  by (subst tokens.simps) simp

lemma tokens_skip: "d \<in> D \<Longrightarrow> tokens D (d # t) = tokens D t"
  by (subst (1 2) tokens.simps) simp

text \<open>A caller that fetches token after token, reading each before the next call.\<close>

partial_function (option) strtok_all :: "nat option \<Rightarrow> nat \<Rightarrow> nat option \<Rightarrow> mem \<Rightarrow> u8 list list option" where
  "strtok_all str q saved m = do {
     (r, saved, m) \<leftarrow> strtok str q saved m;
     (case r of
        None \<Rightarrow> Some []
      | Some p \<Rightarrow> do {
          l \<leftarrow> strlen p m;
          toks \<leftarrow> strtok_all None q saved m;
          Some (take l (drop p m) # toks) }) }"

lemma cstr_take_self: "cstr m a s \<Longrightarrow> take (length s) (drop a m) = s"
  using cstr_take_drop [of m a s 0 "length s"] by simp

lemma cstr_prefix_cut:
  assumes "cstr m a s" "k < length s"
  shows "cstr (m[a + k := 0]) a (take k s)"
  using assms
proof (induction s arbitrary: a k)
  case (Cons c s)
  show ?case
  proof (cases k)
    case 0
    with Cons.prems show ?thesis by (auto simp: nth_opt_def split: if_splits)
  next
    case (Suc j)
    with Cons.IH [of "Suc a" j] Cons.prems show ?thesis by (auto simp: nth_opt_def split: if_splits)
  qed
qed simp

lemma strtok_saved: "strtok None q (Some p) m = strtok (Some p) q saved m"
  by (simp add: strtok_def)

text \<open>One call: the token, and what the next call continues with.\<close>

lemma strtok_step:
  assumes str: "cstr m p str" and ds: "cstr m q ds" and apart: "q + length ds < p \<or> p + length str < q"
    and s: "s = dropWhile (\<lambda>c. c \<in> set ds) str" "s \<noteq> []" and t: "t = takeWhile (\<lambda>c. c \<notin> set ds) s"
    and r: "rs = dropWhile (\<lambda>c. c \<notin> set ds) s"
  shows "\<exists>saved' m' a. strtok (Some p) q saved m = Some (Some a, saved', m') \<and> cstr m' a t \<and>
    (rs = [] \<and> saved' = None \<or> (\<exists>p'. rs \<noteq> [] \<and> saved' = Some p' \<and> cstr m' p' (tl rs) \<and> cstr m' q ds
       \<and> (q + length ds < p' \<or> p' + length (tl rs) < q)))"
proof -
  let ?i = "length (takeWhile (\<lambda>c. c \<in> set ds) str)"
  have split: "str = takeWhile (\<lambda>c. c \<in> set ds) str @ s" "s = t @ rs" using s t r by simp_all
  have len: "length str = ?i + length s" using split(1) by (metis length_append)
  have dr: "drop ?i str = s" using s(1) by (simp add: dropWhile_eq_drop)
  have cs: "cstr m (p + ?i) s" using cstr_drop [OF str, of ?i] len unfolding dr by linarith
  have start: "tok_scan True p q m = Some (p + ?i)" using tok_scan_cstr [OF ds str, of True] by simp
  have c0: "nth_opt m (p + ?i) = Some (hd s)" "hd s \<noteq> 0" using cs s(2) by (cases s; simp)+
  have ep: "tok_scan False (p + ?i) q m = Some (p + ?i + length t)"
    using tok_scan_cstr [OF ds cs, of False] t by simp
  show ?thesis
  proof (cases rs)
    case Nil
    then have "t = s" using split(2) by simp
    moreover have "nth_opt m (p + ?i + length s) = Some 0" using cstr_drop [OF cs, of "length s"] by simp
    ultimately show ?thesis using start c0 ep cs Nil by (simp add: strtok_def)
  next
    case (Cons d u)
    let ?e = "p + ?i + length t"
    have crs: "cstr m ?e rs" using cstr_drop [OF cs, of "length t"] split(2) by simp
    then have e: "nth_opt m ?e = Some d" "d \<noteq> 0" "?e < length m" "cstr m (Suc ?e) u"
      using Cons by (auto simp: nth_opt_Some_iff)
    let ?m = "m[?e := 0]"
    have le: "?e + length rs = p + length str" using len split(2) by simp
    have tok: "cstr ?m (p + ?i) t" using cstr_prefix_cut [OF cs, of "length t"] split(2) Cons by simp
    have nxt: "cstr ?m (Suc ?e) u" using e(4) by (simp add: cstr_upd)
    have "cstr ?m q ds" using ds apart le Cons by (subst cstr_upd) auto
    moreover have "q + length ds < Suc ?e \<or> Suc ?e + length u < q" using apart le Cons by auto
    ultimately show ?thesis using start c0 ep e(1-3) tok nxt Cons by (simp add: strtok_def upd_opt_def)
  qed
qed

lemma strtok_all_tokens:
  "cstr m p str \<Longrightarrow> cstr m q ds \<Longrightarrow> q + length ds < p \<or> p + length str < q \<Longrightarrow>
   strtok_all (Some p) q saved m = Some (tokens (set ds) str)"
proof (induction "length str" arbitrary: m p str saved rule: less_induct)
  case less
  define s where "s = dropWhile (\<lambda>c. c \<in> set ds) str"
  define t where "t = takeWhile (\<lambda>c. c \<notin> set ds) s"
  define rs where "rs = dropWhile (\<lambda>c. c \<notin> set ds) s"
  show ?case
  proof (cases "s = []")
    case True
    then have "\<forall>c \<in> set str. c \<in> set ds" by (simp add: s_def dropWhile_eq_Nil_conv)
    then have "takeWhile (\<lambda>c. (c \<in> set ds) = True) str = str" by (simp add: takeWhile_eq_all_conv)
    with tok_scan_cstr [OF less.prems(2,1), of True] have "tok_scan True p q m = Some (p + length str)" by metis
    then have "strtok (Some p) q saved m = Some (None, None, m)"
      using cstr_drop [OF less.prems(1), of "length str"] by (simp add: strtok_def)
    with True show ?thesis by (subst strtok_all.simps, subst tokens.simps) (simp flip: s_def)
  next
    case False
    from strtok_step [OF less.prems s_def False t_def rs_def, of saved] obtain saved' m' a where
      a: "strtok (Some p) q saved m = Some (Some a, saved', m')" "cstr m' a t"
      "rs = [] \<and> saved' = None \<or> (\<exists>p'. rs \<noteq> [] \<and> saved' = Some p' \<and> cstr m' p' (tl rs) \<and> cstr m' q ds
       \<and> (q + length ds < p' \<or> p' + length (tl rs) < q))" by blast
    from a(3) consider (stop) "rs = []" "saved' = None"
      | (more) p' where "rs \<noteq> []" "saved' = Some p'" "cstr m' p' (tl rs)" "cstr m' q ds"
          "q + length ds < p' \<or> p' + length (tl rs) < q" by blast
    then have "strtok_all None q saved' m' = Some (tokens (set ds) rs)"
    proof cases
      case stop
      then show ?thesis by (subst strtok_all.simps) (simp add: strtok_def)
    next
      case p': (more p')
      have "length rs \<le> length str" unfolding rs_def s_def by (meson length_dropWhile_le order_trans)
      then have "length (tl rs) < length str" using p'(1) by (cases rs) auto
      from less.hyps [OF this p'(3-5)] have "strtok_all (Some p') q None m' = Some (tokens (set ds) (tl rs))" .
      moreover have "hd rs \<in> set ds" using hd_dropWhile [of "\<lambda>c. c \<notin> set ds" s] p'(1) by (simp add: rs_def)
      then have "tokens (set ds) rs = tokens (set ds) (tl rs)" using tokens_skip p'(1) by (cases rs) auto
      moreover have "strtok_all None q (Some p') m' = strtok_all (Some p') q None m'"
        by (subst (1 2) strtok_all.simps) (simp add: strtok_saved [of q p' m' None])
      ultimately show ?thesis using p'(2) by simp
    qed
    moreover have "tokens (set ds) str = t # tokens (set ds) rs"
      using False by (subst tokens.simps) (simp add: t_def rs_def flip: s_def)
    ultimately show ?thesis using a(1,2)
      by (subst strtok_all.simps) (simp add: strlen_cstr cstr_take_self)
  qed
qed

text \<open>
  C22: Calling \<open>strtok\<close> until it returns NULL yields exactly the tokens of the string. For a string
  and a delimiter string that do not overlap in memory, the sequence of calls ends, and the byte
  strings at the returned pointers are the maximal runs of bytes that are not delimiters, in
  order. Every token is non-empty and free of delimiters.
\<close>

theorem strtok_tokens:
  assumes "cstr m p str" "cstr m q ds" "q + length ds < p \<or> p + length str < q"
  shows "strtok_all (Some p) q saved m = Some (tokens (set ds) str)
    \<and> (\<forall>t \<in> set (tokens (set ds) str). t \<noteq> [] \<and> set t \<inter> set ds = {})
    \<and> concat (tokens (set ds) str) = filter (\<lambda>c. c \<notin> set ds) str"
proof -
  have "(\<forall>t \<in> set (tokens D x). t \<noteq> [] \<and> set t \<inter> D = {}) \<and> concat (tokens D x) = filter (\<lambda>c. c \<notin> D) x" for D x
  proof (induction D x rule: tokens.induct)
    case (1 D x)
    define s where "s = dropWhile (\<lambda>c. c \<in> D) x"
    have x: "x = takeWhile (\<lambda>c. c \<in> D) x @ s" by (simp add: s_def)
    have "filter (\<lambda>c. c \<notin> D) (takeWhile (\<lambda>c. c \<in> D) x) = []" by (auto simp: filter_empty_conv dest: set_takeWhileD)
    then have fx: "filter (\<lambda>c. c \<notin> D) x = filter (\<lambda>c. c \<notin> D) s" using x by (metis append_Nil filter_append)
    show ?case
    proof (cases "s = []")
      case True
      then show ?thesis using fx by (subst (1 2) tokens.simps) (simp flip: s_def)
    next
      case False
      let ?t = "takeWhile (\<lambda>c. c \<notin> D) s" and ?r = "dropWhile (\<lambda>c. c \<notin> D) s"
      have eq: "tokens D x = ?t # tokens D ?r" using False by (subst tokens.simps) (simp flip: s_def)
      have "hd s \<notin> D" using hd_dropWhile [of "\<lambda>c. c \<in> D" x] False by (simp add: s_def)
      then have "?t \<noteq> []" using False by (cases s) auto
      moreover have "set ?t \<inter> D = {}" by (auto dest: set_takeWhileD)
      moreover have "filter (\<lambda>c. c \<notin> D) ?t = ?t" by (auto simp: filter_id_conv dest: set_takeWhileD)
      then have "filter (\<lambda>c. c \<notin> D) s = ?t @ filter (\<lambda>c. c \<notin> D) ?r"
        using filter_append [of "\<lambda>c. c \<notin> D" ?t ?r] unfolding takeWhile_dropWhile_id by metis
      ultimately show ?thesis using "1.IH" [OF s_def False] fx eq by auto
    qed
  qed
  with strtok_all_tokens [OF assms] show ?thesis by blast
qed

theorem strtok_tokens_witness:
  "strtok_all (Some 2) 0 None [0x2f, 0, 0x2f, 0x61, 0x2f, 0x2f, 0x62, 0] = Some (tokens {0x2f} [0x2f, 0x61, 0x2f, 0x2f, 0x62])"
proof -
  let ?m = "[0x2f, 0, 0x2f, 0x61, 0x2f, 0x2f, 0x62, 0] :: mem"
  have "cstr ?m 2 [0x2f, 0x61, 0x2f, 0x2f, 0x62]" "cstr ?m 0 [0x2f]" by (simp_all add: nth_opt_def)
  from strtok_tokens [OF this, of None] show ?thesis by simp
qed

end
