(* ===== verification/Qsort.thy ===== *)
theory Qsort
  imports Prelude "HOL-Library.Multiset"
begin

text \<open>
  Heap sort (\<open>src/src/lib/qsort.c\<close>). The array is the list of its elements: \<open>memswap\<close> on two
  elements of the same size exchanges them, and the comparison function sees whole elements. The
  recursion of \<open>heapify\<close> and the two loops of \<open>qsort\<close> are functions with the same indices.
\<close>

section \<open>Model\<close>

definition swap_elems :: "nat \<Rightarrow> nat \<Rightarrow> 'a list \<Rightarrow> 'a list" where
  "swap_elems i j xs = xs[i := xs ! j, j := xs ! i]"

definition largest_of :: "('a \<Rightarrow> 'a \<Rightarrow> int) \<Rightarrow> nat \<Rightarrow> nat \<Rightarrow> 'a list \<Rightarrow> nat" where
  "largest_of cmp n i xs =
     (let l = 2 * i + 1; r = 2 * i + 2;
          largest = (if l < n \<and> cmp (xs ! l) (xs ! i) > 0 then l else i) in
      if r < n \<and> cmp (xs ! r) (xs ! largest) > 0 then r else largest)"

lemma largest_of_cases: "largest_of cmp n i xs = i \<or> largest_of cmp n i xs \<in> {2 * i + 1, 2 * i + 2} \<and> largest_of cmp n i xs < n"
  by (auto simp: largest_of_def Let_def)

function heapify :: "('a \<Rightarrow> 'a \<Rightarrow> int) \<Rightarrow> nat \<Rightarrow> nat \<Rightarrow> 'a list \<Rightarrow> 'a list" where
  "heapify cmp n i xs =
     (let largest = largest_of cmp n i xs in
      if largest \<noteq> i then heapify cmp n largest (swap_elems i largest xs) else xs)"
  by pat_completeness auto
termination
proof (relation "measure (\<lambda>(cmp, n, i, xs). n - i)", goal_cases)
  case (2 cmp n i xs largest)
  then show ?case using largest_of_cases [of cmp n i xs] by auto
qed simp

declare heapify.simps [simp del]

fun build_heap :: "('a \<Rightarrow> 'a \<Rightarrow> int) \<Rightarrow> nat \<Rightarrow> nat \<Rightarrow> 'a list \<Rightarrow> 'a list" where
  "build_heap cmp n 0 xs = xs"
| "build_heap cmp n (Suc i) xs = build_heap cmp n i (heapify cmp n i xs)"

fun sort_down :: "('a \<Rightarrow> 'a \<Rightarrow> int) \<Rightarrow> nat \<Rightarrow> 'a list \<Rightarrow> 'a list" where
  "sort_down cmp 0 xs = xs"
| "sort_down cmp (Suc i) xs = sort_down cmp i (heapify cmp (Suc i) 0 (swap_elems 0 (Suc i) xs))"

definition qsort :: "('a \<Rightarrow> 'a \<Rightarrow> int) \<Rightarrow> 'a list \<Rightarrow> 'a list" where
  "qsort cmp xs =
     (if length xs \<le> 1 then xs
      else sort_down cmp (length xs - 1) (build_heap cmp (length xs) (length xs div 2) xs))"

section \<open>Heaps\<close>

text \<open>What a comparison function must provide: a total preorder.\<close>

definition preorder_cmp :: "('a \<Rightarrow> 'a \<Rightarrow> int) \<Rightarrow> bool" where
  "preorder_cmp cmp \<longleftrightarrow> (\<forall>a b. cmp a b > 0 \<longrightarrow> cmp b a \<le> 0) \<and> (\<forall>a b c. cmp a b \<le> 0 \<longrightarrow> cmp b c \<le> 0 \<longrightarrow> cmp a c \<le> 0)"

lemma cmp_refl: "preorder_cmp cmp \<Longrightarrow> cmp a a \<le> 0"
  unfolding preorder_cmp_def by (meson not_le)

lemma cmp_trans: "preorder_cmp cmp \<Longrightarrow> cmp a b \<le> 0 \<Longrightarrow> cmp b c \<le> 0 \<Longrightarrow> cmp a c \<le> 0"
  unfolding preorder_cmp_def by blast

lemma cmp_gt: "preorder_cmp cmp \<Longrightarrow> cmp a b > 0 \<Longrightarrow> cmp b a \<le> 0"
  unfolding preorder_cmp_def by blast

definition child :: "nat \<Rightarrow> nat \<Rightarrow> bool" where
  "child i j \<longleftrightarrow> j = 2 * i + 1 \<or> j = 2 * i + 2"

text \<open>The first \<open>n\<close> elements form a heap from index \<open>k\<close> on, the nodes in \<open>X\<close> excepted.\<close>

definition heap_except :: "('a \<Rightarrow> 'a \<Rightarrow> int) \<Rightarrow> nat set \<Rightarrow> nat \<Rightarrow> nat \<Rightarrow> 'a list \<Rightarrow> bool" where
  "heap_except cmp X n k xs \<longleftrightarrow> (\<forall>i j. k \<le> i \<longrightarrow> i \<notin> X \<longrightarrow> child i j \<longrightarrow> j < n \<longrightarrow> cmp (xs ! j) (xs ! i) \<le> 0)"

text \<open>The children of \<open>i\<close> are below the parent of \<open>i\<close>.\<close>

definition grand_ok :: "('a \<Rightarrow> 'a \<Rightarrow> int) \<Rightarrow> nat \<Rightarrow> nat \<Rightarrow> nat \<Rightarrow> 'a list \<Rightarrow> bool" where
  "grand_ok cmp n k i xs \<longleftrightarrow> (\<forall>p j. k \<le> p \<longrightarrow> child p i \<longrightarrow> child i j \<longrightarrow> j < n \<longrightarrow> cmp (xs ! j) (xs ! p) \<le> 0)"

lemma swap_nth:
  "i < length xs \<Longrightarrow> j < length xs \<Longrightarrow> k < length xs \<Longrightarrow>
   swap_elems i j xs ! k = (if k = i then xs ! j else if k = j then xs ! i else xs ! k)"
  by (auto simp: swap_elems_def nth_list_update)

lemma swap_length [simp]: "length (swap_elems i j xs) = length xs"
  by (simp add: swap_elems_def)

lemma swap_mset: "i < length xs \<Longrightarrow> j < length xs \<Longrightarrow> mset (swap_elems i j xs) = mset xs"
  unfolding swap_elems_def by (rule mset_swap)

lemma child_less: "child i j \<Longrightarrow> i < j"
  by (auto simp: child_def)

lemma child_parent: "child i j \<Longrightarrow> child i' j \<Longrightarrow> i = i'"
  by (auto simp: child_def)

lemma largest_of_max:
  assumes "preorder_cmp cmp"
  shows "cmp (xs ! i) (xs ! largest_of cmp n i xs) \<le> 0"
    "child i j \<Longrightarrow> j < n \<Longrightarrow> cmp (xs ! j) (xs ! largest_of cmp n i xs) \<le> 0"
proof -
  let ?l = "2 * i + 1" and ?r = "2 * i + 2"
  define g where "g = (if ?l < n \<and> cmp (xs ! ?l) (xs ! i) > 0 then ?l else i)"
  have lg: "largest_of cmp n i xs = (if ?r < n \<and> cmp (xs ! ?r) (xs ! g) > 0 then ?r else g)"
    by (simp add: largest_of_def g_def Let_def)
  have g: "cmp (xs ! i) (xs ! g) \<le> 0" "?l < n \<Longrightarrow> cmp (xs ! ?l) (xs ! g) \<le> 0"
    using cmp_gt [OF assms] cmp_refl [OF assms] by (auto simp: g_def not_less)
  have up: "cmp x (xs ! g) \<le> 0 \<Longrightarrow> cmp x (xs ! largest_of cmp n i xs) \<le> 0" for x
    unfolding lg using cmp_gt [OF assms] cmp_trans [OF assms] by auto
  show "cmp (xs ! i) (xs ! largest_of cmp n i xs) \<le> 0" using up g(1) by simp
  assume "child i j" "j < n"
  moreover have "?r < n \<Longrightarrow> cmp (xs ! ?r) (xs ! largest_of cmp n i xs) \<le> 0"
    unfolding lg using cmp_refl [OF assms] by (auto simp: not_less)
  ultimately show "cmp (xs ! j) (xs ! largest_of cmp n i xs) \<le> 0" using up g(2) by (auto simp: child_def)
qed

lemma swap_heap:
  assumes cmp: "preorder_cmp cmp" and g: "g = largest_of cmp n i xs" "g \<noteq> i"
    and xs: "n \<le> length xs" "i < n" "k \<le> i" "heap_except cmp {i} n k xs" "grand_ok cmp n k i xs"
  shows "heap_except cmp {g} n k (swap_elems i g xs)" "grand_ok cmp n k g (swap_elems i g xs)"
proof -
  let ?ys = "swap_elems i g xs"
  have ig: "child i g" "g < n" using largest_of_cases [of cmp n i xs] g by (auto simp: child_def)
  note big = largest_of_max [OF cmp, where xs = xs and i = i and n = n, folded g(1)]
  have ys: "?ys ! m = (if m = i then xs ! g else if m = g then xs ! i else xs ! m)" if "m < n" for m
    using that xs(1,2) ig(2) by (subst swap_nth) auto
  have old: "cmp (xs ! j) (xs ! p) \<le> 0" if "k \<le> p" "p \<noteq> i" "child p j" "j < n" for p j
    using xs(4) that by (auto simp: heap_except_def)
  have par: "cmp (xs ! g) (xs ! p) \<le> 0" if "k \<le> p" "child p i" for p
    using xs(5) that ig by (auto simp: grand_ok_def)
  have "cmp (?ys ! j) (?ys ! p) \<le> 0" if h: "k \<le> p" "p \<noteq> g" "child p j" "j < n" for p j
  proof (cases "p = i")
    case True
    then have "?ys ! p = xs ! g" "j \<noteq> i" using ys xs(2) child_less h(3) by auto
    moreover have "cmp (xs ! j) (xs ! g) \<le> 0" using big(2) h(3,4) True by simp
    ultimately show ?thesis using ys [OF h(4)] big(1) by auto
  next
    case False
    have "p < n" using child_less [OF h(3)] h(4) by simp
    then have p: "?ys ! p = xs ! p" using ys False h(2) by simp
    have "j \<noteq> g" using child_parent [OF h(3)] ig(1) False by blast
    then show ?thesis using ys [OF h(4)] p par [OF h(1)] old [OF h(1) False h(3,4)] h(3) by auto
  qed
  then show "heap_except cmp {g} n k ?ys" by (simp add: heap_except_def)
  have "cmp (?ys ! j) (?ys ! p) \<le> 0" if h: "child p g" "child g j" "j < n" for p j
  proof -
    have pi: "p = i" using child_parent [OF h(1) ig(1)] .
    have "j \<noteq> g" "j \<noteq> i" "k \<le> g" using child_less h(2) ig(1) xs(3) by (fastforce dest: child_less)+
    then show ?thesis using pi ys [OF h(3)] ys [OF xs(2)] old [OF _ g(2) h(2,3)] by simp
  qed
  then show "grand_ok cmp n k g ?ys" by (auto simp: grand_ok_def)
qed

lemma heapify_heap:
  "preorder_cmp cmp \<Longrightarrow> n \<le> length xs \<Longrightarrow> i < n \<Longrightarrow> k \<le> i \<Longrightarrow> heap_except cmp {i} n k xs \<Longrightarrow> grand_ok cmp n k i xs \<Longrightarrow>
    heap_except cmp {} n k (heapify cmp n i xs) \<and> mset (heapify cmp n i xs) = mset xs
    \<and> (\<forall>j. n \<le> j \<longrightarrow> heapify cmp n i xs ! j = xs ! j)"
proof (induction cmp n i xs rule: heapify.induct)
  case (1 cmp n i xs)
  define g where "g = largest_of cmp n i xs"
  show ?case
  proof (cases "g = i")
    case True
    have "cmp (xs ! j) (xs ! p) \<le> 0" if "k \<le> p" "child p j" "j < n" for p j
      using that "1.prems"(5) largest_of_max(2) [OF "1.prems"(1), of i j n xs] True
      by (cases "p = i") (auto simp: heap_except_def g_def)
    with True show ?thesis by (subst (1 2 3) heapify.simps) (simp add: heap_except_def flip: g_def)
  next
    case False
    have g: "g < n" "k \<le> g" using largest_of_cases [of cmp n i xs] False "1.prems"(4) by (auto simp: g_def)
    note sw = swap_heap [OF "1.prems"(1) g_def False "1.prems"(2-)]
    have eq: "heapify cmp n i xs = heapify cmp n g (swap_elems i g xs)"
      using False by (subst heapify.simps) (simp flip: g_def)
    have "mset (swap_elems i g xs) = mset xs" using "1.prems"(2,3) g(1) by (simp add: swap_mset)
    moreover have "swap_elems i g xs ! j = xs ! j" if "n \<le> j" for j
      using that g(1) "1.prems"(3) by (simp add: swap_elems_def)
    ultimately show ?thesis
      using "1.IH" [OF g_def False "1.prems"(1)] "1.prems"(2) g sw by (simp add: eq)
  qed
qed

lemma heap_root:
  assumes cmp: "preorder_cmp cmp" and h: "heap_except cmp {} n 0 xs"
  shows "j < n \<Longrightarrow> cmp (xs ! j) (xs ! 0) \<le> 0"
proof (induction j rule: less_induct)
  case (less j)
  show ?case
  proof (cases "j = 0")
    case False
    then have c: "child ((j - 1) div 2) j" "(j - 1) div 2 < j" unfolding child_def by presburger+
    then have "cmp (xs ! j) (xs ! ((j - 1) div 2)) \<le> 0" using h less.prems by (simp add: heap_except_def)
    with less.IH [OF c(2)] c(2) less.prems show ?thesis using cmp_trans [OF cmp] by auto
  qed (use cmp_refl [OF cmp] in simp)
qed

lemma build_heap_heap:
  "preorder_cmp cmp \<Longrightarrow> k \<le> length xs \<Longrightarrow> heap_except cmp {} (length xs) k xs \<Longrightarrow>
   heap_except cmp {} (length xs) 0 (build_heap cmp (length xs) k xs)
   \<and> mset (build_heap cmp (length xs) k xs) = mset xs"
proof (induction k arbitrary: xs)
  case (Suc k)
  have "heap_except cmp {k} (length xs) k xs"
    using Suc.prems(3) by (auto simp: heap_except_def)
  moreover have "grand_ok cmp (length xs) k k xs" by (auto simp: grand_ok_def dest: child_less)
  ultimately have h: "heap_except cmp {} (length xs) k (heapify cmp (length xs) k xs)"
    "mset (heapify cmp (length xs) k xs) = mset xs"
    using heapify_heap [OF Suc.prems(1), of "length xs" xs k k] Suc.prems(2) by auto
  have "length (heapify cmp (length xs) k xs) = length xs" using h(2) by (rule mset_eq_length)
  with Suc.IH [of "heapify cmp (length xs) k xs"] Suc.prems h show ?case by simp
qed simp

text \<open>
  The state of the second loop: the first \<open>i + 1\<close> elements are a heap, the rest is sorted and above
  all of them.
\<close>

definition sorting :: "('a \<Rightarrow> 'a \<Rightarrow> int) \<Rightarrow> nat \<Rightarrow> 'a list \<Rightarrow> bool" where
  "sorting cmp i xs \<longleftrightarrow> i < length xs \<and> heap_except cmp {} (Suc i) 0 xs
     \<and> (\<forall>a b. a < b \<longrightarrow> i < b \<longrightarrow> b < length xs \<longrightarrow> cmp (xs ! a) (xs ! b) \<le> 0)"

lemma mset_below:
  assumes "mset ys = mset xs" "\<forall>j. n \<le> j \<longrightarrow> ys ! j = xs ! j"
  shows "set (take n ys) = set (take n xs)"
proof -
  have len: "length ys = length xs" using assms(1) by (rule mset_eq_length)
  have "drop n ys = drop n xs" using assms(2) len by (intro nth_equalityI) auto
  moreover have "mset (take n ys) + mset (drop n ys) = mset (take n xs) + mset (drop n xs)"
    using assms(1) by (metis append_take_drop_id mset_append)
  ultimately have "mset (take n ys) = mset (take n xs)" by simp
  then show ?thesis by (metis set_mset_mset)
qed

lemma sort_step:
  assumes cmp: "preorder_cmp cmp" and s: "sorting cmp (Suc i) xs"
  defines "ys \<equiv> heapify cmp (Suc i) 0 (swap_elems 0 (Suc i) xs)"
  shows "sorting cmp i ys" "mset ys = mset xs"
proof -
  let ?zs = "swap_elems 0 (Suc i) xs"
  have l: "Suc i < length xs" and h: "heap_except cmp {} (Suc (Suc i)) 0 xs" using s by (simp_all add: sorting_def)
  have z: "?zs ! m = (if m = 0 then xs ! Suc i else if m = Suc i then xs ! 0 else xs ! m)" if "m < length xs" for m
    using that l by (subst swap_nth) auto
  have "heap_except cmp {0} (Suc i) 0 ?zs"
  proof -
    have "?zs ! p = xs ! p" "?zs ! j = xs ! j" if "p \<noteq> 0" "child p j" "j < Suc i" for p j
      using that child_less [OF that(2)] l z [of p] z [of j] by auto
    with h show ?thesis by (simp add: heap_except_def)
  qed
  moreover have "grand_ok cmp (Suc i) 0 0 ?zs" by (auto simp: grand_ok_def dest: child_less)
  ultimately have hy: "heap_except cmp {} (Suc i) 0 ys" "mset ys = mset ?zs" "\<forall>j. Suc i \<le> j \<longrightarrow> ys ! j = ?zs ! j"
    using heapify_heap [OF cmp, of "Suc i" ?zs 0 0] l by (auto simp: ys_def)
  show m: "mset ys = mset xs" using hy(2) swap_mset [of 0 xs "Suc i"] l by (cases xs) auto
  have len: "length ys = length xs" using m by (rule mset_eq_length)
  have low: "cmp (ys ! a) (xs ! 0) \<le> 0 \<and> (\<forall>b. Suc i < b \<longrightarrow> b < length xs \<longrightarrow> cmp (ys ! a) (xs ! b) \<le> 0)" if a: "a \<le> i" for a
  proof -
    have "take (Suc i) ys ! a = ys ! a" "a < length (take (Suc i) ys)" using a l len by simp_all
    then have "ys ! a \<in> set (take (Suc i) ys)" by (metis nth_mem)
    then have "ys ! a \<in> set (take (Suc i) ?zs)" using mset_below [OF hy(2,3)] by simp
    then obtain c where c: "c < Suc i" "ys ! a = ?zs ! c" using l by (auto simp: in_set_conv_nth)
    then have "ys ! a = xs ! (if c = 0 then Suc i else c)" using z [of c] l by auto
    then obtain c' where c': "c' < Suc (Suc i)" "ys ! a = xs ! c'" using c(1) by (metis lessI less_SucI)
    then show ?thesis using heap_root [OF cmp h c'(1)] s by (auto simp: sorting_def)
  qed
  have "cmp (ys ! a) (ys ! b) \<le> 0" if h: "a < b" "i < b" "b < length ys" for a b
  proof -
    have b: "ys ! b = (if b = Suc i then xs ! 0 else xs ! b)" using hy(3) h z [of b] len by auto
    show ?thesis
    proof (cases "a \<le> i")
      case True
      with low [OF True] b h len show ?thesis by auto
    next
      case False
      then have "ys ! a = (if a = Suc i then xs ! 0 else xs ! a)" using hy(3) h z [of a] len by auto
      moreover have "b \<noteq> Suc i" "Suc i < b" using False h by auto
      ultimately show ?thesis using b s h len by (auto simp: sorting_def)
    qed
  qed
  with hy(1) l len show "sorting cmp i ys" by (simp add: sorting_def)
qed

lemma sort_down_sorted:
  "preorder_cmp cmp \<Longrightarrow> sorting cmp i xs \<Longrightarrow> sorting cmp 0 (sort_down cmp i xs) \<and> mset (sort_down cmp i xs) = mset xs"
proof (induction i arbitrary: xs)
  case (Suc i)
  from sort_step [OF Suc.prems] Suc.IH [OF Suc.prems(1)] show ?case by auto
qed simp

text \<open>
  C23: \<open>qsort\<close> sorts. For every comparison function that is a total preorder the result is a
  permutation of the array in which no element comes before a smaller one; the recursion of
  \<open>heapify\<close> and both loops end on every input.
\<close>

theorem qsort_sorts:
  assumes "preorder_cmp cmp"
  shows "mset (qsort cmp xs) = mset xs \<and> sorted_wrt (\<lambda>a b. cmp a b \<le> 0) (qsort cmp xs)"
proof (cases "length xs \<le> 1")
  case True
  then show ?thesis by (cases xs) (auto simp: qsort_def)
next
  case False
  let ?n = "length xs" and ?h = "build_heap cmp (length xs) (length xs div 2) xs"
  have "heap_except cmp {} ?n (?n div 2) xs" by (auto simp: heap_except_def child_def)
  then have h: "heap_except cmp {} ?n 0 ?h" "mset ?h = mset xs"
    using build_heap_heap [OF assms, of "?n div 2" xs] by auto
  have "length ?h = ?n" using h(2) by (rule mset_eq_length)
  moreover have "Suc (?n - 1) = ?n" using False by simp
  ultimately have "sorting cmp (?n - 1) ?h" unfolding sorting_def using h(1) False by auto
  from sort_down_sorted [OF assms this] h(2) False
  have s: "sorting cmp 0 (qsort cmp xs)" "mset (qsort cmp xs) = mset xs" by (simp_all add: qsort_def)
  then show ?thesis by (auto simp: sorting_def sorted_wrt_iff_nth_less)
qed

theorem qsort_sorts_witness:
  "mset (qsort (\<lambda>a b. a - b) [3, 1, 2 :: int]) = mset [3, 1, 2]
   \<and> sorted_wrt (\<lambda>a b. a - b \<le> 0) (qsort (\<lambda>a b. a - b) [3, 1, 2 :: int])"
proof -
  have "preorder_cmp (\<lambda>a b :: int. a - b)" by (auto simp: preorder_cmp_def)
  from qsort_sorts [OF this] show ?thesis by blast
qed

end
