(* ===== verification/Printf.thy ===== *)
theory Printf
  imports Bytes
begin

text \<open>
  Formatted output (\<open>src/src/lib/printf.c\<close>). A format is a HOL string; the variable arguments are
  a list whose items are 64-bit values or strings (a null string pointer is \<open>None\<close>), and reading
  an item of the wrong kind, or one that is not there, has no result. A directive is parsed and
  converted to the pieces it prints; the pieces go to the output context of the caller, which
  drops what does not fit and counts everything.
\<close>

section \<open>Output context\<close>

record fmt_ctx =
  cbuf :: string
  csize :: nat
  cpos :: nat
  ccnt :: nat

definition out :: "string \<Rightarrow> fmt_ctx \<Rightarrow> fmt_ctx option" where
  "out xs ctx =
     (if length xs = 0 then Some ctx
      else do {
        ctx \<leftarrow> (let n = csize ctx - cpos ctx in
          if n > 0 then (let n = (if n > length xs then length xs else n) in do {
              b \<leftarrow> buf_write (cbuf ctx) (cpos ctx) (take n xs);
              Some (ctx\<lparr>cbuf := b, cpos := cpos ctx + n\<rparr>) })
          else Some ctx);
        Some (ctx\<lparr>ccnt := ccnt ctx + length xs\<rparr>) })"

function pad_from :: "nat \<Rightarrow> nat \<Rightarrow> char \<Rightarrow> fmt_ctx \<Rightarrow> fmt_ctx option" where
  "pad_from i len ch ctx =
     (if i < len then do {
        ctx \<leftarrow> out (replicate (if len - i > 32 then 32 else len - i) ch) ctx;
        pad_from (i + 32) len ch ctx }
      else Some ctx)"
  by pat_completeness auto
termination by (relation "measure (\<lambda>(i, len, ch, ctx). len - i)") auto

declare pad_from.simps [simp del]

definition pad :: "nat \<Rightarrow> char \<Rightarrow> fmt_ctx \<Rightarrow> fmt_ctx option" where
  "pad len ch ctx = pad_from 0 len ch ctx"

definition fmt_terminate :: "fmt_ctx \<Rightarrow> fmt_ctx option" where
  "fmt_terminate ctx =
     (if csize ctx = 0 then Some ctx
      else do {
        b \<leftarrow> upd_opt (cbuf ctx) (if cpos ctx < csize ctx then cpos ctx else csize ctx - 1) (CHR 0x00);
        Some (ctx\<lparr>cbuf := b\<rparr>) })"

section \<open>Directives\<close>

datatype fmt_state = FMT_S_INVALID | FMT_S_START | FMT_S_LPRE | FMT_S_LLPRE | FMT_S_HPRE | FMT_S_HHPRE
  | FMT_S_ZPRE | FMT_S_STOP | FMT_S_CHAR | FMT_S_UCHAR | FMT_S_SHORT | FMT_S_USHORT | FMT_S_INT | FMT_S_UINT
  | FMT_S_LONG | FMT_S_ULONG | FMT_S_LLONG | FMT_S_ULLONG | FMT_S_SIZE_T | FMT_S_SSIZE_T | FMT_S_PTR | FMT_S_STR

definition signed_conv :: "char \<Rightarrow> bool" where
  "signed_conv c \<longleftrightarrow> c = CHR ''d'' \<or> c = CHR ''i''"

definition unsigned_conv :: "char \<Rightarrow> bool" where
  "unsigned_conv c \<longleftrightarrow> c = CHR ''u'' \<or> c = CHR ''x'' \<or> c = CHR ''X'' \<or> c = CHR ''o''"

fun transition :: "fmt_state \<Rightarrow> char \<Rightarrow> fmt_state" where
  "transition FMT_S_START c =
     (if c = CHR ''l'' then FMT_S_LPRE else if c = CHR ''h'' then FMT_S_HPRE else if c = CHR ''z'' then FMT_S_ZPRE
      else if signed_conv c then FMT_S_INT else if unsigned_conv c then FMT_S_UINT
      else if c = CHR ''s'' then FMT_S_STR else if c = CHR ''c'' then FMT_S_INT
      else if c = CHR ''p'' then FMT_S_PTR else FMT_S_INVALID)"
| "transition FMT_S_LPRE c =
     (if c = CHR ''l'' then FMT_S_LLPRE else if signed_conv c then FMT_S_LONG
      else if unsigned_conv c then FMT_S_ULONG else FMT_S_INVALID)"
| "transition FMT_S_LLPRE c =
     (if signed_conv c then FMT_S_LLONG else if unsigned_conv c then FMT_S_ULLONG else FMT_S_INVALID)"
| "transition FMT_S_HPRE c =
     (if c = CHR ''h'' then FMT_S_HHPRE else if signed_conv c then FMT_S_SHORT
      else if unsigned_conv c then FMT_S_USHORT else FMT_S_INVALID)"
| "transition FMT_S_HHPRE c =
     (if signed_conv c then FMT_S_CHAR else if unsigned_conv c then FMT_S_UCHAR else FMT_S_INVALID)"
| "transition FMT_S_ZPRE c =
     (if signed_conv c then FMT_S_SSIZE_T else if unsigned_conv c then FMT_S_SIZE_T else FMT_S_INVALID)"
| "transition _ c = FMT_S_INVALID"

definition pending :: "fmt_state \<Rightarrow> bool" where
  "pending st \<longleftrightarrow> st \<in> {FMT_S_START, FMT_S_LPRE, FMT_S_LLPRE, FMT_S_HPRE, FMT_S_HHPRE, FMT_S_ZPRE, FMT_S_STOP}"

text \<open>The loop over \<open>transition\<close>: the final state, the conversion character and what is left.\<close>

fun run_fsm :: "fmt_state \<Rightarrow> char \<Rightarrow> string \<Rightarrow> (fmt_state \<times> char \<times> string) option" where
  "run_fsm st pch [] = (if pending st then None else Some (st, pch, []))"
| "run_fsm st pch (c # s) =
     (if pending st then (let nxt = transition st c in
        if nxt = FMT_S_INVALID then None else run_fsm nxt c s)
      else Some (st, pch, c # s))"

definition FMT_F_ZERO_PAD :: u32 where "FMT_F_ZERO_PAD = 1"
definition FMT_F_LEFT_ALIGN :: u32 where "FMT_F_LEFT_ALIGN = 2"
definition FMT_F_MARK_POS :: u32 where "FMT_F_MARK_POS = 4"
definition FMT_F_ALT_FORM :: u32 where "FMT_F_ALT_FORM = 8"
definition FMT_F_PAD_POS :: u32 where "FMT_F_PAD_POS = 16"

definition INT_MAX :: nat where "INT_MAX = 2 ^ 31 - 1"

fun fmt_flags :: "u32 \<Rightarrow> string \<Rightarrow> u32 \<times> string" where
  "fmt_flags fl [] = (fl, [])"
| "fmt_flags fl (c # s) =
     (if c = CHR '' '' then fmt_flags (fl OR FMT_F_PAD_POS) s
      else if c = CHR ''+'' then fmt_flags (fl OR FMT_F_MARK_POS) s
      else if c = CHR ''-'' then fmt_flags (fl OR FMT_F_LEFT_ALIGN) s
      else if c = CHR ''0'' then fmt_flags (fl OR FMT_F_ZERO_PAD) s
      else if c = CHR ''#'' then fmt_flags (fl OR FMT_F_ALT_FORM) s
      else (fl, c # s))"

definition is_digit :: "char \<Rightarrow> bool" where
  "is_digit c \<longleftrightarrow> 48 \<le> (of_char c :: nat) \<and> (of_char c :: nat) \<le> 57"

text \<open>The digits of a width or a precision; \<open>None\<close> when the value would exceed \<open>INT_MAX\<close>.\<close>

fun fmt_number :: "nat \<Rightarrow> string \<Rightarrow> (nat \<times> string) option" where
  "fmt_number n [] = Some (n, [])"
| "fmt_number n (c # s) =
     (if is_digit c then (let digit = of_char c - 48 in
        if n > (INT_MAX - digit) div 10 then None else fmt_number (n * 10 + digit) s)
      else Some (n, c # s))"

datatype fmt_val = VInt u64 | VStr "string option"

text \<open>\<open>va_arg(ap, int)\<close> and \<open>va_arg\<close> of a 64-bit type.\<close>

fun va_word :: "fmt_val list \<Rightarrow> (u64 \<times> fmt_val list) option" where
  "va_word (VInt w # ap) = Some (w, ap)"
| "va_word _ = None"

fun va_str :: "fmt_val list \<Rightarrow> (string option \<times> fmt_val list) option" where
  "va_str (VStr x # ap) = Some (x, ap)"
| "va_str _ = None"

definition as_int :: "u64 \<Rightarrow> int" where
  "as_int w = sint (ucast w :: 32 word)"

record fmt_spec =
  fflags :: u32
  width :: nat
  has_width :: bool
  prec :: nat
  has_prec :: bool

text \<open>
  The width: after \<open>*\<close> it is an argument, whose sign asks for left alignment; otherwise it is written
  in digits. An error is \<open>Inl\<close>.
\<close>

definition parse_width :: "u32 \<Rightarrow> string \<Rightarrow> fmt_val list \<Rightarrow> (errno + fmt_spec \<times> string \<times> fmt_val list) option" where
  "parse_width fl s ap = (case s of
     [] \<Rightarrow> Some (Inr (\<lparr>fflags = fl, width = 0, has_width = False, prec = 0, has_prec = False\<rparr>, s, ap))
   | c # s' \<Rightarrow>
       (if c = CHR ''*'' then do {
          (a, ap) \<leftarrow> va_word ap;
          (let w = as_int a;
               fl = (if w < 0 then fl OR FMT_F_LEFT_ALIGN else fl);
               width = nat (if w < 0 then - w else w) in
           if width > INT_MAX then Some (Inl EOVERFLOW)
           else Some (Inr (\<lparr>fflags = fl, width = width, has_width = True, prec = 0, has_prec = False\<rparr>, s', ap))) }
        else if is_digit c then (case fmt_number (of_char c - 48) s' of
             None \<Rightarrow> Some (Inl EOVERFLOW)
           | Some (n, s') \<Rightarrow> Some (Inr (\<lparr>fflags = fl, width = n, has_width = True, prec = 0, has_prec = False\<rparr>, s', ap)))
        else Some (Inr (\<lparr>fflags = fl, width = 0, has_width = False, prec = 0, has_prec = False\<rparr>, s, ap))))"

definition parse_prec :: "fmt_spec \<Rightarrow> string \<Rightarrow> fmt_val list \<Rightarrow> (errno + fmt_spec \<times> string \<times> fmt_val list) option" where
  "parse_prec sp s ap = (case s of
     [] \<Rightarrow> Some (Inr (sp, s, ap))
   | c # s' \<Rightarrow>
       (if c \<noteq> CHR ''.'' then Some (Inr (sp, s, ap))
        else if s' \<noteq> [] \<and> hd s' = CHR ''*'' then do {
          (a, ap) \<leftarrow> va_word ap;
          (let p = as_int a in
           Some (Inr ((if p \<ge> 0 then sp\<lparr>has_prec := True, prec := nat p\<rparr> else sp), tl s', ap))) }
        else (case fmt_number 0 s' of
             None \<Rightarrow> Some (Inl EOVERFLOW)
           | Some (n, s') \<Rightarrow> Some (Inr (sp\<lparr>has_prec := True, prec := n\<rparr>, s', ap)))))"

text \<open>The argument of a conversion: its magnitude, its sign, and the string for \<open>%s\<close>.\<close>

definition signed_arg :: "int \<Rightarrow> u64 \<times> bool" where
  "signed_arg si = (if si < 0 then (word_of_int (- si), True) else (word_of_int si, False))"

definition fetch_arg :: "fmt_state \<Rightarrow> fmt_val list \<Rightarrow> (u64 \<times> bool \<times> string option \<times> fmt_val list) option" where
  "fetch_arg st ap =
     (if st = FMT_S_STR then do { (x, ap) \<leftarrow> va_str ap; Some (0, False, x, ap) }
      else do {
        (w, ap) \<leftarrow> va_word ap;
        (let (ui, neg) = (case st of
               FMT_S_CHAR \<Rightarrow> signed_arg (sint (ucast w :: 8 word))
             | FMT_S_SHORT \<Rightarrow> signed_arg (sint (ucast w :: 16 word))
             | FMT_S_INT \<Rightarrow> signed_arg (as_int w)
             | FMT_S_LONG \<Rightarrow> signed_arg (sint w)
             | FMT_S_LLONG \<Rightarrow> signed_arg (sint w)
             | FMT_S_SSIZE_T \<Rightarrow> signed_arg (sint w)
             | FMT_S_UCHAR \<Rightarrow> (ucast (ucast w :: 8 word), False)
             | FMT_S_USHORT \<Rightarrow> (ucast (ucast w :: 16 word), False)
             | FMT_S_UINT \<Rightarrow> (ucast (ucast w :: 32 word), False)
             | _ \<Rightarrow> (w, False)) in
         Some (ui, neg, None, ap)) })"

text \<open>
  \<open>fmt_u\<close>, \<open>fmt_o\<close> and \<open>fmt_x\<close> write the digits of a number from the last to the first; \<open>x & 7\<close> and
  \<open>x >> 3\<close> are the remainder and the quotient by 8.
\<close>

function fmt_digits :: "nat \<Rightarrow> string \<Rightarrow> nat \<Rightarrow> string \<Rightarrow> string" where
  "fmt_digits base d x acc =
     (let acc = d ! (x mod base) # acc; x' = x div base in
      if x' > 0 \<and> 1 < base then fmt_digits base d x' acc else acc)"
  by pat_completeness auto
termination
proof (relation "measure (\<lambda>(base, d, x, acc). x)", goal_cases)
  case (2 base d x acc acc' x')
  then have "0 < x" "1 < base" by (auto intro: gr0I)
  with 2 show ?case by (simp add: div_less_dividend)
qed simp

declare fmt_digits.simps [simp del]

definition lower_digits :: string where "lower_digits = ''0123456789abcdef''"
definition upper_digits :: string where "upper_digits = ''0123456789ABCDEF''"

definition fmt_u :: "u64 \<Rightarrow> string \<Rightarrow> string" where "fmt_u x d = fmt_digits 10 d (unat x) []"
definition fmt_o :: "u64 \<Rightarrow> string \<Rightarrow> string" where "fmt_o x d = fmt_digits 8 d (unat x) []"
definition fmt_x :: "u64 \<Rightarrow> string \<Rightarrow> string" where "fmt_x x d = fmt_digits 16 d (unat x) []"

datatype piece = Out string | Pad nat char

text \<open>Text of a fixed length in a field: \<open>%s\<close> and \<open>%c\<close>.\<close>

definition field_pieces :: "fmt_spec \<Rightarrow> string \<Rightarrow> piece list" where
  "field_pieces sp x =
     (let wide = has_width sp \<and> width sp > length x; left = fflags sp AND FMT_F_LEFT_ALIGN \<noteq> 0 in
      (if wide \<and> \<not> left then [Pad (width sp - length x) (CHR '' '')] else []) @ [Out x] @
      (if wide \<and> left then [Pad (width sp - length x) (CHR '' '')] else []))"

text \<open>The sign, prefix, zeros and digits of a number in its field.\<close>

definition number_pieces :: "fmt_spec \<Rightarrow> bool \<Rightarrow> string \<Rightarrow> string \<Rightarrow> piece list" where
  "number_pieces sp neg radix raw =
     (let fl = (if has_prec sp \<or> fflags sp AND FMT_F_LEFT_ALIGN \<noteq> 0 then fflags sp AND NOT FMT_F_ZERO_PAD else fflags sp);
          lzero = (if has_prec sp \<and> prec sp > length raw then prec sp - length raw else 0);
          sign = (if neg then ''-'' else if fl AND FMT_F_MARK_POS \<noteq> 0 then ''+''
                  else if fl AND FMT_F_PAD_POS \<noteq> 0 then '' '' else '''');
          tot = length sign + length radix + lzero + length raw;
          extra = (if has_width sp \<and> width sp > tot then width sp - tot else 0);
          left = fl AND FMT_F_LEFT_ALIGN \<noteq> 0; zero = fl AND FMT_F_ZERO_PAD \<noteq> 0 in
      [Pad (if extra > 0 \<and> \<not> left \<and> \<not> zero then extra else 0) (CHR '' ''), Out sign, Out radix,
       Pad (if extra > 0 \<and> \<not> left \<and> zero then extra else lzero) (CHR ''0''), Out raw,
       Pad (if extra > 0 \<and> left then extra else 0) (CHR '' '')])"

text \<open>The switch on the conversion character; the flags of \<open>%d\<close> and \<open>%p\<close> and the precision of \<open>%#o\<close> change.\<close>

definition convert :: "fmt_spec \<Rightarrow> char \<Rightarrow> u64 \<Rightarrow> bool \<Rightarrow> string option \<Rightarrow> piece list" where
  "convert sp pch ui neg str =
     (let none = ui = 0 \<and> has_prec sp \<and> prec sp = 0; alt = fflags sp AND FMT_F_ALT_FORM \<noteq> 0 in
      if signed_conv pch \<or> pch = CHR ''u'' then
        number_pieces (sp\<lparr>fflags := fflags sp AND NOT FMT_F_ALT_FORM\<rparr>) neg '''' (if none then '''' else fmt_u ui lower_digits)
      else if pch = CHR ''o'' then
        number_pieces (if \<not> none \<and> alt \<and> ui \<noteq> 0 \<and> prec sp > 0 then sp\<lparr>prec := prec sp - 1\<rparr> else sp) neg
          (if alt \<and> (none \<or> ui \<noteq> 0) then ''0'' else '''') (if none then '''' else fmt_o ui lower_digits)
      else if pch = CHR ''x'' then
        number_pieces sp neg (if alt \<and> ui \<noteq> 0 then ''0x'' else '''') (if none then '''' else fmt_x ui lower_digits)
      else if pch = CHR ''X'' then
        number_pieces sp neg (if alt \<and> ui \<noteq> 0 then ''0X'' else '''') (if none then '''' else fmt_x ui upper_digits)
      else if pch = CHR ''p'' then
        (if ui = 0 then [Out ''(nil)'']
         else number_pieces (sp\<lparr>fflags := FMT_F_ALT_FORM\<rparr>) neg ''0x'' (if none then '''' else fmt_x ui lower_digits))
      else if pch = CHR ''s'' then
        (let x = (case str of None \<Rightarrow> ''(null)'' | Some x \<Rightarrow> x) in
         field_pieces sp (if has_prec sp \<and> prec sp < length x then take (prec sp) x else x))
      else field_pieces sp [char_of (unat (ucast ui :: 8 word))])"

text \<open>One directive, from after its percent sign: the conversion once width and precision are read.\<close>

definition conversion :: "fmt_spec \<Rightarrow> string \<Rightarrow> fmt_val list \<Rightarrow> (errno + piece list \<times> string \<times> fmt_val list) option" where
  "conversion sp s ap =
     (if s \<noteq> [] \<and> hd s = CHR ''%'' then Some (Inr ([Out ''%''], tl s, ap))
      else (case run_fsm FMT_S_START (CHR 0x00) s of
          None \<Rightarrow> Some (Inl EINVAL)
        | Some (st, pch, s) \<Rightarrow> do {
            (ui, neg, str, ap) \<leftarrow> fetch_arg st ap;
            Some (Inr (convert sp pch ui neg str, s, ap)) }))"

definition directive :: "string \<Rightarrow> fmt_val list \<Rightarrow> (errno + piece list \<times> string \<times> fmt_val list) option" where
  "directive s ap =
     (let (fl, s) = fmt_flags 0 s in do {
        r \<leftarrow> parse_width fl s ap;
        (case r of Inl err \<Rightarrow> Some (Inl err) | Inr (sp, s, ap) \<Rightarrow> do {
          r \<leftarrow> parse_prec sp s ap;
          (case r of Inl err \<Rightarrow> Some (Inl err) | Inr (sp, s, ap) \<Rightarrow> conversion sp s ap) }) })"

lemma fmt_flags_length: "length (snd (fmt_flags fl s)) \<le> length s"
  by (induction fl s rule: fmt_flags.induct) auto

lemma fmt_number_length: "fmt_number n s = Some (k, s') \<Longrightarrow> length s' \<le> length s"
  by (induction n s rule: fmt_number.induct) (auto simp: Let_def split: if_splits)

lemma run_fsm_length: "run_fsm st pch s = Some (st', pch', s') \<Longrightarrow> length s' \<le> length s"
  by (induction st pch s rule: run_fsm.induct) (auto simp: Let_def split: if_splits)

lemma parse_width_length: "parse_width fl s ap = Some (Inr (sp, s', ap')) \<Longrightarrow> length s' \<le> length s"
  by (auto simp: parse_width_def Let_def bind_Some_conv dest!: fmt_number_length
      split: list.splits if_splits option.splits)

lemma parse_prec_length: "parse_prec sp s ap = Some (Inr (sp', s', ap')) \<Longrightarrow> length s' \<le> length s"
  by (auto simp: parse_prec_def Let_def bind_Some_conv dest!: fmt_number_length
      split: list.splits if_splits option.splits)

lemma conversion_length: "conversion sp s ap = Some (Inr (ps, s', ap')) \<Longrightarrow> length s' \<le> length s"
  by (auto simp: conversion_def bind_Some_conv dest!: run_fsm_length split: if_splits option.splits)

lemma directive_length:
  assumes "directive s ap = Some (Inr (ps, s', ap'))"
  shows "length s' \<le> length s"
proof -
  obtain fl s0 where s0: "fmt_flags 0 s = (fl, s0)" by fastforce
  from assms s0 obtain r1 where r1: "parse_width fl s0 ap = Some r1"
    "(case r1 of Inl err \<Rightarrow> Some (Inl err) | Inr (sp, s, ap) \<Rightarrow> do {
       r \<leftarrow> parse_prec sp s ap;
       (case r of Inl err \<Rightarrow> Some (Inl err) | Inr (sp, s, ap) \<Rightarrow> conversion sp s ap) }) = Some (Inr (ps, s', ap'))"
    by (auto simp: directive_def bind_Some_conv)
  then obtain sp s1 ap1 where i1: "r1 = Inr (sp, s1, ap1)" by (cases r1) auto
  with r1(2) obtain r2 where r2: "parse_prec sp s1 ap1 = Some r2"
    "(case r2 of Inl err \<Rightarrow> Some (Inl err) | Inr (sp, s, ap) \<Rightarrow> conversion sp s ap) = Some (Inr (ps, s', ap'))"
    by (auto simp: bind_Some_conv)
  then obtain sp2 s2 ap2 where i2: "r2 = Inr (sp2, s2, ap2)" by (cases r2) auto
  with r2 have "length s' \<le> length s2" using conversion_length by auto
  with parse_width_length [OF r1(1) [unfolded i1]] parse_prec_length [OF r2(1) [unfolded i2]] fmt_flags_length [of 0 s] s0
  show ?thesis by simp
qed

fun emit_piece :: "piece \<Rightarrow> fmt_ctx \<Rightarrow> fmt_ctx option" where
  "emit_piece (Out x) ctx = out x ctx"
| "emit_piece (Pad n ch) ctx = pad n ch ctx"

fun emit :: "piece list \<Rightarrow> fmt_ctx \<Rightarrow> fmt_ctx option" where
  "emit [] ctx = Some ctx"
| "emit (p # ps) ctx = do { ctx \<leftarrow> emit_piece p ctx; emit ps ctx }"

text \<open>The loop of \<open>vsnprintf_internal\<close>: the context at the end, and the error if there was one.\<close>

function vsnprintf_loop :: "string \<Rightarrow> fmt_val list \<Rightarrow> fmt_ctx \<Rightarrow> (errno option \<times> fmt_ctx) option" where
  "vsnprintf_loop [] ap ctx = Some (None, ctx)"
| "vsnprintf_loop (c # s) ap ctx =
     (if c \<noteq> CHR ''%'' then do { ctx \<leftarrow> out [c] ctx; vsnprintf_loop s ap ctx }
      else (case directive s ap of
          None \<Rightarrow> None
        | Some (Inl err) \<Rightarrow> Some (Some err, ctx)
        | Some (Inr (ps, s', ap')) \<Rightarrow> do { ctx \<leftarrow> emit ps ctx; vsnprintf_loop s' ap' ctx }))"
  by pat_completeness auto
termination
  by (relation "measure (\<lambda>(s, ap, ctx). length s)") (auto dest!: directive_length)

definition vsnprintf :: "string \<Rightarrow> nat \<Rightarrow> string \<Rightarrow> fmt_val list \<Rightarrow> ((errno + nat) \<times> string) option" where
  "vsnprintf b sz fmt ap = do {
     (err, ctx) \<leftarrow> vsnprintf_loop fmt ap \<lparr>cbuf = b, csize = sz, cpos = 0, ccnt = 0\<rparr>;
     ctx \<leftarrow> fmt_terminate ctx;
     Some ((case err of Some e \<Rightarrow> Inl e | None \<Rightarrow> if ccnt ctx > INT_MAX then Inl EOVERFLOW else Inr (ccnt ctx)), cbuf ctx) }"

section \<open>Truncation\<close>

text \<open>The whole text a format stands for, with the error at which it stops.\<close>

fun piece_text :: "piece \<Rightarrow> string" where
  "piece_text (Out x) = x"
| "piece_text (Pad n ch) = replicate n ch"

function fmt_text :: "string \<Rightarrow> fmt_val list \<Rightarrow> (errno option \<times> string) option" where
  "fmt_text [] ap = Some (None, '''')"
| "fmt_text (c # s) ap =
     (if c \<noteq> CHR ''%'' then do { (e, t) \<leftarrow> fmt_text s ap; Some (e, c # t) }
      else (case directive s ap of
          None \<Rightarrow> None
        | Some (Inl err) \<Rightarrow> Some (Some err, '''')
        | Some (Inr (ps, s', ap')) \<Rightarrow> do { (e, t) \<leftarrow> fmt_text s' ap'; Some (e, concat (map piece_text ps) @ t) }))"
  by pat_completeness auto
termination
  by (relation "measure (\<lambda>(s, ap). length s)") (auto dest!: directive_length)

text \<open>The context after the text \<open>t\<close> has gone to a buffer of size \<open>sz\<close> that held \<open>b\<close>.\<close>

definition ctx_after :: "string \<Rightarrow> nat \<Rightarrow> string \<Rightarrow> fmt_ctx" where
  "ctx_after b sz t = \<lparr>cbuf = take sz t @ drop (length (take sz t)) b, csize = sz, cpos = length (take sz t), ccnt = length t\<rparr>"

lemma out_after:
  assumes "sz \<le> length b"
  shows "out x (ctx_after b sz t) = Some (ctx_after b sz (t @ x))"
proof (cases "x = []")
  case False
  show ?thesis
  proof (cases "length t < sz")
    case True
    let ?n = "min (sz - length t) (length x)"
    have n: "(if sz - length t > length x then length x else sz - length t) = ?n" by auto
    have le: "length t + ?n \<le> length b" using True assms by linarith
    then have "buf_write (t @ drop (length t) b) (length t) (take ?n x) = Some (t @ take ?n x @ drop (length t + ?n) b)"
      by (simp add: buf_write_def min.assoc add.commute)
    moreover have "take ?n x = take (sz - length t) x" by (simp add: min_def)
    ultimately show ?thesis using True False assms le
      by (simp add: out_def ctx_after_def Let_def n min_absorb1 min_absorb2 add.commute)
         (simp add: min.commute)
  qed (use False in \<open>simp add: out_def ctx_after_def\<close>)
qed (simp add: out_def)

lemma pad_from_after:
  "sz \<le> length b \<Longrightarrow> pad_from i len ch (ctx_after b sz t) = Some (ctx_after b sz (t @ replicate (len - i) ch))"
proof (induction i len ch "ctx_after b sz t" arbitrary: t rule: pad_from.induct)
  case (1 i len ch)
  let ?k = "if len - i > 32 then 32 else len - i"
  have "replicate ?k ch @ replicate (len - (i + 32)) ch = replicate (len - i) ch"
    by (simp flip: replicate_add)
  then show ?case using 1 by (subst pad_from.simps) (auto simp: out_after)
qed

lemma emit_piece_after:
  "sz \<le> length b \<Longrightarrow> emit_piece p (ctx_after b sz t) = Some (ctx_after b sz (t @ piece_text p))"
  by (cases p) (simp_all add: out_after pad_def pad_from_after)

lemma emit_after:
  "sz \<le> length b \<Longrightarrow> emit ps (ctx_after b sz t) = Some (ctx_after b sz (t @ concat (map piece_text ps)))"
  by (induction ps arbitrary: t) (simp_all add: emit_piece_after)

lemma loop_after:
  assumes "sz \<le> length b"
  shows "fmt_text fmt ap = Some (e, x) \<Longrightarrow> vsnprintf_loop fmt ap (ctx_after b sz t) = Some (e, ctx_after b sz (t @ x))"
proof (induction fmt ap arbitrary: t x rule: fmt_text.induct)
  case (2 c s ap)
  show ?case
  proof (cases "c = CHR ''%''")
    case True
    with 2 show ?thesis using assms
      by (auto simp: emit_after bind_Some_conv split: option.split_asm sum.split_asm)
  next
    case False
    with 2 show ?thesis using assms by (auto simp: out_after bind_Some_conv)
  qed
qed simp

lemma terminate_after:
  "sz \<le> length b \<Longrightarrow> 0 < sz \<Longrightarrow> fmt_terminate (ctx_after b sz t) =
   Some ((ctx_after b sz t)\<lparr>cbuf := take (sz - 1) t @ CHR 0x00 # drop (Suc (length (take (sz - 1) t))) b\<rparr>)"
proof -
  assume sz: "sz \<le> length b" "0 < sz"
  define k where "k = length (take (sz - 1) t)"
  define c where "c = take sz t @ drop (length (take sz t)) b"
  have k: "(if length (take sz t) < sz then length (take sz t) else sz - 1) = k"
    unfolding k_def using sz by (cases "length t < sz") (simp_all add: min_absorb1 min_absorb2)
  have "take k c = take (sz - 1) t \<and> drop (Suc k) c = drop (Suc k) b \<and> k < length c"
    unfolding k_def c_def using sz by (cases "length t < sz") (auto simp: min_absorb1 min_absorb2)
  then have "upd_opt c k (CHR 0x00) = Some (take (sz - 1) t @ CHR 0x00 # drop (Suc k) b)"
    by (simp add: upd_opt_def upd_conv_take_nth_drop)
  moreover have "ctx_after b sz t = \<lparr>cbuf = c, csize = sz, cpos = length (take sz t), ccnt = length t\<rparr>"
    by (simp add: ctx_after_def c_def)
  moreover from sz have "(sz = 0) = False" by simp
  ultimately show ?thesis
    by (simp only: fmt_terminate_def fmt_ctx.simps k k_def [symmetric] if_False Option.bind.simps)
qed

text \<open>
  C24: The buffer contract of \<open>vsnprintf\<close>. Whatever the format and the arguments, the call writes into
  the \<open>sz\<close> bytes it was given the longest prefix of the formatted text that leaves room for the
  terminating NUL, puts the NUL right after it and leaves every later byte alone; with \<open>sz = 0\<close> it writes
  nothing. Its result does not depend on \<open>sz\<close>: it is the length of the whole text, \<open>EOVERFLOW\<close> when
  that does not fit an int, or the error of the first bad directive.
\<close>
theorem vsnprintf_truncates:
  assumes "fmt_text fmt ap = Some (e, t)" "sz \<le> length b"
  shows "vsnprintf b sz fmt ap = Some
    (case e of Some err \<Rightarrow> Inl err | None \<Rightarrow> if length t > INT_MAX then Inl EOVERFLOW else Inr (length t),
     if sz = 0 then b else take (sz - 1) t @ CHR 0x00 # drop (Suc (length (take (sz - 1) t))) b)"
proof -
  have "\<lparr>cbuf = b, csize = sz, cpos = 0, ccnt = 0\<rparr> = ctx_after b sz []" by (simp add: ctx_after_def)
  with loop_after [OF assms(2,1), of "[]"]
  have *: "vsnprintf_loop fmt ap \<lparr>cbuf = b, csize = sz, cpos = 0, ccnt = 0\<rparr> = Some (e, ctx_after b sz t)" by simp
  show ?thesis
  proof (cases "sz = 0")
    case True
    then show ?thesis using * by (cases e) (simp_all add: vsnprintf_def fmt_terminate_def ctx_after_def)
  next
    case False
    then show ?thesis using * terminate_after [OF assms(2), of t]
      by (cases e) (simp_all add: vsnprintf_def ctx_after_def)
  qed
qed

theorem vsnprintf_truncates_witness:
  "fmt_text ''v=%u'' [VInt 1234] = Some (None, ''v=1234'') \<and>
   vsnprintf ''........'' 5 ''v=%u'' [VInt 1234] = Some (Inr 6, ''v=12'' @ [CHR 0x00] @ ''...'')"
proof -
  have *: "fmt_text ''v=%u'' [VInt 1234] = Some (None, ''v=1234'')" by code_simp
  from vsnprintf_truncates [OF this, of 5 "''........''"]
  have "vsnprintf ''........'' 5 ''v=%u'' [VInt 1234] = Some (Inr 6, ''v=12'' @ [CHR 0x00] @ ''...'')"
    by (simp add: INT_MAX_def)
  with * show ?thesis by (rule conjI)
qed

section \<open>Decimal round trip\<close>

text \<open>The number a decimal text stands for.\<close>

definition dec_value :: "nat \<Rightarrow> string \<Rightarrow> nat" where
  "dec_value n s = foldl (\<lambda>n c. n * 10 + (of_char c - 48)) n s"

definition dec_int :: "string \<Rightarrow> int" where
  "dec_int s = (if s \<noteq> [] \<and> hd s = CHR ''-'' then - int (dec_value 0 (tl s)) else int (dec_value 0 s))"

lemma lower_digit:
  assumes "k < 10"
  shows "of_char (lower_digits ! k) = 48 + k \<and> lower_digits ! k \<noteq> CHR ''-''"
proof -
  have "\<forall>k \<in> set [0..<10]. of_char (lower_digits ! k) = 48 + k \<and> lower_digits ! k \<noteq> CHR ''-''" by code_simp
  with assms show ?thesis by auto
qed

lemma fmt_digits_value:
  "dec_value 0 (fmt_digits 10 lower_digits x acc) = dec_value x acc"
proof (induction "10 :: nat" lower_digits x acc rule: fmt_digits.induct)
  case (1 x acc)
  have "dec_value (x div 10) (lower_digits ! (x mod 10) # acc) = dec_value x acc"
    using lower_digit [of "x mod 10"] by (simp add: dec_value_def div_mult_mod_eq)
  with 1 show ?case by (subst fmt_digits.simps) (auto simp: Let_def dec_value_def)
qed

lemma fmt_digits_hd:
  "fmt_digits 10 lower_digits x acc \<noteq> [] \<and> hd (fmt_digits 10 lower_digits x acc) \<noteq> CHR ''-''"
proof (induction "10 :: nat" lower_digits x acc rule: fmt_digits.induct)
  case (1 x acc)
  then show ?case using lower_digit [of "x mod 10"] by (subst (1 2) fmt_digits.simps) (auto simp: Let_def)
qed

lemma fmt_digits_length:
  assumes "1 < base"
  shows "x < base ^ Suc k \<Longrightarrow> length (fmt_digits base d x acc) \<le> Suc k + length acc"
proof (induction k arbitrary: x acc)
  case 0
  with assms show ?case by (subst fmt_digits.simps) (simp add: Let_def)
next
  case (Suc k)
  have "x div base < base ^ Suc k"
    using Suc.prems assms by (simp add: div_less_iff_less_mult mult.commute)
  from Suc.IH [OF this, of "d ! (x mod base) # acc"] show ?case by (subst fmt_digits.simps) (simp add: Let_def)
qed

lemma uint_u64: "0 \<le> y \<Longrightarrow> y < 2 ^ 64 \<Longrightarrow> uint (word_of_int y :: u64) = y"
  by (simp add: uint_word_of_int take_bit_int_eq_self)

lemma signed_arg_magnitude:
  assumes "- (2 ^ 63) \<le> x" "x < 2 ^ 63"
  shows "int (unat (fst (signed_arg x))) = \<bar>x\<bar>"
proof -
  have "fst (signed_arg x) = word_of_int \<bar>x\<bar>" by (simp add: signed_arg_def abs_if)
  moreover have "uint (word_of_int \<bar>x\<bar> :: u64) = \<bar>x\<bar>" using assms by (intro uint_u64) auto
  ultimately show ?thesis by (simp flip: uint_nat)
qed

lemma long_magnitude: "int (unat (fst (signed_arg (sint (w :: u64))))) = \<bar>sint w\<bar>"
  by (rule signed_arg_magnitude) (use sint_greater_eq [of w] sint_less [of w] in simp_all)

lemma signed_arg_sign: "snd (signed_arg x) \<longleftrightarrow> x < 0"
  by (simp add: signed_arg_def)

lemma fmt_text_long:
  fixes w :: u64
  defines "mag \<equiv> unat (fst (signed_arg (sint w)))"
  shows "fmt_text ''%ld'' [VInt w] = Some (None, (if sint w < 0 then ''-'' else '''') @ fmt_digits 10 lower_digits mag [])"
  using signed_arg_sign [of "sint w"]
  by (cases "signed_arg (sint w)")
     (simp add: mag_def directive_def parse_width_def parse_prec_def conversion_def fetch_arg_def convert_def fmt_u_def
       number_pieces_def pending_def signed_conv_def is_digit_def of_char_def)

text \<open>
  C25: Printing a number with \<open>%ld\<close> and reading it back is the identity: for every 64-bit value, a
  buffer of 21 bytes receives, NUL included, a decimal text whose value is the signed value of the
  argument, and the call returns the length of that text.
\<close>
theorem vsnprintf_long_roundtrip:
  fixes w :: u64
  assumes "21 \<le> sz" "sz \<le> length b"
  shows "\<exists>t rest. vsnprintf b sz ''%ld'' [VInt w] = Some (Inr (length t), t @ CHR 0x00 # rest) \<and> dec_int t = sint w"
proof -
  define m where "m = unat (fst (signed_arg (sint w)))"
  define t where "t = (if sint w < 0 then ''-'' else '''') @ fmt_digits 10 lower_digits m []"
  have m: "int m = \<bar>sint w\<bar>" unfolding m_def by (rule long_magnitude)
  then have "int m \<le> 2 ^ 63" using sint_greater_eq [of w] sint_less [of w] by simp
  then have "m < 10 ^ Suc 18" by simp
  from fmt_digits_length [OF _ this, of lower_digits "[]"] have len: "length t \<le> 20" by (simp add: t_def)
  have v: "dec_int t = sint w"
    using fmt_digits_hd [of m "[]"] m
    by (auto simp: t_def dec_int_def fmt_digits_value) (simp_all add: dec_value_def)
  have "fmt_text ''%ld'' [VInt w] = Some (None, t)" unfolding t_def m_def by (rule fmt_text_long)
  from loop_after [OF assms(2) this, of "[]"] terminate_after [OF assms(2), of t] assms len v show ?thesis
    by (auto simp: vsnprintf_def INT_MAX_def ctx_after_def)
qed

theorem vsnprintf_long_roundtrip_witness:
  "\<exists>t rest. vsnprintf (replicate 24 (CHR ''.'')) 21 ''%ld'' [VInt (- 5)] = Some (Inr (length t), t @ CHR 0x00 # rest)
     \<and> dec_int t = - 5"
  using vsnprintf_long_roundtrip [of 21 "replicate 24 (CHR ''.'')" "- 5"] by simp

end
