(* ===== verification/Spec2Isabelle.thy ===== *)
theory Spec2Isabelle
  imports Bitmap Klist Pgalloc_Props Memblock_Props Kmalloc Pgtable_Props Signal_Props Pipe_Files Kstring_Search Qsort Printf
begin

text \<open>
  Verification of the Barely Running Kernel, a small Unix-like kernel for RISC-V written in C.
  All paths below are relative to \<open>src/src\<close>.

  \<^bold>\<open>The program and its parts.\<close> At boot \<open>mm/memblock.c\<close> knows the memory of the machine as
  ranges of addresses and hands what is not reserved to the page allocator \<open>mm/pgalloc.c\<close>, a
  buddy system with per-processor caches of single pages. On it stand the slab caches
  \<open>mm/slab.c\<close>, which cut blocks of pages into objects, \<open>kmalloc\<close> in \<open>mm/kmalloc.c\<close>, and the
  page tables of \<open>mm/mm.c\<close>, whose tables are single frames. Open files (\<open>fs/file.c\<close>) are
  reference-counted objects that the descriptor tables (\<open>fs/fdtable.c\<close>) point to; pipes
  (\<open>fs/pipe.c\<close>) are one kind of open file. The scheduler (\<open>kern/sched.c\<close>, \<open>kern/task.c\<close>) moves
  tasks between processors, run queues and the sleep queue; signals (\<open>kern/signal.c\<close>) wake tasks
  through it. All parts use the library: bitmaps, lists, reference counts, strings, sorting and
  formatted output.

  \<^bold>\<open>How the model relates to the code.\<close> One function stands for one C function, with its
  guards, early returns and error codes in the order of the code; a loop is a function of its
  own with the loop's variables as arguments. A call is \<open>None\<close> when the code would panic, fail
  an assertion, leave an array or use a freed object; \<open>errno + 'a\<close> is a result that may be
  \<open>-errno\<close>. Structures are records and enumerations are datatypes with the fields and
  constructors of the code. Intrusive lists are modelled with their pointers in \<open>Klist\<close>, where
  the operations are shown to act on rings as operations on sequences do; elsewhere they are
  lists. Code under a lock is one step. Interleaving matters for pipes and for the scheduler, and
  there it is explicit: a state machine whose steps are what one thread or processor does between
  two points where others can look.

  \<^bold>\<open>Theories.\<close>
  \<^item> \<open>Prelude\<close>: types, failing calls, array accesses, the macros of \<open>include/brk/kernel.h\<close>,
    and lemmas on alignment, wrap-around and lists that all components use. \<open>Bytes\<close>: buffers.
  \<^item> \<open>Slots\<close>, \<open>Frames\<close>: the contracts \<open>slot_allocator\<close> (lowest free number first) and
    \<open>frame_allocator\<close> (blocks handed out never overlap) as locales. They are interpreted for
    bitmaps and descriptor tables, and for the buddy allocator. Further contracts:
    \<open>linked_list\<close> in \<open>Klist\<close>, \<open>file_drivers\<close> in \<open>Files\<close> (interpreted for pipes),
    \<open>object_cache\<close> in \<open>Slab_Props\<close>, \<open>frame_source\<close> in \<open>Pgtable_Map\<close>.
  \<^item> \<open>Bitmap\<close> (\<open>lib/bitmap.c\<close>): first-fit regions, distinct bits, round trip (C1 to C3).
  \<^item> \<open>Klist\<close> (\<open>include/brk/list.h\<close>): pointer stores refine sequence operations (C4).
  \<^item> \<open>Refcnt\<close> (\<open>lib/refcnt.c\<close>): the put of the last reference, and no other, reads zero (C5).
  \<^item> \<open>Blocks\<close>, \<open>Pgalloc\<close>, \<open>Pgalloc_Inv\<close>, \<open>Pgalloc_Spec\<close>, \<open>Pgalloc_Props\<close>
    (\<open>mm/pgalloc.c\<close>): the state, its invariant, each operation against the set of free frames,
    and the properties: allocation is safe and complete, blocks in use are disjoint over any run,
    freeing everything merges back, the last put frees (C6 to C9). \<open>Reclaim\<close>: what clients
    rely on when memory is short.
  \<^item> \<open>Memblock\<close>, \<open>Memblock_Set\<close>, \<open>Memblock_Iter\<close>, \<open>Memblock_Props\<close> (\<open>mm/memblock.c\<close>): region
    sets are sets of addresses, and allocation returns free memory (C10, C11).
  \<^item> \<open>Files\<close>, \<open>Fdtable\<close> (\<open>fs/file.c\<close>, \<open>fs/fdtable.c\<close>): reference counts equal the number of
    table entries over any run; copying a table (C12, C13).
  \<^item> \<open>Pipe\<close>, \<open>Pipe_Files\<close> (\<open>fs/pipe.c\<close>): bytes come out in the order they went in for every
    interleaving, no thread sleeps forever beside work it could do, poll agrees with read and
    write, and \<open>do_pipe2\<close> on all error paths (C14 to C17).
  \<^item> \<open>Kstring\<close>, \<open>Kstring_Props\<close>, \<open>Kstring_Search\<close> (\<open>lib/string.c\<close>), \<open>Qsort\<close> (\<open>lib/qsort.c\<close>),
    \<open>Printf\<close> (\<open>lib/printf.c\<close>): overlapping copies, comparison, bounded copies, tokens, sorting,
    truncation and round trip of formatted numbers (C18 to C25).
  \<^item> \<open>Linear\<close> (\<open>riscv/include/arch/mm.h\<close>): the kernel's view of physical memory. \<open>Slab\<close>,
    \<open>Slab_Inv\<close>, \<open>Slab_Ops\<close>, \<open>Slab_Props\<close>, \<open>Slab_Init\<close> (\<open>mm/slab.c\<close>), \<open>Kmalloc\<close>
    (\<open>mm/kmalloc.c\<close>): free lists live in the bytes of the free objects, objects in use never
    overlap whatever clients write into their own, and \<open>kmalloc\<close> and \<open>kfree\<close> (C26 to C30).
  \<^item> \<open>Task\<close>, \<open>Sched\<close>, \<open>Sched_Run\<close>, \<open>Sched_Inv\<close>, \<open>Sched_Props\<close>, \<open>Sched_Race\<close>
    (\<open>kern/spinlock.c\<close>, \<open>kern/task.c\<close>, \<open>kern/sched.c\<close>): operations, the step relation of the
    processors, the invariant on the places of tasks and its preservation by every step; no task
    is lost or run twice, no assertion fails, a reaped task is gone, and the run in which a
    parent misses its wake-up (C31 to C34).
  \<^item> \<open>Signal\<close>, \<open>Signal_Deliver\<close>, \<open>Signal_Kill\<close>, \<open>Signal_Props\<close> (\<open>kern/signal.c\<close>): handlers are
    transparent, delivery ends and loses nothing, \<open>kill\<close> reaches exactly its targets, and how
    \<open>SIGKILL\<close> can be held back (C35 to C38).
  \<^item> \<open>Pgtable\<close>, \<open>Pgtable_Walk\<close>, \<open>Pgtable_Map\<close>, \<open>Pgtable_Props\<close>
    (\<open>riscv/include/arch/pgtable.h\<close>, \<open>mm/mm.c\<close>, part of \<open>mm/mmap.c\<close>): the walk, the tree of
    tables, mapping with three page sizes and unmapping (C39, C40).

  \<^bold>\<open>Parameters.\<close> The functions behind \<open>file->ops\<close> and the inode and dentry caches below pipes
  are arguments, with the laws the callers rely on as hypotheses. \<open>page_cache_shrink\<close> is an
  argument of \<open>page_alloc\<close>: it keeps the allocator's state well-formed and does not touch frames
  marked as in use by the slab allocator or \<open>kmalloc\<close>. The interpretation of \<open>frame_source\<close> takes it to have nothing to give back.
  Comparison functions of \<open>qsort\<close> are arguments.

  \<^bold>\<open>Bounds.\<close> Most loops end by a measure. \<open>region_loop\<close> in \<open>Bitmap\<close> has fuel \<open>nbits + 1\<close>,
  since candidates increase. In \<open>Pgtable\<close> a range is unmapped in as many rounds as it has pages,
  a chunk is mapped in as many rounds as it has pages of its size, and there are three chunks at
  most, one for each page size. C1 and C39 include that these are enough. \<open>wake_all_loop\<close> in
  \<open>Sched\<close> has one round for each sleeper and a last one. The loops that may wait for others, \<open>pipe_read_from\<close>
  and \<open>pipe_write_from\<close>, and those over rings or regions are partial functions, and the
  properties show their results. The model has eight processors, as \<open>MAX_CPUS\<close>.

  \<^bold>\<open>Not modelled.\<close> Address spaces, the page cache and \<open>vmalloc\<close> (\<open>mm/mmap.c\<close>,
  \<open>mm/pagecache.c\<close>, \<open>mm/vmalloc.c\<close>) beyond what is named above, path look-up and the file
  systems (\<open>fs\<close>), the network stack (\<open>net\<close>), program loading, interrupts, time and the log: each
  is tied to devices or to the others and would be a development of its own. Drivers
  (\<open>dev\<close>), trap entry, context switch and boot (\<open>riscv/kern\<close>, \<open>riscv/mm\<close>) act on registers of
  the machine. The interrupt flag and the preemption counter saved by spin locks, inter-processor
  interrupts and the switch of page tables do not touch the modelled state. Memory is
  sequentially consistent. User memory does not fault in the signal code.
\<close>

end
